(* ===== verification/Prelude.thy ===== *)
theory Prelude
  imports Main "HOL-Library.Word" "HOL-Library.Signed_Division"
begin

text \<open>
  Shared vocabulary of the development: the machine integer types of the C and C++ code, the
  outcome type of fallible operations, and the generic facts on lists and words that several
  components use.

  A C++ operation has three ways to end: it returns, it throws an exception (which a caller may
  catch), or it aborts the process through \<open>debugAssertFailure\<close>
  (src/src/common/assert.cpp), which no caller can catch.
\<close>

unbundle bit_operations_syntax

named_theorems outcome_simps
named_theorems word_value_simps

type_synonym u8 = "8 word"
type_synonym u32 = "32 word"
type_synonym u64 = "64 word"
type_synonym i64 = "64 word"
type_synonym u128 = "128 word"
type_synonym i128 = "128 word"

section \<open>Outcomes\<close>

datatype exn =
    Invalid_argument string
  | Domain_error string
  | Overflow_error string
  | Underflow_error string
  | Out_of_range string
  | Runtime_error string
  | Library_error string

datatype failure = Throw exn | Abort string

type_synonym 'a outcome = "failure + 'a"

definition bind_outcome :: "'a outcome \<Rightarrow> ('a \<Rightarrow> 'b outcome) \<Rightarrow> 'b outcome" where
  "bind_outcome r f = (case r of Inl e \<Rightarrow> Inl e | Inr x \<Rightarrow> f x)"

lemma bind_outcome_Inr [simp, outcome_simps]: "bind_outcome (Inr x) f = f x"
  by (simp add: bind_outcome_def)

lemma bind_outcome_Inl [simp, outcome_simps]: "bind_outcome (Inl e) f = Inl e"
  by (simp add: bind_outcome_def)

lemma bind_outcome_eq_Inr [outcome_simps]:
  "bind_outcome r f = Inr y \<longleftrightarrow> (\<exists>x. r = Inr x \<and> f x = Inr y)"
  by (cases r) auto

text \<open>
  \<open>HERMENEUTIC_ASSERT_DEBUG(cond, msg)\<close>: \<open>assert.hpp\<close> undefines
  \<open>HERMENEUTIC_ENABLE_DEBUG_ASSERTS\<close> and defines it to 1, so the check is
  compiled into every build and a false condition calls \<open>std::abort\<close>.
\<close>

definition assert_debug :: "bool \<Rightarrow> string \<Rightarrow> unit outcome" where
  "assert_debug c msg = (if c then Inr () else Inl (Abort msg))"

lemma assert_debug_True [simp, outcome_simps]: "assert_debug True msg = Inr ()"
  by (simp add: assert_debug_def)

lemma assert_debug_False [simp]: "assert_debug False msg = Inl (Abort msg)"
  by (simp add: assert_debug_def)

lemma assert_debug_Inr_iff [outcome_simps]: "assert_debug c msg = Inr u \<longleftrightarrow> c"
  by (simp add: assert_debug_def)

text \<open>Operations that may abort but never throw.\<close>

definition no_throw :: "'a outcome \<Rightarrow> bool" where
  "no_throw r \<longleftrightarrow> (\<forall>e. r \<noteq> Inl (Throw e))"

lemma no_throw_Inr [simp, intro]: "no_throw (Inr x)"
  by (simp add: no_throw_def)

lemma no_throw_Abort [simp, intro]: "no_throw (Inl (Abort msg))"
  by (simp add: no_throw_def)

lemma no_throw_assert [simp, intro]: "no_throw (assert_debug c msg)"
  by (simp add: no_throw_def assert_debug_def)

lemma no_throw_bind [intro!]:
  "no_throw r \<Longrightarrow> (\<And>x. no_throw (f x)) \<Longrightarrow> no_throw (bind_outcome r f)"
  by (cases r) (simp_all add: no_throw_def)

lemma no_throwD: "no_throw r \<Longrightarrow> r \<noteq> Inl (Throw e)"
  by (simp add: no_throw_def)

text \<open>Assertions over the elements of a list, in order: the first violated one aborts.\<close>

fun all_checks :: "(bool \<times> string) list \<Rightarrow> unit outcome" where
  "all_checks [] = Inr ()"
| "all_checks ((c, msg) # cs) = bind_outcome (assert_debug c msg) (\<lambda>_. all_checks cs)"

lemma all_checks_Inr_iff [outcome_simps]: "all_checks cs = Inr u \<longleftrightarrow> (\<forall>(c, m) \<in> set cs. c)"
  by (induction cs rule: all_checks.induct) (auto simp: outcome_simps)

lemma all_checks_append:
  "all_checks (as @ bs) = bind_outcome (all_checks as) (\<lambda>_. all_checks bs)"
  by (induction as rule: all_checks.induct) (auto simp: bind_outcome_def split: sum.splits)

lemma all_checks_no_throw: "no_throw (all_checks cs)"
  by (induction cs rule: all_checks.induct) auto

section \<open>Words\<close>

lemma unat_less_2p:
  fixes w :: "'a :: len word"
  assumes "2 ^ LENGTH('a) \<le> n"
  shows "unat w < n"
  using unsigned_less [of w, where 'a = nat] assms by (rule less_le_trans)

lemma unat_u32_less: "unat (w :: u32) < 4294967296"
  using unat_less_2p [of 4294967296 w] by simp

lemma unat_u64_less: "unat (w :: u64) < 18446744073709551616"
  using unat_less_2p [of 18446744073709551616 w] by simp

lemma unat_ucast_up [word_value_simps]:
  fixes w :: "'a :: len word"
  assumes "LENGTH('a) \<le> LENGTH('b :: len)"
  shows "unat (ucast w :: 'b word) = unat w"
  using assms by (simp add: unsigned_ucast_eq take_bit_nat_eq_self_iff order_less_le_trans [OF unsigned_less])

lemma unat_drop_bit_div:
  fixes w :: "'a :: len word"
  shows "unat (drop_bit n w) = unat w div 2 ^ n"
  unfolding unsigned_drop_bit_eq by (simp add: drop_bit_eq_div take_bit_nat_eq_self)

lemma unat_and_mask_mod:
  fixes w :: "'a :: len word"
  shows "unat (w AND mask n) = unat w mod 2 ^ n"
  unfolding take_bit_eq_mask [symmetric] unsigned_take_bit_eq by (simp add: take_bit_eq_mod)

lemma unat_ucast_mod:
  fixes w :: "'a :: len word"
  shows "unat (ucast w :: 'b :: len word) = unat w mod 2 ^ LENGTH('b)"
  by (simp add: unsigned_ucast_eq take_bit_eq_mod)

lemma unat_plus_no_wrap:
  fixes a b :: "'a :: len word"
  assumes "unat a + unat b < 2 ^ LENGTH('a)"
  shows "unat (a + b) = unat a + unat b"
  using assms by (simp add: unat_word_ariths)

lemma unat_mult_no_wrap:
  fixes a b :: "'a :: len word"
  assumes "unat a * unat b < 2 ^ LENGTH('a)"
  shows "unat (a * b) = unat a * unat b"
  using assms by (simp add: unat_word_ariths)

lemma mod_add_carry:
  fixes a b m k :: nat
  assumes "0 < m"
  shows "a mod m + m * ((b + a div m) mod k) = (a + m * b) mod (m * k)"
proof -
  have "(a + m * b) div m = b + a div m" using assms by simp
  then show ?thesis by (simp add: mod_mult2_eq)
qed

lemma uint_u32_less: "uint (w :: u32) < 4294967296"
  using uint_bounded [of w] by simp

lemma uint_le_1: "unat w \<le> 1 \<longleftrightarrow> uint w \<le> 1"
  proof -
  have "unat w \<le> 1 \<longleftrightarrow> int (unat w) \<le> int 1" by (simp only: of_nat_le_iff)
  then show ?thesis by simp
qed

lemma sint_eq_uint_small:
  fixes w :: "'a :: len word"
  assumes "uint w < 2 ^ (LENGTH('a) - 1)"
  shows "sint w = uint w"
proof -
  have "- (2 ^ (LENGTH('a) - 1)) \<le> uint w"
    using uint_ge_0 [of w] by (rule order_trans [rotated]) simp
  with assms show ?thesis by (simp add: sint_uint signed_take_bit_int_eq_self)
qed

lemma uint_eq_sint:
  fixes w :: "'a :: len word"
  assumes "0 \<le> sint w"
  shows "uint w = sint w"
proof -
  have "sint w < 2 ^ (LENGTH('a) - 1)" by (rule sint_lt)
  also have "\<dots> \<le> (2 ^ LENGTH('a) :: int)" by simp
  finally show ?thesis using assms by (simp add: uint_sint take_bit_int_eq_self)
qed

lemma sint_plus_no_wrap:
  fixes a b :: "'a :: len word"
  assumes "- (2 ^ (LENGTH('a) - 1)) \<le> sint a + sint b" and "sint a + sint b < 2 ^ (LENGTH('a) - 1)"
  shows "sint (a + b) = sint a + sint b"
  using assms by (simp add: sint_word_add signed_take_bit_int_eq_self)

lemma sint_minus_no_wrap:
  fixes a b :: "'a :: len word"
  assumes "- (2 ^ (LENGTH('a) - 1)) \<le> sint a - sint b" and "sint a - sint b < 2 ^ (LENGTH('a) - 1)"
  shows "sint (a - b) = sint a - sint b"
  using assms by (simp add: sint_word_diff signed_take_bit_int_eq_self)

lemma sint64_minus:
  fixes a b :: i64
  assumes "- 9223372036854775808 \<le> sint a - sint b" and "sint a - sint b < 9223372036854775808"
  shows "sint (a - b) = sint a - sint b"
  using assms by (intro sint_minus_no_wrap) simp_all

lemma sint64_plus:
  fixes a b :: i64
  assumes "- 9223372036854775808 \<le> sint a + sint b" and "sint a + sint b < 9223372036854775808"
  shows "sint (a + b) = sint a + sint b"
  using assms by (intro sint_plus_no_wrap) simp_all

lemma nat_push_or_low:
  fixes a b :: nat
  assumes "b < 2 ^ n"
  shows "push_bit n a OR b = a * 2 ^ n + b"
proof -
  have "b = take_bit n b" using assms by (simp add: take_bit_nat_eq_self)
  moreover have "push_bit n a AND take_bit n b = 0"
    by (rule bit_eqI) (auto simp: bit_simps)
  ultimately have "push_bit n a OR b = push_bit n a + b"
    using disjunctive_add_eq_or [of "push_bit n a" b] by simp
  then show ?thesis by (simp add: push_bit_eq_mult)
qed

lemma unat_push_or_low:
  fixes v c :: "'a :: len word"
  assumes "unat c < 2 ^ n" and "unat v * 2 ^ n + unat c < 2 ^ LENGTH('a)"
  shows "unat (push_bit n v OR c) = unat v * 2 ^ n + unat c"
proof -
  have "unat v * 2 ^ n < 2 ^ LENGTH('a)" using assms(2) by simp
  then have "unat (push_bit n v) = push_bit n (unat v)"
    unfolding unsigned_push_bit_eq by (simp add: take_bit_nat_eq_self push_bit_eq_mult)
  then have "unat (push_bit n v OR c) = push_bit n (unat v) OR unat c"
    by (simp only: unsigned_or_eq)
  then show ?thesis using nat_push_or_low [OF assms(1)] by simp
qed

section \<open>Lists\<close>

lemma sorted_wrt_filter_keep: "sorted_wrt P xs \<Longrightarrow> sorted_wrt P (filter Q xs)"
  by (induction xs) auto

lemma map_of_filter_key:
  "map_of (filter (\<lambda>p. P (fst p)) xs) k = (if P k then map_of xs k else None)"
  by (induction xs) auto

end
