(* ===== verification/Wide_Int.thy ===== *)
theory Wide_Int
  imports Prelude
begin

text \<open>
  The 256-bit unsigned integer of
  src/third_party/wide_integer/math/wide_integer/uintwide_t.hpp: eight 32-bit limbs, least
  significant first. The class is a template over the width; the Decimal code instantiates it at
  256 bits, which is the instance modelled here.

  \<open>wval\<close> is the number a limb list stands for. The lemmas show that each limb loop computes the
  operation on numbers: addition modulo \<open>2\<^sup>2\<^sup>5\<^sup>6\<close>, subtraction or the underflow exception,
  shift by one bit, multiplication modulo \<open>2\<^sup>2\<^sup>5\<^sup>6\<close>, long division, comparison, and the
  checked conversion to 128 bits.
\<close>

unbundle bit_operations_syntax

named_theorems wide_simps

type_synonym limbs = "u32 list"

definition limb_bits :: nat where
  "limb_bits = 32"

definition limb_count :: nat where
  "limb_count = 8"

definition num_bits :: nat where
  "num_bits = limb_count * limb_bits"

definition limb_mask :: u64 where
  "limb_mask = push_bit 32 1 - 1"

fun wval :: "'a :: len word list \<Rightarrow> nat" where
  "wval [] = 0"
| "wval (x # xs) = unat x + 2 ^ 32 * wval xs"

definition wide_ok :: "limbs \<Rightarrow> bool" where
  "wide_ok ws \<longleftrightarrow> length ws = limb_count"

definition wide_zero :: limbs where
  "wide_zero = replicate limb_count 0"

section \<open>Definitions\<close>

fun assign_loop :: "nat \<Rightarrow> u128 \<Rightarrow> limbs \<times> u128" where
  "assign_loop 0 v = ([], v)"
| "assign_loop (Suc n) v =
     (let (ls, v') = assign_loop n (drop_bit 32 v)
      in (ucast (v AND ucast limb_mask) # ls, v'))"

definition from_uint128 :: "u128 \<Rightarrow> limbs outcome" where
  "from_uint128 v =
     (let (ls, rest) = assign_loop limb_count v
      in if rest \<noteq> 0 then Inl (Throw (Overflow_error ''value exceeds supported width'')) else Inr ls)"

fun is_zero :: "limbs \<Rightarrow> bool" where
  "is_zero [] = True"
| "is_zero (l # ls) = (if l \<noteq> 0 then False else is_zero ls)"

fun add_loop :: "limbs \<Rightarrow> limbs \<Rightarrow> u64 \<Rightarrow> limbs" where
  "add_loop (l # ls) (r # rs) carry =
     (let sum = ucast l + ucast r + carry
      in ucast (sum AND limb_mask) # add_loop ls rs (drop_bit 32 sum))"
| "add_loop _ _ carry = []"

definition wide_add :: "limbs \<Rightarrow> limbs \<Rightarrow> limbs" where
  "wide_add a b = add_loop a b 0"

definition sub_limb :: "u32 \<Rightarrow> u32 \<Rightarrow> i64 \<Rightarrow> i64 \<times> i64" where
  "sub_limb l r borrow =
     (let diff = ucast l - ucast r - borrow
      in if diff <s 0 then (diff + (limb_mask + 1), 1) else (diff, 0))"

fun sub_loop :: "limbs \<Rightarrow> limbs \<Rightarrow> i64 \<Rightarrow> limbs \<times> i64" where
  "sub_loop (l # ls) (r # rs) borrow =
     (let (diff, borrow') = sub_limb l r borrow;
          (out, b) = sub_loop ls rs borrow'
      in (ucast diff # out, b))"
| "sub_loop _ _ borrow = ([], borrow)"

definition wide_sub :: "limbs \<Rightarrow> limbs \<Rightarrow> limbs outcome" where
  "wide_sub a b =
     (let (d, borrow) = sub_loop a b 0
      in if borrow \<noteq> 0 then Inl (Throw (Underflow_error ''uintwide_t subtraction underflow''))
         else Inr d)"

text \<open>
  \<open>operator<<=\<close>: whole limbs are moved in place from the top down, then the remaining bits are
  shifted with a carry from the bottom up.
\<close>

definition limb_shift_left :: "nat \<Rightarrow> limbs \<Rightarrow> limbs" where
  "limb_shift_left s ws =
     fold (\<lambda>i l. if s \<le> i then l[i := l ! (i - s)] else l[i := 0]) (rev [0..<limb_count]) ws"

fun shl_loop :: "nat \<Rightarrow> limbs \<Rightarrow> u64 \<Rightarrow> limbs" where
  "shl_loop s [] carry = []"
| "shl_loop s (l # ls) carry =
     (let nxt = push_bit s (ucast l) OR carry
      in ucast (nxt AND limb_mask) # shl_loop s ls (drop_bit 32 nxt))"

definition wide_shl :: "limbs \<Rightarrow> nat \<Rightarrow> limbs" where
  "wide_shl ws s =
     (if s = 0 \<or> is_zero ws then ws
      else if num_bits \<le> s then replicate limb_count 0
      else let ls = s div limb_bits; bs = s mod limb_bits;
               moved = (if 0 < ls then limb_shift_left ls ws else ws)
           in if bs \<noteq> 0 then shl_loop bs moved 0 else moved)"

definition limb_shift_right :: "nat \<Rightarrow> limbs \<Rightarrow> limbs" where
  "limb_shift_right s ws =
     fold (\<lambda>i l. if i + s < limb_count then l[i := l ! (i + s)] else l[i := 0]) [0..<limb_count] ws"

text \<open>The loop of \<open>operator>>=\<close> runs from the top limb: it is applied to the reversed limbs.\<close>

fun shr_loop :: "nat \<Rightarrow> limbs \<Rightarrow> u64 \<Rightarrow> limbs" where
  "shr_loop s [] carry = []"
| "shr_loop s (l # ls) carry =
     (let current = ucast l :: u64; nxt = drop_bit s current OR carry
      in ucast (nxt AND limb_mask) # shr_loop s ls (push_bit (32 - s) current AND limb_mask))"

definition wide_shr :: "limbs \<Rightarrow> nat \<Rightarrow> limbs" where
  "wide_shr ws s =
     (if s = 0 \<or> is_zero ws then ws
      else if num_bits \<le> s then replicate limb_count 0
      else let ls = s div limb_bits; bs = s mod limb_bits;
               moved = (if 0 < ls then limb_shift_right ls ws else ws)
           in if bs \<noteq> 0 then rev (shr_loop bs (rev moved) 0) else moved)"

text \<open>
  \<open>operator*=\<close>: row \<open>i\<close> of the schoolbook product is added into \<open>temp[i ..]\<close>, then the low eight
  words are kept. \<open>mul_row\<close> is the inner loop on the window of \<open>temp\<close> that starts at \<open>i\<close>; its last
  equation is the statement \<open>temp[i + limb_count] += carry\<close>.
\<close>

fun mul_row :: "u32 \<Rightarrow> limbs \<Rightarrow> u128 list \<Rightarrow> u128 \<Rightarrow> u128 list" where
  "mul_row a (r # rs) (t # ts) carry =
     (let acc = t + ucast a * ucast r + carry
      in (acc AND ucast limb_mask) # mul_row a rs ts (drop_bit 32 acc))"
| "mul_row a [] (t # ts) carry = (t + carry) # ts"
| "mul_row a _ [] carry = []"

fun mul_rows :: "limbs \<Rightarrow> limbs \<Rightarrow> u128 list \<Rightarrow> u128 list" where
  "mul_rows [] rhs temp = temp"
| "mul_rows (a # as) rhs temp =
     (case mul_row a rhs temp 0 of [] \<Rightarrow> [] | t # ts \<Rightarrow> t # mul_rows as rhs ts)"

definition wide_mul :: "limbs \<Rightarrow> limbs \<Rightarrow> limbs" where
  "wide_mul a b =
     map (\<lambda>t. ucast (t AND ucast limb_mask))
       (take limb_count (mul_rows a b (replicate (2 * limb_count) 0)))"

definition test_bit :: "limbs \<Rightarrow> nat \<Rightarrow> bool" where
  "test_bit ws b =
     (if num_bits \<le> b then False
      else (drop_bit (b mod limb_bits) (ws ! (b div limb_bits)) AND 1) \<noteq> 0)"

definition set_bit_at :: "limbs \<Rightarrow> nat \<Rightarrow> limbs outcome" where
  "set_bit_at ws b =
     (if num_bits \<le> b then Inl (Throw (Out_of_range ''bit index out of range''))
      else let i = b div limb_bits
           in Inr (ws[i := ws ! i OR push_bit (b mod limb_bits) 1]))"

text \<open>\<open>operator<\<close> compares from the top limb: the loop runs over the reversed limbs.\<close>

fun less_loop :: "limbs \<Rightarrow> limbs \<Rightarrow> bool" where
  "less_loop (l # ls) (r # rs) =
     (if l < r then True else if l > r then False else less_loop ls rs)"
| "less_loop _ _ = False"

definition wide_less :: "limbs \<Rightarrow> limbs \<Rightarrow> bool" where
  "wide_less a b = less_loop (rev a) (rev b)"

definition wide_ge :: "limbs \<Rightarrow> limbs \<Rightarrow> bool" where
  "wide_ge a b = (\<not> wide_less a b)"

text \<open>
  One round of the long division of \<open>operator/=\<close> at bit \<open>b\<close>: shift the remainder, bring the bit
  down, subtract the divisor when it fits and set the quotient bit.
\<close>

definition div_step :: "limbs \<Rightarrow> limbs \<Rightarrow> nat \<Rightarrow> limbs \<times> limbs \<Rightarrow> (limbs \<times> limbs) outcome" where
  "div_step dividend divisor b qr =
     (let (q, r) = qr;
          r1 = wide_shl r 1;
          r2 = (if test_bit dividend b then r1[0 := r1 ! 0 OR 1] else r1)
      in if wide_ge r2 divisor
         then bind_outcome (wide_sub r2 divisor) (\<lambda>r3.
              bind_outcome (set_bit_at q b) (\<lambda>q1. Inr (q1, r3)))
         else Inr (q, r2))"

fun div_loop :: "limbs \<Rightarrow> limbs \<Rightarrow> nat \<Rightarrow> limbs \<times> limbs \<Rightarrow> (limbs \<times> limbs) outcome" where
  "div_loop dividend divisor 0 qr = Inr qr"
| "div_loop dividend divisor (Suc b) qr =
     bind_outcome (div_step dividend divisor b qr) (div_loop dividend divisor b)"

definition wide_div :: "limbs \<Rightarrow> limbs \<Rightarrow> limbs outcome" where
  "wide_div a d =
     (if is_zero d then Inl (Throw (Domain_error ''division by zero''))
      else bind_outcome (div_loop a d num_bits (wide_zero, wide_zero)) (\<lambda>(q, r). Inr q))"

definition to_uint128 :: "limbs \<Rightarrow> u128 outcome" where
  "to_uint128 ws =
     (let limit = min limb_count 4;
          value = fold (\<lambda>i v. push_bit limb_bits v OR ucast (ws ! (limit - 1 - i))) [0..<limit] (0 :: u128)
      in if list_all (\<lambda>l. l = 0) (drop limit ws) then Inr value
         else Inl (Throw (Overflow_error ''value exceeds 128 bits'')))"

section \<open>Limb loops on numbers\<close>

lemma limb_mask_eq: "limb_mask = 4294967295"
  by (simp add: limb_mask_def)

lemma limb_mask_mask: "limb_mask = mask 32"
  by (simp add: limb_mask_eq mask_eq_exp_minus_1)

lemma unat_limb_of_u64: "unat (ucast ((w :: u64) AND limb_mask) :: u32) = unat w mod 2 ^ 32"
  by (simp add: limb_mask_mask unat_ucast_mod unat_and_mask_mod)

lemma wval_less: "wval (ws :: limbs) < 2 ^ (32 * length ws)"
proof (induction ws)
  case (Cons w ws)
  have "unat w + 2 ^ 32 * wval ws < 2 ^ 32 * (wval ws + 1)" using unat_u32_less [of w] by simp
  also have "\<dots> \<le> 2 ^ 32 * 2 ^ (32 * length ws)" using Cons.IH by (intro mult_le_mono2) simp
  finally show ?case by (simp add: power_add)
qed simp

lemma wval_append: "wval (xs @ ys) = wval xs + 2 ^ (32 * length xs) * wval ys"
  by (induction xs) (simp_all add: power_add algebra_simps)

lemma wval_inj: "length xs = length ys \<Longrightarrow> wval (xs :: limbs) = wval ys \<Longrightarrow> xs = ys"
proof (induction xs ys rule: list_induct2)
  case (Cons x xs y ys)
  have lx: "unat x < 2 ^ 32" and ly: "unat y < 2 ^ 32" using unat_u32_less by simp_all
  have "(unat x + 2 ^ 32 * wval xs) mod 2 ^ 32 = (unat y + 2 ^ 32 * wval ys) mod 2 ^ 32" 
    using Cons.prems by simp
  then have "unat x = unat y" using lx ly by simp
  with Cons show ?case by (auto simp: word_unat_eq_iff)
qed simp

lemma wval_zero_iff: "wval ws = 0 \<longleftrightarrow> (\<forall>w \<in> set ws. w = 0)"
  by (induction ws) (auto simp: unat_eq_zero)

lemma is_zero_iff: "is_zero (ws :: limbs) \<longleftrightarrow> wval ws = 0"
  by (induction ws) (auto simp: unat_eq_zero)

lemma add_loop_length: "length (add_loop a b c) = min (length a) (length b)"
  by (induction a b c rule: add_loop.induct) (auto simp: Let_def)

lemma add_loop_wval:
  "length a = length b \<Longrightarrow> unat c \<le> 1 \<Longrightarrow>
   wval (add_loop a b c) = (wval a + wval b + unat c) mod 2 ^ (32 * length a)"
proof (induction a b c rule: add_loop.induct)
  case (1 l ls r rs carry)
  define s where "s = ucast l + ucast r + carry"
  have s: "unat s = unat l + unat r + unat carry"
    using "1.prems" unat_u32_less [of l] unat_u32_less [of r]
    unfolding s_def by (simp add: unat_word_ariths unat_ucast_mod)
  have c: "unat (drop_bit 32 s) = unat s div 2 ^ 32" by (rule unat_drop_bit_div)
  have "unat s div 2 ^ 32 \<le> 1" using s "1.prems" unat_u32_less [of l] unat_u32_less [of r] by simp
  then have IH: "wval (add_loop ls rs (drop_bit 32 s)) = (wval ls + wval rs + unat s div 2 ^ 32) mod 2 ^ (32 * length ls)"
    using "1.IH" [OF s_def] "1.prems" c by simp
  let ?V = "wval ls + wval rs"
  have "wval (add_loop (l # ls) (r # rs) carry) = unat s mod 2 ^ 32 + 2 ^ 32 * ((?V + unat s div 2 ^ 32) mod 2 ^ (32 * length ls))"
    by (simp add: Let_def IH unat_limb_of_u64 flip: s_def)
  also have "\<dots> = (unat s + 2 ^ 32 * ?V) mod (2 ^ 32 * 2 ^ (32 * length ls))"
    by (rule mod_add_carry) simp
  finally show ?case using s by (simp add: power_add algebra_simps)
qed simp_all

lemma sub_diff_sint:
  fixes l r :: u32 and c :: i64
  assumes "unat c \<le> 1"
  shows "sint (ucast l - ucast r - c :: i64) = uint l - uint r - uint c"
proof -
  note lims = uint_u32_less [of l] uint_u32_less [of r] uint_ge_0 [of l] uint_ge_0 [of r] uint_ge_0 [of c]
  have l: "sint (ucast l :: i64) = uint l" and r: "sint (ucast r :: i64) = uint r"
    using lims by (simp_all add: sint_eq_uint_small unsigned_ucast_eq take_bit_int_eq_self)
  have c1: "uint c \<le> 1" using assms by (simp only: uint_le_1)
  then have c: "sint c = uint c" by (intro sint_eq_uint_small) simp
  have lr: "sint (ucast l - ucast r :: i64) = uint l - uint r"
    using lims by (intro sint64_minus [of "ucast l" "ucast r", unfolded l r]) linarith+
  show ?thesis
    using lims c1 by (intro sint64_minus [of "ucast l - ucast r" c, unfolded lr c]) linarith+
qed

lemma sub_loop_length: "length (fst (sub_loop a b c)) = min (length a) (length b)"
  by (induction a b c rule: sub_loop.induct) (auto simp: Let_def split: prod.splits)

lemma sub_limb_spec:
  assumes "unat c \<le> 1" and "sub_limb l r c = (x, b)"
  shows "unat x + unat r + unat c = unat l + unat b * 2 ^ 32 \<and> unat x < 2 ^ 32 \<and> unat b \<le> 1"
proof -
  let ?diff = "ucast l - ucast r - c :: i64"
  have s: "sint ?diff = uint l - uint r - uint c" using assms(1) by (rule sub_diff_sint)
  have c1: "uint c \<le> 1" using assms(1) by (simp only: uint_le_1)
  note lims = uint_u32_less [of l] uint_u32_less [of r] uint_ge_0 [of l] uint_ge_0 [of r] uint_ge_0 [of c] c1
  have "uint x + uint r + uint c = uint l + uint b * 4294967296 \<and> uint x < 4294967296 \<and> uint b \<le> 1"
  proof (cases "?diff <s 0")
    case True
    then have neg: "sint ?diff < 0" by (simp add: word_sless_alt)
    have k: "sint (4294967296 :: i64) = 4294967296" by simp
    have p: "sint (?diff + 4294967296) = sint ?diff + 4294967296"
      using lims s neg by (intro sint64_plus [of ?diff 4294967296, unfolded k]) linarith+
    have "uint (?diff + 4294967296) = sint ?diff + 4294967296"
      using lims s p by (intro trans [OF uint_eq_sint p]) linarith
    moreover have "x = ?diff + 4294967296" "b = 1" 
      using True assms(2) by (simp_all add: sub_limb_def Let_def limb_mask_eq)
    ultimately show ?thesis using s lims neg by simp
  next
    case False
    then have "0 \<le> sint ?diff" by (simp add: word_sless_alt)
    then have "uint ?diff = sint ?diff" by (rule uint_eq_sint)
    moreover have "x = ?diff" "b = 0" 
      using False assms(2) by (simp_all add: sub_limb_def Let_def)
    ultimately have "uint x = uint l - uint r - uint c" "uint b = 0" using s by simp_all
    then show ?thesis using lims by linarith
  qed
  then have "int (unat x + unat r + unat c) = int (unat l + unat b * 4294967296) \<and> int (unat x) < int 4294967296 \<and> int (unat b) \<le> int 1"
    by simp
  then have "unat x + unat r + unat c = unat l + unat b * 4294967296 \<and> unat x < 4294967296 \<and> unat b \<le> 1"
    by (simp only: of_nat_eq_iff of_nat_less_iff of_nat_le_iff)
  then show ?thesis by simp
qed

lemma sub_loop_wval:
  "length a = length b \<Longrightarrow> unat c \<le> 1 \<Longrightarrow> sub_loop a b c = (d, e) \<Longrightarrow>
   unat e \<le> 1 \<and> wval d + wval b + unat c = wval a + unat e * 2 ^ (32 * length a)"
proof (induction a b arbitrary: c d e rule: list_induct2)
  case (Cons l ls r rs)
  obtain x t where xt: "sub_limb l r c = (x, t)" by (cases "sub_limb l r c")
  obtain d1 e1 where de: "sub_loop ls rs t = (d1, e1)" by (cases "sub_loop ls rs t")
  have d: "d = ucast x # d1" and e: "e = e1" 
    using Cons.prems(2) xt de by auto
  note sl = sub_limb_spec [OF Cons.prems(1) xt]
  have IH: "unat e1 \<le> 1 \<and> wval d1 + wval rs + unat t = wval ls + unat e1 * 2 ^ (32 * length ls)"
    using Cons.IH [OF _ de] sl by simp
  have "unat (ucast x :: u32) = unat x" using sl by (simp add: unat_ucast_mod)
  then show ?case using IH sl d e by (simp add: power_add algebra_simps)
qed simp

lemma shl_loop_length: "length (shl_loop s ws c) = length ws"
  by (induction s ws c rule: shl_loop.induct) (auto simp: Let_def)

lemma shl_loop_wval:
  "s < 32 \<Longrightarrow> unat c < 2 ^ s \<Longrightarrow>
   wval (shl_loop s ws c) = (wval ws * 2 ^ s + unat c) mod 2 ^ (32 * length ws)"
proof (induction s ws c rule: shl_loop.induct)
  case (2 s l ls carry)
  define nxt where "nxt = (push_bit s (ucast l) OR carry :: u64)"
  have p: "(2::nat) ^ s < 2 ^ 32" using "2.prems"(1) by (intro power_strict_increasing) simp_all
  have lt: "unat l * 2 ^ s + unat carry < 2 ^ s * 2 ^ 32"
  proof -
    have "unat l * 2 ^ s + unat carry < (unat l + 1) * 2 ^ s" using "2.prems"(2) by simp
    also have "\<dots> \<le> 2 ^ 32 * 2 ^ s" using unat_u32_less [of l] by (intro mult_le_mono1) simp
    finally show ?thesis by (simp add: mult.commute)
  qed
  also have "\<dots> < 2 ^ 32 * 2 ^ 32" using p by (intro mult_strict_right_mono) simp_all
  finally have "unat l * 2 ^ s + unat carry < 2 ^ LENGTH(64)" by simp
  moreover have ul: "unat (ucast l :: u64) = unat l" by (rule unat_ucast_up) simp
  ultimately have n: "unat nxt = unat l * 2 ^ s + unat carry"
    unfolding nxt_def using "2.prems"(2) by (subst unat_push_or_low) (simp_all add: ul)
  have c: "unat (drop_bit 32 nxt) = unat nxt div 2 ^ 32" by (rule unat_drop_bit_div)
  have "unat (drop_bit 32 nxt) < 2 ^ s" using lt n c by (simp add: less_mult_imp_div_less)
  then have IH: "wval (shl_loop s ls (drop_bit 32 nxt)) =
      (wval ls * 2 ^ s + unat nxt div 2 ^ 32) mod 2 ^ (32 * length ls)"
    using "2.IH" [OF nxt_def] "2.prems" c by simp
  have "wval (shl_loop s (l # ls) carry) =
      unat nxt mod 2 ^ 32 + 2 ^ 32 * ((wval ls * 2 ^ s + unat nxt div 2 ^ 32) mod 2 ^ (32 * length ls))"
    by (simp add: Let_def IH unat_limb_of_u64 flip: nxt_def)
  also have "\<dots> = (unat nxt + 2 ^ 32 * (wval ls * 2 ^ s)) mod (2 ^ 32 * 2 ^ (32 * length ls))"
    by (rule mod_add_carry) simp
  finally show ?case using n by (simp add: power_add algebra_simps)
qed simp

lemma limbs8_cases:
  assumes "wide_ok ws"
  obtains a b c d e f g h where "ws = [a, b, c, d, e, f, g, h]"
proof -
  from assms have "length ws = Suc (Suc (Suc (Suc (Suc (Suc (Suc (Suc 0)))))))"
    by (simp add: wide_ok_def limb_count_def)
  then show ?thesis using that by (auto simp: length_Suc_conv)
qed

lemma limb_shift_left_eq:
  assumes "wide_ok ws" and "s < limb_count"
  shows "limb_shift_left s ws = replicate s 0 @ take (limb_count - s) ws"
proof -
  obtain a b c d e f g h where "ws = [a, b, c, d, e, f, g, h]" using limbs8_cases [OF assms(1)] .
  moreover have "s \<in> {0, 1, 2, 3, 4, 5, 6, 7}" using assms(2) by (auto simp: limb_count_def)
  ultimately show ?thesis
    by (auto simp: limb_shift_left_def limb_count_def upt_rec numeral_eq_Suc)
qed

lemma wval_replicate_0 [simp]: "wval (replicate n 0) = 0"
  by (induction n) simp_all

lemma wval_take:
  "wval (take n (ws :: limbs)) = wval ws mod 2 ^ (32 * n)"
proof (induction ws arbitrary: n)
  case (Cons w ws)
  show ?case
  proof (cases n)
    case (Suc m)
    have "unat w < 2 ^ 32" using unat_u32_less [of w] by simp
    then have "unat w + 2 ^ 32 * (wval ws mod 2 ^ (32 * m)) = (unat w + 2 ^ 32 * wval ws) mod (2 ^ 32 * 2 ^ (32 * m))"
      by (simp add: mod_mult2_eq)
    then show ?thesis using Suc Cons.IH by (simp add: power_add)
  qed simp
qed simp

lemma wval_drop:
  "wval (drop n (ws :: limbs)) = wval ws div 2 ^ (32 * n)"
proof (induction ws arbitrary: n)
  case (Cons w ws)
  show ?case
  proof (cases n)
    case (Suc m)
    have "unat w < 2 ^ 32" using unat_u32_less [of w] by simp
    then have "wval ws div 2 ^ (32 * m) = (unat w + 2 ^ 32 * wval ws) div (2 ^ 32 * 2 ^ (32 * m))"
      by (simp add: div_mult2_eq)
    then show ?thesis using Suc Cons.IH by (simp add: power_add)
  qed simp
qed simp

lemma wide_shl_wval:
  assumes "wide_ok ws"
  shows "wide_ok (wide_shl ws s) \<and> wval (wide_shl ws s) = wval ws * 2 ^ s mod 2 ^ 256"
proof -
  have len: "length ws = 8" using assms by (simp add: wide_ok_def limb_count_def)
  have lt: "wval ws < 2 ^ 256" using wval_less [of ws] len by simp
  consider "s = 0 \<or> is_zero ws" | "s \<noteq> 0" "\<not> is_zero ws" "256 \<le> s" | "s \<noteq> 0" "\<not> is_zero ws" "s < 256" by linarith
  then show ?thesis
  proof cases
    case 1
    then show ?thesis using assms lt by (auto simp: wide_shl_def is_zero_iff)
  next
    case 2
    then have "(2::nat) ^ s = 2 ^ 256 * 2 ^ (s - 256)" by (simp only: power_add [symmetric] le_add_diff_inverse)
    then have "wval ws * 2 ^ s mod 2 ^ 256 = 0" by (simp only: mod_eq_0_iff_dvd dvd_mult dvd_mult2 dvd_refl mult.assoc)
    then show ?thesis using 2 by (simp add: wide_shl_def num_bits_def limb_count_def limb_bits_def wide_ok_def)
  next
    case 3
    let ?ls = "s div 32" and ?bs = "s mod 32"
    have ls: "?ls < limb_count" using 3 by (simp add: limb_count_def)
    let ?moved = "if 0 < ?ls then limb_shift_left ?ls ws else ws"
    have moved: "?moved = replicate ?ls 0 @ take (8 - ?ls) ws"
      using limb_shift_left_eq [OF assms ls] len by (simp add: limb_count_def)
    have mlen: "length ?moved = 8" using moved ls len by (simp add: limb_count_def)
    have "wval ?moved = 2 ^ (32 * ?ls) * (wval ws mod 2 ^ (32 * (8 - ?ls)))"
      unfolding moved by (simp add: wval_append wval_take)
    also have "\<dots> = (wval ws * 2 ^ (32 * ?ls)) mod 2 ^ 256"
    proof -
      have "(2::nat) ^ 256 = 2 ^ (32 * ?ls) * 2 ^ (32 * (8 - ?ls))"
        using ls by (simp flip: power_add add: limb_count_def diff_mult_distrib2)
      then show ?thesis by (simp add: mult_mod_right mult.commute)
    qed
    finally have mv: "wval ?moved = (wval ws * 2 ^ (32 * ?ls)) mod 2 ^ 256" .
    have "wide_shl ws s = (if ?bs \<noteq> 0 then shl_loop ?bs ?moved 0 else ?moved)"
      using 3 by (simp add: wide_shl_def num_bits_def limb_count_def limb_bits_def Let_def)
    moreover have "wval (shl_loop ?bs ?moved 0) = wval ?moved * 2 ^ ?bs mod 2 ^ 256"
      using shl_loop_wval [of ?bs 0 ?moved] mlen by simp
    moreover have "wval ws * 2 ^ (32 * ?ls) * 2 ^ ?bs = wval ws * 2 ^ s"
      by (simp only: mult.assoc power_add [symmetric] mult_div_mod_eq)
    ultimately show ?thesis using mv mlen
      by (auto simp: wide_ok_def limb_count_def shl_loop_length mod_mult_left_eq)
  qed
qed

lemma less_loop_wval:
  "length xs = length ys \<Longrightarrow> less_loop xs ys \<longleftrightarrow> wval (rev xs) < wval (rev ys)"
proof (induction xs ys rule: list_induct2)
  case (Cons x xs y ys)
  let ?n = "32 * length xs"
  have lx: "wval (rev xs) < 2 ^ ?n" and ly: "wval (rev ys) < 2 ^ ?n"
    using wval_less [of "rev xs"] wval_less [of "rev ys"] Cons.hyps by simp_all
  have less: "A + 2 ^ ?n * a < B + 2 ^ ?n * b" if "a < b" "A < 2 ^ ?n" for A B a b :: nat
  proof -
    have "A + 2 ^ ?n * a < 2 ^ ?n * (a + 1)" using that by simp
    also have "\<dots> \<le> 2 ^ ?n * b" using that by (intro mult_le_mono2) simp
    finally show ?thesis by simp
  qed
  have "x < y \<or> x > y \<or> x = y" by auto
  then show ?case
    using Cons less [of "unat x" "unat y" "wval (rev xs)" "wval (rev ys)", OF _ lx]
      less [of "unat y" "unat x" "wval (rev ys)" "wval (rev xs)", OF _ ly]
    by (auto simp: wval_append word_less_nat_alt)
qed simp

lemma wide_less_wval:
  "length a = length b \<Longrightarrow> wide_less a b \<longleftrightarrow> wval a < wval b"
  by (simp add: wide_less_def less_loop_wval)

definition small32 :: "u128 \<Rightarrow> bool" where
  "small32 t \<longleftrightarrow> unat t < 2 ^ 32"

lemma mul_acc_unat:
  fixes t carry :: u128 and a r :: u32
  assumes "small32 t" and "small32 carry"
  shows "unat (t + ucast a * ucast r + carry) = unat t + unat a * unat r + unat carry"
proof -
  have ua: "unat (ucast a :: u128) = unat a" "unat (ucast r :: u128) = unat r"
    by (rule unat_ucast_up, simp)+
  have "unat a * unat r \<le> 4294967295 * 4294967295"
    using unat_u32_less [of a] unat_u32_less [of r] by (intro mult_le_mono) simp_all
  then have m: "unat a * unat r \<le> 18446744065119617025" by simp
  have p: "unat (ucast a * ucast r :: u128) = unat a * unat r"
    using m by (subst unat_mult_no_wrap) (simp_all add: ua)
  have q: "unat (t + ucast a * ucast r) = unat t + unat a * unat r"
    using m assms by (subst unat_plus_no_wrap) (simp_all add: p small32_def)
  show ?thesis using m assms by (subst unat_plus_no_wrap) (simp_all add: q small32_def)
qed

lemma mul_acc_bound:
  fixes t carry :: u128 and a r :: u32
  assumes "small32 t" and "small32 carry"
  shows "unat t + unat a * unat r + unat carry < 2 ^ 64"
proof -
  have "unat a * unat r \<le> 4294967295 * 4294967295"
    using unat_u32_less [of a] unat_u32_less [of r] by (intro mult_le_mono) simp_all
  then show ?thesis using assms by (simp add: small32_def)
qed

lemma mul_row_split:
  "length ps = length rs \<Longrightarrow> \<forall>p \<in> set ps. small32 p \<Longrightarrow> small32 c \<Longrightarrow>
   \<exists>qs c'. mul_row a rs (ps @ t # zs) c = qs @ (t + c') # zs \<and> length qs = length rs \<and>
     (\<forall>q \<in> set qs. small32 q) \<and> small32 c' \<and>
     wval qs + 2 ^ (32 * length rs) * unat c' = wval ps + unat a * wval rs + unat c"
proof (induction ps rs arbitrary: c rule: list_induct2)
  case Nil
  then show ?case by simp
next
  case (Cons p ps r rs)
  define acc where "acc = p + ucast a * ucast r + c"
  have acc: "unat acc = unat p + unat a * unat r + unat c"
    unfolding acc_def using Cons.prems by (intro mul_acc_unat) simp_all
  have bound: "unat acc < 2 ^ 64"
    unfolding acc using Cons.prems by (intro mul_acc_bound) simp_all
  let ?lo = "acc AND ucast limb_mask" and ?hi = "drop_bit 32 acc"
  have m: "(ucast limb_mask :: u128) = mask 32" by (simp add: limb_mask_eq mask_eq_exp_minus_1)
  have lo: "unat ?lo = unat acc mod 2 ^ 32" unfolding m by (rule unat_and_mask_mod)
  have hi: "unat ?hi = unat acc div 2 ^ 32" by (rule unat_drop_bit_div)
  have "unat acc div 2 ^ 32 < 2 ^ 32" using bound by (intro less_mult_imp_div_less) simp
  then have shi: "small32 ?hi" by (simp add: small32_def hi)
  have slo: "small32 ?lo" by (simp add: small32_def lo)
  obtain qs c' where IH: "mul_row a rs (ps @ t # zs) ?hi = qs @ (t + c') # zs" "length qs = length rs"
      "\<forall>q \<in> set qs. small32 q" "small32 c'"
      "wval qs + 2 ^ (32 * length rs) * unat c' = wval ps + unat a * wval rs + unat ?hi"
    using Cons.IH [OF _ shi] Cons.prems by auto
  have "mul_row a (r # rs) ((p # ps) @ t # zs) c = (?lo # qs) @ (t + c') # zs"
    by (simp add: Let_def IH(1) flip: acc_def)
  moreover have "wval (?lo # qs) + 2 ^ (32 * length (r # rs)) * unat c' = wval (p # ps) + unat a * wval (r # rs) + unat c"
  proof -
    have "wval (?lo # qs) + 2 ^ (32 * length (r # rs)) * unat c' = unat ?lo + 2 ^ 32 * (wval qs + 2 ^ (32 * length rs) * unat c')"
      by (simp add: power_add algebra_simps)
    also have "\<dots> = unat acc mod 2 ^ 32 + 2 ^ 32 * (unat acc div 2 ^ 32) + 2 ^ 32 * (wval ps + unat a * wval rs)"
      unfolding IH(5) lo hi by (simp only: distrib_left)
    also have "\<dots> = unat acc + 2 ^ 32 * (wval ps + unat a * wval rs)" by (simp only: mod_mult_div_eq)
    finally show ?thesis unfolding acc by (simp add: algebra_simps)
  qed
  ultimately show ?case using IH slo by (intro exI [of _ "?lo # qs"] exI [of _ c']) simp
qed

lemma mul_rows_wval:
  "length ps = length rs \<Longrightarrow> \<forall>p \<in> set ps. small32 p \<Longrightarrow>
   \<exists>out. mul_rows as rs (ps @ replicate (length as) 0) = out \<and> length out = length as + length rs \<and>
     (\<forall>q \<in> set out. small32 q) \<and> wval out = wval ps + wval as * wval rs"
proof (induction as arbitrary: ps)
  case (Cons a as)
  obtain qs c where row: "mul_row a rs (ps @ 0 # replicate (length as) 0) 0 = qs @ (0 + c) # replicate (length as) 0"
      "length qs = length rs" "\<forall>q \<in> set qs. small32 q" "small32 c"
      "wval qs + 2 ^ (32 * length rs) * unat c = wval ps + unat a * wval rs + unat (0 :: u128)"
    using mul_row_split [OF Cons.prems, of 0 a 0 "replicate (length as) 0"] by (auto simp: small32_def)
  obtain q0 ps' where qc: "qs @ [c] = q0 # ps'" by (cases "qs @ [c]") auto
  have len: "length ps' = length rs" using qc row(2) by (metis length_append_singleton length_Cons nat.inject)
  have small: "\<forall>p \<in> set (q0 # ps'). small32 p" unfolding qc [symmetric] using row by auto
  have wq: "unat q0 + 2 ^ 32 * wval ps' = wval ps + unat a * wval rs"
  proof -
    have "wval (q0 # ps') = wval qs + 2 ^ (32 * length rs) * unat c"
      unfolding qc [symmetric] using row(2) by (simp add: wval_append)
    then show ?thesis using row(5) by simp
  qed
  have row': "mul_row a rs (ps @ replicate (length (a # as)) 0) 0 = q0 # (ps' @ replicate (length as) 0)"
    using row(1) qc by (metis add_0 append.assoc append_Cons append_Nil length_Cons replicate_Suc)
  obtain out where out: "mul_rows as rs (ps' @ replicate (length as) 0) = out" "length out = length as + length rs"
      "\<forall>q \<in> set out. small32 q" "wval out = wval ps' + wval as * wval rs"
    using Cons.IH [of ps'] len small by auto
  have "mul_rows (a # as) rs (ps @ replicate (length (a # as)) 0) = q0 # out"
    using row' out(1) by simp
  moreover have "wval (q0 # out) = wval ps + wval (a # as) * wval rs"
    using wq out(4) by (simp add: algebra_simps)
  ultimately show ?case using out small by (intro exI [of _ "q0 # out"]) simp
qed simp

lemma wval_map_low:
  "\<forall>t \<in> set ts. small32 t \<Longrightarrow> wval (map (\<lambda>t. ucast (t AND ucast limb_mask) :: u32) ts) = wval ts"
proof (induction ts)
  case (Cons t ts)
  have m: "(ucast limb_mask :: u128) = mask 32" by (simp add: limb_mask_eq mask_eq_exp_minus_1)
  have "unat (ucast (t AND ucast limb_mask) :: u32) = unat t"
    using Cons.prems by (simp add: m unat_ucast_mod unat_and_mask_mod small32_def)
  then show ?case using Cons by simp
qed simp

lemma wide_mul_wval:
  assumes "wide_ok a" and "wide_ok b"
  shows "wide_ok (wide_mul a b) \<and> wval (wide_mul a b) = wval a * wval b mod 2 ^ 256"
proof -
  have len: "length a = 8" "length b = 8" using assms by (simp_all add: wide_ok_def limb_count_def)
  have rep: "replicate (2 * limb_count) (0 :: u128) = replicate (length b) 0 @ replicate (length a) 0"
    by (simp add: len limb_count_def numeral_eq_Suc)
  obtain out where out: "mul_rows a b (replicate (2 * limb_count) 0) = out" "length out = 16"
      "\<forall>q \<in> set out. small32 q" "wval out = wval a * wval b"
    using mul_rows_wval [of "replicate (length b) 0" b a] len unfolding rep by (auto simp: small32_def)
  let ?lows = "map (\<lambda>t. ucast (t AND ucast limb_mask)) :: u128 list \<Rightarrow> limbs"
  have "wide_mul a b = take 8 (?lows out)"
    using out(1) by (simp add: wide_mul_def limb_count_def take_map)
  moreover have "wval (take 8 (?lows out)) = wval (?lows out) mod 2 ^ 256"
    by (simp add: wval_take)
  ultimately show ?thesis
    using out wval_map_low [of out] by (simp add: wide_ok_def limb_count_def)
qed

lemma wval_nth:
  assumes "i < length (ws :: limbs)"
  shows "unat (ws ! i) = wval ws div 2 ^ (32 * i) mod 2 ^ 32"
proof -
  have "wval (drop i ws) = wval ws div 2 ^ (32 * i)" by (rule wval_drop)
  moreover have "drop i ws = ws ! i # drop (Suc i) ws" using assms by (rule Cons_nth_drop_Suc [symmetric])
  ultimately have "unat (ws ! i) + 2 ^ 32 * wval (drop (Suc i) ws) = wval ws div 2 ^ (32 * i)" by simp
  then have "wval ws div 2 ^ (32 * i) mod 2 ^ 32 = (unat (ws ! i) + 2 ^ 32 * wval (drop (Suc i) ws)) mod 2 ^ 32" by simp
  also have "\<dots> = unat (ws ! i)" using unat_u32_less [of "ws ! i"] by simp
  finally show ?thesis by simp
qed

lemma wval_update:
  "i < length (ws :: limbs) \<Longrightarrow> wval (ws[i := x]) + 2 ^ (32 * i) * unat (ws ! i) = wval ws + 2 ^ (32 * i) * unat x"
proof (induction ws arbitrary: i)
  case (Cons w ws)
  show ?case
  proof (cases i)
    case (Suc j)
    with Cons have "wval (ws[j := x]) + 2 ^ (32 * j) * unat (ws ! j) = wval ws + 2 ^ (32 * j) * unat x" by simp
    then have "2 ^ 32 * (wval (ws[j := x]) + 2 ^ (32 * j) * unat (ws ! j)) = 2 ^ 32 * (wval ws + 2 ^ (32 * j) * unat x)" by simp
    then show ?thesis using Suc by (simp add: power_add algebra_simps)
  qed simp
qed simp

lemma word_and_one_nonzero:
  fixes w :: "'a :: len word"
  shows "w AND 1 \<noteq> 0 \<longleftrightarrow> odd (unat w)"
proof -
  have "unat (w AND 1) = unat w mod 2" using unat_and_mask_mod [of w 1] by (simp add: mask_eq_exp_minus_1)
  then have "w AND 1 = 0 \<longleftrightarrow> unat w mod 2 = 0" by (simp add: unat_eq_zero [symmetric])
  then show ?thesis by (simp add: odd_iff_mod_2_eq_one)
qed

lemma odd_div_pow_mod:
  fixes v :: nat
  assumes "j < k"
  shows "odd (v mod 2 ^ k div 2 ^ j) \<longleftrightarrow> odd (v div 2 ^ j)"
  using assms by (simp flip: take_bit_eq_mod bit_iff_odd add: bit_take_bit_iff)

lemma test_bit_iff:
  assumes "wide_ok ws" and "b < num_bits"
  shows "test_bit ws b \<longleftrightarrow> odd (wval ws div 2 ^ b)"
proof -
  have b: "b < 256" using assms(2) by (simp add: num_bits_def limb_count_def limb_bits_def)
  let ?i = "b div 32" and ?j = "b mod 32"
  have i: "?i < length ws" using b assms(1) by (simp add: wide_ok_def limb_count_def)
  have "test_bit ws b \<longleftrightarrow> odd (unat (ws ! ?i) div 2 ^ ?j)"
    using assms(2) by (simp add: test_bit_def word_and_one_nonzero unat_drop_bit_div limb_bits_def del: drop_bit_eq_div)
  also have "\<dots> \<longleftrightarrow> odd (wval ws div 2 ^ (32 * ?i) div 2 ^ ?j)"
    unfolding wval_nth [OF i] by (rule odd_div_pow_mod) simp
  also have "wval ws div 2 ^ (32 * ?i) div 2 ^ ?j = wval ws div 2 ^ b"
    by (simp only: div_mult2_eq [symmetric] power_add [symmetric] mult_div_mod_eq)
  finally show ?thesis .
qed

lemma nat_or_bit:
  fixes v :: nat
  assumes "even (v div 2 ^ j)"
  shows "v OR 2 ^ j = v + 2 ^ j"
proof -
  have "v AND 2 ^ j = 0"
    using assms by (simp only: and_exp_eq_0_iff_not_bit bit_iff_odd not_not)
  then show ?thesis using disjunctive_add_eq_or [of v "2 ^ j"] by simp
qed

lemma unat_or_bit:
  fixes w :: "'a :: len word"
  assumes "even (unat w div 2 ^ j)" and "j < LENGTH('a)"
  shows "unat (w OR push_bit j 1) = unat w + 2 ^ j"
proof -
  have "(2::nat) ^ j < 2 ^ LENGTH('a)" using assms(2) by (intro power_strict_increasing) simp_all
  then have "unat (push_bit j 1 :: 'a word) = 2 ^ j"
    unfolding unsigned_push_bit_eq by (simp add: take_bit_nat_eq_self push_bit_eq_mult)
  then show ?thesis using nat_or_bit [OF assms(1)] by (simp only: unsigned_or_eq)
qed

lemma set_bit_at_wval:
  assumes "wide_ok ws" and "b < num_bits" and "\<not> test_bit ws b"
  shows "\<exists>ws'. set_bit_at ws b = Inr ws' \<and> wide_ok ws' \<and> wval ws' = wval ws + 2 ^ b"
proof -
  have b: "b < 256" using assms(2) by (simp add: num_bits_def limb_count_def limb_bits_def)
  let ?i = "b div 32" and ?j = "b mod 32"
  have i: "?i < length ws" using b assms(1) by (simp add: wide_ok_def limb_count_def)
  have even: "even (unat (ws ! ?i) div 2 ^ ?j)"
    using assms(2,3) by (simp add: test_bit_def word_and_one_nonzero unat_drop_bit_div limb_bits_def del: drop_bit_eq_div)
  have set: "set_bit_at ws b = Inr (ws[?i := ws ! ?i OR push_bit ?j 1])"
    using assms(2) by (simp add: set_bit_at_def limb_bits_def Let_def)
  have "unat (ws ! ?i OR push_bit ?j 1) = unat (ws ! ?i) + 2 ^ ?j"
    using even by (intro unat_or_bit) simp_all
  then have "wval (ws[?i := ws ! ?i OR push_bit ?j 1]) = wval ws + 2 ^ (32 * ?i) * 2 ^ ?j"
    using wval_update [OF i, of "ws ! ?i OR push_bit ?j 1"] by (simp add: algebra_simps)
  also have "(2::nat) ^ (32 * ?i) * 2 ^ ?j = 2 ^ b" by (simp only: power_add [symmetric] mult_div_mod_eq)
  finally show ?thesis using set assms(1) by (simp add: wide_ok_def)
qed

lemma wide_sub_wval:
  assumes "wide_ok a" and "wide_ok b"
  shows "wide_sub a b =
    (if wval a < wval b then Inl (Throw (Underflow_error ''uintwide_t subtraction underflow''))
     else Inr (fst (sub_loop a b 0))) \<and>
    wide_ok (fst (sub_loop a b 0)) \<and>
    (wval b \<le> wval a \<longrightarrow> wval (fst (sub_loop a b 0)) = wval a - wval b)"
proof -
  obtain d e where de: "sub_loop a b 0 = (d, e)" by (cases "sub_loop a b 0")
  have len: "length a = 8" "length b = 8" using assms by (simp_all add: wide_ok_def limb_count_def)
  have spec: "unat e \<le> 1 \<and> wval d + wval b = wval a + unat e * 2 ^ 256"
    using sub_loop_wval [OF _ _ de] len by simp
  have ld: "length d = 8" using sub_loop_length [of a b 0] len de by simp
  have bounds: "wval d < 2 ^ 256" "wval a < 2 ^ 256" "wval b < 2 ^ 256"
    using wval_less [of d] wval_less [of a] wval_less [of b] ld len by simp_all
  have "e = 0 \<longleftrightarrow> unat e = 0" by (simp add: unat_eq_zero)
  moreover have "unat e = 0 \<longleftrightarrow> wval b \<le> wval a"
  proof (cases "unat e = 0")
    case False
    then have "unat e = 1" using spec by simp
    then show ?thesis using spec bounds by simp
  qed (use spec in simp)
  ultimately show ?thesis using spec ld by (auto simp: wide_sub_def de wide_ok_def limb_count_def)
qed

lemma wide_add_wval:
  assumes "wide_ok a" and "wide_ok b"
  shows "wide_ok (wide_add a b) \<and> wval (wide_add a b) = (wval a + wval b) mod 2 ^ 256"
  using assms add_loop_wval [of a b 0] add_loop_length [of a b 0]
  by (simp add: wide_add_def wide_ok_def limb_count_def)

text \<open>
  Loop invariant of the long division with \<open>k\<close> bits of the dividend still to come: the remainder and the
  (shifted) quotient are those of the dividend's leading part.
\<close>

definition div_inv :: "nat \<Rightarrow> nat \<Rightarrow> nat \<Rightarrow> limbs \<times> limbs \<Rightarrow> bool" where
  "div_inv A D k qr \<longleftrightarrow> wide_ok (fst qr) \<and> wide_ok (snd qr) \<and>
     wval (fst qr) = (A div 2 ^ k div D) * 2 ^ k \<and> wval (snd qr) = A div 2 ^ k mod D"

lemma div_pow_Suc: "(A :: nat) div 2 ^ b = 2 * (A div 2 ^ Suc b) + A div 2 ^ b mod 2"
  using mult_div_mod_eq [of 2 "A div 2 ^ b"] by (simp add: div_mult2_eq [symmetric] mult.commute)

lemma div_mod_unique_nat:
  fixes a D q r :: nat
  assumes "a = r + D * q" and "r < D"
  shows "a div D = q \<and> a mod D = r"
  using assms by simp

lemma div_step_number:
  fixes X D t :: nat
  assumes "0 < D" and "t \<le> 1"
  shows "if D \<le> 2 * (X mod D) + t
    then (2 * X + t) div D = 2 * (X div D) + 1 \<and> (2 * X + t) mod D = 2 * (X mod D) + t - D
    else (2 * X + t) div D = 2 * (X div D) \<and> (2 * X + t) mod D = 2 * (X mod D) + t"
proof -
  let ?r = "2 * (X mod D) + t"
  have eq: "2 * X + t = ?r + D * (2 * (X div D))"
  proof -
    have "2 * X + t = 2 * (X mod D + D * (X div D)) + t" by (simp only: mod_mult_div_eq)
    then show ?thesis by (simp only: distrib_left mult.assoc mult.left_commute [of 2] add.assoc add.commute [of t] add.left_commute [of t])
  qed
  have lt: "X mod D < D" using assms(1) by simp
  show ?thesis
  proof (cases "D \<le> ?r")
    case True
    then have "2 * X + t = (?r - D) + D * (2 * (X div D) + 1)" using eq by (simp add: algebra_simps)
    moreover have "?r - D < D" using lt assms True by linarith
    ultimately have "(2 * X + t) div D = 2 * (X div D) + 1 \<and> (2 * X + t) mod D = ?r - D"
      by (rule div_mod_unique_nat)
    then show ?thesis using True by simp
  next
    case False
    then have "(2 * X + t) div D = 2 * (X div D) \<and> (2 * X + t) mod D = ?r"
      using eq by (intro div_mod_unique_nat) simp_all
    then show ?thesis using False by simp
  qed
qed

lemma div_inv_keep:
  assumes "0 < D" and "A div 2 ^ b = 2 * X + t" and "t \<le> 1" and "wide_ok q" and "wide_ok r"
    and "wval q = X div D * 2 ^ Suc b" and "wval r = 2 * (X mod D) + t" and "wval r < D"
  shows "div_inv A D b (q, r)"
proof -
  have "(2 * X + t) div D = 2 * (X div D) \<and> (2 * X + t) mod D = 2 * (X mod D) + t"
    using div_step_number [OF assms(1,3), of X] assms(7,8) by simp
  then show ?thesis using assms by (simp add: div_inv_def)
qed

lemma div_inv_set:
  assumes "0 < D" and "A div 2 ^ b = 2 * X + t" and "t \<le> 1" and "wide_ok q1" and "wide_ok r"
    and "wval q1 = X div D * 2 ^ Suc b + 2 ^ b" and "wval r = 2 * (X mod D) + t - D" and "D \<le> 2 * (X mod D) + t"
  shows "div_inv A D b (q1, r)"
proof -
  have "(2 * X + t) div D = 2 * (X div D) + 1 \<and> (2 * X + t) mod D = 2 * (X mod D) + t - D"
    using div_step_number [OF assms(1,3), of X] assms(8) by simp
  then show ?thesis using assms by (simp add: div_inv_def)
qed

lemma or_one_head:
  assumes "wide_ok r" and "even (wval r)"
  shows "wide_ok (r[0 := r ! 0 OR 1]) \<and> wval (r[0 := r ! 0 OR 1]) = wval r + 1"
proof -
  have l: "0 < length r" using assms(1) by (simp add: wide_ok_def limb_count_def)
  have "even (unat (r ! 0))" using assms(2) wval_nth [OF l] by (simp add: even_mod_4_div_2 dvd_mod_iff)
  then have "unat (r ! 0 OR 1) = unat (r ! 0) + 1" using unat_or_bit [of "r ! 0" 0] by simp
  then show ?thesis using wval_update [OF l, of "r ! 0 OR 1"] assms(1) by (simp add: wide_ok_def)
qed

lemma div_step_inv:
  assumes a: "wide_ok a" and d: "wide_ok d" and D: "0 < wval d" and b: "b < num_bits"
    and inv: "div_inv (wval a) (wval d) (Suc b) qr"
  shows "\<exists>qr'. div_step a d b qr = Inr qr' \<and> div_inv (wval a) (wval d) b qr'"
proof -
  obtain q r where qr: "qr = (q, r)" by (cases qr)
  let ?A = "wval a" and ?D = "wval d"
  let ?X = "?A div 2 ^ Suc b" and ?t = "?A div 2 ^ b mod 2"
  have okq: "wide_ok q" and okr: "wide_ok r" and q: "wval q = (?X div ?D) * 2 ^ Suc b" and r: "wval r = ?X mod ?D"
    using inv by (simp_all add: div_inv_def qr)
  have lt: "?A < 2 ^ 256" using wval_less [of a] a by (simp add: wide_ok_def limb_count_def)
  have "?X \<le> ?A div 2" by (intro div_le_mono2) simp_all
  then have r2: "2 * wval r < 2 ^ 256" using lt r mod_less_eq_dividend [of ?X ?D] by linarith
  define r1 where "r1 = wide_shl r 1"
  have r1: "wide_ok r1 \<and> wval r1 = 2 * wval r"
    using wide_shl_wval [OF okr, of 1] r2 by (simp add: r1_def mult.commute)
  define rr where "rr = (if test_bit a b then r1[0 := r1 ! 0 OR 1] else r1)"
  have tb: "test_bit a b \<longleftrightarrow> ?t = 1"
    using test_bit_iff [OF a b] by (simp add: odd_iff_mod_2_eq_one)
  have rr: "wide_ok rr \<and> wval rr = 2 * (?X mod ?D) + ?t"
  proof (cases "test_bit a b")
    case True
    then show ?thesis using or_one_head [of r1] r1 r tb by (simp add: rr_def)
  next
    case False
    then have "?t = 0" using tb by simp
    then show ?thesis using r1 r False by (simp add: rr_def)
  qed
  have len: "length rr = length d" using rr d by (simp add: wide_ok_def)
  have Ab: "?A div 2 ^ b = 2 * ?X + ?t" by (rule div_pow_Suc)
  have t1: "?t \<le> 1" by simp
  show ?thesis
  proof (cases "?D \<le> wval rr")
    case False
    then have "div_step a d b qr = Inr (q, rr)"
      using len unfolding div_step_def qr Let_def prod.case r1_def [symmetric] rr_def [symmetric]
      by (simp add: wide_ge_def wide_less_wval)
    moreover have "div_inv ?A ?D b (q, rr)"
      using rr False by (intro div_inv_keep [OF D Ab t1 okq _ q]) simp_all
    ultimately show ?thesis by blast
  next
    case True
    have sub: "wide_sub rr d = Inr (fst (sub_loop rr d 0))" "wide_ok (fst (sub_loop rr d 0))"
        "wval (fst (sub_loop rr d 0)) = wval rr - ?D"
      using wide_sub_wval [of rr d] rr d True by auto
    have "even (wval q div 2 ^ b)" by (simp add: q)
    then have "\<not> test_bit q b" using test_bit_iff [OF okq b] by simp
    then obtain q1 where q1: "set_bit_at q b = Inr q1" "wide_ok q1" "wval q1 = wval q + 2 ^ b"
      using set_bit_at_wval [OF okq b] by blast
    have "div_step a d b qr = Inr (q1, fst (sub_loop rr d 0))"
      using len True unfolding div_step_def qr Let_def prod.case r1_def [symmetric] rr_def [symmetric]
      by (simp add: wide_ge_def wide_less_wval sub q1)
    moreover have "div_inv ?A ?D b (q1, fst (sub_loop rr d 0))"
      using rr True sub q q1 by (intro div_inv_set [OF D Ab t1]) simp_all
    ultimately show ?thesis by blast
  qed
qed

lemma div_loop_inv:
  assumes "wide_ok a" and "wide_ok d" and "0 < wval d"
  shows "k \<le> num_bits \<Longrightarrow> div_inv (wval a) (wval d) k qr \<Longrightarrow>
    \<exists>qr'. div_loop a d k qr = Inr qr' \<and> div_inv (wval a) (wval d) 0 qr'"
proof (induction k arbitrary: qr)
  case (Suc k)
  obtain qr1 where s: "div_step a d k qr = Inr qr1" "div_inv (wval a) (wval d) k qr1"
    using div_step_inv [OF assms _ Suc.prems(2)] Suc.prems(1) by auto
  then show ?case using Suc.IH [OF _ s(2)] Suc.prems(1) by simp
qed simp

lemma wide_ok_zero: "wide_ok wide_zero" and wval_wide_zero: "wval wide_zero = 0"
  by (simp_all add: wide_ok_def wide_zero_def)

lemma wide_div_wval:
  assumes "wide_ok a" and "wide_ok d" and "wval d \<noteq> 0"
  shows "\<exists>q. wide_div a d = Inr q \<and> wide_ok q \<and> wval q = wval a div wval d"
proof -
  have "wval a < 2 ^ num_bits"
    using wval_less [of a] assms(1) by (simp add: wide_ok_def limb_count_def num_bits_def limb_bits_def)
  then have "div_inv (wval a) (wval d) num_bits (wide_zero, wide_zero)"
    by (simp add: div_inv_def wide_ok_zero wval_wide_zero)
  then obtain qr where qr: "div_loop a d num_bits (wide_zero, wide_zero) = Inr qr" "div_inv (wval a) (wval d) 0 qr"
    using div_loop_inv [OF assms(1,2) _ order_refl] assms(3) by blast
  then show ?thesis using assms(3)
    by (cases qr) (auto simp: wide_div_def is_zero_iff div_inv_def)
qed

lemma assign_loop_wval:
  "length (fst (assign_loop n v)) = n \<and> wval (fst (assign_loop n v)) = unat v mod 2 ^ (32 * n) \<and>
   unat (snd (assign_loop n v)) = unat v div 2 ^ (32 * n)"
proof (induction n arbitrary: v)
  case (Suc n)
  obtain ls v' where lv: "assign_loop n (drop_bit 32 v) = (ls, v')" by (cases "assign_loop n (drop_bit 32 v)")
  have m: "(ucast limb_mask :: u128) = mask 32" by (simp add: limb_mask_eq mask_eq_exp_minus_1)
  have u: "unat (ucast (v AND ucast limb_mask) :: u32) = unat v mod 2 ^ 32"
    by (simp add: m unat_ucast_mod unat_and_mask_mod)
  have IH: "length ls = n" "wval ls = unat v div 2 ^ 32 mod 2 ^ (32 * n)" "unat v' = unat v div 2 ^ 32 div 2 ^ (32 * n)"
    using Suc.IH [of "drop_bit 32 v"] by (simp_all add: lv unat_drop_bit_div del: drop_bit_eq_div)
  have "unat v mod 2 ^ 32 + 2 ^ 32 * (unat v div 2 ^ 32 mod 2 ^ (32 * n)) = unat v mod (2 ^ 32 * 2 ^ (32 * n))"
    by (simp only: mod_mult2_eq add.commute)
  then show ?case using IH u by (simp add: lv power_add div_mult2_eq)
qed simp

lemma from_uint128_wval: "\<exists>ws. from_uint128 v = Inr ws \<and> wide_ok ws \<and> wval ws = unat v"
proof -
  have lt: "unat v < 2 ^ 128" using unsigned_less [of v, where 'a = nat] by simp
  obtain ls r where lr: "assign_loop limb_count v = (ls, r)" by (cases "assign_loop limb_count v")
  have "length ls = 8" "wval ls = unat v mod 2 ^ 256" "unat r = unat v div 2 ^ 256"
    using assign_loop_wval [of limb_count v, unfolded lr] by (simp_all add: limb_count_def)
  moreover have "unat v div 2 ^ 256 = 0" "unat v mod 2 ^ 256 = unat v" using lt by simp_all
  ultimately have "r = 0" "wide_ok ls" "wval ls = unat v" by (simp_all add: unat_eq_zero wide_ok_def limb_count_def)
  then show ?thesis by (simp add: from_uint128_def lr)
qed

lemma to_uint128_wval:
  assumes "wide_ok ws"
  shows "if wval ws < 2 ^ 128 then \<exists>v. to_uint128 ws = Inr v \<and> unat v = wval ws
    else to_uint128 ws = Inl (Throw (Overflow_error ''value exceeds 128 bits''))"
proof -
  obtain a b c d e f g h where ws: "ws = [a, b, c, d, e, f, g, h]" using limbs8_cases [OF assms] .
  have lims: "unat a < 2 ^ 32" "unat b < 2 ^ 32" "unat c < 2 ^ 32" "unat d < 2 ^ 32"
    using unat_u32_less by simp_all
  have up: "unat (ucast w :: u128) = unat w" for w :: u32 by (rule unat_ucast_up) simp
  define v1 where "v1 = (push_bit 32 0 OR ucast d :: u128)"
  define v2 where "v2 = (push_bit 32 v1 OR ucast c :: u128)"
  define v3 where "v3 = (push_bit 32 v2 OR ucast b :: u128)"
  define v4 where "v4 = (push_bit 32 v3 OR ucast a :: u128)"
  have v1: "unat v1 = unat d" unfolding v1_def by (simp add: up)
  have v2: "unat v2 = unat d * 2 ^ 32 + unat c"
    unfolding v2_def using lims by (subst unat_push_or_low) (simp_all add: up v1)
  have v3: "unat v3 = (unat d * 2 ^ 32 + unat c) * 2 ^ 32 + unat b"
    unfolding v3_def using lims by (subst unat_push_or_low) (simp_all add: up v2)
  have v4: "unat v4 = ((unat d * 2 ^ 32 + unat c) * 2 ^ 32 + unat b) * 2 ^ 32 + unat a"
    unfolding v4_def using lims by (subst unat_push_or_low) (simp_all add: up v3)
  have upt4: "[0..<4] = [0, 1, 2, 3]" by (simp add: upt_rec)
  have min4: "min limb_count 4 = 4" by (simp add: limb_count_def)
  have nths: "ws ! (4 - 1 - 0) = d" "ws ! (4 - 1 - 1) = c" "ws ! (4 - 1 - 2) = b" "ws ! (4 - 1 - 3) = a"
    by (simp_all add: ws)
  have drop4: "list_all (\<lambda>l. l = 0) (drop 4 ws) \<longleftrightarrow> e = 0 \<and> f = 0 \<and> g = 0 \<and> h = 0"
    by (simp add: ws)
  have fold4: "fold (\<lambda>i v. push_bit limb_bits v OR ucast (ws ! (4 - 1 - i))) [0, 1, 2, 3] (0 :: u128) = v4"
    unfolding fold_simps nths limb_bits_def v4_def v3_def v2_def v1_def ..
  have eq: "to_uint128 ws = (if e = 0 \<and> f = 0 \<and> g = 0 \<and> h = 0 then Inr v4
      else Inl (Throw (Overflow_error ''value exceeds 128 bits'')))"
    unfolding to_uint128_def Let_def min4 upt4 fold4 drop4 ..
  have "wval [a, b, c, d] = unat v4" unfolding v4 by simp
  then have "wval ws = unat v4 + 2 ^ 128 * wval [e, f, g, h]"
    using wval_append [of "[a, b, c, d]" "[e, f, g, h]"] by (simp only: ws append_Cons append_Nil list.size) simp
  moreover have "unat v4 < 2 ^ 128" using unsigned_less [of v4, where 'a = nat] by simp
  moreover have "wval [e, f, g, h] = 0 \<longleftrightarrow> e = 0 \<and> f = 0 \<and> g = 0 \<and> h = 0"
    using wval_zero_iff [of "[e, f, g, h]"] by simp
  ultimately show ?thesis unfolding eq by (cases "wval [e, f, g, h] = 0") (simp_all only: mult_0_right add_0_right if_True if_False simp_thms, auto)
qed

section \<open>Properties\<close>

text \<open>
  C23: the limb loops compute on numbers: addition, multiplication and left shift modulo 2^256, the
  comparison, the subtraction or its underflow exception, and the long division as the exact quotient.
\<close>

theorem wide_arithmetic:
  assumes "wide_ok a" and "wide_ok b"
  shows "wval (wide_add a b) = (wval a + wval b) mod 2 ^ 256 \<and> wval (wide_mul a b) = wval a * wval b mod 2 ^ 256 \<and>
    wval (wide_shl a s) = wval a * 2 ^ s mod 2 ^ 256 \<and> (wide_less a b \<longleftrightarrow> wval a < wval b) \<and>
    (if wval a < wval b then wide_sub a b = Inl (Throw (Underflow_error ''uintwide_t subtraction underflow''))
     else \<exists>d. wide_sub a b = Inr d \<and> wval d = wval a - wval b) \<and>
    (if wval b = 0 then wide_div a b = Inl (Throw (Domain_error ''division by zero''))
     else \<exists>q. wide_div a b = Inr q \<and> wval q = wval a div wval b)"
proof -
  have "length a = length b" using assms by (simp add: wide_ok_def)
  then show ?thesis
    using wide_add_wval [OF assms] wide_mul_wval [OF assms] wide_shl_wval [OF assms(1)] wide_less_wval [of a b]
      wide_sub_wval [OF assms] wide_div_wval [OF assms] is_zero_iff [of b]
    by (auto simp: wide_div_def)
qed

theorem wide_arithmetic_witness:
  "\<exists>q. wide_div [7, 0, 0, 0, 0, 0, 0, 0] [2, 0, 0, 0, 0, 0, 0, 0] = Inr q \<and> wval q = 3"
  using wide_arithmetic [of "[7, 0, 0, 0, 0, 0, 0, 0]" "[2, 0, 0, 0, 0, 0, 0, 0]"]
  by (simp add: wide_ok_def limb_count_def)

end
