(* ===== verification/Decimal.thy ===== *)
theory Decimal
  imports Wide_Int
begin

text \<open>
  The fixed-point number of src/src/common/include/hermeneutic/common/decimal.hpp: a signed 128-bit
  integer that counts units of \<open>10\<^sup>-\<^sup>1\<^sup>8\<close>.

  \<open>DecimalInt128\<close> and \<open>DecimalWide\<close> share this representation and differ in multiplication and division
  only: the former multiplies in 128 bits (\<open>Int128Ops\<close>), the latter in 256 bits (\<open>WideOps\<close>). The build
  default is \<open>DecimalInt128\<close>; the band calculators widen to \<open>DecimalWide\<close> for their products. Signed
  overflow is undefined in C++; the model wraps around as the compiled two's complement code does, and
  every lemma that reads a result as a number states the range it needs. The \<open>DecimalDouble\<close> backend and
  the conversions from and to \<open>double\<close> are floating point and not modelled.
\<close>

named_theorems decimal_simps

section \<open>Representation and order\<close>

datatype decimal = Dec (raw: "128 word")

definition kScale :: i128 where
  "kScale = 1000000000000000000"

definition fromRaw :: "i128 \<Rightarrow> decimal" where
  "fromRaw r = Dec r"

definition fromInteger :: "i64 \<Rightarrow> decimal" where
  "fromInteger i = fromRaw (scast i * kScale)"

abbreviation dval :: "decimal \<Rightarrow> int" where
  "dval d \<equiv> sint (raw d)"

definition kZero :: decimal where
  "kZero = fromRaw 0"

lemma dval_inject: "dval a = dval b \<longleftrightarrow> a = b"
  by (cases a; cases b) (auto intro: signed_word_eqI)

text \<open>The comparison operators; the class constants of the order are these.\<close>

definition decimal_less :: "decimal \<Rightarrow> decimal \<Rightarrow> bool" where
  "decimal_less lhs rhs \<longleftrightarrow> raw lhs <s raw rhs"

definition decimal_less_eq :: "decimal \<Rightarrow> decimal \<Rightarrow> bool" where
  "decimal_less_eq lhs rhs \<longleftrightarrow> \<not> decimal_less rhs lhs"

instantiation decimal :: linorder
begin

definition less_eq_decimal :: "decimal \<Rightarrow> decimal \<Rightarrow> bool" where
  "less_eq_decimal a b \<longleftrightarrow> decimal_less_eq a b"

definition less_decimal :: "decimal \<Rightarrow> decimal \<Rightarrow> bool" where
  "less_decimal a b \<longleftrightarrow> decimal_less a b"

instance
  by standard
    (auto simp: less_eq_decimal_def less_decimal_def decimal_less_def decimal_less_eq_def word_sless_alt dval_inject)

end

lemmas decimal_order_defs = less_eq_decimal_def less_decimal_def decimal_less_def decimal_less_eq_def

lemma decimal_le_iff [decimal_simps]: "a \<le> b \<longleftrightarrow> dval a \<le> dval b"
  by (auto simp: decimal_order_defs word_sless_alt)

lemma decimal_less_iff [decimal_simps]: "a < b \<longleftrightarrow> dval a < dval b"
  by (simp add: decimal_order_defs word_sless_alt)

text \<open>The compound assignments, through which \<open>+\<close> and \<open>-\<close> are defined; the sum wraps around.\<close>

definition decimal_plus :: "decimal \<Rightarrow> decimal \<Rightarrow> decimal" where
  "decimal_plus lhs rhs = Dec (raw lhs + raw rhs)"

definition decimal_minus :: "decimal \<Rightarrow> decimal \<Rightarrow> decimal" where
  "decimal_minus lhs rhs = Dec (raw lhs - raw rhs)"

instantiation decimal :: "{zero, plus, minus, uminus}"
begin

definition zero_decimal :: decimal where
  "zero_decimal = fromRaw 0"

definition plus_decimal :: "decimal \<Rightarrow> decimal \<Rightarrow> decimal" where
  "plus_decimal a b = decimal_plus a b"

definition minus_decimal :: "decimal \<Rightarrow> decimal \<Rightarrow> decimal" where
  "minus_decimal a b = decimal_minus a b"

definition uminus_decimal :: "decimal \<Rightarrow> decimal" where
  "uminus_decimal a = Dec (- raw a)"

instance ..

end

lemmas decimal_group_defs = plus_decimal_def minus_decimal_def uminus_decimal_def zero_decimal_def decimal_plus_def decimal_minus_def
  fromRaw_def

instance decimal :: ab_group_add
proof
  fix a b c :: decimal
  show "a + b + c = a + (b + c)" by (simp add: decimal_group_defs)
  show "a + b = b + a" by (simp add: decimal_group_defs add.commute)
  show "0 + a = a" "- a + a = 0" "a - b = a + - b" by (simp_all add: decimal_group_defs)
qed

lemma kZero_zero [simp]: "kZero = 0"
  by (simp add: kZero_def zero_decimal_def)

lemma dval_zero [simp]: "dval 0 = 0"
  by (simp add: zero_decimal_def fromRaw_def)

section \<open>Operations\<close>

text \<open>C++ integer division and remainder round towards zero.\<close>

definition tdiv :: "i128 \<Rightarrow> i128 \<Rightarrow> i128" where
  "tdiv a b = word_of_int (sint a sdiv sint b)"

definition tmod :: "i128 \<Rightarrow> i128 \<Rightarrow> i128" where
  "tmod a b = word_of_int (sint a smod sint b)"

text \<open>\<open>std::isdigit\<close> in the C locale, and the numeric value \<open>c - '0'\<close> of a digit.\<close>

definition char_code :: "char \<Rightarrow> int" where
  "char_code c = of_char c"

definition is_digit_char :: "char \<Rightarrow> bool" where
  "is_digit_char c \<longleftrightarrow> 48 \<le> char_code c \<and> char_code c \<le> 57"

definition digit_word :: "char \<Rightarrow> i128" where
  "digit_word c = word_of_int (char_code c - 48)"

definition digit_char :: "i128 \<Rightarrow> char" where
  "digit_char w = char_of (48 + sint w)"

subsection \<open>Parsing\<close>

fun scan_integral :: "string \<Rightarrow> i128 \<Rightarrow> i128 \<times> string" where
  "scan_integral [] acc = (acc, [])"
| "scan_integral (c # cs) acc =
     (if is_digit_char c then scan_integral cs (acc * 10 + digit_word c) else (acc, c # cs))"

fun scan_fraction :: "string \<Rightarrow> i128 \<Rightarrow> nat \<Rightarrow> i128 \<times> nat \<times> string" where
  "scan_fraction [] f n = (f, n, [])"
| "scan_fraction (c # cs) f n =
     (if is_digit_char c
      then if n < 18 then scan_fraction cs (f * 10 + digit_word c) (Suc n) else scan_fraction cs f n
      else (f, n, c # cs))"

function pad_fraction :: "i128 \<Rightarrow> nat \<Rightarrow> i128" where
  "pad_fraction f n = (if n < 18 then pad_fraction (f * 10) (Suc n) else f)"
  by pat_completeness auto
termination
  by (relation "measure (\<lambda>(f, n). 18 - n)") auto

declare pad_fraction.simps [simp del]

definition bad_format :: "decimal outcome" where
  "bad_format = Inl (Throw (Invalid_argument ''invalid decimal format''))"

definition finish_parse :: "bool \<Rightarrow> i128 \<Rightarrow> i128 \<Rightarrow> decimal outcome" where
  "finish_parse negative integral fractional =
     (let r = integral * kScale + fractional in Inr (fromRaw (if negative then - r else r)))"

definition fromString :: "string \<Rightarrow> decimal outcome" where
  "fromString text =
     (case text of
        [] \<Rightarrow> Inl (Throw (Invalid_argument ''empty decimal''))
      | c # cs \<Rightarrow>
          (let negative = (c = CHR ''-'');
               rest = (if c = CHR ''+'' \<or> c = CHR ''-'' then cs else text)
           in case rest of
                [] \<Rightarrow> bad_format
              | d # _ \<Rightarrow>
                  if \<not> is_digit_char d then bad_format
                  else (let (integral, rest1) = scan_integral rest 0
                        in case rest1 of
                             [] \<Rightarrow> finish_parse negative integral 0
                           | p # ps \<Rightarrow>
                               if p \<noteq> CHR ''.'' then bad_format
                               else (let (f, n, rest2) = scan_fraction ps 0 0
                                     in if rest2 \<noteq> [] then bad_format
                                        else finish_parse negative integral (pad_fraction f n)))))"

subsection \<open>Printing\<close>

lemma tdiv_unat:
  assumes "0 \<le> sint a" and "0 \<le> sint b"
  shows "unat (tdiv a b) = unat a div unat b"
proof -
  have "sint a sdiv sint b = uint a div uint b"
    using assms by (simp add: signed_divide_int_def sgn_if uint_eq_sint abs_mult)
  then have "tdiv a b = a div b" by (simp add: tdiv_def word_div_def)
  then show ?thesis by (simp add: unat_div_distrib)
qed

text \<open>\<open>integerToString\<close> pushes the digits from the lowest up and reverses them.\<close>

function low_digits :: "i128 \<Rightarrow> string" where
  "low_digits tmp = (if 0 <s tmp then digit_char (tmod tmp 10) # low_digits (tdiv tmp 10) else [])"
  by pat_completeness auto
termination
proof (relation "measure unat")
  fix tmp :: i128
  assume "0 <s tmp"
  then have p: "0 < sint tmp" by (simp add: word_sless_alt)
  then have "unat (tdiv tmp 10) = unat tmp div 10" by (subst tdiv_unat) simp_all
  moreover have "tmp \<noteq> 0" using p by auto
  then have "0 < unat tmp" by (simp add: unat_gt_0)
  ultimately show "(tdiv tmp 10, tmp) \<in> measure unat" by simp
qed simp

declare low_digits.simps [simp del]

definition integerToString :: "i128 \<Rightarrow> string" where
  "integerToString v = (if v = 0 then ''0'' else rev (low_digits v))"

text \<open>The loop that fills \<open>fractional_str\<close> from its last position backwards.\<close>

fun fraction_digits :: "nat \<Rightarrow> i128 \<Rightarrow> string" where
  "fraction_digits 0 f = []"
| "fraction_digits (Suc n) f = fraction_digits n (tdiv f 10) @ [digit_char (tmod f 10)]"

definition clamp_precision :: "int \<Rightarrow> nat" where
  "clamp_precision p = nat (min 18 (max 0 p))"

definition toString :: "int \<Rightarrow> decimal \<Rightarrow> string" where
  "toString precision d =
     (let p = clamp_precision precision; v = raw d
      in if v = 0 then (if p = 0 then ''0'' else ''0.'' @ replicate p (CHR ''0''))
         else (let negative = (v <s 0);
                   abs_value = (if negative then - v else v);
                   integral = tdiv abs_value kScale;
                   fractional = tmod abs_value kScale;
                   integral_str = integerToString integral
               in if p = 0 then (if negative then ''-'' @ integral_str else integral_str)
                  else (let fractional_str = fraction_digits 18 fractional;
                            kept = (if p < 18 then take p fractional_str else fractional_str);
                            result = integral_str @ ''.'' @ kept
                        in if negative then CHR ''-'' # result else result)))"

subsection \<open>Multiplication and division\<close>

definition magnitude :: "i128 \<Rightarrow> i128" where
  "magnitude v = (if v <s 0 then - v else v)"

definition signs_differ :: "decimal \<Rightarrow> decimal \<Rightarrow> bool" where
  "signs_differ a b \<longleftrightarrow> (raw a <s 0) \<noteq> (raw b <s 0)"

definition fromMagnitude :: "i128 \<Rightarrow> bool \<Rightarrow> decimal" where
  "fromMagnitude m negative = fromRaw (if negative then - m else m)"

definition mult_int128 :: "decimal \<Rightarrow> decimal \<Rightarrow> decimal" where
  "mult_int128 lhs rhs =
     (let product = magnitude (raw lhs) * magnitude (raw rhs);
          scaled = tdiv product kScale
      in fromMagnitude scaled (signs_differ lhs rhs))"

definition divide_int128 :: "decimal \<Rightarrow> decimal \<Rightarrow> decimal outcome" where
  "divide_int128 lhs rhs =
     (if raw rhs = 0 then Inl (Throw (Domain_error ''division by zero''))
      else (let numerator = magnitude (raw lhs) * kScale;
                quotient = tdiv numerator (magnitude (raw rhs))
            in Inr (fromMagnitude quotient (signs_differ lhs rhs))))"

text \<open>\<open>WideOps::from_storage\<close> and \<open>WideOps::to_storage\<close>.\<close>

definition wide_from_storage :: "i128 \<Rightarrow> limbs outcome" where
  "wide_from_storage v = from_uint128 v"

definition wide_to_storage :: "limbs \<Rightarrow> i128 outcome" where
  "wide_to_storage w = to_uint128 w"

definition mult_wide :: "decimal \<Rightarrow> decimal \<Rightarrow> decimal outcome" where
  "mult_wide lhs rhs =
     bind_outcome (wide_from_storage (magnitude (raw lhs))) (\<lambda>left.
     bind_outcome (wide_from_storage (magnitude (raw rhs))) (\<lambda>right.
     bind_outcome (wide_from_storage kScale) (\<lambda>scale.
     bind_outcome (wide_div (wide_mul left right) scale) (\<lambda>scaled.
     bind_outcome (wide_to_storage scaled) (\<lambda>m.
       Inr (fromMagnitude m (signs_differ lhs rhs)))))))"

definition divide_wide :: "decimal \<Rightarrow> decimal \<Rightarrow> decimal outcome" where
  "divide_wide lhs rhs =
     (if raw rhs = 0 then Inl (Throw (Domain_error ''division by zero''))
      else
        bind_outcome (wide_from_storage (magnitude (raw lhs))) (\<lambda>left.
        bind_outcome (wide_from_storage kScale) (\<lambda>scale.
        bind_outcome (wide_from_storage (magnitude (raw rhs))) (\<lambda>denominator.
        bind_outcome (wide_div (wide_mul left scale) denominator) (\<lambda>quotient.
        bind_outcome (wide_to_storage quotient) (\<lambda>m.
          Inr (fromMagnitude m (signs_differ lhs rhs))))))))"

subsection \<open>Helpers\<close>

definition abs_decimal :: "decimal \<Rightarrow> decimal" where
  "abs_decimal d = (if raw d <s 0 then fromRaw (- raw d) else d)"

definition min_decimal :: "decimal \<Rightarrow> decimal \<Rightarrow> decimal" where
  "min_decimal lhs rhs = (if lhs < rhs then lhs else rhs)"

definition max_decimal :: "decimal \<Rightarrow> decimal \<Rightarrow> decimal" where
  "max_decimal lhs rhs = (if lhs < rhs then rhs else lhs)"

text \<open>\<open>std::hash\<close> folds the two halves; \<open>raw >> 64\<close> is an arithmetic shift.\<close>

definition decimal_hash_key :: "decimal \<Rightarrow> u64" where
  "decimal_hash_key d =
     (let high = ucast (signed_drop_bit 64 (raw d)); low = ucast (raw d AND 0xffffffffffffffff)
      in high XOR low)"

section \<open>Arithmetic\<close>

lemma int_less_2p: "int n < 2 ^ k \<longleftrightarrow> n < 2 ^ k"
  by (metis of_nat_less_iff of_nat_numeral of_nat_power)

lemma kScale_sint [simp]: "sint kScale = 10 ^ 18"
  by (simp add: kScale_def)

lemma kScale_unat [simp]: "unat kScale = 10 ^ 18"
  by (simp add: kScale_def)

lemma dval_bounds: "- (2 ^ 127) \<le> dval d" "dval d < 2 ^ 127"
  using sint_ge [of "raw d"] sint_lt [of "raw d"] by simp_all

lemma unat_minus_neg:
  fixes v :: "'a :: len word"
  assumes "sint v < 0"
  shows "uint (- v) = - sint v"
proof -
  have "uint (- v) = (- uint v) mod 2 ^ LENGTH('a)" by (simp add: uint_word_ariths)
  also have "\<dots> = (- sint v) mod 2 ^ LENGTH('a)"
    by (simp add: uint_sint take_bit_eq_mod mod_minus_eq)
  also have "\<dots> = - sint v"
  proof (rule mod_pos_pos_trivial)
    have "- sint v \<le> 2 ^ (LENGTH('a) - 1)" using sint_ge [of v] by linarith
    also have "\<dots> < (2 :: int) ^ LENGTH('a)" by simp
    finally show "- sint v < 2 ^ LENGTH('a)" .
    show "0 \<le> - sint v" using assms by linarith
  qed
  finally show ?thesis .
qed

lemma magnitude_uint: "uint (magnitude v) = \<bar>sint v\<bar>"
  by (simp add: magnitude_def word_sless_alt unat_minus_neg uint_eq_sint)

lemma magnitude_unat: "unat (magnitude v) = nat \<bar>sint v\<bar>"
  using magnitude_uint [of v] by (metis unat_eq_nat_uint)

lemma magnitude_sint:
  assumes "sint v \<noteq> - (2 ^ 127)"
  shows "sint (magnitude v) = \<bar>sint v\<bar>"
proof -
  have "\<bar>sint v\<bar> < 2 ^ 127" using sint_ge [of v] sint_lt [of v] assms by simp
  then show ?thesis using sint_eq_uint_small [of "magnitude v"] by (simp add: magnitude_uint)
qed

lemma sint_pos_small:
  fixes m :: "'a :: len word"
  assumes "unat m < 2 ^ (LENGTH('a) - 1)"
  shows "sint m = int (unat m)"
proof -
  have "int (unat m) < int (2 ^ (LENGTH('a) - 1))" using assms by (simp only: of_nat_less_iff)
  then show ?thesis by (simp add: sint_eq_uint_small)
qed

lemma sint_neg_small:
  fixes m :: "'a :: len word"
  assumes "unat m < 2 ^ (LENGTH('a) - 1)"
  shows "sint (- m) = - int (unat m)"
proof -
  have i: "int (unat m) < 2 ^ (LENGTH('a) - 1)"
    using assms by (metis of_nat_less_iff of_nat_numeral of_nat_power)
  have "0 - sint m = - int (unat m)" using sint_pos_small [OF assms] by simp
  moreover have "sint (0 - m) = sint (0 :: 'a word) - sint m"
  proof (rule sint_minus_no_wrap)
    show "- (2 ^ (LENGTH('a) - 1)) \<le> sint (0 :: 'a word) - sint m"
      unfolding sint_pos_small [OF assms] sint_0 using i by linarith
    have "sint (0 :: 'a word) - sint m \<le> 0" unfolding sint_pos_small [OF assms] sint_0 by linarith
    also have "(0 :: int) < 2 ^ (LENGTH('a) - 1)" by simp
    finally show "sint (0 :: 'a word) - sint m < 2 ^ (LENGTH('a) - 1)" .
  qed
  ultimately show ?thesis by simp
qed

lemma fromMagnitude_dval:
  assumes "unat m < 2 ^ 127"
  shows "dval (fromMagnitude m neg) = (if neg then - int (unat m) else int (unat m))"
proof -
  have "unat m < 2 ^ (LENGTH(128) - 1)" using assms by simp
  from sint_neg_small [OF this] sint_pos_small [OF this] show ?thesis
    by (cases neg) (simp_all only: fromMagnitude_def fromRaw_def decimal.sel if_True if_False)
qed

lemma signs_differ_iff: "signs_differ a b \<longleftrightarrow> (dval a < 0) \<noteq> (dval b < 0)"
  by (simp add: signs_differ_def word_sless_alt)

lemma signed_quotient:
  fixes x y s :: int
  assumes "0 < s"
  shows "(if (x < 0) \<noteq> (y < 0) then - int (nat \<bar>x\<bar> * nat \<bar>y\<bar> div nat s) else int (nat \<bar>x\<bar> * nat \<bar>y\<bar> div nat s))
    = (x * y) sdiv s"
proof -
  have "int (nat \<bar>x\<bar> * nat \<bar>y\<bar> div nat s) = \<bar>x * y\<bar> div s"
    using assms by (simp add: zdiv_int abs_mult)
  moreover have "(x * y) sdiv s = sgn (x * y) * (\<bar>x * y\<bar> div s)"
    using assms by (simp add: signed_divide_int_def sgn_mult)
  ultimately show ?thesis
    by (auto simp: sgn_if mult_less_0_iff zero_less_mult_iff)
qed

lemma mult_wide_core:
  "mult_wide a b = (let q = nat \<bar>dval a\<bar> * nat \<bar>dval b\<bar> div 10 ^ 18 in
     if q < 2 ^ 128 then Inr (fromMagnitude (word_of_nat q) (signs_differ a b))
     else Inl (Throw (Overflow_error ''value exceeds 128 bits'')))"
proof -
  let ?x = "nat \<bar>dval a\<bar>" and ?y = "nat \<bar>dval b\<bar>"
  obtain l where l: "wide_from_storage (magnitude (raw a)) = Inr l" "wide_ok l" "wval l = ?x"
    using from_uint128_wval [of "magnitude (raw a)"] by (auto simp: wide_from_storage_def magnitude_unat)
  obtain r where r: "wide_from_storage (magnitude (raw b)) = Inr r" "wide_ok r" "wval r = ?y"
    using from_uint128_wval [of "magnitude (raw b)"] by (auto simp: wide_from_storage_def magnitude_unat)
  obtain s where s: "wide_from_storage kScale = Inr s" "wide_ok s" "wval s = 10 ^ 18"
    using from_uint128_wval [of kScale] by (auto simp: wide_from_storage_def)
  have "?x \<le> 2 ^ 127" "?y \<le> 2 ^ 127" using dval_bounds [of a] dval_bounds [of b] by simp_all
  then have "?x * ?y \<le> 2 ^ 127 * 2 ^ 127" by (rule mult_le_mono)
  then have "?x * ?y < 2 ^ 256" by simp
  then have p: "wide_ok (wide_mul l r)" "wval (wide_mul l r) = ?x * ?y"
    using wide_mul_wval [OF l(2) r(2)] l(3) r(3) by simp_all
  obtain q where q: "wide_div (wide_mul l r) s = Inr q" "wide_ok q" "wval q = ?x * ?y div 10 ^ 18"
    using wide_div_wval [OF p(1) s(2)] p(2) s(3) by auto
  show ?thesis
  proof (cases "?x * ?y div 10 ^ 18 < 2 ^ 128")
    case True
    then obtain v where "to_uint128 q = Inr v" "unat v = ?x * ?y div 10 ^ 18"
      using to_uint128_wval [OF q(2)] q(3) by auto
    moreover from this(2) [symmetric] have "v = word_of_nat (?x * ?y div 10 ^ 18)" by simp
    ultimately show ?thesis using True
      by (simp only: mult_wide_def l(1) r(1) s(1) q(1) bind_outcome_Inr wide_to_storage_def Let_def if_True)
  next
    case False
    then have "to_uint128 q = Inl (Throw (Overflow_error ''value exceeds 128 bits''))"
      using to_uint128_wval [OF q(2)] q(3) by auto
    with False show ?thesis
      by (simp only: mult_wide_def l(1) r(1) s(1) q(1) bind_outcome_Inr bind_outcome_Inl wide_to_storage_def Let_def if_False)
  qed
qed

lemma divide_wide_core:
  assumes "raw b \<noteq> 0"
  shows "divide_wide a b = (let q = nat \<bar>dval a\<bar> * 10 ^ 18 div nat \<bar>dval b\<bar> in
     if q < 2 ^ 128 then Inr (fromMagnitude (word_of_nat q) (signs_differ a b))
     else Inl (Throw (Overflow_error ''value exceeds 128 bits'')))"
proof -
  let ?x = "nat \<bar>dval a\<bar>" and ?y = "nat \<bar>dval b\<bar>"
  obtain l where l: "wide_from_storage (magnitude (raw a)) = Inr l" "wide_ok l" "wval l = ?x"
    using from_uint128_wval [of "magnitude (raw a)"] by (auto simp: wide_from_storage_def magnitude_unat)
  obtain r where r: "wide_from_storage (magnitude (raw b)) = Inr r" "wide_ok r" "wval r = ?y"
    using from_uint128_wval [of "magnitude (raw b)"] by (auto simp: wide_from_storage_def magnitude_unat)
  obtain s where s: "wide_from_storage kScale = Inr s" "wide_ok s" "wval s = 10 ^ 18"
    using from_uint128_wval [of kScale] by (auto simp: wide_from_storage_def)
  have "?x \<le> 2 ^ 127" using dval_bounds [of a] by simp
  then have "?x * 10 ^ 18 \<le> 2 ^ 127 * 10 ^ 18" by (rule mult_le_mono1)
  then have "?x * 10 ^ 18 < 2 ^ 256" by simp
  then have p: "wide_ok (wide_mul l s)" "wval (wide_mul l s) = ?x * 10 ^ 18"
    using wide_mul_wval [OF l(2) s(2)] l(3) s(3) by simp_all
  have "?y \<noteq> 0" using assms dval_inject [of b 0] by (auto simp: zero_decimal_def fromRaw_def)
  then obtain q where q: "wide_div (wide_mul l s) r = Inr q" "wide_ok q" "wval q = ?x * 10 ^ 18 div ?y"
    using wide_div_wval [OF p(1) r(2)] p(2) r(3) by auto
  show ?thesis
  proof (cases "?x * 10 ^ 18 div ?y < 2 ^ 128")
    case True
    then obtain v where "to_uint128 q = Inr v" "unat v = ?x * 10 ^ 18 div ?y"
      using to_uint128_wval [OF q(2)] q(3) by auto
    moreover from this(2) [symmetric] have "v = word_of_nat (?x * 10 ^ 18 div ?y)" by simp
    ultimately show ?thesis using True assms
      by (simp only: divide_wide_def l(1) r(1) s(1) q(1) bind_outcome_Inr wide_to_storage_def Let_def if_True if_False)
  next
    case False
    then have "to_uint128 q = Inl (Throw (Overflow_error ''value exceeds 128 bits''))"
      using to_uint128_wval [OF q(2)] q(3) by auto
    with False assms show ?thesis
      by (simp only: divide_wide_def l(1) r(1) s(1) q(1) bind_outcome_Inr bind_outcome_Inl wide_to_storage_def Let_def if_False)
  qed
qed

lemma unat_word_of_nat_small: "n < 2 ^ LENGTH('a) \<Longrightarrow> unat (word_of_nat n :: 'a :: len word) = n"
  by (simp add: unat_of_nat take_bit_nat_eq_self)

lemma unat_i128_of_nat: "n < 2 ^ 127 \<Longrightarrow> unat (word_of_nat n :: i128) = n"
  by (rule unat_word_of_nat_small) simp

lemma fromMagnitude_of_nat:
  assumes "q < 2 ^ 127"
  shows "dval (fromMagnitude (word_of_nat q) neg) = (if neg then - int q else int q)"
  using fromMagnitude_dval [of "word_of_nat q" neg] unfolding unat_i128_of_nat [OF assms] using assms .

lemma mult_wide_value:
  assumes "\<bar>dval a * dval b\<bar> div 10 ^ 18 < 2 ^ 127"
  shows "\<exists>c. mult_wide a b = Inr c \<and> dval c = (dval a * dval b) sdiv 10 ^ 18"
proof -
  define q where "q = nat \<bar>dval a\<bar> * nat \<bar>dval b\<bar> div nat (10 ^ 18)"
  have iq: "int q = \<bar>dval a * dval b\<bar> div 10 ^ 18" by (simp add: q_def zdiv_int abs_mult)
  then have q: "q < 2 ^ 127" using assms unfolding int_less_2p [symmetric] by linarith
  then have u: "unat (word_of_nat q :: i128) = q" by (rule unat_i128_of_nat)
  have "dval (fromMagnitude (word_of_nat q) (signs_differ a b)) = (dval a * dval b) sdiv 10 ^ 18"
    unfolding fromMagnitude_of_nat [OF q] unfolding signs_differ_iff q_def by (rule signed_quotient) simp
  then show ?thesis using q by (simp add: mult_wide_core q_def Let_def)
qed

lemma mult_wide_overflow:
  assumes "2 ^ 128 \<le> \<bar>dval a * dval b\<bar> div 10 ^ 18"
  shows "mult_wide a b = Inl (Throw (Overflow_error ''value exceeds 128 bits''))"
proof -
  define q where "q = nat \<bar>dval a\<bar> * nat \<bar>dval b\<bar> div 10 ^ 18"
  have iq: "int q = \<bar>dval a * dval b\<bar> div 10 ^ 18" by (simp add: q_def zdiv_int abs_mult)
  then have "\<not> q < 2 ^ 128" using assms unfolding int_less_2p [symmetric] by linarith
  then show ?thesis unfolding mult_wide_core Let_def q_def [symmetric] by (simp only: if_False)
qed

lemma tdiv_unat_word:
  assumes "unat a < 2 ^ 127" and "unat b < 2 ^ 127"
  shows "tdiv a b = word_of_nat (unat a div unat b)"
proof -
  have "0 \<le> sint a" "0 \<le> sint b"
    using sint_pos_small [of a] sint_pos_small [of b] assms by simp_all
  then have "unat (tdiv a b) = unat a div unat b" by (rule tdiv_unat)
  from this [symmetric] show ?thesis by simp
qed

lemma mult_int128_value:
  assumes "\<bar>dval a * dval b\<bar> < 2 ^ 127"
  shows "dval (mult_int128 a b) = (dval a * dval b) sdiv 10 ^ 18"
proof -
  let ?p = "nat \<bar>dval a\<bar> * nat \<bar>dval b\<bar>"
  have ip: "int ?p = \<bar>dval a * dval b\<bar>" by (simp add: abs_mult)
  then have p: "?p < 2 ^ 127" using assms unfolding int_less_2p [symmetric] by linarith
  have up: "unat (magnitude (raw a) * magnitude (raw b)) = ?p"
    using p by (subst unat_mult_no_wrap) (simp_all add: magnitude_unat)
  then have t: "tdiv (magnitude (raw a) * magnitude (raw b)) kScale = word_of_nat (?p div 10 ^ 18)"
    using p by (subst tdiv_unat_word) simp_all
  have q: "?p div nat (10 ^ 18) < 2 ^ 127"
    using p by (rule le_less_trans [OF div_le_dividend])
  then have u: "unat (word_of_nat (?p div nat (10 ^ 18)) :: i128) = ?p div nat (10 ^ 18)"
    by (rule unat_i128_of_nat)
  have "dval (fromMagnitude (word_of_nat (?p div nat (10 ^ 18))) (signs_differ a b)) = (dval a * dval b) sdiv 10 ^ 18"
    unfolding fromMagnitude_of_nat [OF q] signs_differ_iff by (rule signed_quotient) simp
  then show ?thesis by (simp add: mult_int128_def t Let_def)
qed

lemma divide_wide_value:
  assumes "dval b \<noteq> 0" and "\<bar>dval a\<bar> * 10 ^ 18 div \<bar>dval b\<bar> < 2 ^ 127"
  shows "\<exists>c. divide_wide a b = Inr c \<and> dval c = (dval a * 10 ^ 18) sdiv dval b"
proof -
  define q where "q = nat \<bar>dval a\<bar> * 10 ^ 18 div nat \<bar>dval b\<bar>"
  have iq: "int q = \<bar>dval a\<bar> * 10 ^ 18 div \<bar>dval b\<bar>" by (simp add: q_def zdiv_int)
  then have q: "q < 2 ^ 127" using assms unfolding int_less_2p [symmetric] by linarith
  then have u: "unat (word_of_nat q :: i128) = q" by (rule unat_i128_of_nat)
  have b: "raw b \<noteq> 0" using assms(1) by auto
  have sd: "(dval a * 10 ^ 18) sdiv dval b = (if signs_differ a b then - int q else int q)"
    unfolding iq signs_differ_iff using assms(1)
    by (auto simp: signed_divide_int_def sgn_if abs_mult mult_less_0_iff zero_less_mult_iff)
  have "dval (fromMagnitude (word_of_nat q) (signs_differ a b)) = (dval a * 10 ^ 18) sdiv dval b"
    unfolding fromMagnitude_of_nat [OF q] sd ..
  then show ?thesis using q by (simp add: divide_wide_core [OF b] q_def Let_def)
qed

lemma divide_int128_value:
  assumes "dval b \<noteq> 0" and "\<bar>dval a\<bar> * 10 ^ 18 < 2 ^ 127" and "dval b \<noteq> - (2 ^ 127)"
  shows "\<exists>c. divide_int128 a b = Inr c \<and> dval c = (dval a * 10 ^ 18) sdiv dval b"
proof -
  let ?p = "nat \<bar>dval a\<bar> * 10 ^ 18"
  define q where "q = ?p div nat \<bar>dval b\<bar>"
  have ip: "int ?p = \<bar>dval a\<bar> * 10 ^ 18" by simp
  then have p: "?p < 2 ^ 127" using assms unfolding int_less_2p [symmetric] by linarith
  have b: "raw b \<noteq> 0" using assms(1) by auto
  have mb: "unat (magnitude (raw b)) < 2 ^ 127"
    using dval_bounds [of b] assms(3) by (simp add: magnitude_unat)
  have up: "unat (magnitude (raw a) * kScale) = ?p"
    using p by (subst unat_mult_no_wrap) (simp_all add: magnitude_unat)
  then have t: "tdiv (magnitude (raw a) * kScale) (magnitude (raw b)) = word_of_nat q"
    using p mb by (subst tdiv_unat_word) (simp_all add: magnitude_unat q_def)
  have q: "q < 2 ^ 127" unfolding q_def using p by (rule le_less_trans [OF div_le_dividend])
  then have u: "unat (word_of_nat q :: i128) = q" by (rule unat_i128_of_nat)
  have iq: "int q = \<bar>dval a\<bar> * 10 ^ 18 div \<bar>dval b\<bar>" by (simp add: q_def zdiv_int)
  have sd: "(dval a * 10 ^ 18) sdiv dval b = (if signs_differ a b then - int q else int q)"
    unfolding iq signs_differ_iff using assms(1)
    by (auto simp: signed_divide_int_def sgn_if abs_mult mult_less_0_iff zero_less_mult_iff)
  have "dval (fromMagnitude (word_of_nat q) (signs_differ a b)) = (dval a * 10 ^ 18) sdiv dval b"
    unfolding fromMagnitude_of_nat [OF q] sd ..
  then show ?thesis using b by (simp add: divide_int128_def t Let_def)
qed

lemma mult_int128_overflows: "mult_int128 (fromInteger 20) (fromInteger 20) \<noteq> fromInteger 400"
  by code_simp

lemma fromInteger_dval:
  "dval (fromInteger i) = sint i * 10 ^ 18"
proof -
  have b: "- 9223372036854775808 \<le> sint i" "sint i < 9223372036854775808" using sint_ge [of i] sint_lt [of i] by simp_all
  have s: "sint (scast i :: i128) = sint i"
    by (simp add: signed_scast_eq signed_take_bit_int_eq_self_iff) (use b in linarith)
  have "sint (scast i * kScale) = sint i * 10 ^ 18"
    by (subst sint_word_ariths) (simp add: s signed_take_bit_int_eq_self_iff, use b in linarith)
  then show ?thesis by (simp add: fromInteger_def fromRaw_def)
qed

lemma mult_wide_twenty: "mult_wide (fromInteger 20) (fromInteger 20) = Inr (fromInteger 400)"
proof -
  have d: "dval (fromInteger 20) = 20 * 10 ^ 18" "dval (fromInteger 400) = 400 * 10 ^ 18"
    by (simp_all add: fromInteger_dval)
  then obtain c where "mult_wide (fromInteger 20) (fromInteger 20) = Inr c" "dval c = dval (fromInteger 400)"
    using mult_wide_value [of "fromInteger 20" "fromInteger 20"] by (auto simp: signed_divide_int_def)
  then show ?thesis by (simp add: dval_inject)
qed

section \<open>Parsing and printing\<close>

definition digits_word :: "string \<Rightarrow> i128 \<Rightarrow> i128" where
  "digits_word ds acc = fold (\<lambda>c a. a * 10 + digit_word c) ds acc"

fun digits_nat :: "string \<Rightarrow> nat \<Rightarrow> nat" where
  "digits_nat [] acc = acc"
| "digits_nat (c # cs) acc = digits_nat cs (10 * acc + nat (char_code c - 48))"

abbreviation all_digits :: "string \<Rightarrow> bool" where
  "all_digits s \<equiv> list_all is_digit_char s"

lemma digits_word_simps [simp]:
  "digits_word [] a = a"
  "digits_word (c # cs) a = digits_word cs (a * 10 + digit_word c)"
  "digits_word (xs @ ys) a = digits_word ys (digits_word xs a)"
  by (simp_all add: digits_word_def)

lemma digits_word_nat:
  "all_digits ds \<Longrightarrow> digits_word ds (word_of_nat n) = word_of_nat (digits_nat ds n)"
proof (induction ds arbitrary: n)
  case (Cons c cs)
  have "word_of_nat n * 10 + digit_word c = word_of_nat (10 * n + nat (char_code c - 48))"
    using Cons.prems by (simp add: digit_word_def is_digit_char_def)
  then have "digits_word (c # cs) (word_of_nat n) = digits_word cs (word_of_nat (10 * n + nat (char_code c - 48)))"
    by (simp only: digits_word_simps)
  with Cons.prems show ?case by (simp only: Cons.IH digits_nat.simps list.pred_inject)
qed simp

lemma scan_integral_digits:
  "all_digits ds \<Longrightarrow> scan_integral (ds @ rest) acc = scan_integral rest (digits_word ds acc)"
  by (induction ds arbitrary: acc) auto

lemma scan_integral_stop:
  "rest = [] \<or> \<not> is_digit_char (hd rest) \<Longrightarrow> scan_integral rest acc = (acc, rest)"
  by (cases rest) auto

lemma scan_fraction_digits:
  "all_digits ds \<Longrightarrow> n \<le> 18 \<Longrightarrow>
   scan_fraction (ds @ rest) f n =
     scan_fraction rest (digits_word (take (18 - n) ds) f) (min 18 (n + length ds))"
proof (induction ds arbitrary: f n)
  case (Cons d ds)
  show ?case
  proof (cases "n < 18")
    case True
    then have "18 - n = Suc (18 - Suc n)" by simp
    with Cons True show ?thesis by simp
  next
    case False
    with Cons.prems have "n = 18" by simp
    with Cons show ?thesis by simp
  qed
qed simp

lemma pad_fraction_pow: "n \<le> 18 \<Longrightarrow> pad_fraction f n = f * 10 ^ (18 - n)"
proof (induction f n rule: pad_fraction.induct)
  case (1 f n)
  show ?case
  proof (cases "n < 18")
    case True
    then have "18 - n = Suc (18 - Suc n)" by simp
    moreover have "pad_fraction f n = pad_fraction (f * 10) (Suc n)"
      using True by (subst pad_fraction.simps) simp
    ultimately show ?thesis using 1 True by simp
  next
    case False
    with 1 have "n = 18" by simp
    then show ?thesis by (subst pad_fraction.simps) simp
  qed
qed

definition sign_text :: "string \<Rightarrow> bool" where
  "sign_text sg \<longleftrightarrow> sg = [] \<or> sg = ''+'' \<or> sg = ''-''"

lemma not_digit_marks [simp]:
  "\<not> is_digit_char (CHR ''+'')" "\<not> is_digit_char (CHR ''-'')" "\<not> is_digit_char (CHR ''.'')"
  by (simp_all add: is_digit_char_def char_code_def)

definition fraction_units :: "string \<Rightarrow> i128" where
  "fraction_units fs = digits_word (take 18 fs) 0 * 10 ^ (18 - min 18 (length fs))"

lemma fromString_integral:
  assumes "sign_text sg" and "all_digits ip" and "ip \<noteq> []"
  shows "fromString (sg @ ip) = finish_parse (sg = ''-'') (digits_word ip 0) 0"
proof -
  have s: "scan_integral ip 0 = (digits_word ip 0, [])"
    using scan_integral_digits [OF assms(2), of "[]" 0] by simp
  obtain d ds where ip: "ip = d # ds" "is_digit_char d" using assms by (cases ip) auto
  then have "d \<noteq> CHR ''+''" "d \<noteq> CHR ''-''" by auto
  with assms(1) ip s show ?thesis by (auto simp: fromString_def sign_text_def)
qed

lemma fromString_fraction:
  assumes "sign_text sg" and "all_digits ip" and "ip \<noteq> []" and "all_digits fs"
  shows "fromString (sg @ ip @ CHR ''.'' # fs) =
    finish_parse (sg = ''-'') (digits_word ip 0) (fraction_units fs)"
proof -
  have s: "scan_integral (ip @ CHR ''.'' # fs) 0 = (digits_word ip 0, CHR ''.'' # fs)"
    using scan_integral_digits [OF assms(2), of "CHR ''.'' # fs" 0] by (simp add: scan_integral_stop)
  have f: "scan_fraction fs 0 0 = (digits_word (take 18 fs) 0, min 18 (length fs), [])"
    using scan_fraction_digits [OF assms(4), of 0 "[]" 0] by simp
  have p: "pad_fraction (digits_word (take 18 fs) 0) (min 18 (length fs)) = fraction_units fs"
    by (simp add: pad_fraction_pow fraction_units_def)
  obtain d ds where ip: "ip = d # ds" "is_digit_char d" using assms by (cases ip) auto
  then have "d \<noteq> CHR ''+''" "d \<noteq> CHR ''-''" by auto
  with assms(1) ip s f p show ?thesis by (auto simp: fromString_def sign_text_def)
qed

text \<open>Printing produces digits, and the digits read back give the number printed.\<close>

lemma tdiv_tmod: "tdiv a b * b + tmod a b = a"
proof -
  have rb: "word_of_int (sint b) = b" by simp
  have "tdiv a b * b + tmod a b =
      word_of_int (sint a sdiv sint b) * word_of_int (sint b) + word_of_int (sint a smod sint b)"
    unfolding tdiv_def tmod_def rb ..
  also have "\<dots> = word_of_int (sint a sdiv sint b * sint b + sint a smod sint b)"
    by (simp only: wi_hom_syms)
  also have "\<dots> = word_of_int (sint a)" by (simp only: sdiv_mult_smod_eq)
  finally show ?thesis by simp
qed

lemma sint_nonneg_iff: "0 \<le> sint (a :: i128) \<longleftrightarrow> unat a < 2 ^ 127"
proof
  assume "0 \<le> sint a"
  then have "int (unat a) = sint a" by (simp add: uint_eq_sint)
  also have "\<dots> < 2 ^ 127" using sint_lt [of a] by simp
  finally show "unat a < 2 ^ 127" unfolding int_less_2p .
next
  assume "unat a < 2 ^ 127"
  then have "unat a < 2 ^ (LENGTH(128) - 1)" by simp
  then show "0 \<le> sint a" using sint_pos_small [of a] by simp
qed

lemma tmod_unat:
  assumes "0 \<le> sint a" and "0 < sint b"
  shows "sint (tmod a b) = int (unat a mod unat b)"
proof -
  have "sint a smod sint b = uint a mod uint b"
    using assms by (simp add: signed_modulo_int_def signed_divide_int_def sgn_if uint_eq_sint abs_mult minus_div_mult_eq_mod)
  then have "tmod a b = a mod b" by (simp add: tmod_def word_mod_def)
  then have u: "unat (tmod a b) = unat a mod unat b" by (simp add: unat_mod_distrib)
  moreover have "unat a < 2 ^ 127" using assms(1) by (simp only: sint_nonneg_iff)
  then have "unat a mod unat b < 2 ^ 127" by (rule le_less_trans [OF mod_less_eq_dividend])
  ultimately have "unat (tmod a b) < 2 ^ (LENGTH(128) - 1)" by simp
  then show ?thesis using sint_pos_small [of "tmod a b"] u by simp
qed

lemma tdiv_sint_nonneg:
  assumes "0 \<le> sint a" and "0 \<le> sint b"
  shows "0 \<le> sint (tdiv a b)"
proof -
  have "unat a < 2 ^ 127" using assms(1) by (simp only: sint_nonneg_iff)
  then have "unat a div unat b < 2 ^ 127" by (rule le_less_trans [OF div_le_dividend])
  then show ?thesis unfolding sint_nonneg_iff tdiv_unat [OF assms] .
qed

lemma digit_char_code:
  assumes "0 \<le> sint w" and "sint w \<le> 9"
  shows "char_code (digit_char w) = 48 + sint w"
  using assms by (simp add: digit_char_def char_code_def)

lemma digit_char_digit:
  assumes "0 \<le> sint w" and "sint w \<le> 9"
  shows "is_digit_char (digit_char w)" and "digit_word (digit_char w) = w"
  using assms by (simp_all add: is_digit_char_def digit_word_def digit_char_code)

lemma digit_of_tmod10:
  assumes "0 \<le> sint a"
  shows "is_digit_char (digit_char (tmod a 10))" and "digit_word (digit_char (tmod a 10)) = tmod a 10"
proof -
  have "sint (tmod a 10) = int (unat a mod 10)" using tmod_unat [OF assms, of 10] by simp
  moreover have "unat a mod 10 < 10" by simp
  ultimately have "0 \<le> sint (tmod a 10)" "sint (tmod a 10) \<le> 9" by linarith+
  then show "is_digit_char (digit_char (tmod a 10))" "digit_word (digit_char (tmod a 10)) = tmod a 10"
    by (rule digit_char_digit)+
qed

lemma low_digits_spec:
  "0 \<le> sint v \<Longrightarrow> all_digits (low_digits v) \<and> digits_word (rev (low_digits v)) 0 = v \<and> (low_digits v = [] \<longleftrightarrow> v = 0)"
proof (induction v rule: low_digits.induct)
  case (1 v)
  show ?case
  proof (cases "v = 0")
    case True
    then show ?thesis by (subst (1 2 3) low_digits.simps) simp
  next
    case False
    then have p: "0 <s v" using 1(2) signed_word_eqI [of v 0] by (auto simp: word_sless_alt less_le)
    have e: "low_digits v = digit_char (tmod v 10) # low_digits (tdiv v 10)"
      by (subst low_digits.simps) (simp add: p)
    have "0 \<le> sint (tdiv v 10)" by (rule tdiv_sint_nonneg [OF 1(2)]) simp
    from 1(1) [OF p this] show ?thesis
      using digit_of_tmod10 [OF 1(2)] tdiv_tmod [of v 10] False by (simp add: e)
  qed
qed

lemma integerToString_spec:
  assumes "0 \<le> sint v"
  shows "all_digits (integerToString v)" and "digits_word (integerToString v) 0 = v"
    and "integerToString v \<noteq> []"
proof -
  have z: "is_digit_char (CHR ''0'')" "digit_word (CHR ''0'') = 0"
    by (simp_all add: is_digit_char_def digit_word_def char_code_def)
  show "all_digits (integerToString v)" "digits_word (integerToString v) 0 = v" "integerToString v \<noteq> []"
    using low_digits_spec [OF assms] z by (auto simp: integerToString_def)
qed

lemma fraction_digits_length [simp]: "length (fraction_digits n f) = n"
  by (induction n arbitrary: f) simp_all

lemma fraction_digits_all: "0 \<le> sint f \<Longrightarrow> all_digits (fraction_digits n f)"
  by (induction n arbitrary: f) (simp_all add: digit_of_tmod10 tdiv_sint_nonneg)

lemma fraction_digits_word:
  "0 \<le> sint f \<Longrightarrow> digits_word (fraction_digits n f) 0 = word_of_nat (unat f mod 10 ^ n)"
proof (induction n arbitrary: f)
  case (Suc n)
  have nn: "0 \<le> sint (tdiv f 10)" by (rule tdiv_sint_nonneg [OF Suc.prems]) simp
  have q: "unat (tdiv f 10) = unat f div 10" by (subst tdiv_unat [OF Suc.prems]) simp_all
  have "sint (tmod f 10) = int (unat f mod 10)" using tmod_unat [OF Suc.prems, of 10] by simp
  then have "word_of_int (sint (tmod f 10)) = (word_of_int (int (unat f mod 10)) :: i128)" by (rule arg_cong)
  then have m: "tmod f 10 = word_of_nat (unat f mod 10)" by simp
  have "digits_word (fraction_digits (Suc n) f) 0 =
      word_of_nat (unat f div 10 mod 10 ^ n) * 10 + tmod f 10"
    using Suc.IH [OF nn] q digit_of_tmod10 [OF Suc.prems] by simp
  also have "\<dots> = word_of_nat (unat f div 10 mod 10 ^ n * 10 + unat f mod 10)"
    unfolding m by simp
  also have "unat f div 10 mod 10 ^ n * 10 + unat f mod 10 = unat f mod 10 ^ Suc n"
    by (simp add: mod_mult2_eq mult.commute)
  finally show ?case .
qed simp

lemma take_fraction_digits:
  "0 \<le> sint f \<Longrightarrow> digits_word (take p (fraction_digits (p + k) f)) 0 = word_of_nat (unat f div 10 ^ k mod 10 ^ p)"
proof (induction k arbitrary: f)
  case 0
  then show ?case by (simp add: fraction_digits_word)
next
  case (Suc k)
  have nn: "0 \<le> sint (tdiv f 10)" by (rule tdiv_sint_nonneg [OF Suc.prems]) simp
  have q: "unat (tdiv f 10) = unat f div 10" by (subst tdiv_unat [OF Suc.prems]) simp_all
  have "take p (fraction_digits (p + Suc k) f) = take p (fraction_digits (p + k) (tdiv f 10))" by simp
  then show ?case using Suc.IH [OF nn] by (simp only: q div_mult2_eq power_Suc)
qed

definition shown_scale :: "int \<Rightarrow> nat" where
  "shown_scale p = 18 - clamp_precision p"

lemma clamp_precision_le: "clamp_precision p \<le> 18"
  by (simp add: clamp_precision_def)

lemma truncated_units:
  fixes m :: nat
  shows "m div 10 ^ (p + k) * 10 ^ (p + k) + m mod 10 ^ (p + k) div 10 ^ k mod 10 ^ p * 10 ^ k
    = m div 10 ^ k * 10 ^ k"
proof -
  define K P :: nat where "K = 10 ^ k" and "P = 10 ^ p"
  have KP: "0 < K" "10 ^ (p + k) = K * P" by (simp_all add: K_def P_def power_add)
  have "m mod (K * P) div K = m div K mod P"
    using KP(1) by (simp add: mod_mult2_eq)
  moreover have "m div (K * P) = m div K div P" by (rule div_mult2_eq)
  moreover have "x * (K * P) + y * K = (x * P + y) * K" for x y :: nat
    by (simp add: algebra_simps)
  moreover have "m div K div P * P + m div K mod P = m div K" by (rule div_mult_mod_eq)
  ultimately have "m div (K * P) * (K * P) + m mod (K * P) div K mod P * K = m div K * K"
    by (simp only: mod_mod_trivial)
  then show ?thesis by (simp only: KP(2)) (simp only: K_def P_def)
qed

lemma toString_parts:
  assumes "d \<noteq> 0" and "dval d \<noteq> - (2 ^ 127)"
  obtains I F where "unat I = nat \<bar>dval d\<bar> div 10 ^ 18" and "unat F = nat \<bar>dval d\<bar> mod 10 ^ 18"
    and "0 \<le> sint I" and "0 \<le> sint F"
    and "toString p d = (if dval d < 0 then ''-'' else []) @ integerToString I @
      (if clamp_precision p = 0 then [] else CHR ''.'' # take (clamp_precision p) (fraction_digits 18 F))"
proof -
  define m where "m = magnitude (raw d)"
  have um: "unat m = nat \<bar>dval d\<bar>" by (simp add: m_def magnitude_unat)
  have sm: "0 \<le> sint m" using magnitude_sint [OF assms(2)] by (simp add: m_def)
  have sk: "0 \<le> sint kScale" "0 < sint kScale" by simp_all
  have nz: "raw d \<noteq> 0" using assms(1) by (cases d) (auto simp: zero_decimal_def fromRaw_def)
  have "int (unat (tmod m kScale)) = int (unat m mod unat kScale)"
    using tmod_unat [OF sm sk(2)] by (simp add: uint_eq_sint)
  then have uf: "unat (tmod m kScale) = nat \<bar>dval d\<bar> mod 10 ^ 18"
    unfolding of_nat_eq_iff um kScale_unat .
  have c: "clamp_precision p < 18 \<or> clamp_precision p = 18" using clamp_precision_le [of p] by linarith
  show thesis
  proof (rule that [of "tdiv m kScale" "tmod m kScale"])
    show "unat (tdiv m kScale) = nat \<bar>dval d\<bar> div 10 ^ 18" using tdiv_unat [OF sm sk(1)] um by simp
    show "unat (tmod m kScale) = nat \<bar>dval d\<bar> mod 10 ^ 18" by (rule uf)
    show "0 \<le> sint (tdiv m kScale)" by (rule tdiv_sint_nonneg [OF sm sk(1)])
    show "0 \<le> sint (tmod m kScale)" using tmod_unat [OF sm sk(2)] by simp
    show "toString p d = (if dval d < 0 then ''-'' else []) @ integerToString (tdiv m kScale) @
        (if clamp_precision p = 0 then []
         else CHR ''.'' # take (clamp_precision p) (fraction_digits 18 (tmod m kScale)))"
      using c nz
      by (auto simp: toString_def Let_def m_def magnitude_def word_sless_alt simp del: fraction_digits.simps)
  qed
qed

lemma sdiv_trunc:
  fixes x :: int and s :: nat
  assumes "0 < s"
  shows "x sdiv int s * int s =
    (if x < 0 then - int (nat \<bar>x\<bar> div s * s) else int (nat \<bar>x\<bar> div s * s))"
proof -
  have "\<bar>x\<bar> div int s * int s = int (nat \<bar>x\<bar> div s * s)" by (simp add: zdiv_int)
  moreover have "x sdiv int s = sgn x * (\<bar>x\<bar> div int s)"
    using assms by (simp add: signed_divide_int_def)
  ultimately show ?thesis by (cases "x < 0"; cases "x = 0") (simp_all only: sgn_neg sgn_pos, auto)
qed

lemma word_of_signed:
  "word_of_int (x sdiv 10 ^ k * 10 ^ k) =
    (if x < 0 then - word_of_nat (nat \<bar>x\<bar> div 10 ^ k * 10 ^ k) else word_of_nat (nat \<bar>x\<bar> div 10 ^ k * 10 ^ k) :: i128)"
proof -
  define s :: nat where "s = 10 ^ k"
  have s: "0 < s" "int s = 10 ^ k" by (simp_all add: s_def)
  have "word_of_int (x sdiv int s * int s) =
      (if x < 0 then - word_of_nat (nat \<bar>x\<bar> div s * s) else word_of_nat (nat \<bar>x\<bar> div s * s) :: i128)"
    unfolding sdiv_trunc [OF s(1)]
    by (cases "x < 0") (simp_all only: if_True if_False of_int_minus of_int_of_nat_eq)
  then show ?thesis unfolding s(2) unfolding s_def .
qed

lemma units_of_nat: "word_of_nat a * kScale + word_of_nat x * 10 ^ k = word_of_nat (a * 10 ^ 18 + x * 10 ^ k)"
  by (simp add: kScale_def)

lemma fromString_toString:
  assumes "dval d \<noteq> - (2 ^ 127)"
  shows "fromString (toString p d) = Inr (fromRaw (word_of_int (dval d sdiv 10 ^ shown_scale p * 10 ^ shown_scale p)))"
proof (cases "d = 0")
  case True
  let ?p = "clamp_precision p"
  have z: "is_digit_char (CHR ''0'')" "digit_word (CHR ''0'') = 0"
    by (simp_all add: is_digit_char_def digit_word_def char_code_def)
  have r: "all_digits (replicate n (CHR ''0''))" "digits_word (replicate n (CHR ''0'')) 0 = 0" for n
    by (induction n) (simp_all add: z)
  have "fromString (toString p d) = Inr (fromRaw 0)"
  proof (cases "?p = 0")
    case True
    then show ?thesis using fromString_integral [of "[]" "''0''"] \<open>d = 0\<close> z
      by (simp add: toString_def sign_text_def finish_parse_def zero_decimal_def fromRaw_def)
  next
    case False
    then have "toString p d = [] @ ''0'' @ CHR ''.'' # replicate ?p (CHR ''0'')"
      using \<open>d = 0\<close> by (simp add: toString_def zero_decimal_def fromRaw_def)
    then show ?thesis using fromString_fraction [of "[]" "''0''" "replicate ?p (CHR ''0'')"] z r
      by (simp add: sign_text_def finish_parse_def fraction_units_def take_replicate)
  qed
  with True show ?thesis by simp
next
  case False
  let ?p = "clamp_precision p" and ?k = "shown_scale p" and ?m = "nat \<bar>dval d\<bar>"
  have pk: "?p + ?k = 18" using clamp_precision_le [of p] by (simp add: shown_scale_def)
  obtain I F where IF: "unat I = ?m div 10 ^ 18" "unat F = ?m mod 10 ^ 18" "0 \<le> sint I" "0 \<le> sint F"
    and t: "toString p d = (if dval d < 0 then ''-'' else []) @ integerToString I @
      (if ?p = 0 then [] else CHR ''.'' # take ?p (fraction_digits 18 F))"
    by (rule toString_parts [OF False assms])
  let ?sg = "if dval d < 0 then ''-'' else []" and ?fs = "take ?p (fraction_digits 18 F)"
  have sg: "sign_text ?sg" "(?sg = ''-'') = (dval d < 0)" by (simp_all add: sign_text_def)
  note I = integerToString_spec [OF IF(3)]
  have fs: "all_digits ?fs" using fraction_digits_all [OF IF(4), of 18]
    by (metis append_take_drop_id list_all_append)
  have wi: "I = word_of_nat (?m div 10 ^ 18)" using IF(1) [symmetric] by simp
  have fu: "fraction_units ?fs = word_of_nat (unat F div 10 ^ ?k mod 10 ^ ?p) * 10 ^ ?k"
    using take_fraction_digits [OF IF(4), of ?p ?k] clamp_precision_le [of p]
    unfolding pk by (simp add: fraction_units_def shown_scale_def min_absorb2)
  have sum: "I * kScale + word_of_nat (unat F div 10 ^ ?k mod 10 ^ ?p) * 10 ^ ?k = word_of_nat (?m div 10 ^ ?k * 10 ^ ?k)"
    unfolding wi IF(2) units_of_nat truncated_units [of ?m ?p ?k, unfolded pk] ..
  have "fromString (toString p d) = finish_parse (dval d < 0) I (word_of_nat (unat F div 10 ^ ?k mod 10 ^ ?p) * 10 ^ ?k)"
  proof (cases "?p = 0")
    case True
    then show ?thesis unfolding t using fromString_integral [OF sg(1) I(1,3)] by (simp add: sg(2) I(2))
  next
    case False
    then show ?thesis unfolding t using fromString_fraction [OF sg(1) I(1,3) fs] by (simp add: sg(2) I(2) fu)
  qed
  then show ?thesis unfolding finish_parse_def Let_def sum word_of_signed by simp
qed

text \<open>The accepted texts: an optional sign, one or more digits, and optionally a point and digits.\<close>

definition unsigned_body :: "string \<Rightarrow> string" where
  "unsigned_body s = (case s of [] \<Rightarrow> [] | c # cs \<Rightarrow> if c = CHR ''+'' \<or> c = CHR ''-'' then cs else s)"

definition decimal_text :: "string \<Rightarrow> bool" where
  "decimal_text s =
     (let body = unsigned_body s; rest = dropWhile is_digit_char body
      in takeWhile is_digit_char body \<noteq> [] \<and>
         (rest = [] \<or> (hd rest = CHR ''.'' \<and> all_digits (tl rest))))"

lemma scan_integral_while:
  "scan_integral s acc = (digits_word (takeWhile is_digit_char s) acc, dropWhile is_digit_char s)"
  by (induction s arbitrary: acc) auto

lemma scan_fraction_rest: "snd (snd (scan_fraction s f n)) = dropWhile is_digit_char s"
  by (induction s f n rule: scan_fraction.induct) auto

lemma dropWhile_digits_Nil: "dropWhile is_digit_char s = [] \<longleftrightarrow> all_digits s"
  by (induction s) auto

lemma finish_parse_Inr: "finish_parse n i f = Inr (fromRaw (if n then - (i * kScale + f) else i * kScale + f))"
  by (simp add: finish_parse_def Let_def)

lemma fromString_Cons:
  "fromString (c # cs) = (let negative = (c = CHR ''-'') in
     case unsigned_body (c # cs) of
       [] \<Rightarrow> bad_format
     | d # ds \<Rightarrow>
         if \<not> is_digit_char d then bad_format
         else (let (integral, rest1) = scan_integral (d # ds) 0
               in case rest1 of
                    [] \<Rightarrow> finish_parse negative integral 0
                  | p # ps \<Rightarrow>
                      if p \<noteq> CHR ''.'' then bad_format
                      else (let (f, n, rest2) = scan_fraction ps 0 0
                            in if rest2 \<noteq> [] then bad_format
                               else finish_parse negative integral (pad_fraction f n))))"
  by (simp add: fromString_def unsigned_body_def Let_def split: list.split)

lemma fromString_by_body:
  assumes "s \<noteq> []"
  shows "fromString s = (let neg = (hd s = CHR ''-''); body = unsigned_body s;
     ip = takeWhile is_digit_char body; rest = dropWhile is_digit_char body
   in if ip = [] then bad_format
      else if rest = [] then finish_parse neg (digits_word ip 0) 0
      else if hd rest = CHR ''.'' \<and> all_digits (tl rest) then finish_parse neg (digits_word ip 0) (fraction_units (tl rest))
      else bad_format)"
proof -
  obtain c cs where s: "s = c # cs" using assms by (cases s) auto
  have fr: "scan_fraction fs 0 0 = (digits_word (take 18 fs) 0, min 18 (length fs), [])" if "all_digits fs" for fs
    using scan_fraction_digits [OF that, of 0 "[]" 0] by simp
  have nr: "\<exists>f n rest. scan_fraction fs 0 0 = (f, n, rest) \<and> rest \<noteq> []" if "\<not> all_digits fs" for fs
    using scan_fraction_rest [of fs 0 0] that dropWhile_digits_Nil [of fs]
    by (cases "scan_fraction fs 0 0") auto
  have pf: "pad_fraction (digits_word (take 18 fs) 0) (min 18 (length fs)) = fraction_units fs" for fs
    by (simp add: pad_fraction_pow fraction_units_def)
  show ?thesis
  proof (cases "unsigned_body s")
    case Nil
    then show ?thesis by (simp add: fromString_Cons s)
  next
    case (Cons d ds)
    show ?thesis
    proof (cases "is_digit_char d")
      case False
      with Cons show ?thesis by (simp add: fromString_Cons s)
    next
      case True
      show ?thesis
      proof (cases "dropWhile is_digit_char (d # ds)")
        case Nil
        with Cons True show ?thesis
          by (simp add: fromString_Cons s scan_integral_while Let_def del: dropWhile_eq_Nil_conv)
      next
        case (Cons p ps)
        with \<open>unsigned_body s = d # ds\<close> True show ?thesis
          using fr [of ps] nr [of ps] pf [of ps]
          by (cases "all_digits ps") (auto simp: fromString_Cons s scan_integral_while Let_def)
      qed
    qed
  qed
qed

lemma fromString_accepts_iff: "(\<exists>d. fromString s = Inr d) \<longleftrightarrow> decimal_text s"
proof (cases "s = []")
  case True
  then show ?thesis by (simp add: fromString_def decimal_text_def unsigned_body_def)
next
  case False
  then show ?thesis
    by (simp add: fromString_by_body decimal_text_def Let_def finish_parse_Inr bad_format_def)
qed

lemma fromString_rejects:
  assumes "\<not> decimal_text s"
  shows "\<exists>msg. fromString s = Inl (Throw (Invalid_argument msg))"
proof (cases "s = []")
  case True
  then show ?thesis by (simp add: fromString_def)
next
  case False
  with assms show ?thesis
    by (auto simp: fromString_by_body decimal_text_def Let_def bad_format_def)
qed

lemma toString_decimal_text: "dval d \<noteq> - (2 ^ 127) \<Longrightarrow> decimal_text (toString p d)"
  using fromString_toString [of d p] fromString_accepts_iff by metis

lemma word_of_dval [simp]: "word_of_int (dval d) = raw d"
  by simp

lemma toString_exact:
  assumes "dval d \<noteq> - (2 ^ 127)" and "18 \<le> p"
  shows "fromString (toString p d) = Inr d"
  using fromString_toString [OF assms(1), of p] assms(2)
  by (cases d) (simp add: shown_scale_def clamp_precision_def fromRaw_def)

lemma dval_plus_nonneg:
  assumes "0 \<le> dval a + dval b" and "dval a + dval b < 2 ^ 127"
  shows "dval (a + b) = dval a + dval b"
proof -
  have "- (2 ^ 127) \<le> dval a + dval b" using assms(1) by simp
  then show ?thesis using assms sint_plus_no_wrap [of "raw a" "raw b"] by (simp add: plus_decimal_def decimal_plus_def)
qed

lemma dval_uminus:
  assumes "0 \<le> dval a"
  shows "dval (- a) = - dval a"
proof -
  have "unat (raw a) < 2 ^ 127" using assms unfolding sint_nonneg_iff .
  then have "unat (raw a) < 2 ^ (LENGTH(128) - 1)" by simp
  from sint_neg_small [OF this] sint_pos_small [OF this] show ?thesis by (simp add: uminus_decimal_def)
qed

lemma fromRaw_raw: "fromRaw (raw m) = m"
  by (cases m) (simp add: fromRaw_def)

lemma dval_minus:
  assumes "- (2 ^ 127) \<le> dval a - dval b" and "dval a - dval b < 2 ^ 127"
  shows "dval (a - b) = dval a - dval b"
  using assms sint_minus_no_wrap [of "raw a" "raw b"] by (simp add: minus_decimal_def decimal_minus_def)

section \<open>Properties\<close>

text \<open>
  C22: printing a decimal with p digits and parsing the text truncates it towards zero to p digits (at
  most 18), so printing with 18 digits loses nothing; the one value that cannot be printed is the minimum.
\<close>

theorem decimal_print_parse:
  assumes "dval d \<noteq> - (2 ^ 127)"
  shows "fromString (toString p d) = Inr (fromRaw (word_of_int (dval d sdiv 10 ^ shown_scale p * 10 ^ shown_scale p))) \<and>
    (18 \<le> p \<longrightarrow> fromString (toString p d) = Inr d)"
  using fromString_toString [OF assms, of p] toString_exact [OF assms, of p] by simp

theorem decimal_print_parse_witness: "fromString (toString 18 (fromInteger (- 5))) = Inr (fromInteger (- 5))"
proof -
  have "dval (fromInteger (- 5)) \<noteq> - (2 ^ 127)" by (simp add: fromInteger_dval)
  from decimal_print_parse [OF this, of 18] show ?thesis by (blast intro: order_refl)
qed

text \<open>a text is parsed exactly when it is an optional sign, digits and an optional fraction; any other text throws.\<close>

theorem decimal_parse_accepts:
  "((\<exists>d. fromString s = Inr d) \<longleftrightarrow> decimal_text s) \<and>
   ((\<exists>m. fromString s = Inl (Throw (Invalid_argument m))) \<longleftrightarrow> \<not> decimal_text s)"
  using fromString_accepts_iff [of s] fromString_rejects [of s] by force

text \<open>
  C21: multiplication on the 256 bit intermediate gives the exact scaled product, truncated towards zero,
  whenever that product fits into the 128 bit storage; division gives the exact scaled quotient, truncated
  towards zero, whenever the divisor is not zero and the quotient fits. Neither depends on the other's result.
\<close>

theorem decimal_mult_divide_exact:
  "(\<bar>dval a * dval b\<bar> div 10 ^ 18 < 2 ^ 127 \<longrightarrow>
      (\<exists>c. mult_wide a b = Inr c \<and> dval c = (dval a * dval b) sdiv 10 ^ 18)) \<and>
   (dval b \<noteq> 0 \<and> \<bar>dval a\<bar> * 10 ^ 18 div \<bar>dval b\<bar> < 2 ^ 127 \<longrightarrow>
      (\<exists>c. divide_wide a b = Inr c \<and> dval c = (dval a * 10 ^ 18) sdiv dval b))"
  using mult_wide_value [of a b] divide_wide_value [of b a] by blast

theorem decimal_mult_divide_exact_witness:
  "(\<exists>c. mult_wide (fromInteger 3000) (fromInteger 7) = Inr c \<and> dval c = 21000 * 10 ^ 18) \<and>
   (\<exists>c. mult_wide (fromInteger 3000) (fromInteger 0) = Inr c \<and> dval c = 0) \<and>
   (\<exists>c. divide_wide (fromInteger 3000) (fromInteger 7) = Inr c \<and> dval c = 428571428571428571428)"
proof -
  have d: "dval (fromInteger 3000) = 3000 * 10 ^ 18" "dval (fromInteger 7) = 7 * 10 ^ 18" "dval (fromInteger 0) = 0"
    by (simp_all add: fromInteger_dval)
  note P = decimal_mult_divide_exact [of "fromInteger 3000"]
  from P [of "fromInteger 7"] P [of "fromInteger 0"] show ?thesis
    by (simp add: d signed_divide_int_def)
qed

text \<open>
  C34: with the default 128 bit intermediate the product is exact while the unscaled product fits into 127
  bits, but it already wraps for 20 * 20: the result differs from 400.
\<close>

theorem decimal_int128_headroom:
  "(\<bar>dval a * dval b\<bar> < 2 ^ 127 \<longrightarrow> dval (mult_int128 a b) = (dval a * dval b) sdiv 10 ^ 18) \<and>
   mult_int128 (fromInteger 20) (fromInteger 20) \<noteq> fromInteger 400"
  using mult_int128_value [of a b] mult_int128_overflows by blast

theorem decimal_int128_headroom_witness:
  "dval (mult_int128 (fromInteger 3) (fromInteger 4)) = 12 * 10 ^ 18"
proof -
  have d: "dval (fromInteger 3) = 3 * 10 ^ 18" "dval (fromInteger 4) = 4 * 10 ^ 18"
    by (simp_all add: fromInteger_dval)
  show ?thesis using decimal_int128_headroom [of "fromInteger 3" "fromInteger 4"]
    by (simp add: d signed_divide_int_def)
qed

end
