(* ===== verification/Enum_Support.thy ===== *)
theory Enum_Support
  imports Prelude
begin

text \<open>
  The string dictionaries behind \<open>HERMENEUTIC_ENUM\<close>: \<open>ParseEnumSpec\<close> of src/src/common/enum.cpp splits the
  stringised enumerator list, and the \<open>Mapper\<close> the macro of
  src/src/common/include/hermeneutic/common/enum.hpp instantiates for every enumeration keeps a vector of
  names and the reverse map. An enumeration value is its 32-bit underlying integer, since
  \<open>AddDynamicElement\<close> creates values the declaration does not name.
\<close>

type_synonym enum_value = "32 word"

section \<open>Splitting the specification\<close>

definition isDelimiter :: "char \<Rightarrow> bool" where
  "isDelimiter ch \<longleftrightarrow> ch = CHR '',''"

definition isWhitespace :: "char \<Rightarrow> bool" where
  "isWhitespace ch \<longleftrightarrow> (let n = (of_char ch :: nat) in n = 32 \<or> (9 \<le> n \<and> n \<le> 13))"

definition skippable :: "char \<Rightarrow> bool" where
  "skippable ch \<longleftrightarrow> isWhitespace ch \<or> isDelimiter ch"

text \<open>The second inner loop moves \<open>end\<close> back over trailing whitespace, never before \<open>start\<close>.\<close>

definition trim_end :: "string \<Rightarrow> string" where
  "trim_end tok = rev (dropWhile isWhitespace (rev tok))"

lemma spec_rest_shorter:
  assumes "view \<noteq> []"
  shows "length (dropWhile (\<lambda>c. \<not> isDelimiter c) (dropWhile skippable view)) < length view"
proof (cases "dropWhile skippable view")
  case Nil
  with assms show ?thesis by (simp del: dropWhile_eq_Nil_conv)
next
  case (Cons c cs)
  have "\<not> skippable c" using Cons hd_dropWhile [of skippable view] by simp
  then have "\<not> isDelimiter c" by (simp add: skippable_def)
  then have "length (dropWhile (\<lambda>c. \<not> isDelimiter c) (c # cs)) \<le> length cs"
    by (simp add: length_dropWhile_le)
  also have "length cs < length (dropWhile skippable view)" by (simp add: Cons)
  also have "\<dots> \<le> length view" by (rule length_dropWhile_le)
  finally show ?thesis by (simp add: Cons)
qed

function ParseEnumSpec :: "string \<Rightarrow> string list" where
  "ParseEnumSpec view =
     (if view = [] then []
      else (let v = dropWhile skippable view;
                tok = trim_end (takeWhile (\<lambda>c. \<not> isDelimiter c) v);
                rest = dropWhile (\<lambda>c. \<not> isDelimiter c) v
            in if tok \<noteq> [] then tok # ParseEnumSpec rest else ParseEnumSpec rest))"
  by pat_completeness auto
termination
  by (relation "measure length") (auto simp: spec_rest_shorter)

declare ParseEnumSpec.simps [simp del]

section \<open>The mapper\<close>

record mapper =
  dict :: "string \<Rightarrow> enum_value option"
  vec :: "string list"

fun fill_entry :: "string \<Rightarrow> (string \<Rightarrow> enum_value option) \<times> enum_value \<Rightarrow> (string \<Rightarrow> enum_value option) \<times> enum_value" where
  "fill_entry s (m, count) = (m(s \<mapsto> count), count + 1)"

definition FillReverseDictionary :: "string list \<Rightarrow> string \<Rightarrow> enum_value option" where
  "FillReverseDictionary names = fst (fold fill_entry names (Map.empty, 0))"

definition FillVector :: "string list \<Rightarrow> string list" where
  "FillVector names = fold (\<lambda>s v. v @ [s]) names []"

definition CheckInit :: "string \<Rightarrow> mapper" where
  "CheckInit specs =
     \<lparr> dict = FillReverseDictionary (ParseEnumSpec specs), vec = FillVector (ParseEnumSpec specs) \<rparr>"

fun nat_text :: "nat \<Rightarrow> string" where
  "nat_text n = (if n < 10 then [char_of (48 + n)] else nat_text (n div 10) @ [char_of (48 + n mod 10)])"

declare nat_text.simps [simp del]

definition int_text :: "int \<Rightarrow> string" where
  "int_text i = (if i < 0 then CHR ''-'' # nat_text (nat (- i)) else nat_text (nat i))"

definition StringToEnum :: "mapper \<Rightarrow> string \<Rightarrow> enum_value outcome" where
  "StringToEnum mp s =
     (case dict mp s of
        None \<Rightarrow> Inl (Throw (Runtime_error (''can't find enum for'' @ s)))
      | Some v \<Rightarrow> Inr v)"

text \<open>\<open>static_cast<std::size_t>\<close> of a negative value sign-extends, so it is out of range as well.\<close>

definition EnumToString :: "mapper \<Rightarrow> enum_value \<Rightarrow> string outcome" where
  "EnumToString mp v =
     (let idx = unat (scast v :: u64)
      in if length (vec mp) \<le> idx
         then Inl (Throw (Runtime_error (''can't find string for '' @ int_text (sint v))))
         else Inr (vec mp ! idx))"

definition AddDynamicElement :: "string \<Rightarrow> mapper \<Rightarrow> enum_value \<times> mapper" where
  "AddDynamicElement name mp =
     (case dict mp name of
        Some v \<Rightarrow> (v, mp)
      | None \<Rightarrow>
          (let vec' = vec mp @ [name];
               value = word_of_nat (length vec' - 1)
           in (value, \<lparr> dict = (dict mp)(name \<mapsto> value), vec = vec' \<rparr>)))"


section \<open>Lemmas\<close>

text \<open>A clean token: non-empty, no comma inside, no whitespace at its ends.\<close>

definition clean_token :: "string \<Rightarrow> bool" where
  "clean_token t \<longleftrightarrow>
     t \<noteq> [] \<and> (\<forall>c \<in> set t. \<not> isDelimiter c) \<and> \<not> isWhitespace (hd t) \<and> \<not> isWhitespace (last t)"

lemma trim_end_snoc: "trim_end (xs @ [c]) = (if isWhitespace c then trim_end xs else xs @ [c])"
  by (simp add: trim_end_def)

lemma trim_end_Nil [simp]: "trim_end [] = []"
  by (simp add: trim_end_def)

lemma trim_end_last: "trim_end xs \<noteq> [] \<Longrightarrow> \<not> isWhitespace (last (trim_end xs))"
  by (induction xs rule: rev_induct) (auto simp: trim_end_snoc split: if_splits)

lemma trim_end_id: "xs = [] \<or> \<not> isWhitespace (last xs) \<Longrightarrow> trim_end xs = xs"
  by (induction xs rule: rev_induct) (auto simp: trim_end_snoc)

lemma trim_end_prefix: "\<exists>ws. xs = trim_end xs @ ws"
  unfolding trim_end_def by (metis rev_append rev_rev_ident takeWhile_dropWhile_id)

lemma trim_end_hd: "trim_end xs \<noteq> [] \<Longrightarrow> hd (trim_end xs) = hd xs"
  using trim_end_prefix [of xs] by (metis hd_append2)

lemma ParseEnumSpec_tokens: "\<forall>t \<in> set (ParseEnumSpec view). clean_token t"
proof (induction view rule: ParseEnumSpec.induct)
  case (1 view)
  show ?case
  proof (cases "view = []")
    case True
    then show ?thesis by (subst ParseEnumSpec.simps) simp
  next
    case False
    define v where "v = dropWhile skippable view"
    define raw where "raw = takeWhile (\<lambda>c. \<not> isDelimiter c) v"
    define rest where "rest = dropWhile (\<lambda>c. \<not> isDelimiter c) v"
    have IH: "\<forall>t \<in> set (ParseEnumSpec rest). clean_token t"
      using 1 [OF False v_def refl rest_def] by blast
    have "clean_token (trim_end raw)" if ne: "trim_end raw \<noteq> []"
    proof -
      have "raw \<noteq> []" using ne by auto
      then have "v \<noteq> []" and hd: "hd raw = hd v" by (auto simp: raw_def takeWhile_eq_Nil_iff) (cases v; auto)
      have "\<not> skippable (hd v)" using hd_dropWhile [of skippable view] \<open>v \<noteq> []\<close> by (simp add: v_def)
      then have "\<not> isWhitespace (hd (trim_end raw))" by (simp add: trim_end_hd [OF ne] hd skippable_def)
      moreover have "\<forall>c \<in> set (trim_end raw). \<not> isDelimiter c"
        using trim_end_prefix [of raw] set_takeWhileD [of _ "\<lambda>c. \<not> isDelimiter c" v]
        by (metis Un_iff raw_def set_append)
      ultimately show ?thesis using ne trim_end_last [OF ne] by (simp add: clean_token_def)
    qed
    then have "\<forall>t \<in> set (if trim_end raw \<noteq> [] then trim_end raw # ParseEnumSpec rest else ParseEnumSpec rest). clean_token t"
      using IH by simp
    then show ?thesis using False
      by (subst ParseEnumSpec.simps) (simp only: Let_def raw_def rest_def v_def if_False)
  qed
qed

fun join_spec :: "string list \<Rightarrow> string" where
  "join_spec [] = []"
| "join_spec [t] = t"
| "join_spec (t # ts) = t @ '', '' @ join_spec ts"

lemma ParseEnumSpec_step:
  assumes "clean_token t" and "rest = [] \<or> isDelimiter (hd rest)"
  shows "ParseEnumSpec (t @ rest) = t # ParseEnumSpec rest"
proof -
  obtain c cs where t: "t = c # cs" using assms(1) by (cases t) (auto simp: clean_token_def)
  have v: "dropWhile skippable (t @ rest) = t @ rest"
    using assms(1) by (simp add: t clean_token_def skippable_def)
  have r: "takeWhile (\<lambda>c. \<not> isDelimiter c) rest = []" "dropWhile (\<lambda>c. \<not> isDelimiter c) rest = rest"
    using assms(2) by (cases rest; simp)+
  have tk: "takeWhile (\<lambda>c. \<not> isDelimiter c) (t @ rest) = t" "dropWhile (\<lambda>c. \<not> isDelimiter c) (t @ rest) = rest"
    using assms(1) r by (simp_all add: clean_token_def takeWhile_append dropWhile_append)
  have te: "trim_end t = t" using assms(1) by (simp add: trim_end_id clean_token_def)
  have ne: "t \<noteq> []" "t @ rest \<noteq> []" by (simp_all add: t)
  show ?thesis
    by (subst ParseEnumSpec.simps) (simp only: Let_def v tk te ne if_False not_False_eq_True if_True)
qed

lemma ParseEnumSpec_skip: "skippable c \<Longrightarrow> ParseEnumSpec (c # cs) = ParseEnumSpec cs"
proof -
  assume c: "skippable c"
  show ?thesis
  proof (cases "cs = []")
    case True
    then show ?thesis using c by (subst (1 2) ParseEnumSpec.simps) (simp add: ParseEnumSpec.simps)
  next
    case False
    with c show ?thesis by (subst (1 2) ParseEnumSpec.simps) simp
  qed
qed

lemma ParseEnumSpec_join: "\<forall>t \<in> set ts. clean_token t \<Longrightarrow> ParseEnumSpec (join_spec ts) = ts"
proof (induction ts rule: join_spec.induct)
  case 1
  then show ?case by (simp add: ParseEnumSpec.simps)
next
  case (2 t)
  then show ?case using ParseEnumSpec_step [of t "[]"] by (simp add: ParseEnumSpec.simps)
next
  case (3 t t' ts)
  have "skippable (CHR '','')" "skippable (CHR '' '')" by (simp_all add: skippable_def isDelimiter_def isWhitespace_def)
  with 3 ParseEnumSpec_step [of t "CHR '','' # CHR '' '' # join_spec (t' # ts)"] show ?case
    by (simp add: ParseEnumSpec_skip isDelimiter_def)
qed

text \<open>The dictionary and the vector of names are inverse to each other, within the range of the enumeration's int.\<close>

definition mapper_ok :: "mapper \<Rightarrow> bool" where
  "mapper_ok mp \<longleftrightarrow>
     length (vec mp) \<le> 2 ^ 31 \<and> distinct (vec mp) \<and>
     (\<forall>s v. dict mp s = Some v \<longleftrightarrow> unat v < length (vec mp) \<and> vec mp ! unat v = s)"

lemma FillVector_id: "FillVector names = names"
proof -
  have "fold (\<lambda>s v. v @ [s]) names acc = acc @ names" for acc :: "string list"
    by (induction names arbitrary: acc) simp_all
  then show ?thesis by (simp add: FillVector_def)
qed

lemma FillReverseDictionary_spec:
  assumes "distinct names" and "length names \<le> 2 ^ 31"
  shows "FillReverseDictionary names s = Some v \<longleftrightarrow> unat v < length names \<and> names ! unat v = s"
proof -
  have "distinct names \<Longrightarrow> length names \<le> 2 ^ 31 \<Longrightarrow>
      snd (fold fill_entry names (Map.empty, 0)) = (word_of_nat (length names) :: enum_value) \<and>
      (\<forall>s v. fst (fold fill_entry names (Map.empty, 0)) s = Some (v :: enum_value) \<longleftrightarrow>
        unat v < length names \<and> names ! unat v = s)"
  proof (induction names rule: rev_induct)
    case (snoc n names)
    let ?f = "fold fill_entry names (Map.empty, 0)"
    have IH: "snd ?f = word_of_nat (length names)"
      "fst ?f s = Some v \<longleftrightarrow> unat v < length names \<and> names ! unat v = s" for s v
      using snoc by simp_all
    have u: "unat (word_of_nat (length names) :: enum_value) = length names"
      using snoc.prems by (simp add: unat_of_nat take_bit_nat_eq_self)
    have key: "(if s = n then Some (word_of_nat (length names)) else fst ?f s) = Some v \<longleftrightarrow>
        unat v < length (names @ [n]) \<and> (names @ [n]) ! unat v = s" for s and v :: enum_value
    proof (cases "s = n")
      case True
      then have "\<not> (unat v < length names \<and> names ! unat v = s)"
        using snoc.prems by auto
      moreover have "word_of_nat (length names) = v \<longleftrightarrow> unat v = length names"
        using u by (metis word_unat_eq_iff)
      ultimately show ?thesis using True by (auto simp: nth_append less_Suc_eq)
    next
      case False
      then show ?thesis using IH(2) by (auto simp: nth_append less_Suc_eq)
    qed
    obtain m where m: "?f = (m, word_of_nat (length names))" using IH(1) by (cases ?f) auto
    then have F: "fold fill_entry (names @ [n]) (Map.empty, 0) =
        (m(n \<mapsto> word_of_nat (length names)), word_of_nat (length (names @ [n])))" by simp
    show ?case unfolding F fst_conv snd_conv fun_upd_apply using key [unfolded m fst_conv] by blast
  qed simp
  then show ?thesis using assms by (simp add: FillReverseDictionary_def)
qed

lemma CheckInit_ok:
  assumes "distinct (ParseEnumSpec specs)" and "length (ParseEnumSpec specs) \<le> 2 ^ 31"
  shows "mapper_ok (CheckInit specs)"
  using assms FillReverseDictionary_spec [OF assms]
  by (simp add: mapper_ok_def CheckInit_def FillVector_id)

lemma enum_index:
  fixes v :: enum_value
  assumes "n \<le> 2 ^ 31"
  shows "unat (scast v :: u64) < n \<longleftrightarrow> unat v < n" and "unat v < n \<Longrightarrow> unat (scast v :: u64) = unat v"
proof -
  have pos: "unat (scast v :: u64) = unat v" if "unat v < 2 ^ 31"
  proof -
    have "int (unat v) < int (2 ^ 31)" using that by (simp only: of_nat_less_iff)
    then have "sint v = uint v" by (simp add: sint_eq_uint_small)
    then have "(scast v :: u64) = ucast v" by (metis of_int_sint of_int_uint)
    then show ?thesis by (simp add: unat_ucast_up)
  qed
  have neg: "2 ^ 31 \<le> unat (scast v :: u64)" if "\<not> unat v < 2 ^ 31"
  proof (rule ccontr)
    assume "\<not> 2 ^ 31 \<le> unat (scast v :: u64)"
    then have "unat (scast v :: u64) mod 2 ^ 32 < 2 ^ 31" by simp
    moreover have "unat v = unat (ucast (scast v :: u64) :: enum_value)"
    proof (rule arg_cong [where f = unat], rule bit_word_eqI)
      fix i
      assume "i < LENGTH(32)"
      then have "i < 31 \<or> i = 31" by auto
      then show "bit v i = bit (ucast (scast v :: u64) :: enum_value) i" by (auto simp: bit_simps)
    qed
    ultimately show False using that by (simp add: unat_ucast_mod)
  qed
  show "unat (scast v :: u64) < n \<longleftrightarrow> unat v < n" using pos neg assms by (cases "unat v < 2 ^ 31") auto
  show "unat v < n \<Longrightarrow> unat (scast v :: u64) = unat v" using pos assms by simp
qed

lemma EnumToString_iff:
  assumes "mapper_ok mp"
  shows "EnumToString mp v = Inr s \<longleftrightarrow> StringToEnum mp s = Inr v"
proof -
  have n: "length (vec mp) \<le> 2 ^ 31" using assms by (simp add: mapper_ok_def)
  have d: "dict mp s = Some w \<longleftrightarrow> unat w < length (vec mp) \<and> vec mp ! unat w = s" for w
    using assms by (simp add: mapper_ok_def)
  have e: "EnumToString mp v = Inr s \<longleftrightarrow> unat v < length (vec mp) \<and> vec mp ! unat v = s"
    using enum_index [OF n, of v] by (auto simp: EnumToString_def Let_def not_le)
  have "StringToEnum mp s = Inr v \<longleftrightarrow> dict mp s = Some v"
    by (simp add: StringToEnum_def split: option.split)
  then show ?thesis by (simp only: d e)
qed

lemma AddDynamicElement_known:
  "dict mp name = Some v \<Longrightarrow> AddDynamicElement name mp = (v, mp)"
  by (simp add: AddDynamicElement_def)

lemma AddDynamicElement_ok:
  assumes "mapper_ok mp" and "length (vec mp) < 2 ^ 31" and "AddDynamicElement name mp = (v, mp')"
  shows "mapper_ok mp'" and "StringToEnum mp' name = Inr v"
    and "StringToEnum mp s = Inr w \<Longrightarrow> StringToEnum mp' s = Inr w"
proof -
  have "mapper_ok mp' \<and> dict mp' name = Some v \<and> (\<forall>s w. dict mp s = Some w \<longrightarrow> dict mp' s = Some w)"
  proof (cases "dict mp name")
    case (Some w)
    then show ?thesis using assms by (auto simp: AddDynamicElement_known)
  next
    case None
    let ?n = "length (vec mp)"
    have u: "unat (word_of_nat ?n :: enum_value) = ?n"
      using assms(2) by (simp add: unat_of_nat take_bit_nat_eq_self)
    have v: "v = word_of_nat ?n" and mp': "mp' = \<lparr>dict = (dict mp)(name \<mapsto> word_of_nat ?n), vec = vec mp @ [name]\<rparr>"
      using assms(3) None by (auto simp: AddDynamicElement_def Let_def)
    have d: "dict mp s = Some w \<longleftrightarrow> unat w < ?n \<and> vec mp ! unat w = s" for s w
      using assms(1) by (simp add: mapper_ok_def)
    have fresh: "name \<notin> set (vec mp)"
    proof
      assume "name \<in> set (vec mp)"
      then obtain i where i: "i < ?n" "vec mp ! i = name" by (auto simp: in_set_conv_nth)
      then have "unat (word_of_nat i :: enum_value) = i" using assms(2) by (simp add: unat_of_nat take_bit_nat_eq_self)
      then have "dict mp name = Some (word_of_nat i)" using i d by simp
      then show False using None by simp
    qed
    have "dict mp' s = Some w \<longleftrightarrow> unat w < Suc ?n \<and> (vec mp @ [name]) ! unat w = s" for s w
    proof (cases "unat w = ?n")
      case True
      then have "w = word_of_nat ?n" using u by (metis word_unat_eq_iff)
      then show ?thesis using True u d [of s w] by (auto simp: mp')
    next
      case False
      then have "w \<noteq> word_of_nat ?n" using u by auto
      then show ?thesis using False d [of s w] fresh by (auto simp: mp' nth_append less_Suc_eq)
    qed
    then have "mapper_ok mp'"
      using assms(1,2) fresh by (simp add: mapper_ok_def mp')
    moreover have "dict mp s = Some w \<Longrightarrow> dict mp' s = Some w" for s w
      using None by (auto simp: mp')
    ultimately show ?thesis by (simp add: mp' v)
  qed
  then show "mapper_ok mp'" "StringToEnum mp' name = Inr v" "StringToEnum mp s = Inr w \<Longrightarrow> StringToEnum mp' s = Inr w"
    by (auto simp: StringToEnum_def split: option.splits)
qed

section \<open>Properties\<close>

text \<open>
  C33: the enumeration macro splits the list of names it was given, separated by a comma and a blank, back into
  those names, and the dictionary built from them is a bijection: a value prints as a name exactly when the
  name parses as the value.
\<close>

theorem enum_dictionary_bijective:
  assumes "\<forall>t \<in> set ts. clean_token t" and "distinct ts" and "length ts \<le> 2 ^ 31"
  shows "vec (CheckInit (join_spec ts)) = ts \<and>
    (EnumToString (CheckInit (join_spec ts)) v = Inr s \<longleftrightarrow> StringToEnum (CheckInit (join_spec ts)) s = Inr v)"
proof -
  have p: "ParseEnumSpec (join_spec ts) = ts" using assms(1) by (rule ParseEnumSpec_join)
  have "mapper_ok (CheckInit (join_spec ts))" using assms(2,3) by (intro CheckInit_ok) (simp_all add: p)
  then show ?thesis using EnumToString_iff p by (simp add: CheckInit_def FillVector_id)
qed

theorem enum_dictionary_bijective_witness:
  "EnumToString (CheckInit (join_spec [''Bid'', ''Ask''])) 1 = Inr ''Ask'' \<longleftrightarrow>
   StringToEnum (CheckInit (join_spec [''Bid'', ''Ask''])) ''Ask'' = Inr 1"
  using enum_dictionary_bijective [of "[''Bid'', ''Ask'']" 1 "''Ask''"]
  by (simp add: clean_token_def isDelimiter_def isWhitespace_def)

text \<open>adding a name at run time keeps the dictionary bijective, keeps every old entry and makes the name parse as the returned value.\<close>

theorem enum_dynamic_element:
  assumes "mapper_ok mp" and "length (vec mp) < 2 ^ 31" and "AddDynamicElement name mp = (v, mp')"
  shows "mapper_ok mp' \<and> StringToEnum mp' name = Inr v \<and>
    (\<forall>s w. StringToEnum mp s = Inr w \<longrightarrow> StringToEnum mp' s = Inr w)"
  using AddDynamicElement_ok [OF assms] by blast

theorem enum_dynamic_element_witness:
  "StringToEnum (snd (AddDynamicElement ''C'' (CheckInit ''A, B''))) ''A'' = Inr 0"
proof -
  have p: "ParseEnumSpec ''A, B'' = [''A'', ''B'']" by code_simp
  have m: "mapper_ok (CheckInit ''A, B'')" by (rule CheckInit_ok) (simp_all add: p)
  have l: "length (vec (CheckInit ''A, B'')) < 2 ^ 31" by (simp add: CheckInit_def FillVector_id p)
  have a: "StringToEnum (CheckInit ''A, B'') ''A'' = Inr 0" by code_simp
  from enum_dynamic_element [OF m l prod.collapse [symmetric]] a show ?thesis by blast
qed

end
