(* ===== verification/Events.thy ===== *)
theory Events
  imports Decimal Enum_Support
begin

text \<open>
  The records of src/src/common/include/hermeneutic/common/events.hpp that every component exchanges, and
  the enumerations with their string dictionaries. A \<open>time_point\<close> of the system clock is its count of
  nanoseconds since the epoch.
\<close>

section \<open>Enumerations\<close>

datatype side = Bid | Ask

datatype book_event_kind = NewOrder | CancelOrder | Snapshot

definition invert :: "side \<Rightarrow> side" where
  "invert s = (if s = Bid then Ask else Bid)"

definition side_value :: "side \<Rightarrow> enum_value" where
  "side_value s = (case s of Bid \<Rightarrow> 0 | Ask \<Rightarrow> 1)"

definition side_of_value :: "enum_value \<Rightarrow> side" where
  "side_of_value v = (if v = 0 then Bid else Ask)"

definition kind_value :: "book_event_kind \<Rightarrow> enum_value" where
  "kind_value k = (case k of NewOrder \<Rightarrow> 0 | CancelOrder \<Rightarrow> 1 | Snapshot \<Rightarrow> 2)"

definition kind_of_value :: "enum_value \<Rightarrow> book_event_kind" where
  "kind_of_value v = (if v = 0 then NewOrder else if v = 1 then CancelOrder else Snapshot)"

definition side_mapper :: mapper where
  "side_mapper = CheckInit ''Bid, Ask''"

definition kind_mapper :: mapper where
  "kind_mapper = CheckInit ''NewOrder, CancelOrder, Snapshot''"

definition sideToString :: "side \<Rightarrow> string outcome" where
  "sideToString s = EnumToString side_mapper (side_value s)"

definition parseSide :: "string \<Rightarrow> side outcome" where
  "parseSide text = bind_outcome (StringToEnum side_mapper text) (\<lambda>v. Inr (side_of_value v))"

definition kindToString :: "book_event_kind \<Rightarrow> string outcome" where
  "kindToString k = EnumToString kind_mapper (kind_value k)"

definition parseBookEventKind :: "string \<Rightarrow> book_event_kind outcome" where
  "parseBookEventKind text = bind_outcome (StringToEnum kind_mapper text) (\<lambda>v. Inr (kind_of_value v))"

section \<open>Records\<close>

record price_level =
  price :: decimal
  quantity :: decimal

record order_book_snapshot =
  snap_bids :: "price_level list"
  snap_asks :: "price_level list"

record market_order =
  order_id :: u64
  order_side :: side
  order_price :: decimal
  order_quantity :: decimal

record book_event =
  ev_exchange :: string
  ev_kind :: book_event_kind
  ev_sequence :: u64
  ev_order :: market_order
  ev_snapshot :: order_book_snapshot
  ev_timestamp :: i64
  ev_feed_timestamp_ns :: i64
  ev_local_timestamp_ns :: i64

type_synonym aggregated_quote = price_level

record aggregated_book_view =
  bid_levels :: "price_level list"
  ask_levels :: "price_level list"
  best_bid :: aggregated_quote
  best_ask :: aggregated_quote
  timestamp :: i64
  exchange_count :: u64
  last_feed_timestamp_ns :: i64
  last_local_timestamp_ns :: i64
  min_feed_timestamp_ns :: i64
  max_feed_timestamp_ns :: i64
  min_local_timestamp_ns :: i64
  max_local_timestamp_ns :: i64
  publish_timestamp_ns :: i64

record volume_band_quote =
  notional :: decimal
  vb_bid_price :: decimal
  vb_ask_price :: decimal

record price_band_quote =
  offset_bps :: decimal
  pb_bid_price :: decimal
  pb_ask_price :: decimal

definition mk_level :: "decimal \<Rightarrow> decimal \<Rightarrow> price_level" where
  "mk_level p q = \<lparr> price = p, quantity = q \<rparr>"

definition empty_snapshot :: order_book_snapshot where
  "empty_snapshot = \<lparr> snap_bids = [], snap_asks = [] \<rparr>"

definition empty_order :: market_order where
  "empty_order = \<lparr> order_id = 0, order_side = Bid, order_price = 0, order_quantity = 0 \<rparr>"

definition empty_event :: book_event where
  "empty_event = \<lparr> ev_exchange = [], ev_kind = NewOrder, ev_sequence = 0, ev_order = empty_order,
     ev_snapshot = empty_snapshot, ev_timestamp = 0, ev_feed_timestamp_ns = 0, ev_local_timestamp_ns = 0 \<rparr>"

definition empty_view :: aggregated_book_view where
  "empty_view = \<lparr> bid_levels = [], ask_levels = [], best_bid = mk_level 0 0, best_ask = mk_level 0 0,
     timestamp = 0, exchange_count = 0, last_feed_timestamp_ns = 0, last_local_timestamp_ns = 0,
     min_feed_timestamp_ns = 0, max_feed_timestamp_ns = 0, min_local_timestamp_ns = 0,
     max_local_timestamp_ns = 0, publish_timestamp_ns = 0 \<rparr>"

lemma mk_level_sel [simp]: "price (mk_level p q) = p" "quantity (mk_level p q) = q"
  by (simp_all add: mk_level_def)

section \<open>Lemmas\<close>

text \<open>The decimal text of a number consists of digits and is read back.\<close>

lemma digits_nat_snoc: "digits_nat (ds @ [c]) n = 10 * digits_nat ds n + nat (char_code c - 48)"
  by (induction ds arbitrary: n) auto

lemma digit_of_nat: "d < 10 \<Longrightarrow> is_digit_char (char_of (48 + d)) \<and> nat (char_code (char_of (48 + d)) - 48) = d"
proof -
  assume "d < 10"
  then have "(of_char (char_of (48 + d)) :: nat) = 48 + d" by simp
  then have "(of_char (char_of (48 + d)) :: int) = 48 + int d"
    by (metis of_nat_of_char of_nat_add of_nat_numeral)
  with \<open>d < 10\<close> show ?thesis by (simp add: is_digit_char_def char_code_def)
qed

lemma nat_text_digits: "list_all is_digit_char (nat_text n) \<and> nat_text n \<noteq> [] \<and> digits_nat (nat_text n) 0 = n"
proof (induction n rule: nat_text.induct)
  case (1 n)
  show ?case
  proof (cases "n < 10")
    case True
    then show ?thesis using digit_of_nat [of n] by (simp add: nat_text.simps [of n])
  next
    case False
    then show ?thesis using 1 digit_of_nat [of "n mod 10"] by (simp add: nat_text.simps [of n] digits_nat_snoc)
  qed
qed

lemma side_spec: "ParseEnumSpec ''Bid, Ask'' = [''Bid'', ''Ask'']"
  by code_simp

lemma kind_spec: "ParseEnumSpec ''NewOrder, CancelOrder, Snapshot'' = [''NewOrder'', ''CancelOrder'', ''Snapshot'']"
  by code_simp

lemma side_mapper_ok: "mapper_ok side_mapper"
  unfolding side_mapper_def by (rule CheckInit_ok) (simp_all add: side_spec)

lemma kind_mapper_ok: "mapper_ok kind_mapper"
  unfolding kind_mapper_def by (rule CheckInit_ok) (simp_all add: kind_spec)

lemma sideToString_eval:
  "sideToString Bid = Inr ''Bid''" "sideToString Ask = Inr ''Ask''"
  by code_simp+

lemma kindToString_eval:
  "kindToString NewOrder = Inr ''NewOrder''" "kindToString CancelOrder = Inr ''CancelOrder''"
  "kindToString Snapshot = Inr ''Snapshot''"
  by code_simp+

lemma parseSide_sideToString: "\<exists>text. sideToString s = Inr text \<and> parseSide text = Inr s"
proof -
  have "sideToString s = Inr (case s of Bid \<Rightarrow> ''Bid'' | Ask \<Rightarrow> ''Ask'')"
    by (cases s) (simp_all add: sideToString_eval)
  moreover from this have "parseSide (case s of Bid \<Rightarrow> ''Bid'' | Ask \<Rightarrow> ''Ask'') = Inr (side_of_value (side_value s))"
    using EnumToString_iff [OF side_mapper_ok] by (simp add: sideToString_def parseSide_def)
  moreover have "side_of_value (side_value s) = s" by (cases s) (simp_all add: side_of_value_def side_value_def)
  ultimately show ?thesis by metis
qed

lemma parseBookEventKind_kindToString: "\<exists>text. kindToString k = Inr text \<and> parseBookEventKind text = Inr k"
proof -
  let ?t = "case k of NewOrder \<Rightarrow> ''NewOrder'' | CancelOrder \<Rightarrow> ''CancelOrder'' | Snapshot \<Rightarrow> ''Snapshot''"
  have "kindToString k = Inr ?t"
    by (cases k) (simp_all add: kindToString_eval)
  moreover from this have "parseBookEventKind ?t = Inr (kind_of_value (kind_value k))"
    using EnumToString_iff [OF kind_mapper_ok] by (simp add: kindToString_def parseBookEventKind_def)
  moreover have "kind_of_value (kind_value k) = k" by (cases k) (simp_all add: kind_of_value_def kind_value_def)
  ultimately show ?thesis by metis
qed

lemma invert_invert [simp]: "invert (invert s) = s"
  by (cases s) (simp_all add: invert_def)

end
