(* ===== verification/Ordered_Map.thy ===== *)
theory Ordered_Map
  imports Prelude
begin

text \<open>
  \<open>std::map\<close> with an arbitrary comparator, as the order book and the aggregator use it
  (\<open>BidMap\<close> with \<open>std::greater\<close>, \<open>AskMap\<close> with \<open>std::less\<close> in
  src/src/lob/include/hermeneutic/lob/order_book.hpp): an association list kept strictly sorted by the
  comparator, searched by comparison only.

  \<open>level_store\<close> is the interface a client relies on (find, \<open>operator[]\<close> assignment, erase and the
  container's own invariant); \<open>key_order\<close> is what \<open>std::map\<close> asks of its comparator. Every
  \<open>key_order\<close> gives a \<open>level_store\<close>.
\<close>

type_synonym ('k, 'v) omap = "('k \<times> 'v) list"

fun om_find :: "('k \<Rightarrow> 'k \<Rightarrow> bool) \<Rightarrow> 'k \<Rightarrow> ('k, 'v) omap \<Rightarrow> 'v option" where
  "om_find lt k [] = None"
| "om_find lt k ((k', v) # m) =
     (if lt k' k then om_find lt k m else if lt k k' then None else Some v)"

fun om_put :: "('k \<Rightarrow> 'k \<Rightarrow> bool) \<Rightarrow> 'k \<Rightarrow> 'v \<Rightarrow> ('k, 'v) omap \<Rightarrow> ('k, 'v) omap" where
  "om_put lt k v [] = [(k, v)]"
| "om_put lt k v ((k', v') # m) =
     (if lt k' k then (k', v') # om_put lt k v m
      else if lt k k' then (k, v) # (k', v') # m
      else (k', v) # m)"

fun om_erase :: "('k \<Rightarrow> 'k \<Rightarrow> bool) \<Rightarrow> 'k \<Rightarrow> ('k, 'v) omap \<Rightarrow> ('k, 'v) omap" where
  "om_erase lt k [] = []"
| "om_erase lt k ((k', v') # m) =
     (if lt k' k then (k', v') # om_erase lt k m
      else if lt k k' then (k', v') # m
      else m)"

definition om_sorted :: "('k \<Rightarrow> 'k \<Rightarrow> bool) \<Rightarrow> ('k, 'v) omap \<Rightarrow> bool" where
  "om_sorted lt m \<longleftrightarrow> sorted_wrt lt (map fst m)"

lemma om_sorted_Nil [simp]: "om_sorted lt []"
  by (simp add: om_sorted_def)

lemma om_sorted_Cons: "om_sorted lt ((k, v) # m) \<longleftrightarrow> (\<forall>k' \<in> fst ` set m. lt k k') \<and> om_sorted lt m"
  by (auto simp: om_sorted_def)

section \<open>The interface\<close>

text \<open>
  What a client of a level container may use: a lookup, an assignment, an erase, the sets of its
  entries and its invariant.
\<close>

locale level_store =
  fixes find :: "'k \<Rightarrow> 'm \<Rightarrow> 'v option"
    and put :: "'k \<Rightarrow> 'v \<Rightarrow> 'm \<Rightarrow> 'm"
    and del :: "'k \<Rightarrow> 'm \<Rightarrow> 'm"
    and entries :: "'m \<Rightarrow> ('k \<times> 'v) set"
    and inv :: "'m \<Rightarrow> bool"
  assumes find_put: "inv m \<Longrightarrow> find k (put k' v m) = (if k = k' then Some v else find k m)"
    and find_del: "inv m \<Longrightarrow> find k (del k' m) = (if k = k' then None else find k m)"
    and inv_put: "inv m \<Longrightarrow> inv (put k v m)"
    and inv_del: "inv m \<Longrightarrow> inv (del k m)"
    and entries_find: "inv m \<Longrightarrow> (k, v) \<in> entries m \<longleftrightarrow> find k m = Some v"

locale key_order =
  fixes lt :: "'k \<Rightarrow> 'k \<Rightarrow> bool"
  assumes irrefl: "\<not> lt k k"
    and trans: "lt a b \<Longrightarrow> lt b c \<Longrightarrow> lt a c"
    and total: "\<not> lt a b \<Longrightarrow> \<not> lt b a \<Longrightarrow> a = b"
begin

lemma asym: "lt a b \<Longrightarrow> \<not> lt b a"
  using irrefl trans by blast

lemma find_below: "\<forall>k' \<in> fst ` set m. lt k k' \<Longrightarrow> om_find lt k m = None"
  using asym by (induction m) auto

lemma key_cases:
  obtains (less) "lt a k" "\<not> lt k a" "a \<noteq> k" | (greater) "lt k a" "\<not> lt a k" "a \<noteq> k" | (same) "a = k" "\<not> lt a k" "\<not> lt k a"
  using total [of a k] asym [of a k] irrefl [of a] by metis

lemma find_iff: "om_sorted lt m \<Longrightarrow> om_find lt k m = Some v \<longleftrightarrow> (k, v) \<in> set m"
proof (induction m)
  case (Cons e m)
  obtain a b where e: "e = (a, b)" by (cases e)
  have s: "\<forall>k' \<in> fst ` set m. lt a k'" and so: "om_sorted lt m"
    using Cons.prems by (simp_all add: e om_sorted_Cons)
  show ?case
  proof (cases rule: key_cases [of a k])
    case less
    then show ?thesis using Cons.IH [OF so] by (simp add: e)
  next
    case greater
    have "lt k k'" if "k' \<in> fst ` set m" for k' using s that trans [OF greater(1)] by blast
    then have "(k, v) \<notin> set m" using irrefl [of k] by force
    then show ?thesis using greater by (simp add: e)
  next
    case same
    have "(a, v) \<notin> set m" using s irrefl [of a] by force
    then show ?thesis using same by (auto simp: e)
  qed
qed simp

lemma find_absent: "om_sorted lt m \<Longrightarrow> k \<notin> fst ` set m \<Longrightarrow> om_find lt k m = None"
  using find_iff [of m k] by (cases "om_find lt k m") force+

lemma keys_put: "fst ` set (om_put lt k v m) = insert k (fst ` set m)"
  using total by (induction lt k v m rule: om_put.induct) auto

lemma keys_erase_subset: "fst ` set (om_erase lt k m) \<subseteq> fst ` set m"
  by (induction lt k m rule: om_erase.induct) auto

lemma sorted_put: "om_sorted lt m \<Longrightarrow> om_sorted lt (om_put lt k v m)"
proof (induction m)
  case (Cons e m)
  obtain a b where e: "e = (a, b)" by (cases e)
  show ?case using Cons by (auto simp: e om_sorted_Cons keys_put intro: trans)
qed (simp add: om_sorted_Cons)

lemma sorted_erase: "om_sorted lt m \<Longrightarrow> om_sorted lt (om_erase lt k m)"
proof (induction m)
  case (Cons e m)
  obtain a b where e: "e = (a, b)" by (cases e)
  show ?case using Cons keys_erase_subset [of k m] by (force simp: e om_sorted_Cons)
qed simp

lemma find_put_eq:
  "om_sorted lt m \<Longrightarrow> om_find lt k (om_put lt k' v m) = (if k = k' then Some v else om_find lt k m)"
proof (induction m)
  case Nil
  then show ?case using irrefl total by auto
next
  case (Cons e m)
  obtain a b where e: "e = (a, b)" by (cases e)
  have so: "om_sorted lt m" using Cons.prems by (simp add: e om_sorted_Cons)
  show ?case
  proof (cases rule: key_cases [of a k'])
    case less
    then show ?thesis using Cons.IH [OF so] by (auto simp: e)
  next
    case greater
    show ?thesis
    proof (cases rule: key_cases [of k' k])
      case less
      then show ?thesis using greater by (simp add: e)
    next
      case l: greater
      then show ?thesis using greater trans [OF l(1) greater(1)] asym by (auto simp: e)
    next
      case same
      then show ?thesis using greater by (simp add: e)
    qed
  next
    case same
    then show ?thesis using total [of k k'] by (auto simp: e)
  qed
qed

lemma find_erase_eq:
  "om_sorted lt m \<Longrightarrow> om_find lt k (om_erase lt k' m) = (if k = k' then None else om_find lt k m)"
proof (induction m)
  case (Cons e m)
  obtain a b where e: "e = (a, b)" by (cases e)
  have s: "\<forall>k' \<in> fst ` set m. lt a k'" and so: "om_sorted lt m"
    using Cons.prems by (simp_all add: e om_sorted_Cons)
  consider "lt a k'" | "lt k' a" | "a = k'" using total by blast
  then show ?case
  proof cases
    case 1
    then show ?thesis using Cons.IH [OF so] asym irrefl by (auto simp: e)
  next
    case 2
    then have n: "\<not> lt a k'" using asym by auto
    have "om_find lt k' m = None" by (rule find_below) (use s 2 trans in blast)
    then show ?thesis using 2 n by (auto simp: e)
  next
    case 3
    then have "om_find lt a m = None" "\<not> lt k' k'" using find_below [OF s] irrefl by auto
    then show ?thesis using 3 total find_below [of m k] s trans by (auto simp: e)
  qed
qed simp

end

sublocale key_order \<subseteq> store: level_store "om_find lt" "om_put lt" "om_erase lt" set "om_sorted lt"
  by unfold_locales (simp_all add: find_put_eq find_erase_eq sorted_put sorted_erase find_iff)

section \<open>The two comparators of the code\<close>

interpretation asc: key_order "(<) :: 'a :: linorder \<Rightarrow> 'a \<Rightarrow> bool"
  by unfold_locales auto

interpretation desc: key_order "(>) :: 'a :: linorder \<Rightarrow> 'a \<Rightarrow> bool"
  by unfold_locales auto

end
