(* ===== verification/Order_Book.thy ===== *)
theory Order_Book
  imports Events Ordered_Map
begin

text \<open>
  \<open>LimitOrderBook\<close> of src/src/lob/order_book.cpp: two price-sorted level maps, the resting orders, the
  last sequence number seen and the timestamps of the last event. \<open>apply\<close> is one definition,
  \<open>apply_event\<close>, parametrised by the clock reading \<open>now\<close> it takes; an \<open>Abort\<close> is a failed
  \<open>HERMENEUTIC_ASSERT_DEBUG\<close>. The unordered map of orders is a finite function. Log output is not
  modelled.
\<close>

type_synonym levels = "(decimal, decimal) omap"

record limit_order_book =
  book_bids :: levels
  book_asks :: levels
  orders :: "u64 \<Rightarrow> market_order option"
  last_sequence :: u64
  exchange_name :: string
  book_feed_timestamp_ns :: i64
  book_local_timestamp_ns :: i64

definition empty_book :: limit_order_book where
  "empty_book = \<lparr> book_bids = [], book_asks = [], orders = Map.empty, last_sequence = 0,
     exchange_name = [], book_feed_timestamp_ns = 0, book_local_timestamp_ns = 0 \<rparr>"

abbreviation bid_find :: "decimal \<Rightarrow> levels \<Rightarrow> decimal option" where "bid_find \<equiv> om_find (>)"
abbreviation ask_find :: "decimal \<Rightarrow> levels \<Rightarrow> decimal option" where "ask_find \<equiv> om_find (<)"

section \<open>Operations\<close>

text \<open>One half of \<open>applyDelta\<close>, over the operations of the level map of that side.\<close>

definition level_delta ::
  "(decimal \<Rightarrow> 'm \<Rightarrow> decimal option) \<Rightarrow> (decimal \<Rightarrow> decimal \<Rightarrow> 'm \<Rightarrow> 'm) \<Rightarrow> (decimal \<Rightarrow> 'm \<Rightarrow> 'm) \<Rightarrow>
   decimal \<Rightarrow> decimal \<Rightarrow> 'm \<Rightarrow> 'm" where
  "level_delta get put del p delta m =
     (let it = get p m;
          nxt = (case it of None \<Rightarrow> delta | Some q \<Rightarrow> q + delta)
      in if nxt \<le> kZero then (case it of None \<Rightarrow> m | Some _ \<Rightarrow> del p m) else put p nxt m)"

definition applyDelta :: "side \<Rightarrow> decimal \<Rightarrow> decimal \<Rightarrow> levels \<times> levels \<Rightarrow> (levels \<times> levels) outcome" where
  "applyDelta s p delta ba =
     bind_outcome (assert_debug (kZero \<le> p) ''price must be non-negative'') (\<lambda>_.
       (case ba of (bids, asks) \<Rightarrow>
          if s = Bid then Inr (level_delta (om_find (>)) (om_put (>)) (om_erase (>)) p delta bids, asks)
          else Inr (bids, level_delta (om_find (<)) (om_put (<)) (om_erase (<)) p delta asks)))"

text \<open>The two loops of \<open>validateInvariants\<close>, with the previous price (\<open>None\<close> while \<open>first\<close>).\<close>

fun check_bids :: "decimal option \<Rightarrow> levels \<Rightarrow> unit outcome" where
  "check_bids prev [] = Inr ()"
| "check_bids prev ((p, q) # ls) =
     bind_outcome (assert_debug (kZero \<le> p) ''bid price negative'') (\<lambda>_.
     bind_outcome (assert_debug (kZero < q) ''bid quantity non-positive'') (\<lambda>_.
     bind_outcome (case prev of None \<Rightarrow> Inr () | Some pp \<Rightarrow> assert_debug (p < pp) ''bid levels not strictly descending'') (\<lambda>_.
       check_bids (Some p) ls)))"

fun check_asks :: "decimal option \<Rightarrow> levels \<Rightarrow> unit outcome" where
  "check_asks prev [] = Inr ()"
| "check_asks prev ((p, q) # ls) =
     bind_outcome (assert_debug (kZero \<le> p) ''ask price negative'') (\<lambda>_.
     bind_outcome (assert_debug (kZero < q) ''ask quantity non-positive'') (\<lambda>_.
     bind_outcome (case prev of None \<Rightarrow> Inr () | Some pp \<Rightarrow> assert_debug (pp < p) ''ask levels not strictly ascending'') (\<lambda>_.
       check_asks (Some p) ls)))"

definition check_crossed :: "levels \<Rightarrow> levels \<Rightarrow> unit outcome" where
  "check_crossed bids asks =
     (case (bids, asks) of
        ((bb, _) # _, (ba, _) # _) \<Rightarrow> assert_debug (bb < ba) ''best ask must exceed best bid''
      | _ \<Rightarrow> Inr ())"

definition validateInvariants :: "limit_order_book \<Rightarrow> unit outcome" where
  "validateInvariants b =
     bind_outcome (check_bids None (book_bids b)) (\<lambda>_.
     bind_outcome (check_asks None (book_asks b)) (\<lambda>_.
       check_crossed (book_bids b) (book_asks b)))"

fun load_bids :: "price_level list \<Rightarrow> levels \<Rightarrow> levels" where
  "load_bids [] m = m"
| "load_bids (l # ls) m =
     load_bids ls (if kZero < quantity l then om_put (>) (price l) (quantity l) m else m)"

fun load_asks :: "price_level list \<Rightarrow> levels \<Rightarrow> levels" where
  "load_asks [] m = m"
| "load_asks (l # ls) m =
     load_asks ls (if kZero < quantity l then om_put (<) (price l) (quantity l) m else m)"

definition apply_snapshot :: "order_book_snapshot \<Rightarrow> limit_order_book \<Rightarrow> limit_order_book" where
  "apply_snapshot s b =
     b\<lparr> book_bids := load_bids (snap_bids s) [], book_asks := load_asks (snap_asks s) [], orders := Map.empty \<rparr>"

text \<open>Remove a resting order: \<open>applyDelta\<close> with its negated quantity, then \<open>erase\<close>.\<close>

definition remove_order :: "u64 \<Rightarrow> limit_order_book \<Rightarrow> limit_order_book outcome" where
  "remove_order oid b =
     (case orders b oid of
        None \<Rightarrow> Inr b
      | Some existing \<Rightarrow>
          bind_outcome (applyDelta (order_side existing) (order_price existing)
              (fromRaw 0 - order_quantity existing) (book_bids b, book_asks b)) (\<lambda>(bids, asks).
            Inr (b\<lparr> book_bids := bids, book_asks := asks, orders := (orders b)(oid := None) \<rparr>)))"

definition reject_crossed :: "side \<Rightarrow> decimal \<Rightarrow> limit_order_book \<Rightarrow> bool" where
  "reject_crossed s p b =
     (if s = Bid then (case book_asks b of [] \<Rightarrow> False | (a, _) # _ \<Rightarrow> a \<le> p)
      else (case book_bids b of [] \<Rightarrow> False | (bb, _) # _ \<Rightarrow> p \<le> bb))"

text \<open>\<open>orders_.emplace\<close> keeps an entry that is already there.\<close>

definition emplace_order :: "market_order \<Rightarrow> limit_order_book \<Rightarrow> limit_order_book" where
  "emplace_order ord b =
     (if orders b (order_id ord) = None
      then b\<lparr> orders := (orders b)(order_id ord \<mapsto> ord) \<rparr> else b)"

definition apply_new_order :: "market_order \<Rightarrow> limit_order_book \<Rightarrow> limit_order_book outcome" where
  "apply_new_order ord b =
     (if order_id ord = 0 then Inr b
      else bind_outcome (remove_order (order_id ord) b) (\<lambda>b1.
        if reject_crossed (order_side ord) (order_price ord) b1 then Inr b1
        else (let b2 = emplace_order ord b1
              in bind_outcome (applyDelta (order_side ord) (order_price ord) (order_quantity ord)
                   (book_bids b2, book_asks b2)) (\<lambda>(bids, asks).
                 Inr (b2\<lparr> book_bids := bids, book_asks := asks \<rparr>)))))"

definition apply_cancel :: "market_order \<Rightarrow> limit_order_book \<Rightarrow> limit_order_book outcome" where
  "apply_cancel ord b = (if order_id ord = 0 then Inr b else remove_order (order_id ord) b)"

definition event_feed_ns :: "i64 \<Rightarrow> book_event \<Rightarrow> i64" where
  "event_feed_ns now e =
     (if ev_feed_timestamp_ns e = 0 then (if ev_timestamp e = 0 then now else ev_timestamp e)
      else ev_feed_timestamp_ns e)"

definition event_local_ns :: "i64 \<Rightarrow> book_event \<Rightarrow> i64" where
  "event_local_ns now e = (if ev_local_timestamp_ns e = 0 then now else ev_local_timestamp_ns e)"

definition stamp_book :: "i64 \<Rightarrow> book_event \<Rightarrow> limit_order_book \<Rightarrow> limit_order_book" where
  "stamp_book now e b =
     b\<lparr> exchange_name := (if exchange_name b = [] then ev_exchange e else exchange_name b),
        book_feed_timestamp_ns := event_feed_ns now e,
        book_local_timestamp_ns := event_local_ns now e \<rparr>"

definition stale_sequence :: "book_event \<Rightarrow> limit_order_book \<Rightarrow> bool" where
  "stale_sequence e b \<longleftrightarrow> ev_sequence e \<noteq> 0 \<and> ev_sequence e \<le> last_sequence b"

definition dispatch_event :: "book_event \<Rightarrow> limit_order_book \<Rightarrow> limit_order_book outcome" where
  "dispatch_event e b =
     (case ev_kind e of
        Snapshot \<Rightarrow> Inr (apply_snapshot (ev_snapshot e) b)
      | NewOrder \<Rightarrow> apply_new_order (ev_order e) b
      | CancelOrder \<Rightarrow> apply_cancel (ev_order e) b)"

definition apply_event :: "i64 \<Rightarrow> book_event \<Rightarrow> limit_order_book \<Rightarrow> limit_order_book outcome" where
  "apply_event now e b =
     (if exchange_name b \<noteq> [] \<and> exchange_name b \<noteq> ev_exchange e
      then Inl (Throw (Invalid_argument ''update exchange mismatch''))
      else (let b1 = stamp_book now e b
            in if stale_sequence e b1 then Inr b1
               else (let b2 = (if ev_sequence e \<noteq> 0 then b1\<lparr> last_sequence := ev_sequence e \<rparr> else b1)
                     in bind_outcome (dispatch_event e b2) (\<lambda>b3.
                        bind_outcome (validateInvariants b3) (\<lambda>_. Inr b3)))))"

fun top_level :: "levels \<Rightarrow> price_level" where
  "top_level [] = mk_level (fromRaw 0) (fromRaw 0)"
| "top_level ((p, q) # _) = mk_level p q"

definition bestBid :: "limit_order_book \<Rightarrow> price_level" where
  "bestBid b = top_level (book_bids b)"

definition bestAsk :: "limit_order_book \<Rightarrow> price_level" where
  "bestAsk b = top_level (book_asks b)"

text \<open>The copying loops of \<open>snapshot\<close>: \<open>count++ >= depth\<close> ends them.\<close>

fun copy_levels :: "nat \<Rightarrow> nat \<Rightarrow> levels \<Rightarrow> price_level list" where
  "copy_levels depth count [] = []"
| "copy_levels depth count ((p, q) # ls) =
     (if depth \<le> count then [] else mk_level p q # copy_levels depth (Suc count) ls)"

definition take_snapshot :: "nat \<Rightarrow> limit_order_book \<Rightarrow> order_book_snapshot" where
  "take_snapshot depth b =
     \<lparr> snap_bids = copy_levels depth 0 (book_bids b), snap_asks = copy_levels depth 0 (book_asks b) \<rparr>"

definition book_empty :: "limit_order_book \<Rightarrow> bool" where
  "book_empty b \<longleftrightarrow> book_bids b = [] \<and> book_asks b = []"

definition setExchange :: "string \<Rightarrow> limit_order_book \<Rightarrow> limit_order_book" where
  "setExchange name b = b\<lparr> exchange_name := name \<rparr>"

section \<open>The levels of one side\<close>

definition level_qty :: "('k \<Rightarrow> 'm \<Rightarrow> decimal option) \<Rightarrow> 'm \<Rightarrow> 'k \<Rightarrow> int" where
  "level_qty get m p = (case get p m of None \<Rightarrow> 0 | Some q \<Rightarrow> dval q)"

locale price_levels = level_store find put del entries inv
  for find :: "decimal \<Rightarrow> 'm \<Rightarrow> decimal option" and put and del and entries and inv
begin

lemma delta_inv: "inv m \<Longrightarrow> inv (level_delta find put del p d m)"
  by (simp add: level_delta_def Let_def inv_put inv_del split: option.split)

lemma delta_positive:
  assumes "inv m" and "\<forall>(p', q) \<in> entries m. 0 < dval q"
  shows "\<forall>(p', q) \<in> entries (level_delta find put del p d m). 0 < dval q"
proof -
  have "0 < dval q" if "find p' (level_delta find put del p d m) = Some q" for p' q
  proof -
    have old: "0 < dval q" if "find p' m = Some q" for p' q
      using that assms by (force simp: entries_find)
    show ?thesis using that old assms(1)
      by (auto simp: level_delta_def Let_def find_put find_del decimal_simps not_le
          split: if_splits option.splits)
  qed
  then show ?thesis using assms(1) by (auto simp: entries_find delta_inv)
qed

lemma delta_keys:
  assumes "inv m" and "(p', q) \<in> entries (level_delta find put del p d m)"
  shows "p' = p \<or> (p', q) \<in> entries m"
  using assms by (auto simp: level_delta_def Let_def find_put find_del entries_find inv_put inv_del
      split: if_splits option.splits)

lemma delta_qty:
  assumes "inv m" and "0 \<le> level_qty find m p + dval d" and "level_qty find m p + dval d < 2 ^ 127"
  shows "level_qty find (level_delta find put del p d m) p' =
    (if p' = p then level_qty find m p + dval d else level_qty find m p')"
proof (cases "find p m")
  case None
  with assms show ?thesis
    by (auto simp: level_qty_def level_delta_def Let_def find_put decimal_simps)
next
  case (Some q)
  then have "dval (q + d) = dval q + dval d"
    using assms by (intro dval_plus_nonneg) (simp_all add: level_qty_def)
  with Some assms show ?thesis
    by (auto simp: level_qty_def level_delta_def Let_def find_put find_del decimal_simps)
qed

lemma key_iff_qty:
  assumes "inv m" and "\<forall>(p', q) \<in> entries m. 0 < dval q"
  shows "p \<in> fst ` entries m \<longleftrightarrow> 0 < level_qty find m p"
proof (cases "find p m")
  case None
  then have "(p, q) \<notin> entries m" for q using entries_find [OF assms(1)] by simp
  then show ?thesis using None by (auto simp: level_qty_def)
next
  case (Some q)
  then have "(p, q) \<in> entries m" using entries_find [OF assms(1)] by simp
  then have "p \<in> fst ` entries m" "0 < dval q" using assms(2) by (force, auto)
  then show ?thesis using Some by (simp add: level_qty_def)
qed

end

interpretation bid_side: price_levels "om_find (>)" "om_put (>)" "om_erase (>)" set "om_sorted (>)"
  by unfold_locales

interpretation ask_side: price_levels "om_find (<)" "om_put (<)" "om_erase (<)" set "om_sorted (<)"
  by unfold_locales

section \<open>The invariant\<close>

definition positive_levels :: "levels \<Rightarrow> bool" where
  "positive_levels ls \<longleftrightarrow> (\<forall>(p, q) \<in> set ls. 0 \<le> dval p \<and> 0 < dval q)"

definition uncrossed :: "levels \<Rightarrow> levels \<Rightarrow> bool" where
  "uncrossed bids asks \<longleftrightarrow> (\<forall>(p, q) \<in> set bids. \<forall>(a, r) \<in> set asks. p < a)"

definition book_ok :: "limit_order_book \<Rightarrow> bool" where
  "book_ok b \<longleftrightarrow> om_sorted (>) (book_bids b) \<and> om_sorted (<) (book_asks b) \<and>
     positive_levels (book_bids b) \<and> positive_levels (book_asks b) \<and> uncrossed (book_bids b) (book_asks b)"

lemma kZero_le_iff: "(0 :: decimal) \<le> p \<longleftrightarrow> 0 \<le> dval p" and kZero_less_iff: "(0 :: decimal) < p \<longleftrightarrow> 0 < dval p"
  by (simp_all add: decimal_simps)

lemma check_bids_iff:
  "check_bids prev ls = Inr () \<longleftrightarrow> positive_levels ls \<and> om_sorted (>) ls \<and>
     (case prev of None \<Rightarrow> True | Some pp \<Rightarrow> \<forall>(p, q) \<in> set ls. p < pp)"
proof (induction prev ls rule: check_bids.induct)
  case (2 prev p q ls)
  show ?case
    by (auto simp: outcome_simps 2 positive_levels_def om_sorted_Cons kZero_le_iff kZero_less_iff
        split: option.split)
qed (simp add: positive_levels_def split: option.split)

lemma check_asks_iff:
  "check_asks prev ls = Inr () \<longleftrightarrow> positive_levels ls \<and> om_sorted (<) ls \<and>
     (case prev of None \<Rightarrow> True | Some pp \<Rightarrow> \<forall>(p, q) \<in> set ls. pp < p)"
proof (induction prev ls rule: check_asks.induct)
  case (2 prev p q ls)
  show ?case
    by (auto simp: outcome_simps 2 positive_levels_def om_sorted_Cons kZero_le_iff kZero_less_iff
        split: option.split)
qed (simp add: positive_levels_def split: option.split)

lemma check_crossed_iff:
  assumes "om_sorted (>) bids" and "om_sorted (<) asks"
  shows "check_crossed bids asks = Inr () \<longleftrightarrow> uncrossed bids asks"
proof (cases bids)
  case Nil
  then show ?thesis by (simp add: check_crossed_def uncrossed_def)
next
  case (Cons x bids')
  obtain p q where x: "x = (p, q)" by (cases x)
  show ?thesis
  proof (cases asks)
    case Nil
    then show ?thesis by (simp add: check_crossed_def uncrossed_def split: list.split)
  next
    case (Cons y asks')
    obtain a r where y: "y = (a, r)" by (cases y)
    show ?thesis using assms \<open>bids = x # bids'\<close> Cons x y
      by (force simp: check_crossed_def uncrossed_def om_sorted_Cons outcome_simps)
  qed
qed

lemma outcome_unit: "(r :: unit outcome) = Inr u \<longleftrightarrow> r = Inr ()"
  by simp

lemma validateInvariants_iff: "validateInvariants b = Inr () \<longleftrightarrow> book_ok b"
  unfolding validateInvariants_def book_ok_def bind_outcome_eq_Inr
  using check_bids_iff [of None "book_bids b"] check_asks_iff [of None "book_asks b"]
    check_crossed_iff [of "book_bids b" "book_asks b"] by auto

lemma reject_crossed_bid:
  assumes "om_sorted (<) (book_asks b)"
  shows "reject_crossed Bid p b \<longleftrightarrow> (\<exists>(a, r) \<in> set (book_asks b). a \<le> p)"
  using assms by (cases "book_asks b") (force simp: reject_crossed_def om_sorted_Cons)+

lemma reject_crossed_ask:
  assumes "om_sorted (>) (book_bids b)"
  shows "reject_crossed Ask p b \<longleftrightarrow> (\<exists>(a, r) \<in> set (book_bids b). p \<le> a)"
  using assms by (cases "book_bids b") (force simp: reject_crossed_def om_sorted_Cons)+

section \<open>Resting orders\<close>

definition order_share :: "side \<Rightarrow> decimal \<Rightarrow> market_order option \<Rightarrow> int" where
  "order_share s p ord =
     (case ord of None \<Rightarrow> 0 | Some x \<Rightarrow> if order_side x = s \<and> order_price x = p then dval (order_quantity x) else 0)"

definition resting :: "side \<Rightarrow> decimal \<Rightarrow> (u64 \<Rightarrow> market_order option) \<Rightarrow> int" where
  "resting s p os = (\<Sum>oid \<in> UNIV. order_share s p (os oid))"

definition depth_at :: "side \<Rightarrow> decimal \<Rightarrow> limit_order_book \<Rightarrow> int" where
  "depth_at s p b = (if s = Bid then level_qty bid_find (book_bids b) p else level_qty ask_find (book_asks b) p)"

lemma resting_empty [simp]: "resting s p Map.empty = 0"
  by (simp add: resting_def order_share_def)

lemma sum_fun_upd:
  fixes f :: "'b \<Rightarrow> int" and m :: "'a :: finite \<Rightarrow> 'b"
  shows "(\<Sum>i \<in> UNIV. f ((m(k := x)) i)) = (\<Sum>i \<in> UNIV. f (m i)) - f (m k) + f x"
proof -
  have "(\<Sum>i \<in> UNIV - {k}. f ((m(k := x)) i)) = (\<Sum>i \<in> UNIV - {k}. f (m i))"
    by (rule sum.cong) auto
  moreover have "(\<Sum>i \<in> UNIV. f ((m(k := x)) i)) = f x + (\<Sum>i \<in> UNIV - {k}. f ((m(k := x)) i))"
    by (subst sum.remove [of UNIV k]) simp_all
  moreover have "(\<Sum>i \<in> UNIV. f (m i)) = f (m k) + (\<Sum>i \<in> UNIV - {k}. f (m i))"
    by (rule sum.remove) simp_all
  ultimately show ?thesis by linarith
qed

lemma resting_update:
  "resting s p (os(oid := x)) = resting s p os - order_share s p (os oid) + order_share s p x"
  unfolding resting_def by (rule sum_fun_upd)

definition orders_ok :: "(u64 \<Rightarrow> market_order option) \<Rightarrow> bool" where
  "orders_ok os \<longleftrightarrow>
     (\<forall>oid x. os oid = Some x \<longrightarrow> order_id x = oid \<and> 0 \<le> dval (order_price x) \<and> 0 < dval (order_quantity x))"

text \<open>
  Every level holds a base quantity (what the last snapshot brought) plus the quantities of the
  resting orders at its side and price.
\<close>

definition accounted :: "(side \<Rightarrow> decimal \<Rightarrow> int) \<Rightarrow> limit_order_book \<Rightarrow> bool" where
  "accounted base b \<longleftrightarrow>
     (\<forall>s p. 0 \<le> base s p \<and> depth_at s p b = base s p + resting s p (orders b))"

definition book_inv :: "(side \<Rightarrow> decimal \<Rightarrow> int) \<Rightarrow> limit_order_book \<Rightarrow> bool" where
  "book_inv base b \<longleftrightarrow> book_ok b \<and> orders_ok (orders b) \<and> accounted base b"

lemma resting_nonneg: "orders_ok os \<Longrightarrow> 0 \<le> resting s p os"
  unfolding resting_def by (rule sum_nonneg) (auto simp: order_share_def orders_ok_def less_imp_le split: option.split)

lemma resting_ge_share: "orders_ok os \<Longrightarrow> order_share s p (os oid) \<le> resting s p os"
  unfolding resting_def
  by (rule member_le_sum) (auto simp: order_share_def orders_ok_def less_imp_le split: option.split)

lemma depth_less: "depth_at s p b < 2 ^ 127"
  using dval_bounds by (auto simp: depth_at_def level_qty_def split: option.split)

lemma side_neq: "s \<noteq> Bid \<longleftrightarrow> s = Ask" "s \<noteq> Ask \<longleftrightarrow> s = Bid"
  by (cases s; simp)+

lemma applyDelta_spec:
  assumes b: "book_ok b" and p: "0 \<le> dval p"
    and lo: "0 \<le> depth_at s p b + dval d" and hi: "depth_at s p b + dval d < 2 ^ 127"
  shows "\<exists>bids asks. applyDelta s p d (book_bids b, book_asks b) = Inr (bids, asks) \<and>
    om_sorted (>) bids \<and> om_sorted (<) asks \<and> positive_levels bids \<and> positive_levels asks \<and>
    (\<forall>p' q. (p', q) \<in> set bids \<longrightarrow> (s = Bid \<and> p' = p) \<or> (p', q) \<in> set (book_bids b)) \<and>
    (\<forall>p' q. (p', q) \<in> set asks \<longrightarrow> (s = Ask \<and> p' = p) \<or> (p', q) \<in> set (book_asks b)) \<and>
    (\<forall>s' p'. depth_at s' p' (b\<lparr>book_bids := bids, book_asks := asks\<rparr>) =
       (if s' = s \<and> p' = p then depth_at s p b + dval d else depth_at s' p' b))"
proof (cases s)
  case Bid
  let ?m = "level_delta (om_find (>)) (om_put (>)) (om_erase (>)) p d (book_bids b)"
  have srt: "om_sorted (>) (book_bids b)" and pos: "positive_levels (book_bids b)"
    and other: "om_sorted (<) (book_asks b)" "positive_levels (book_asks b)"
    using b by (simp_all add: book_ok_def)
  have keys: "p' = p \<or> (p', q) \<in> set (book_bids b)" if "(p', q) \<in> set ?m" for p' q
    using bid_side.delta_keys [OF srt that] .
  have "\<forall>(p', q) \<in> set ?m. 0 < dval q"
    by (rule bid_side.delta_positive [OF srt]) (use pos in \<open>auto simp: positive_levels_def\<close>)
  then have "positive_levels ?m" using keys pos p by (force simp: positive_levels_def)
  moreover have "level_qty bid_find ?m p' =
      (if p' = p then level_qty bid_find (book_bids b) p + dval d else level_qty bid_find (book_bids b) p')" for p'
    using bid_side.delta_qty [OF srt, of p d p'] lo hi Bid by (simp add: depth_at_def)
  ultimately show ?thesis
    using Bid p keys other bid_side.delta_inv [OF srt, of p d]
    by (auto simp: applyDelta_def kZero_le_iff depth_at_def side_neq)
next
  case Ask
  let ?m = "level_delta (om_find (<)) (om_put (<)) (om_erase (<)) p d (book_asks b)"
  have srt: "om_sorted (<) (book_asks b)" and pos: "positive_levels (book_asks b)"
    and other: "om_sorted (>) (book_bids b)" "positive_levels (book_bids b)"
    using b by (simp_all add: book_ok_def)
  have keys: "p' = p \<or> (p', q) \<in> set (book_asks b)" if "(p', q) \<in> set ?m" for p' q
    using ask_side.delta_keys [OF srt that] .
  have "\<forall>(p', q) \<in> set ?m. 0 < dval q"
    by (rule ask_side.delta_positive [OF srt]) (use pos in \<open>auto simp: positive_levels_def\<close>)
  then have "positive_levels ?m" using keys pos p by (force simp: positive_levels_def)
  moreover have "level_qty ask_find ?m p' =
      (if p' = p then level_qty ask_find (book_asks b) p + dval d else level_qty ask_find (book_asks b) p')" for p'
    using ask_side.delta_qty [OF srt, of p d p'] lo hi Ask by (simp add: depth_at_def)
  ultimately show ?thesis
    using Ask p keys other ask_side.delta_inv [OF srt, of p d]
    by (auto simp: applyDelta_def kZero_le_iff depth_at_def side_neq)
qed

lemma uncrossed_shrink:
  assumes "uncrossed bids asks" and "fst ` set bids' \<subseteq> fst ` set bids" and "fst ` set asks' \<subseteq> fst ` set asks"
  shows "uncrossed bids' asks'"
  using assms unfolding uncrossed_def by (force simp: subset_iff image_iff)

lemma positive_depth:
  assumes "book_ok b"
  shows "p \<in> fst ` set (book_bids b) \<longleftrightarrow> 0 < depth_at Bid p b"
    and "p \<in> fst ` set (book_asks b) \<longleftrightarrow> 0 < depth_at Ask p b"
proof -
  have b: "om_sorted (>) (book_bids b)" "\<forall>(p', q) \<in> set (book_bids b). 0 < dval q"
    and a: "om_sorted (<) (book_asks b)" "\<forall>(p', q) \<in> set (book_asks b). 0 < dval q"
    using assms by (auto simp: book_ok_def positive_levels_def)
  show "p \<in> fst ` set (book_bids b) \<longleftrightarrow> 0 < depth_at Bid p b"
    using bid_side.key_iff_qty [OF b] by (simp add: depth_at_def)
  show "p \<in> fst ` set (book_asks b) \<longleftrightarrow> 0 < depth_at Ask p b"
    using ask_side.key_iff_qty [OF a] by (simp add: depth_at_def)
qed

lemma remove_order_spec:
  assumes inv: "book_inv base b" and ex: "orders b oid = Some x"
  shows "\<exists>b'. remove_order oid b = Inr b' \<and> book_inv base b' \<and> orders b' = (orders b)(oid := None) \<and>
    exchange_name b' = exchange_name b \<and> last_sequence b' = last_sequence b \<and>
    (\<forall>s p. depth_at s p b' = depth_at s p b - order_share s p (Some x))"
proof -
  let ?s = "order_side x" and ?p = "order_price x" and ?q = "order_quantity x"
  let ?os = "(orders b)(oid := None)"
  have ok: "book_ok b" "orders_ok (orders b)" "accounted base b" using inv by (simp_all add: book_inv_def)
  have x: "0 \<le> dval ?p" "0 < dval ?q" using ok(2) ex by (auto simp: orders_ok_def)
  have d: "dval (fromRaw 0 - ?q) = - dval ?q"
    using dval_uminus [of ?q] x(2) by (simp flip: zero_decimal_def)
  have os: "orders_ok ?os" using ok(2) by (auto simp: orders_ok_def)
  have share: "order_share ?s ?p (Some x) = dval ?q" by (simp add: order_share_def)
  have "depth_at ?s ?p b = base ?s ?p + resting ?s ?p (orders b)" "0 \<le> base ?s ?p"
    using ok(3) by (auto simp: accounted_def)
  then have ge: "dval ?q \<le> depth_at ?s ?p b"
    using resting_ge_share [OF ok(2), of ?s ?p oid] share ex by simp
  obtain bids asks where ba: "applyDelta ?s ?p (fromRaw 0 - ?q) (book_bids b, book_asks b) = Inr (bids, asks)"
    "om_sorted (>) bids" "om_sorted (<) asks" "positive_levels bids" "positive_levels asks"
    and dep: "\<And>s' p'. depth_at s' p' (b\<lparr>book_bids := bids, book_asks := asks\<rparr>) =
       (if s' = ?s \<and> p' = ?p then depth_at ?s ?p b - dval ?q else depth_at s' p' b)"
    using applyDelta_spec [OF ok(1) x(1), of ?s "fromRaw 0 - ?q"] ge x(2) depth_less [of ?s ?p b]
    unfolding d by (auto simp: less_imp_le)
  let ?b' = "b\<lparr>book_bids := bids, book_asks := asks, orders := ?os\<rparr>"
  have dep': "depth_at s p ?b' = depth_at s p b - order_share s p (Some x)" for s p
    using dep [of s p] by (auto simp: depth_at_def order_share_def)
  have keys: "fst ` set bids \<subseteq> fst ` set (book_bids b)" "fst ` set asks \<subseteq> fst ` set (book_asks b)"
  proof -
    have nn: "0 \<le> order_share s p (Some x)" for s p using x by (simp add: order_share_def)
    define c where "c = b\<lparr>book_bids := bids, book_asks := asks, orders := ?os, book_asks := []\<rparr>"
    define e where "e = b\<lparr>book_bids := [], book_asks := asks, orders := ?os\<rparr>"
    have "book_ok c" "book_ok e"
      using ba by (simp_all add: c_def e_def book_ok_def positive_levels_def uncrossed_def)
    have "depth_at Bid p c \<le> depth_at Bid p b" for p
      using dep' [of Bid p] nn [of Bid p] by (simp add: c_def depth_at_def)
    then show "fst ` set bids \<subseteq> fst ` set (book_bids b)"
      using positive_depth(1) [OF ok(1)] positive_depth(1) [OF \<open>book_ok c\<close>]
      by (auto simp: c_def subset_iff) (smt (verit))
    have "depth_at Ask p e \<le> depth_at Ask p b" for p
      using dep' [of Ask p] nn [of Ask p] by (simp add: e_def depth_at_def)
    then show "fst ` set asks \<subseteq> fst ` set (book_asks b)"
      using positive_depth(2) [OF ok(1)] positive_depth(2) [OF \<open>book_ok e\<close>]
      by (auto simp: e_def subset_iff) (smt (verit))
  qed
  have "uncrossed bids asks"
    by (rule uncrossed_shrink [OF _ keys]) (use ok(1) in \<open>simp add: book_ok_def\<close>)
  then have "book_ok ?b'" using ba by (simp add: book_ok_def)
  moreover have "accounted base ?b'"
    using ok(3) dep' ex by (simp add: accounted_def resting_update order_share_def)
  ultimately have "book_inv base ?b'" using os by (simp add: book_inv_def)
  then show ?thesis using dep' ba(1) ex by (auto simp: remove_order_def)
qed

section \<open>What each event does\<close>

definition admissible_order :: "market_order \<Rightarrow> limit_order_book \<Rightarrow> bool" where
  "admissible_order ord b \<longleftrightarrow> order_id ord \<noteq> 0 \<longrightarrow>
     0 \<le> dval (order_price ord) \<and> 0 < dval (order_quantity ord) \<and>
     depth_at (order_side ord) (order_price ord) b + dval (order_quantity ord) < 2 ^ 127"

definition kept_levels :: "price_level list \<Rightarrow> price_level list" where
  "kept_levels ls = filter (\<lambda>l. kZero < quantity l) ls"

definition admissible_snapshot :: "order_book_snapshot \<Rightarrow> bool" where
  "admissible_snapshot s \<longleftrightarrow>
     (\<forall>l \<in> set (kept_levels (snap_bids s)) \<union> set (kept_levels (snap_asks s)). 0 \<le> dval (price l)) \<and>
     (\<forall>l \<in> set (kept_levels (snap_bids s)). \<forall>a \<in> set (kept_levels (snap_asks s)). price l < price a)"

definition admissible_event :: "book_event \<Rightarrow> limit_order_book \<Rightarrow> bool" where
  "admissible_event e b =
     (case ev_kind e of
        Snapshot \<Rightarrow> admissible_snapshot (ev_snapshot e)
      | NewOrder \<Rightarrow> admissible_order (ev_order e) b
      | CancelOrder \<Rightarrow> True)"

definition same_header :: "limit_order_book \<Rightarrow> limit_order_book \<Rightarrow> bool" where
  "same_header b b' \<longleftrightarrow> exchange_name b' = exchange_name b \<and> last_sequence b' = last_sequence b \<and>
     book_feed_timestamp_ns b' = book_feed_timestamp_ns b \<and> book_local_timestamp_ns b' = book_local_timestamp_ns b"

lemma same_header_refl [simp]: "same_header b b"
  by (simp add: same_header_def)

lemma remove_order_header: "remove_order oid b = Inr b' \<Longrightarrow> same_header b b'"
  by (auto simp: remove_order_def same_header_def outcome_simps split: option.splits)

lemma remove_order_total:
  assumes "book_inv base b"
  shows "\<exists>b'. remove_order oid b = Inr b' \<and> book_inv base b' \<and> orders b' = (orders b)(oid := None) \<and>
    (\<forall>s p. depth_at s p b' = depth_at s p b - order_share s p (orders b oid))"
proof (cases "orders b oid")
  case None
  then have "(orders b)(oid := None) = orders b" by auto
  with None assms show ?thesis by (auto simp: remove_order_def order_share_def)
next
  case (Some x)
  with remove_order_spec [OF assms Some] show ?thesis by auto
qed

lemma no_order_at_zero:
  "remove_order oid b = Inr b \<or> orders b oid \<noteq> None"
  by (simp add: remove_order_def split: option.split)

definition new_order_share :: "market_order \<Rightarrow> bool \<Rightarrow> side \<Rightarrow> decimal \<Rightarrow> int" where
  "new_order_share ord crossed s p = (if crossed then 0 else order_share s p (Some ord))"

lemma apply_new_order_spec:
  assumes inv: "book_inv base b" and adm: "admissible_order ord b" and id: "order_id ord \<noteq> 0"
  shows "\<exists>b1 b'. remove_order (order_id ord) b = Inr b1 \<and> apply_new_order ord b = Inr b' \<and>
    book_inv base b' \<and> same_header b b' \<and>
    orders b' = (orders b)(order_id ord := if reject_crossed (order_side ord) (order_price ord) b1 then None else Some ord) \<and>
    (\<forall>s p. depth_at s p b' = depth_at s p b - order_share s p (orders b (order_id ord)) +
       new_order_share ord (reject_crossed (order_side ord) (order_price ord) b1) s p)"
proof -
  let ?s = "order_side ord" and ?p = "order_price ord" and ?q = "order_quantity ord" and ?oid = "order_id ord"
  obtain b1 where b1: "remove_order ?oid b = Inr b1" "book_inv base b1" "orders b1 = (orders b)(?oid := None)"
    and dep1: "\<And>s p. depth_at s p b1 = depth_at s p b - order_share s p (orders b ?oid)"
    using remove_order_total [OF inv, of ?oid] by auto
  have hd1: "same_header b b1" by (rule remove_order_header [OF b1(1)])
  have ok: "book_ok b1" "orders_ok (orders b1)" "accounted base b1" using b1(2) by (simp_all add: book_inv_def)
  have x: "0 \<le> dval ?p" "0 < dval ?q" "depth_at ?s ?p b + dval ?q < 2 ^ 127"
    using adm id by (auto simp: admissible_order_def)
  show ?thesis
  proof (cases "reject_crossed ?s ?p b1")
    case True
    then show ?thesis using b1 dep1 id hd1
      by (auto simp: apply_new_order_def new_order_share_def)
  next
    case False
    let ?os = "(orders b1)(?oid \<mapsto> ord)"
    have none: "orders b1 ?oid = None" by (simp add: b1(3))
    have os: "orders_ok ?os" using ok(2) x by (auto simp: orders_ok_def)
    have share_nn: "0 \<le> order_share ?s ?p (orders b ?oid)"
      using inv by (auto simp: book_inv_def orders_ok_def order_share_def less_imp_le split: option.split)
    have "0 \<le> depth_at ?s ?p b1" using ok resting_nonneg [OF ok(2), of ?s ?p] by (auto simp: accounted_def)
    then have lo: "0 \<le> depth_at ?s ?p b1 + dval ?q" and hi: "depth_at ?s ?p b1 + dval ?q < 2 ^ 127"
      using x dep1 [of ?s ?p] share_nn by linarith+
    obtain bids asks where ba: "applyDelta ?s ?p ?q (book_bids b1, book_asks b1) = Inr (bids, asks)"
      "om_sorted (>) bids" "om_sorted (<) asks" "positive_levels bids" "positive_levels asks"
      and kb: "\<And>p' q. (p', q) \<in> set bids \<Longrightarrow> (?s = Bid \<and> p' = ?p) \<or> (p', q) \<in> set (book_bids b1)"
      and ka: "\<And>p' q. (p', q) \<in> set asks \<Longrightarrow> (?s = Ask \<and> p' = ?p) \<or> (p', q) \<in> set (book_asks b1)"
      and dep: "\<And>s' p'. depth_at s' p' (b1\<lparr>book_bids := bids, book_asks := asks\<rparr>) =
         (if s' = ?s \<and> p' = ?p then depth_at ?s ?p b1 + dval ?q else depth_at s' p' b1)"
      using applyDelta_spec [OF ok(1) x(1) lo hi] by blast
    have "uncrossed bids asks"
      unfolding uncrossed_def
    proof clarify
      fix p1 q1 p2 q2
      assume 1: "(p1, q1) \<in> set bids" and 2: "(p2, q2) \<in> set asks"
      have old: "p1 < p2" if "(p1, q1) \<in> set (book_bids b1)" "(p2, q2) \<in> set (book_asks b1)"
        using ok(1) that by (auto simp: book_ok_def uncrossed_def)
      have bid: "?p < p2" if "?s = Bid" "(p2, q2) \<in> set (book_asks b1)"
        using False that reject_crossed_bid [of b1 ?p] ok(1) by (force simp: book_ok_def not_le)
      have ask: "p1 < ?p" if "?s = Ask" "(p1, q1) \<in> set (book_bids b1)"
        using False that reject_crossed_ask [of b1 ?p] ok(1) by (force simp: book_ok_def not_le)
      show "p1 < p2" using kb [OF 1] ka [OF 2] old bid ask by auto
    qed
    then have bok: "book_ok (b1\<lparr>orders := ?os, book_bids := bids, book_asks := asks\<rparr>)"
      using ba by (simp add: book_ok_def)
    have dep': "depth_at s p (b1\<lparr>orders := ?os, book_bids := bids, book_asks := asks\<rparr>) =
        depth_at s p b1 + order_share s p (Some ord)" for s p
      using dep [of s p] by (auto simp: depth_at_def order_share_def)
    then have "accounted base (b1\<lparr>orders := ?os, book_bids := bids, book_asks := asks\<rparr>)"
      using ok(3) none by (simp add: accounted_def resting_update order_share_def)
    then have "book_inv base (b1\<lparr>orders := ?os, book_bids := bids, book_asks := asks\<rparr>)"
      using bok os by (simp add: book_inv_def)
    moreover have "apply_new_order ord b = Inr (b1\<lparr>orders := ?os, book_bids := bids, book_asks := asks\<rparr>)"
      using b1(1) False none id ba(1) by (simp add: apply_new_order_def emplace_order_def)
    moreover have "?os = (orders b)(?oid \<mapsto> ord)" by (simp add: b1(3))
    ultimately show ?thesis using False b1(1) dep' dep1 hd1
      by (auto simp: new_order_share_def same_header_def)
  qed
qed

text \<open>The quantity a snapshot leaves at a price: its last positive quote there.\<close>

fun snapshot_qty :: "price_level list \<Rightarrow> decimal \<Rightarrow> decimal option" where
  "snapshot_qty [] p = None"
| "snapshot_qty (l # ls) p =
     (case snapshot_qty ls p of
        Some q \<Rightarrow> Some q
      | None \<Rightarrow> if kZero < quantity l \<and> price l = p then Some (quantity l) else None)"

lemma load_bids_spec:
  "om_sorted (>) m \<Longrightarrow> om_sorted (>) (load_bids ls m) \<and>
   (\<forall>p. bid_find p (load_bids ls m) = (case snapshot_qty ls p of None \<Rightarrow> bid_find p m | Some q \<Rightarrow> Some q))"
proof (induction ls arbitrary: m)
  case (Cons l ls)
  have "om_sorted (>) (om_put (>) (price l) (quantity l) m)" by (rule desc.sorted_put [OF Cons.prems])
  from Cons.IH [OF this] Cons.IH [OF Cons.prems] show ?case
    by (auto simp: desc.find_put_eq [OF Cons.prems] split: option.splits)
qed simp

lemma load_asks_spec:
  "om_sorted (<) m \<Longrightarrow> om_sorted (<) (load_asks ls m) \<and>
   (\<forall>p. ask_find p (load_asks ls m) = (case snapshot_qty ls p of None \<Rightarrow> ask_find p m | Some q \<Rightarrow> Some q))"
proof (induction ls arbitrary: m)
  case (Cons l ls)
  have "om_sorted (<) (om_put (<) (price l) (quantity l) m)" by (rule asc.sorted_put [OF Cons.prems])
  from Cons.IH [OF this] Cons.IH [OF Cons.prems] show ?case
    by (auto simp: asc.find_put_eq [OF Cons.prems] split: option.splits)
qed simp

lemma snapshot_qty_SomeD:
  "snapshot_qty ls p = Some q \<Longrightarrow> \<exists>l \<in> set (kept_levels ls). price l = p \<and> quantity l = q \<and> 0 < dval q"
  by (induction ls) (auto simp: kept_levels_def kZero_less_iff split: option.splits if_splits)

lemma load_bids_sorted: "om_sorted (>) (load_bids ls [])"
  and load_bids_find: "bid_find p (load_bids ls []) = snapshot_qty ls p"
  and load_bids_mem: "(p, q) \<in> set (load_bids ls []) \<longleftrightarrow> snapshot_qty ls p = Some q"
  using load_bids_spec [of "[]" ls] desc.find_iff [of "load_bids ls []" p q]
  by (auto split: option.splits)

lemma load_asks_sorted: "om_sorted (<) (load_asks ls [])"
  and load_asks_find: "ask_find p (load_asks ls []) = snapshot_qty ls p"
  and load_asks_mem: "(p, q) \<in> set (load_asks ls []) \<longleftrightarrow> snapshot_qty ls p = Some q"
  using load_asks_spec [of "[]" ls] asc.find_iff [of "load_asks ls []" p q]
  by (auto split: option.splits)

definition snapshot_depth :: "order_book_snapshot \<Rightarrow> side \<Rightarrow> decimal \<Rightarrow> int" where
  "snapshot_depth sn s p =
     (case snapshot_qty (if s = Bid then snap_bids sn else snap_asks sn) p of None \<Rightarrow> 0 | Some q \<Rightarrow> dval q)"

lemma apply_snapshot_depth: "depth_at s p (apply_snapshot sn b) = snapshot_depth sn s p"
  by (simp add: depth_at_def level_qty_def apply_snapshot_def snapshot_depth_def load_bids_find load_asks_find)

lemma apply_snapshot_inv:
  assumes "admissible_snapshot sn"
  shows "book_inv (snapshot_depth sn) (apply_snapshot sn b)"
proof -
  have nn: "0 \<le> snapshot_depth sn s p" for s p
    by (auto simp: snapshot_depth_def split: option.split dest: snapshot_qty_SomeD)
  have "book_ok (apply_snapshot sn b)"
    unfolding book_ok_def apply_snapshot_def
  proof (simp add: load_bids_sorted load_asks_sorted, intro conjI)
    show "positive_levels (load_bids (snap_bids sn) [])"
      using assms by (auto simp: positive_levels_def admissible_snapshot_def load_bids_mem dest!: snapshot_qty_SomeD)
    show "positive_levels (load_asks (snap_asks sn) [])"
      using assms by (auto simp: positive_levels_def admissible_snapshot_def load_asks_mem dest!: snapshot_qty_SomeD)
    show "uncrossed (load_bids (snap_bids sn) []) (load_asks (snap_asks sn) [])"
      using assms by (fastforce simp: uncrossed_def admissible_snapshot_def load_bids_mem load_asks_mem dest!: snapshot_qty_SomeD)
  qed
  then show ?thesis using nn
    by (simp add: book_inv_def accounted_def apply_snapshot_depth) (simp add: apply_snapshot_def orders_ok_def)
qed

section \<open>Whole events\<close>

definition base_after :: "book_event \<Rightarrow> limit_order_book \<Rightarrow> (side \<Rightarrow> decimal \<Rightarrow> int) \<Rightarrow> side \<Rightarrow> decimal \<Rightarrow> int" where
  "base_after e b base =
     (if \<not> stale_sequence e b \<and> ev_kind e = Snapshot then snapshot_depth (ev_snapshot e) else base)"

definition sequence_after :: "book_event \<Rightarrow> limit_order_book \<Rightarrow> u64" where
  "sequence_after e b = (if stale_sequence e b \<or> ev_sequence e = 0 then last_sequence b else ev_sequence e)"

definition exchange_matches :: "book_event \<Rightarrow> limit_order_book \<Rightarrow> bool" where
  "exchange_matches e b \<longleftrightarrow> exchange_name b = [] \<or> exchange_name b = ev_exchange e"

lemma book_inv_levels_cong:
  assumes "book_bids b' = book_bids b" and "book_asks b' = book_asks b" and "orders b' = orders b"
  shows "book_inv base b' = book_inv base b"
  using assms by (simp add: book_inv_def book_ok_def accounted_def depth_at_def)

lemma depth_cong:
  assumes "book_bids b' = book_bids b" and "book_asks b' = book_asks b"
  shows "depth_at s p b' = depth_at s p b"
  using assms by (simp add: depth_at_def)

lemma apply_event_ok:
  assumes inv: "book_inv base b" and ex: "exchange_matches e b" and adm: "admissible_event e b"
  shows "\<exists>b'. apply_event now e b = Inr b' \<and> book_inv (base_after e b base) b' \<and>
    last_sequence b' = sequence_after e b \<and> book_feed_timestamp_ns b' = event_feed_ns now e \<and>
    book_local_timestamp_ns b' = event_local_ns now e"
proof -
  let ?b1 = "stamp_book now e b"
  have st: "stale_sequence e ?b1 = stale_sequence e b" by (simp add: stale_sequence_def stamp_book_def)
  have inv1: "book_inv base ?b1" using inv by (subst book_inv_levels_cong) (simp_all add: stamp_book_def)
  have guard: "\<not> (exchange_name b \<noteq> [] \<and> exchange_name b \<noteq> ev_exchange e)"
    using ex by (auto simp: exchange_matches_def)
  show ?thesis
  proof (cases "stale_sequence e b")
    case True
    then have "apply_event now e b = Inr ?b1" using guard st by (simp only: apply_event_def if_False Let_def if_True)
    then show ?thesis using inv1 True by (simp add: base_after_def sequence_after_def stamp_book_def)
  next
    case False
    define b2 where "b2 = (if ev_sequence e \<noteq> 0 then ?b1\<lparr>last_sequence := ev_sequence e\<rparr> else ?b1)"
    have lv: "book_bids b2 = book_bids b" "book_asks b2 = book_asks b" "orders b2 = orders b"
      by (simp_all add: b2_def stamp_book_def)
    have inv2: "book_inv base b2" using inv lv by (subst book_inv_levels_cong [of _ b]) simp_all
    have hd2: "last_sequence b2 = sequence_after e b" "book_feed_timestamp_ns b2 = event_feed_ns now e"
      "book_local_timestamp_ns b2 = event_local_ns now e"
      using False by (simp_all add: b2_def stamp_book_def sequence_after_def)
    have step: "apply_event now e b = bind_outcome (dispatch_event e b2)
        (\<lambda>b3. bind_outcome (validateInvariants b3) (\<lambda>_. Inr b3))"
      using guard st False by (simp only: apply_event_def if_False Let_def b2_def)
    have "\<exists>b3. dispatch_event e b2 = Inr b3 \<and> book_inv (base_after e b base) b3 \<and> same_header b2 b3"
    proof (cases "ev_kind e")
      case Snapshot
      then show ?thesis using False adm apply_snapshot_inv [of "ev_snapshot e" b2]
        by (simp add: dispatch_event_def base_after_def admissible_event_def same_header_def apply_snapshot_def)
    next
      case NewOrder
      then have "admissible_order (ev_order e) b2"
        using adm depth_cong [OF lv(1,2)] by (simp add: admissible_event_def admissible_order_def)
      then show ?thesis using NewOrder inv2 apply_new_order_spec [OF inv2, of "ev_order e"]
        by (cases "order_id (ev_order e) = 0")
          (auto simp: dispatch_event_def base_after_def apply_new_order_def)
    next
      case CancelOrder
      then show ?thesis using inv2 remove_order_total [OF inv2, of "order_id (ev_order e)"]
        by (auto simp: dispatch_event_def base_after_def apply_cancel_def dest: remove_order_header)
    qed
    then obtain b3 where b3: "dispatch_event e b2 = Inr b3" "book_inv (base_after e b base) b3" "same_header b2 b3"
      by blast
    have "validateInvariants b3 = Inr ()" using b3(2) by (simp add: validateInvariants_iff book_inv_def)
    then show ?thesis using b3 hd2 by (simp add: step same_header_def)
  qed
qed

lemma apply_event_keeps_valid:
  assumes "apply_event now e b = Inr b'" and "\<not> stale_sequence e b"
  shows "book_ok b'"
proof -
  have "stale_sequence e (stamp_book now e b) = stale_sequence e b"
    by (simp add: stale_sequence_def stamp_book_def)
  then show ?thesis using assms
    by (auto simp: apply_event_def Let_def outcome_simps validateInvariants_iff split: if_splits)
qed

lemma check_bids_no_throw: "no_throw (check_bids prev ls)"
  by (induction prev ls rule: check_bids.induct) (auto split: option.split)

lemma check_asks_no_throw: "no_throw (check_asks prev ls)"
  by (induction prev ls rule: check_asks.induct) (auto split: option.split)

lemma validateInvariants_no_throw: "no_throw (validateInvariants b)"
  by (auto simp: validateInvariants_def check_crossed_def check_bids_no_throw check_asks_no_throw
      split: list.split)

lemma applyDelta_no_throw: "no_throw (applyDelta s p d ba)"
  by (auto simp: applyDelta_def split: prod.split)

lemma remove_order_no_throw: "no_throw (remove_order oid b)"
  by (auto simp: remove_order_def applyDelta_no_throw split: option.split)

lemma dispatch_event_no_throw: "no_throw (dispatch_event ev b)"
  by (auto simp: dispatch_event_def apply_new_order_def apply_cancel_def Let_def remove_order_no_throw
      applyDelta_no_throw split: book_event_kind.split)

lemma apply_event_throws_iff:
  "apply_event now e b = Inl (Throw x) \<longleftrightarrow>
     \<not> exchange_matches e b \<and> x = Invalid_argument ''update exchange mismatch''"
proof (cases "exchange_matches e b")
  case True
  have "no_throw (apply_event now e b)"
    using True unfolding apply_event_def Let_def
    by (auto simp: exchange_matches_def dispatch_event_no_throw validateInvariants_no_throw)
  with True no_throwD show ?thesis by blast
next
  case False
  then show ?thesis by (auto simp: apply_event_def exchange_matches_def)
qed

section \<open>Reachable books\<close>

inductive reachable_book :: "limit_order_book \<Rightarrow> (side \<Rightarrow> decimal \<Rightarrow> int) \<Rightarrow> bool" where
  initial: "reachable_book empty_book (\<lambda>s p. 0)"
| step: "reachable_book b base \<Longrightarrow> exchange_matches e b \<Longrightarrow> admissible_event e b \<Longrightarrow>
    apply_event now e b = Inr b' \<Longrightarrow> reachable_book b' (base_after e b base)"

lemma empty_book_inv: "book_inv (\<lambda>s p. 0) empty_book"
  by (simp add: book_inv_def empty_book_def book_ok_def positive_levels_def uncrossed_def orders_ok_def
      accounted_def depth_at_def level_qty_def)

lemma reachable_book_inv: "reachable_book b base \<Longrightarrow> book_inv base b"
proof (induction rule: reachable_book.induct)
  case initial
  show ?case by (rule empty_book_inv)
next
  case (step b base e now b')
  then show ?case using apply_event_ok [of base b e now] by auto
qed

section \<open>Reading the book\<close>

lemma top_level_bid:
  assumes "om_sorted (>) ls" and "(p, q) \<in> set ls"
  shows "p \<le> price (top_level ls)" and "(price (top_level ls), quantity (top_level ls)) \<in> set ls"
proof -
  obtain p' q' ls' where "ls = (p', q') # ls'" using assms(2) by (cases ls) auto
  then show "p \<le> price (top_level ls)" "(price (top_level ls), quantity (top_level ls)) \<in> set ls"
    using assms by (force simp: om_sorted_Cons)+
qed

lemma top_level_ask:
  assumes "om_sorted (<) ls" and "(p, q) \<in> set ls"
  shows "price (top_level ls) \<le> p" and "(price (top_level ls), quantity (top_level ls)) \<in> set ls"
proof -
  obtain p' q' ls' where "ls = (p', q') # ls'" using assms(2) by (cases ls) auto
  then show "price (top_level ls) \<le> p" "(price (top_level ls), quantity (top_level ls)) \<in> set ls"
    using assms by (force simp: om_sorted_Cons)+
qed

lemma copy_levels_take:
  "copy_levels depth count ls = map (\<lambda>(p, q). mk_level p q) (take (depth - count) ls)"
  by (induction depth count ls rule: copy_levels.induct) (auto simp: Suc_diff_Suc take_Cons')

lemma take_snapshot_levels:
  "snap_bids (take_snapshot n b) = map (\<lambda>(p, q). mk_level p q) (take n (book_bids b))"
  "snap_asks (take_snapshot n b) = map (\<lambda>(p, q). mk_level p q) (take n (book_asks b))"
  by (simp_all add: take_snapshot_def copy_levels_take)

lemma om_put_snoc:
  assumes "\<forall>k' \<in> fst ` set m. lt k' k"
  shows "om_put lt k v m = m @ [(k, v)]"
  using assms by (induction m) auto

lemma load_bids_snoc:
  "positive_levels ls \<Longrightarrow> om_sorted (>) (m @ ls) \<Longrightarrow> load_bids (map (\<lambda>(p, q). mk_level p q) ls) m = m @ ls"
proof (induction ls arbitrary: m)
  case (Cons x ls)
  obtain p q where x: "x = (p, q)" by (cases x)
  have "om_put (>) p q m = m @ [(p, q)]"
    by (rule om_put_snoc) (use Cons.prems(2) in \<open>auto simp: om_sorted_def sorted_wrt_append x\<close>)
  moreover have "0 < q" using Cons.prems(1) by (simp add: positive_levels_def x kZero_less_iff)
  moreover have "positive_levels ls" using Cons.prems(1) by (simp add: positive_levels_def)
  ultimately show ?case using Cons.IH [of "m @ [(p, q)]"] Cons.prems(2) by (simp add: x)
qed simp

lemma load_asks_snoc:
  "positive_levels ls \<Longrightarrow> om_sorted (<) (m @ ls) \<Longrightarrow> load_asks (map (\<lambda>(p, q). mk_level p q) ls) m = m @ ls"
proof (induction ls arbitrary: m)
  case (Cons x ls)
  obtain p q where x: "x = (p, q)" by (cases x)
  have "om_put (<) p q m = m @ [(p, q)]"
    by (rule om_put_snoc) (use Cons.prems(2) in \<open>auto simp: om_sorted_def sorted_wrt_append x\<close>)
  moreover have "0 < q" using Cons.prems(1) by (simp add: positive_levels_def x kZero_less_iff)
  moreover have "positive_levels ls" using Cons.prems(1) by (simp add: positive_levels_def)
  ultimately show ?case using Cons.IH [of "m @ [(p, q)]"] Cons.prems(2) by (simp add: x)
qed simp

lemma om_sorted_take: "om_sorted lt ls \<Longrightarrow> om_sorted lt (take n ls)"
  by (simp add: om_sorted_def take_map [symmetric] sorted_wrt_take)

lemma positive_levels_take: "positive_levels ls \<Longrightarrow> positive_levels (take n ls)"
  by (auto simp: positive_levels_def dest: in_set_takeD)

lemma snapshot_roundtrip:
  assumes "book_ok b"
  shows "book_bids (apply_snapshot (take_snapshot n b) b') = take n (book_bids b)"
    and "book_asks (apply_snapshot (take_snapshot n b) b') = take n (book_asks b)"
  using assms load_bids_snoc [of "take n (book_bids b)" "[]"] load_asks_snoc [of "take n (book_asks b)" "[]"]
  by (simp_all add: apply_snapshot_def take_snapshot_levels book_ok_def om_sorted_take positive_levels_take)

text \<open>
  An order with a negative quantity is stored without a level; cancelling it then adds its magnitude
  to the book.
\<close>

definition short_order :: market_order where
  "short_order = \<lparr> order_id = 1, order_side = Bid, order_price = fromInteger 100, order_quantity = fromInteger (- 5) \<rparr>"

definition short_new :: book_event where
  "short_new = empty_event\<lparr> ev_kind := NewOrder, ev_order := short_order \<rparr>"

definition short_cancel :: book_event where
  "short_cancel = empty_event\<lparr> ev_kind := CancelOrder, ev_order := short_order \<rparr>"

lemma phantom_liquidity:
  "(case bind_outcome (apply_event 1 short_new empty_book) (apply_event 2 short_cancel) of
      Inl _ \<Rightarrow> False
    | Inr b \<Rightarrow> book_bids b = [(fromInteger 100, fromInteger 5)] \<and> orders b 1 = None)"
  by code_simp

section \<open>Properties\<close>

text \<open>
  C4: from a book reached by admissible events, an admissible event of the book's exchange is applied
  without an exception or an abort; the sides stay sorted, positive and uncrossed, every level holds the
  snapshot's base quantity plus the resting orders, and the header carries the event's sequence and times.
\<close>

theorem reachable_book_event:
  assumes "reachable_book b base" and "exchange_matches e b" and "admissible_event e b"
  shows "\<exists>b'. apply_event now e b = Inr b' \<and> reachable_book b' (base_after e b base) \<and>
    book_ok b' \<and> orders_ok (orders b') \<and>
    (\<forall>s p. depth_at s p b' = base_after e b base s p + resting s p (orders b')) \<and>
    last_sequence b' = sequence_after e b \<and> book_feed_timestamp_ns b' = event_feed_ns now e \<and>
    book_local_timestamp_ns b' = event_local_ns now e"
proof -
  obtain b' where b': "apply_event now e b = Inr b'" "book_inv (base_after e b base) b'"
    "last_sequence b' = sequence_after e b" "book_feed_timestamp_ns b' = event_feed_ns now e"
    "book_local_timestamp_ns b' = event_local_ns now e"
    using apply_event_ok [OF reachable_book_inv [OF assms(1)] assms(2,3)] by blast
  then show ?thesis using reachable_book.step [OF assms b'(1)]
    by (auto simp: book_inv_def accounted_def)
qed

definition sample_order :: market_order where
  "sample_order = \<lparr> order_id = 7, order_side = Bid, order_price = fromInteger 100, order_quantity = fromInteger 5 \<rparr>"

definition sample_event :: book_event where
  "sample_event = empty_event\<lparr> ev_exchange := ''A'', ev_kind := NewOrder, ev_sequence := 1, ev_order := sample_order \<rparr>"

lemma sample_admissible: "admissible_order sample_order empty_book"
  by (simp add: admissible_order_def sample_order_def fromInteger_dval depth_at_def empty_book_def level_qty_def)

lemma sample_event_admissible: "admissible_event sample_event empty_book" "exchange_matches sample_event empty_book"
  using sample_admissible
  by (simp_all add: admissible_event_def sample_event_def exchange_matches_def empty_book_def empty_event_def)

theorem reachable_book_event_witness:
  "\<exists>b'. apply_event 3 sample_event empty_book = Inr b' \<and> book_ok b' \<and>
     last_sequence b' = sequence_after sample_event empty_book"
  using reachable_book_event [OF reachable_book.initial sample_event_admissible(2,1), of 3] by blast

text \<open>
  C5: a new order first removes the resting order of the same id, whose quantity leaves the level at its own old
  price, also when the new order is then rejected; it rests at its own price unless it would meet the other
  side, and the depth changes at no other price and side than these two.
\<close>

theorem new_order_effect:
  assumes "book_inv base b" and "admissible_order ord b" and "order_id ord \<noteq> 0"
  shows "\<exists>b1 b'. remove_order (order_id ord) b = Inr b1 \<and> apply_new_order ord b = Inr b' \<and> book_inv base b' \<and>
    orders b' = (orders b)(order_id ord := if reject_crossed (order_side ord) (order_price ord) b1 then None else Some ord) \<and>
    (\<forall>s p. depth_at s p b' = depth_at s p b - order_share s p (orders b (order_id ord)) +
       (if reject_crossed (order_side ord) (order_price ord) b1 then 0 else order_share s p (Some ord)))"
  using apply_new_order_spec [OF assms] unfolding new_order_share_def by blast

theorem new_order_effect_witness:
  "\<exists>b1 b'. remove_order 7 empty_book = Inr b1 \<and> apply_new_order sample_order empty_book = Inr b' \<and>
     orders b' = (orders empty_book)(7 := if reject_crossed Bid (fromInteger 100) b1 then None else Some sample_order)"
  using new_order_effect [OF empty_book_inv sample_admissible] by (force simp: sample_order_def)

text \<open>
  C6: whatever the event contains, a book that has accepted it without aborting and did not skip it as
  stale is sorted, positive and uncrossed.
\<close>

theorem accepted_event_valid:
  assumes "apply_event now e b = Inr b'" and "\<not> stale_sequence e b"
  shows "book_ok b'"
  using assms by (rule apply_event_keeps_valid)

theorem accepted_event_valid_witness:
  "case apply_event 3 sample_event empty_book of Inl _ \<Rightarrow> False | Inr b' \<Rightarrow> book_ok b'"
proof -
  have ok: "case apply_event 3 sample_event empty_book of Inl _ \<Rightarrow> False | Inr _ \<Rightarrow> True" by code_simp
  have "\<not> stale_sequence sample_event empty_book" by code_simp
  then show ?thesis using ok accepted_event_valid [of 3 sample_event empty_book]
    by (simp split: sum.splits)
qed

text \<open>the only exception an event can raise is the mismatch of its exchange with the book's.\<close>

theorem book_exception_iff:
  "apply_event now e b = Inl (Throw x) \<longleftrightarrow>
     exchange_name b \<noteq> [] \<and> exchange_name b \<noteq> ev_exchange e \<and> x = Invalid_argument ''update exchange mismatch''"
  by (auto simp: apply_event_throws_iff exchange_matches_def)

text \<open>
  Loading the snapshot of depth n of a valid book gives the n best levels of each side, with no
  resting orders, and its quotes are the best bid and the best ask.
\<close>

theorem snapshot_restores_levels:
  assumes "book_ok b"
  shows "apply_snapshot (take_snapshot n b) b' =
      b'\<lparr> book_bids := take n (book_bids b), book_asks := take n (book_asks b), orders := Map.empty \<rparr> \<and>
    (0 < n \<longrightarrow> bestBid (apply_snapshot (take_snapshot n b) b') = bestBid b \<and>
       bestAsk (apply_snapshot (take_snapshot n b) b') = bestAsk b) \<and>
    (\<forall>(p, q) \<in> set (book_bids b). p \<le> price (bestBid b)) \<and>
    (\<forall>(p, q) \<in> set (book_asks b). price (bestAsk b) \<le> p)"
proof -
  have top: "0 < n \<Longrightarrow> top_level (take n ls) = top_level ls" for ls by (cases ls; cases n) auto
  have "apply_snapshot (take_snapshot n b) b' =
      b'\<lparr> book_bids := take n (book_bids b), book_asks := take n (book_asks b), orders := Map.empty \<rparr>"
    using snapshot_roundtrip [OF assms, of n b'] by (simp add: apply_snapshot_def)
  moreover have "om_sorted (>) (book_bids b)" "om_sorted (<) (book_asks b)" using assms by (simp_all add: book_ok_def)
  ultimately show ?thesis
    by (auto simp: top bestBid_def bestAsk_def intro: top_level_bid(1) top_level_ask(1))
qed

definition sample_book :: limit_order_book where
  "sample_book = empty_book\<lparr> book_bids := [(fromInteger 100, fromInteger 5), (fromInteger 99, fromInteger 1)],
     book_asks := [(fromInteger 101, fromInteger 2)] \<rparr>"

theorem snapshot_restores_levels_witness:
  "book_bids (apply_snapshot (take_snapshot 1 sample_book) empty_book) = [(fromInteger 100, fromInteger 5)]"
proof -
  have "book_ok sample_book" unfolding validateInvariants_iff [symmetric] by code_simp
  from snapshot_restores_levels [OF this, of 1 empty_book] show ?thesis by (simp add: sample_book_def)
qed

end
