(* ===== verification/Uncross.thy ===== *)
theory Uncross
  imports Events
begin

text \<open>
  \<open>virtualUncross\<close> of src/src/aggregator/aggregator.cpp: the sorted sides of the consolidated book are
  matched against each other from the best prices until they no longer cross. The loop is modelled with
  its two indices and its in-place updates; \<open>consume v\<close> is the abstract operation \<open>remove a volume of
  v from the front\<close>, and the lemmas show that the loop removes from both sides the least volume that
  uncrosses the book.
\<close>

section \<open>The code\<close>

definition check_descending :: "price_level list \<Rightarrow> unit outcome" where
  "check_descending bids =
     all_checks (map (\<lambda>i. (price (bids ! i) < price (bids ! (i - 1)),
       ''bid levels must remain strictly descending before uncross'')) [1..<length bids])"

definition check_ascending :: "price_level list \<Rightarrow> unit outcome" where
  "check_ascending asks =
     all_checks (map (\<lambda>i. (price (asks ! (i - 1)) < price (asks ! i),
       ''ask levels must remain strictly ascending before uncross'')) [1..<length asks])"

definition reduce_level :: "price_level \<Rightarrow> decimal \<Rightarrow> price_level" where
  "reduce_level l m = l\<lparr> quantity := quantity l - m \<rparr>"

lemma decimal_minus_self [simp]: "quantity (reduce_level l (quantity l)) = 0"
  by (simp add: reduce_level_def)

function uncross_loop ::
  "price_level list \<Rightarrow> price_level list \<Rightarrow> nat \<Rightarrow> nat \<Rightarrow> price_level list \<times> price_level list \<times> nat \<times> nat" where
  "uncross_loop bids asks bi ai =
     (if bi < length bids \<and> ai < length asks
      then (let bid = bids ! bi; ask = asks ! ai
            in if price bid < price ask then (bids, asks, bi, ai)
               else (let matched = (if quantity ask < quantity bid then quantity ask else quantity bid);
                         bid' = reduce_level bid matched;
                         ask' = reduce_level ask matched
                     in uncross_loop (bids[bi := bid']) (asks[ai := ask'])
                          (if quantity bid' \<le> kZero then Suc bi else bi)
                          (if quantity ask' \<le> kZero then Suc ai else ai)))
      else (bids, asks, bi, ai))"
  by pat_completeness auto
termination
  by (relation "measure (\<lambda>(bids, asks, bi, ai). (length bids - bi) + (length asks - ai))")
    (auto simp: not_less split: if_splits)

declare uncross_loop.simps [simp del]

definition erase_consumed :: "price_level list \<Rightarrow> nat \<Rightarrow> price_level list" where
  "erase_consumed ls consumed =
     filter (\<lambda>l. \<not> quantity l \<le> kZero) (drop (min consumed (length ls)) ls)"

definition virtualUncross :: "price_level list \<Rightarrow> price_level list \<Rightarrow> (price_level list \<times> price_level list) outcome" where
  "virtualUncross bids asks =
     bind_outcome (check_descending bids) (\<lambda>_.
     bind_outcome (check_ascending asks) (\<lambda>_.
       (let (bids1, asks1, bi, ai) = uncross_loop bids asks 0 0;
            bids2 = erase_consumed bids1 bi;
            asks2 = erase_consumed asks1 ai
        in bind_outcome
             (if bids2 \<noteq> [] \<and> asks2 \<noteq> []
              then assert_debug (price (hd bids2) < price (hd asks2)) ''uncrossed book still crossed''
              else Inr ())
             (\<lambda>_. Inr (bids2, asks2)))))"

section \<open>Consuming a volume\<close>

fun consume :: "int \<Rightarrow> price_level list \<Rightarrow> price_level list" where
  "consume v [] = []"
| "consume v (l # ls) =
     (if v \<le> 0 then l # ls
      else if dval (quantity l) \<le> v then consume (v - dval (quantity l)) ls
      else reduce_level l (fromRaw (word_of_int v)) # ls)"

definition all_positive :: "price_level list \<Rightarrow> bool" where
  "all_positive ls \<longleftrightarrow> (\<forall>l \<in> set ls. 0 < dval (quantity l))"

definition volume :: "price_level list \<Rightarrow> int" where
  "volume ls = (\<Sum>l \<leftarrow> ls. dval (quantity l))"

definition crossed_at :: "price_level list \<Rightarrow> price_level list \<Rightarrow> int \<Rightarrow> bool" where
  "crossed_at bids asks v \<longleftrightarrow> consume v bids \<noteq> [] \<and> consume v asks \<noteq> [] \<and>
     price (hd (consume v asks)) \<le> price (hd (consume v bids))"

lemma all_positive_Cons [simp]: "all_positive (l # ls) \<longleftrightarrow> 0 < dval (quantity l) \<and> all_positive ls"
  and all_positive_Nil [simp]: "all_positive []"
  by (auto simp: all_positive_def)

lemma price_reduce_level [simp]: "price (reduce_level l m) = price l"
  by (simp add: reduce_level_def)

lemma quantity_reduce_level: "quantity (reduce_level l m) = quantity l - m"
  by (simp add: reduce_level_def)

lemma sint_word_of_int128:
  assumes "- (2 ^ 127) \<le> v" and "v < 2 ^ 127"
  shows "sint (word_of_int v :: i128) = v"
  using assms by (simp add: signed_of_int signed_take_bit_int_eq_self)

lemma dval_reduce:
  assumes "0 \<le> v" and "v \<le> dval (quantity l)"
  shows "dval (quantity (reduce_level l (fromRaw (word_of_int v)))) = dval (quantity l) - v"
proof -
  have v: "sint (word_of_int v :: i128) = v"
    using assms dval_bounds [of "quantity l"] by (intro sint_word_of_int128) simp_all
  have "sint (raw (quantity l) - word_of_int v) = sint (raw (quantity l)) - sint (word_of_int v :: i128)"
    using assms dval_bounds [of "quantity l"] by (intro sint_minus_no_wrap) (simp_all add: v)
  then show ?thesis by (simp add: quantity_reduce_level minus_decimal_def decimal_minus_def fromRaw_def v)
qed

lemma consume_zero [simp]: "v \<le> 0 \<Longrightarrow> consume v ls = ls"
  by (cases ls) simp_all

lemma consume_positive: "all_positive ls \<Longrightarrow> all_positive (consume v ls)"
  by (induction v ls rule: consume.induct) (simp_all add: dval_reduce)

lemma reduce_reduce:
  "reduce_level (reduce_level l (fromRaw (word_of_int u))) (fromRaw (word_of_int v)) = reduce_level l (fromRaw (word_of_int (u + v)))"
  by (simp add: reduce_level_def minus_decimal_def decimal_minus_def fromRaw_def)

lemma consume_consume:
  "all_positive ls \<Longrightarrow> 0 \<le> u \<Longrightarrow> 0 \<le> v \<Longrightarrow> consume v (consume u ls) = consume (u + v) ls"
proof (induction u ls rule: consume.induct)
  case (2 u l ls)
  consider "u \<le> 0" | "0 < u" "dval (quantity l) \<le> u" | "0 < u" "u < dval (quantity l)" by linarith
  then show ?case
  proof cases
    case 1
    with 2 show ?thesis by simp
  next
    case 2
    then show ?thesis using "2.IH" "2.prems" by (simp add: algebra_simps)
  next
    case 3
    let ?l = "reduce_level l (fromRaw (word_of_int u))"
    have q: "dval (quantity ?l) = dval (quantity l) - u" using 3 by (intro dval_reduce) simp_all
    have red: "consume u (l # ls) = ?l # ls" using 3 by simp
    show ?thesis
    proof (cases "v = 0")
      case True
      with red 3 show ?thesis by simp
    next
      case False
      with "2.prems" have v: "0 < v" by simp
      show ?thesis
      proof (cases "dval (quantity ?l) \<le> v")
        case True
        then have "consume v (?l # ls) = consume (v - dval (quantity ?l)) ls" using v by simp
        also have "v - dval (quantity ?l) = u + v - dval (quantity l)" by (simp add: q)
        finally show ?thesis using True v 3 red by (simp add: q)
      next
        case False
        with v 3 red show ?thesis by (simp add: q reduce_reduce)
      qed
    qed
  qed
qed simp

lemma volume_consume:
  "all_positive ls \<Longrightarrow> 0 \<le> v \<Longrightarrow> v \<le> volume ls \<Longrightarrow> volume (consume v ls) = volume ls - v"
proof (induction v ls rule: consume.induct)
  case (2 v l ls)
  have "0 \<le> volume ls" using "2.prems"(1) by (auto simp: volume_def all_positive_def less_imp_le intro!: sum_list_nonneg)
  with 2 show ?case by (auto simp: volume_def dval_reduce)
qed (simp add: volume_def)

lemma consume_suffix: "\<exists>pre. map price ls = pre @ map price (consume v ls)"
proof (induction v ls rule: consume.induct)
  case (2 v l ls)
  show ?case
  proof (cases "v \<le> 0 \<or> v < dval (quantity l)")
    case True
    then show ?thesis by auto
  next
    case False
    with 2 obtain pre where "map price ls = pre @ map price (consume (v - dval (quantity l)) ls)" by auto
    then have "map price (l # ls) = (price l # pre) @ map price (consume v (l # ls))" using False by simp
    then show ?thesis by blast
  qed
qed simp

lemma consume_head_price:
  assumes "0 \<le> v" and "v < dval (quantity l)"
  shows "consume v (l # ls) \<noteq> [] \<and> price (hd (consume v (l # ls))) = price l"
  using assms by (cases "v \<le> 0") simp_all

section \<open>The loop consumes the least uncrossing volume\<close>

lemma uncross_step_side:
  assumes "i < length ls" and "drop i ls = l # rest" and "0 < dval m" and "dval m \<le> dval (quantity l)"
  shows "drop (if quantity (reduce_level l m) \<le> kZero then Suc i else i) (ls[i := reduce_level l m]) = consume (dval m) (l # rest)"
proof -
  have m: "fromRaw (word_of_int (dval m)) = m" by (cases m) (simp add: fromRaw_def)
  have q: "dval (quantity (reduce_level l m)) = dval (quantity l) - dval m"
    using dval_reduce [of "dval m" l] assms(3,4) unfolding m by simp
  have tl: "drop (Suc i) ls = rest" using assms(2) by (metis drop_Suc list.sel(3) tl_drop)
  have d: "drop i (ls[i := reduce_level l m]) = reduce_level l m # rest"
    "drop (Suc i) (ls[i := reduce_level l m]) = rest"
    using assms(1) tl by (simp_all add: drop_update_swap Cons_nth_drop_Suc [symmetric])
  show ?thesis
  proof (cases "dval (quantity l) = dval m")
    case True
    then have "quantity (reduce_level l m) \<le> kZero" by (simp add: decimal_simps q)
    moreover have "consume (dval m) (l # rest) = rest" using True assms(3) by simp
    ultimately show ?thesis using d by simp
  next
    case False
    then have "\<not> quantity (reduce_level l m) \<le> kZero" using assms(4) by (simp add: decimal_simps q)
    moreover have "consume (dval m) (l # rest) = reduce_level l m # rest"
      using False assms(3,4) fromRaw_raw [of m] by simp
    ultimately show ?thesis using d by simp
  qed
qed

lemma uncross_loop_spec:
  "all_positive (drop bi bids) \<Longrightarrow> all_positive (drop ai asks) \<Longrightarrow>
   uncross_loop bids asks bi ai = (bids', asks', bi', ai') \<Longrightarrow>
   \<exists>v. 0 \<le> v \<and> v \<le> volume (drop bi bids) \<and> v \<le> volume (drop ai asks) \<and>
     drop bi' bids' = consume v (drop bi bids) \<and> drop ai' asks' = consume v (drop ai asks) \<and>
     \<not> crossed_at (drop bi bids) (drop ai asks) v \<and>
     (\<forall>w. 0 \<le> w \<and> w < v \<longrightarrow> crossed_at (drop bi bids) (drop ai asks) w)"
proof (induction bids asks bi ai arbitrary: bids' asks' bi' ai' rule: uncross_loop.induct)
  case (1 bids asks bi ai)
  let ?B = "drop bi bids" and ?A = "drop ai asks"
  show ?case
  proof (cases "bi < length bids \<and> ai < length asks")
    case False
    then have "uncross_loop bids asks bi ai = (bids, asks, bi, ai)"
      by (subst uncross_loop.simps) (rule if_not_P)
    moreover have "\<not> crossed_at ?B ?A 0" using False by (auto simp: crossed_at_def)
    moreover have "0 \<le> volume ?B" "0 \<le> volume ?A"
      using 1(2,3) by (auto simp: volume_def all_positive_def less_imp_le intro!: sum_list_nonneg)
    ultimately show ?thesis using 1(4) by (intro exI [of _ 0]) auto
  next
    case True
    define b where "b = bids ! bi"
    define a where "a = asks ! ai"
    have B: "?B = b # drop (Suc bi) bids" and A: "?A = a # drop (Suc ai) asks"
      using True by (simp_all add: b_def a_def Cons_nth_drop_Suc)
    have vol: "0 \<le> volume ?B" "0 \<le> volume ?A"
      using 1(2,3) by (auto simp: volume_def all_positive_def less_imp_le intro!: sum_list_nonneg)
    show ?thesis
    proof (cases "price b < price a")
      case stop: True
      then have "uncross_loop bids asks bi ai = (bids, asks, bi, ai)"
        using True by (subst uncross_loop.simps) (simp add: b_def a_def)
      moreover have "\<not> crossed_at ?B ?A 0" using stop by (simp add: crossed_at_def A B not_le)
      ultimately show ?thesis using 1(4) vol by (intro exI [of _ 0]) auto
    next
      case False
      define m where "m = (if quantity a < quantity b then quantity a else quantity b)"
      let ?bids = "bids[bi := reduce_level b m]" and ?asks = "asks[ai := reduce_level a m]"
      let ?bi = "if quantity (reduce_level b m) \<le> kZero then Suc bi else bi"
      let ?ai = "if quantity (reduce_level a m) \<le> kZero then Suc ai else ai"
      have pos: "0 < dval (quantity b)" "0 < dval (quantity a)" using 1(2,3) by (simp_all add: A B)
      have m: "0 < dval m" "dval m \<le> dval (quantity b)" "dval m \<le> dval (quantity a)"
        using pos by (auto simp: m_def decimal_simps)
      have B': "drop ?bi ?bids = consume (dval m) ?B"
        unfolding B by (rule uncross_step_side) (use True B m in simp_all)
      have A': "drop ?ai ?asks = consume (dval m) ?A"
        unfolding A by (rule uncross_step_side) (use True A m in simp_all)
      have run: "uncross_loop bids asks bi ai = uncross_loop ?bids ?asks ?bi ?ai"
        using True False by (subst uncross_loop.simps) (simp only: Let_def b_def [symmetric] a_def [symmetric] m_def [symmetric] if_True if_False simp_thms)
      have "\<exists>v. 0 \<le> v \<and> v \<le> volume (consume (dval m) ?B) \<and> v \<le> volume (consume (dval m) ?A) \<and>
          drop bi' bids' = consume v (consume (dval m) ?B) \<and> drop ai' asks' = consume v (consume (dval m) ?A) \<and>
          \<not> crossed_at (consume (dval m) ?B) (consume (dval m) ?A) v \<and>
          (\<forall>w. 0 \<le> w \<and> w < v \<longrightarrow> crossed_at (consume (dval m) ?B) (consume (dval m) ?A) w)"
        using 1(1) [OF True b_def a_def False m_def refl refl, of bids' asks' bi' ai'] 1(2,3) 1(4)
        unfolding B' A' run by (simp add: consume_positive)
      then obtain v where v: "0 \<le> v" "v \<le> volume (consume (dval m) ?B)" "v \<le> volume (consume (dval m) ?A)"
          "drop bi' bids' = consume v (consume (dval m) ?B)" "drop ai' asks' = consume v (consume (dval m) ?A)"
          "\<not> crossed_at (consume (dval m) ?B) (consume (dval m) ?A) v"
          "\<forall>w. 0 \<le> w \<and> w < v \<longrightarrow> crossed_at (consume (dval m) ?B) (consume (dval m) ?A) w"
        by blast
      have cB: "consume w (consume (dval m) ?B) = consume (dval m + w) ?B"
        and cA: "consume w (consume (dval m) ?A) = consume (dval m + w) ?A" if "0 \<le> w" for w
        using that m(1) 1(2,3) by (simp_all add: consume_consume)
      have vm: "volume (consume (dval m) ?B) = volume ?B - dval m" "volume (consume (dval m) ?A) = volume ?A - dval m"
      proof -
        have "0 \<le> volume (drop (Suc bi) bids)" "0 \<le> volume (drop (Suc ai) asks)"
          using 1(2,3) by (auto simp: A B volume_def all_positive_def less_imp_le intro!: sum_list_nonneg)
        then have "dval m \<le> volume ?B" "dval m \<le> volume ?A" using m by (simp_all add: A B volume_def)
        then show "volume (consume (dval m) ?B) = volume ?B - dval m" "volume (consume (dval m) ?A) = volume ?A - dval m"
          using m(1) 1(2,3) by (simp_all add: volume_consume)
      qed
      have "crossed_at ?B ?A w" if w: "0 \<le> w" "w < dval m + v" for w
      proof (cases "w < dval m")
        case less: True
        have "consume w ?B \<noteq> [] \<and> price (hd (consume w ?B)) = price b"
          unfolding B by (rule consume_head_price) (use w less m in simp_all)
        moreover have "consume w ?A \<noteq> [] \<and> price (hd (consume w ?A)) = price a"
          unfolding A by (rule consume_head_price) (use w less m in simp_all)
        ultimately show ?thesis using False by (simp add: crossed_at_def not_less)
      next
        case ge: False
        then have "crossed_at (consume (dval m) ?B) (consume (dval m) ?A) (w - dval m)" using v(7) w by simp
        then show ?thesis using ge cB [of "w - dval m"] cA [of "w - dval m"] by (simp add: crossed_at_def)
      qed
      then show ?thesis using v vm cB [OF v(1)] cA [OF v(1)] m(1)
        by (intro exI [of _ "dval m + v"]) (simp add: crossed_at_def)
    qed
  qed
qed

definition descending :: "price_level list \<Rightarrow> bool" where
  "descending ls \<longleftrightarrow> sorted_wrt (\<lambda>a b. price b < price a) ls"

definition ascending :: "price_level list \<Rightarrow> bool" where
  "ascending ls \<longleftrightarrow> sorted_wrt (\<lambda>a b. price a < price b) ls"

lemma adjacent_pairs:
  "(\<forall>i \<in> {1..<n}. P i (i - 1)) \<longleftrightarrow> (\<forall>i. Suc i < n \<longrightarrow> P (Suc i) i)" for n :: nat
proof
  assume l: "\<forall>i \<in> {1..<n}. P i (i - 1)"
  show "\<forall>i. Suc i < n \<longrightarrow> P (Suc i) i"
  proof (intro allI impI)
    fix i
    assume "Suc i < n"
    then have "P (Suc i) (Suc i - 1)" using l by (intro bspec [OF l]) simp
    then show "P (Suc i) i" by simp
  qed
next
  assume r: "\<forall>i. Suc i < n \<longrightarrow> P (Suc i) i"
  show "\<forall>i \<in> {1..<n}. P i (i - 1)"
  proof
    fix i
    assume "i \<in> {1..<n}"
    then obtain j where "i = Suc j" "Suc j < n" by (cases i) auto
    then show "P i (i - 1)" using r by simp
  qed
qed

lemma all_checks_pairs:
  "all_checks (map (\<lambda>i. (P i (i - 1), msg)) [1..<n]) = Inr () \<longleftrightarrow> (\<forall>i. Suc i < n \<longrightarrow> P (Suc i) i)" for n :: nat
  unfolding all_checks_Inr_iff adjacent_pairs [of n P, symmetric] by simp

lemma check_descending_iff: "check_descending bids = Inr () \<longleftrightarrow> descending bids"
proof -
  have "transp (\<lambda>a b :: price_level. price b < price a)" by (rule transpI) (rule less_trans)
  moreover have "check_descending bids = Inr () \<longleftrightarrow> (\<forall>i. Suc i < length bids \<longrightarrow> price (bids ! Suc i) < price (bids ! i))"
    unfolding check_descending_def by (rule all_checks_pairs [where P = "\<lambda>i j. price (bids ! i) < price (bids ! j)"])
  ultimately show ?thesis unfolding descending_def by (simp add: sorted_wrt_iff_nth_Suc_transp)
qed

lemma check_ascending_iff: "check_ascending asks = Inr () \<longleftrightarrow> ascending asks"
proof -
  have "transp (\<lambda>a b :: price_level. price a < price b)" by (rule transpI) (rule less_trans)
  moreover have "check_ascending asks = Inr () \<longleftrightarrow> (\<forall>i. Suc i < length asks \<longrightarrow> price (asks ! i) < price (asks ! Suc i))"
    unfolding check_ascending_def by (rule all_checks_pairs [where P = "\<lambda>i j. price (asks ! j) < price (asks ! i)"])
  ultimately show ?thesis unfolding ascending_def by (simp add: sorted_wrt_iff_nth_Suc_transp)
qed

lemma consume_prices: "set (map price (consume v ls)) \<subseteq> set (map price ls)"
  using consume_suffix [of ls v] by (metis Un_upper2 set_append)

lemma consume_sorted:
  assumes "sorted_wrt P (map price ls)"
  shows "sorted_wrt P (map price (consume v ls))"
  using assms consume_suffix [of ls v] by (metis sorted_wrt_append)

lemma consume_descending: "descending ls \<Longrightarrow> descending (consume v ls)"
  using consume_sorted [of "(>)" ls v] by (simp add: descending_def sorted_wrt_map)

lemma consume_ascending: "ascending ls \<Longrightarrow> ascending (consume v ls)"
  using consume_sorted [of "(<)" ls v] by (simp add: ascending_def sorted_wrt_map)

lemma erase_consumed_spec:
  assumes "all_positive (drop i ls)"
  shows "erase_consumed ls i = drop i ls"
proof -
  have "drop (min i (length ls)) ls = drop i ls" by (cases "i \<le> length ls") simp_all
  moreover have "filter (\<lambda>l. \<not> quantity l \<le> kZero) (drop i ls) = drop i ls"
    using assms by (auto simp: filter_id_conv all_positive_def decimal_simps)
  ultimately show ?thesis by (simp add: erase_consumed_def)
qed

text \<open>The volume matched is the least one that leaves the two sides uncrossed.\<close>

definition uncrossing_volume :: "price_level list \<Rightarrow> price_level list \<Rightarrow> int \<Rightarrow> bool" where
  "uncrossing_volume bids asks v \<longleftrightarrow> 0 \<le> v \<and> v \<le> volume bids \<and> v \<le> volume asks \<and>
     \<not> crossed_at bids asks v \<and> (\<forall>w. 0 \<le> w \<and> w < v \<longrightarrow> crossed_at bids asks w)"

lemma uncrossing_volume_unique:
  "uncrossing_volume bids asks v \<Longrightarrow> uncrossing_volume bids asks w \<Longrightarrow> v = w"
  unfolding uncrossing_volume_def by (metis linorder_neqE)

lemma virtualUncross_spec:
  assumes "descending bids" and "ascending asks" and "all_positive bids" and "all_positive asks"
  shows "\<exists>v. uncrossing_volume bids asks v \<and> virtualUncross bids asks = Inr (consume v bids, consume v asks)"
proof -
  obtain bids' asks' bi ai where run: "uncross_loop bids asks 0 0 = (bids', asks', bi, ai)"
    by (cases "uncross_loop bids asks 0 0")
  obtain v where v: "uncrossing_volume bids asks v" "drop bi bids' = consume v bids" "drop ai asks' = consume v asks"
    using uncross_loop_spec [of 0 bids 0 asks, simplified, OF assms(3,4) run]
    unfolding uncrossing_volume_def by blast
  have e: "erase_consumed bids' bi = consume v bids" "erase_consumed asks' ai = consume v asks"
    using erase_consumed_spec [of bi bids'] erase_consumed_spec [of ai asks']
      consume_positive [OF assms(3)] consume_positive [OF assms(4)] by (simp_all add: v)
  have "consume v bids \<noteq> [] \<and> consume v asks \<noteq> [] \<Longrightarrow> price (hd (consume v bids)) < price (hd (consume v asks))"
    using v(1) by (auto simp: uncrossing_volume_def crossed_at_def)
  moreover have "check_descending bids = Inr ()" "check_ascending asks = Inr ()"
    using assms by (simp_all add: check_descending_iff check_ascending_iff)
  ultimately have "virtualUncross bids asks = Inr (consume v bids, consume v asks)"
    by (simp add: virtualUncross_def run e Let_def)
  with v(1) show ?thesis by blast
qed

lemma virtualUncross_result:
  assumes "descending bids" and "ascending asks" and "all_positive bids" and "all_positive asks"
    and "virtualUncross bids asks = Inr (bids', asks')"
  shows "descending bids' \<and> ascending asks' \<and> all_positive bids' \<and> all_positive asks' \<and>
    (\<forall>b \<in> set bids'. \<forall>a \<in> set asks'. price b < price a) \<and>
    volume bids - volume bids' = volume asks - volume asks' \<and>
    price ` set bids' \<subseteq> price ` set bids \<and> price ` set asks' \<subseteq> price ` set asks"
proof -
  obtain v where v: "uncrossing_volume bids asks v" "bids' = consume v bids" "asks' = consume v asks"
    using virtualUncross_spec [OF assms(1-4)] assms(5) by auto
  have d: "descending bids'" "ascending asks'" "all_positive bids'" "all_positive asks'"
    using assms by (simp_all add: v consume_descending consume_ascending consume_positive)
  have "price b < price a" if "b \<in> set bids'" "a \<in> set asks'" for a b
  proof -
    have ne: "bids' \<noteq> []" "asks' \<noteq> []" using that by auto
    have "price (hd bids') < price (hd asks')"
      using v(1) ne by (auto simp: uncrossing_volume_def crossed_at_def v not_le)
    moreover have "price b \<le> price (hd bids')" using d(1) that(1) ne
      by (cases bids') (auto simp: descending_def less_imp_le)
    moreover have "price (hd asks') \<le> price a" using d(2) that(2) ne
      by (cases asks') (auto simp: ascending_def less_imp_le)
    ultimately show ?thesis by simp
  qed
  moreover have "volume bids - volume bids' = volume asks - volume asks'"
    using v(1) assms(3,4) by (simp add: v volume_consume uncrossing_volume_def)
  moreover have "price ` set bids' \<subseteq> price ` set bids" "price ` set asks' \<subseteq> price ` set asks"
    using consume_prices [of v bids] consume_prices [of v asks] by (simp_all add: v)
  ultimately show ?thesis using d by blast
qed

section \<open>Properties\<close>

text \<open>
  C3: on sorted sides with positive quantities the virtual uncrossing never aborts; it removes from both
  sides the same, least volume at which the best bid is below the best ask, taking it from the best prices
  first, and leaves sorted, positive, uncrossed sides.
\<close>

theorem virtual_uncross_correct:
  assumes "descending bids" and "ascending asks" and "all_positive bids" and "all_positive asks"
  shows "\<exists>v. uncrossing_volume bids asks v \<and> virtualUncross bids asks = Inr (consume v bids, consume v asks) \<and>
    descending (consume v bids) \<and> ascending (consume v asks) \<and>
    all_positive (consume v bids) \<and> all_positive (consume v asks) \<and>
    (\<forall>b \<in> set (consume v bids). \<forall>a \<in> set (consume v asks). price b < price a) \<and>
    volume (consume v bids) = volume bids - v \<and> volume (consume v asks) = volume asks - v"
proof -
  obtain v where v: "uncrossing_volume bids asks v" "virtualUncross bids asks = Inr (consume v bids, consume v asks)"
    using virtualUncross_spec [OF assms] by blast
  then have "0 \<le> v" "v \<le> volume bids" "v \<le> volume asks" by (simp_all add: uncrossing_volume_def)
  then have "volume (consume v bids) = volume bids - v" "volume (consume v asks) = volume asks - v"
    using assms(3,4) by (simp_all add: volume_consume)
  then show ?thesis using v virtualUncross_result [OF assms v(2)] by (intro exI [of _ v]) simp
qed

theorem virtual_uncross_correct_witness:
  "\<exists>v. uncrossing_volume [mk_level (fromInteger 101) (fromInteger 5)] [mk_level (fromInteger 100) (fromInteger 3)] v"
proof -
  have "descending [mk_level (fromInteger 101) (fromInteger 5)]" "ascending [mk_level (fromInteger 100) (fromInteger 3)]"
    by (simp_all add: descending_def ascending_def)
  moreover have "all_positive [mk_level (fromInteger 101) (fromInteger 5)]" "all_positive [mk_level (fromInteger 100) (fromInteger 3)]"
    by (simp_all add: fromInteger_dval)
  ultimately show ?thesis using virtual_uncross_correct by blast
qed

end
