(* ===== verification/Aggregator.thy ===== *)
theory Aggregator
  imports Order_Book Uncross "HOL-Library.Multiset"
begin

text \<open>
  \<open>AggregationEngine::consolidate\<close> of src/src/aggregator/aggregator.cpp: the levels of every exchange's
  book are summed into one view, uncrossed, completed with the best quotes, the cached last ask and the
  timestamps, and checked by \<open>validateAggregatedView\<close>. The unordered map \<open>books_\<close> is the association
  list of its entries in iteration order; the order is shown not to matter. The two clocks the code
  reads are parameters (\<open>now\<close> of the system clock, \<open>steady\<close> of the steady clock), and the mutable
  cache members are passed and returned. The logged staleness message is part of the result.
\<close>

type_synonym book_map = "(string \<times> limit_order_book) list"

section \<open>Summing the books\<close>

definition smax :: "i64 \<Rightarrow> i64 \<Rightarrow> i64" where
  "smax a b = (if a <s b then b else a)"

definition smin :: "i64 \<Rightarrow> i64 \<Rightarrow> i64" where
  "smin a b = (if b <s a then b else a)"

definition int64_max :: i64 where
  "int64_max = 0x7FFFFFFFFFFFFFFF"

text \<open>\<open>aggregated[price] += qty\<close>: \<open>operator[]\<close> inserts a zero first.\<close>

definition add_level ::
  "(decimal \<Rightarrow> 'm \<Rightarrow> decimal option) \<Rightarrow> (decimal \<Rightarrow> decimal \<Rightarrow> 'm \<Rightarrow> 'm) \<Rightarrow> decimal \<times> decimal \<Rightarrow> 'm \<Rightarrow> 'm" where
  "add_level get put pq m =
     (case pq of (p, q) \<Rightarrow> put p ((case get p m of None \<Rightarrow> 0 | Some x \<Rightarrow> x) + q) m)"

definition add_bid_levels :: "levels \<Rightarrow> levels \<Rightarrow> levels" where
  "add_bid_levels ls m = fold (add_level (om_find (>)) (om_put (>))) ls m"

definition add_ask_levels :: "levels \<Rightarrow> levels \<Rightarrow> levels" where
  "add_ask_levels ls m = fold (add_level (om_find (<)) (om_put (<))) ls m"

record time_window =
  latest_ns :: i64
  min_ns :: i64
  max_ns :: i64

definition empty_window :: time_window where
  "empty_window = \<lparr> latest_ns = 0, min_ns = int64_max, max_ns = 0 \<rparr>"

definition widen_window :: "i64 \<Rightarrow> time_window \<Rightarrow> time_window" where
  "widen_window ns w =
     (if 0 <s ns
      then \<lparr> latest_ns = smax (latest_ns w) ns, min_ns = smin (min_ns w) ns, max_ns = smax (max_ns w) ns \<rparr>
      else w)"

definition window_min :: "time_window \<Rightarrow> i64" where
  "window_min w = (if min_ns w = int64_max then 0 else min_ns w)"

record accumulator =
  acc_bids :: levels
  acc_asks :: levels
  acc_feed :: time_window
  acc_local :: time_window

definition empty_accumulator :: accumulator where
  "empty_accumulator = \<lparr> acc_bids = [], acc_asks = [], acc_feed = empty_window, acc_local = empty_window \<rparr>"

definition add_book :: "string \<times> limit_order_book \<Rightarrow> accumulator \<Rightarrow> accumulator" where
  "add_book nb acc =
     (let book = snd nb
      in \<lparr> acc_bids = add_bid_levels (book_bids book) (acc_bids acc),
           acc_asks = add_ask_levels (book_asks book) (acc_asks acc),
           acc_feed = widen_window (book_feed_timestamp_ns book) (acc_feed acc),
           acc_local = widen_window (book_local_timestamp_ns book) (acc_local acc) \<rparr>)"

definition sum_books :: "book_map \<Rightarrow> accumulator" where
  "sum_books books = fold add_book books empty_accumulator"

definition to_levels :: "levels \<Rightarrow> price_level list" where
  "to_levels m = map (\<lambda>(p, q). mk_level p q) (filter (\<lambda>(p, q). kZero < q) m)"

section \<open>Staleness\<close>

definition kSpreadThresholdNs :: i64 where "kSpreadThresholdNs = 2000000000"
definition kDelayThresholdNs :: i64 where "kDelayThresholdNs = 5000000000"
definition kMinWarningInterval :: i64 where "kMinWarningInterval = 5000000000"

definition staleness_reasons :: "i64 \<Rightarrow> i64 \<Rightarrow> i64 \<Rightarrow> string list" where
  "staleness_reasons feed_span local_span publish_delay =
     (if kSpreadThresholdNs <s feed_span then [''feed window '' @ int_text (sint feed_span) @ ''ns''] else []) @
     (if kSpreadThresholdNs <s local_span then [''local window '' @ int_text (sint local_span) @ ''ns''] else []) @
     (if kDelayThresholdNs <s publish_delay then [''publish lag '' @ int_text (sint publish_delay) @ ''ns''] else [])"

fun join_reasons :: "string \<Rightarrow> string list \<Rightarrow> string" where
  "join_reasons message [] = message"
| "join_reasons message (r # rs) = join_reasons (message @ ''; '' @ r) rs"

text \<open>The new time of the last warning, and the message logged if there is one.\<close>

definition maybeWarnOnStaleness :: "i64 \<Rightarrow> i64 \<Rightarrow> i64 \<Rightarrow> i64 \<Rightarrow> i64 \<Rightarrow> i64 \<times> string option" where
  "maybeWarnOnStaleness steady last_warning feed_span local_span publish_delay =
     (case staleness_reasons feed_span local_span publish_delay of
        [] \<Rightarrow> (last_warning, None)
      | r # rs \<Rightarrow>
          if steady - last_warning <s kMinWarningInterval then (last_warning, None)
          else (steady, Some (join_reasons r rs)))"

section \<open>The checks on the view\<close>

fun bid_level_checks :: "decimal option \<Rightarrow> aggregated_quote \<Rightarrow> price_level list \<Rightarrow> (bool \<times> string) list" where
  "bid_level_checks prev best [] = []"
| "bid_level_checks prev best (l # ls) =
     [(kZero \<le> price l, ''bid level price negative''), (kZero < quantity l, ''bid level quantity non-positive'')] @
     (case prev of None \<Rightarrow> [] | Some p \<Rightarrow> [(price l < p, ''bid levels not strictly descending'')]) @
     [(price l \<le> price best, ''bid level exceeds best bid price'')] @
     bid_level_checks (Some (price l)) best ls"

fun ask_level_checks ::
  "decimal option \<Rightarrow> aggregated_quote \<Rightarrow> aggregated_quote \<Rightarrow> price_level list \<Rightarrow> (bool \<times> string) list" where
  "ask_level_checks prev bid best [] = []"
| "ask_level_checks prev bid best (l # ls) =
     [(kZero \<le> price l, ''ask level price negative''), (kZero < quantity l, ''ask level quantity non-positive'')] @
     (case prev of None \<Rightarrow> [] | Some p \<Rightarrow> [(p < price l, ''ask levels not strictly ascending'')]) @
     [(price best \<le> price l, ''ask level below best ask'')] @
     (if kZero < quantity bid then [(price bid < price l, ''ask level must exceed best bid price'')] else []) @
     ask_level_checks (Some (price l)) bid best ls"

definition quote_checks :: "aggregated_book_view \<Rightarrow> (bool \<times> string) list" where
  "quote_checks view =
     (if kZero < quantity (best_bid view) then [(kZero \<le> price (best_bid view), ''best bid price negative'')] else []) @
     (if kZero < quantity (best_ask view) then [(kZero \<le> price (best_ask view), ''best ask price negative'')] else []) @
     (if kZero < quantity (best_bid view) \<and> kZero < quantity (best_ask view)
      then [(price (best_bid view) < price (best_ask view), ''best ask must exceed best bid'')] else [])"

definition front_checks :: "string \<Rightarrow> string \<Rightarrow> aggregated_quote \<Rightarrow> price_level list \<Rightarrow> (bool \<times> string) list" where
  "front_checks msg1 msg2 best ls =
     (case ls of [] \<Rightarrow> [] | l # _ \<Rightarrow> [(price l = price best, msg1), (quantity l = quantity best, msg2)])"

definition time_checks :: "aggregated_book_view \<Rightarrow> (bool \<times> string) list" where
  "time_checks view =
     (if 0 <s max_feed_timestamp_ns view
      then [(last_feed_timestamp_ns view <=s max_feed_timestamp_ns view, ''max feed timestamp must be >= last feed timestamp'')] else []) @
     (if 0 <s max_local_timestamp_ns view
      then [(last_local_timestamp_ns view <=s max_local_timestamp_ns view, ''max local timestamp must be >= last local timestamp'')] else []) @
     (if 0 <s publish_timestamp_ns view \<and> 0 <s max_feed_timestamp_ns view
      then [(max_feed_timestamp_ns view <=s publish_timestamp_ns view, ''publish timestamp must not precede feed data'')] else [])"

definition validateAggregatedView :: "nat \<Rightarrow> aggregated_book_view \<Rightarrow> unit outcome" where
  "validateAggregatedView books_size view = all_checks
     ([(exchange_count view = word_of_nat books_size, ''exchange count mismatch'')] @
      quote_checks view @
      front_checks ''first bid level must match best bid'' ''first bid level quantity must match best bid''
        (best_bid view) (bid_levels view) @
      bid_level_checks None (best_bid view) (bid_levels view) @
      front_checks ''first ask level must match best ask'' ''first ask level quantity must match best ask''
        (best_ask view) (ask_levels view) @
      ask_level_checks None (best_bid view) (best_ask view) (ask_levels view) @
      time_checks view)"

section \<open>Consolidation\<close>

record ask_cache =
  last_best_ask :: aggregated_quote
  last_best_ask_valid :: bool
  last_staleness_warning :: i64

definition empty_cache :: ask_cache where
  "empty_cache = \<lparr> last_best_ask = mk_level 0 0, last_best_ask_valid = False, last_staleness_warning = 0 \<rparr>"

definition front_quote :: "price_level list \<Rightarrow> aggregated_quote" where
  "front_quote ls = (case ls of [] \<Rightarrow> mk_level kZero kZero | l # _ \<Rightarrow> mk_level (price l) (quantity l))"

text \<open>The ask side of the view, and the cache after it: an empty side shows the last ask seen.\<close>

definition fill_asks :: "price_level list \<Rightarrow> ask_cache \<Rightarrow> price_level list \<times> aggregated_quote \<times> ask_cache" where
  "fill_asks asks cache =
     (case asks of
        l # _ \<Rightarrow> (asks, front_quote asks, cache\<lparr> last_best_ask_valid := True, last_best_ask := front_quote asks \<rparr>)
      | [] \<Rightarrow>
          if last_best_ask_valid cache
          then ([mk_level (price (last_best_ask cache)) (quantity (last_best_ask cache))], last_best_ask cache, cache)
          else ([], mk_level kZero kZero, cache))"

definition build_view ::
  "i64 \<Rightarrow> nat \<Rightarrow> accumulator \<Rightarrow> price_level list \<Rightarrow> price_level list \<Rightarrow> aggregated_quote \<Rightarrow> aggregated_book_view" where
  "build_view now n acc bids asks ask =
     \<lparr> bid_levels = bids, ask_levels = asks, best_bid = front_quote bids, best_ask = ask,
       timestamp = now, exchange_count = word_of_nat n,
       last_feed_timestamp_ns = latest_ns (acc_feed acc), last_local_timestamp_ns = latest_ns (acc_local acc),
       min_feed_timestamp_ns = window_min (acc_feed acc), max_feed_timestamp_ns = max_ns (acc_feed acc),
       min_local_timestamp_ns = window_min (acc_local acc), max_local_timestamp_ns = max_ns (acc_local acc),
       publish_timestamp_ns = now \<rparr>"

definition span_ns :: "i64 \<Rightarrow> i64 \<Rightarrow> i64" where
  "span_ns lo hi = (if 0 <s lo \<and> 0 <s hi then hi - lo else 0)"

definition delay_ns :: "aggregated_book_view \<Rightarrow> i64" where
  "delay_ns view = (if 0 <s max_feed_timestamp_ns view then publish_timestamp_ns view - max_feed_timestamp_ns view else 0)"

definition consolidate ::
  "i64 \<Rightarrow> i64 \<Rightarrow> book_map \<Rightarrow> ask_cache \<Rightarrow> (aggregated_book_view \<times> ask_cache \<times> string option) outcome" where
  "consolidate now steady books cache =
     (let acc = sum_books books
      in bind_outcome (virtualUncross (to_levels (acc_bids acc)) (to_levels (acc_asks acc))) (\<lambda>(bids, asks).
           (let (asks', ask, cache') = fill_asks asks cache;
                view = build_view now (length books) acc bids asks' ask
            in bind_outcome (validateAggregatedView (length books) view) (\<lambda>_.
                 (let (warned, message) = maybeWarnOnStaleness steady (last_staleness_warning cache')
                        (span_ns (min_feed_timestamp_ns view) (max_feed_timestamp_ns view))
                        (span_ns (min_local_timestamp_ns view) (max_local_timestamp_ns view))
                        (delay_ns view)
                  in Inr (view, cache'\<lparr> last_staleness_warning := warned \<rparr>, message))))))"

section \<open>The summed levels\<close>

definition level_sum :: "('k \<times> decimal) list \<Rightarrow> 'k \<Rightarrow> int" where
  "level_sum ls p = (\<Sum>(p', q) \<leftarrow> ls. if p' = p then dval q else 0)"

lemma level_sum_simps [simp]:
  "level_sum [] p = 0"
  "level_sum ((p', q) # ls) p = (if p' = p then dval q else 0) + level_sum ls p"
  "level_sum (xs @ ys) p = level_sum xs p + level_sum ys p"
  by (simp_all add: level_sum_def)

definition positive_quantities :: "('k \<times> decimal) set \<Rightarrow> bool" where
  "positive_quantities S \<longleftrightarrow> (\<forall>(p, q) \<in> S. 0 < dval q)"

lemma level_sum_nonneg:
  assumes "positive_quantities (set ls)"
  shows "0 \<le> level_sum ls p"
  unfolding level_sum_def
  by (rule sum_list_nonneg) (use assms in \<open>force simp: positive_quantities_def less_imp_le split: if_splits\<close>)

lemma level_sum_absent: "p \<notin> fst ` set ls \<Longrightarrow> level_sum ls p = 0"
  by (induction ls) auto

context price_levels
begin

lemma qty_nonneg: "inv m \<Longrightarrow> positive_quantities (entries m) \<Longrightarrow> 0 \<le> level_qty find m p"
  using entries_find [of m p] by (force simp: level_qty_def positive_quantities_def less_imp_le split: option.split)

lemma add_level_spec:
  assumes "inv m" and "positive_quantities (entries m)" and "0 < dval q"
    and "level_qty find m p + dval q < 2 ^ 127"
  shows "inv (add_level find put (p, q) m) \<and> positive_quantities (entries (add_level find put (p, q) m)) \<and>
    (\<forall>p'. level_qty find (add_level find put (p, q) m) p' = level_qty find m p' + (if p = p' then dval q else 0))"
proof -
  define x where "x = (case find p m of None \<Rightarrow> 0 | Some x \<Rightarrow> x)"
  have dx: "dval x = level_qty find m p" by (simp add: x_def level_qty_def split: option.split)
  have nn: "0 \<le> dval x" unfolding dx by (rule qty_nonneg [OF assms(1,2)])
  have s: "dval (x + q) = dval x + dval q"
    by (rule dval_plus_nonneg) (use nn assms dx in simp_all)
  have e: "add_level find put (p, q) m = put p (x + q) m" by (simp add: add_level_def x_def)
  have i: "inv (put p (x + q) m)" by (rule inv_put [OF assms(1)])
  have "positive_quantities (entries (put p (x + q) m))"
    unfolding positive_quantities_def
  proof clarify
    fix p' q'
    assume "(p', q') \<in> entries (put p (x + q) m)"
    then have "find p' (put p (x + q) m) = Some q'" using entries_find [OF i] by simp
    then have "(p' = p \<and> q' = x + q) \<or> (p', q') \<in> entries m"
      by (simp add: find_put [OF assms(1)] entries_find [OF assms(1)] split: if_splits)
    then show "0 < dval q'" using assms(2,3) nn s by (auto simp: positive_quantities_def)
  qed
  moreover have "level_qty find (put p (x + q) m) p' = level_qty find m p' + (if p = p' then dval q else 0)" for p'
    using s dx by (auto simp: level_qty_def find_put [OF assms(1)])
  ultimately show ?thesis using i by (simp add: e)
qed

lemma add_levels_spec:
  "inv m \<Longrightarrow> positive_quantities (entries m) \<Longrightarrow> positive_quantities (set ls) \<Longrightarrow>
   \<forall>p. level_qty find m p + level_sum ls p < 2 ^ 127 \<Longrightarrow>
   inv (fold (add_level find put) ls m) \<and> positive_quantities (entries (fold (add_level find put) ls m)) \<and>
   (\<forall>p. level_qty find (fold (add_level find put) ls m) p = level_qty find m p + level_sum ls p)"
proof (induction ls arbitrary: m)
  case (Cons x ls)
  obtain p q where x: "x = (p, q)" by (cases x)
  have q: "0 < dval q" and ls: "positive_quantities (set ls)"
    using Cons.prems(3) by (auto simp: x positive_quantities_def)
  have "level_qty find m p + dval q + level_sum ls p < 2 ^ 127" using Cons.prems(4) by (auto simp: x dest: spec [of _ p])
  then have "level_qty find m p + dval q < 2 ^ 127" using level_sum_nonneg [OF ls, of p] by linarith
  note a = add_level_spec [OF Cons.prems(1,2) q this]
  have "\<forall>p'. level_qty find (add_level find put (p, q) m) p' + level_sum ls p' < 2 ^ 127"
    using Cons.prems(4) a by (simp add: x algebra_simps)
  with Cons.IH [of "add_level find put (p, q) m"] a ls show ?case by (simp add: x)
qed simp

end

context key_order
begin

lemma level_sum_sorted: "om_sorted lt ls \<Longrightarrow> level_sum ls p = level_qty (om_find lt) ls p"
proof (induction ls)
  case (Cons x ls)
  obtain a q where x: "x = (a, q)" by (cases x)
  have s: "\<forall>k' \<in> fst ` set ls. lt a k'" and so: "om_sorted lt ls"
    using Cons.prems by (simp_all add: x om_sorted_Cons)
  note IH = Cons.IH [OF so]
  show ?case
  proof (cases rule: key_cases [of a p])
    case less
    then show ?thesis using IH by (simp add: x level_qty_def)
  next
    case greater
    have "lt p k'" if "k' \<in> fst ` set ls" for k' using s that trans [OF greater(1)] by blast
    then have "p \<notin> fst ` set ls" using irrefl by blast
    then show ?thesis using greater level_sum_absent [of p ls] by (simp add: x level_qty_def)
  next
    case same
    then have "p \<notin> fst ` set ls" using s irrefl by blast
    then show ?thesis using same level_sum_absent [of p ls] by (simp add: x level_qty_def)
  qed
qed (simp add: level_qty_def)

lemma sorted_ext:
  "om_sorted lt m \<Longrightarrow> om_sorted lt m' \<Longrightarrow> set m = set m' \<Longrightarrow> m = m'"
proof (induction m arbitrary: m')
  case (Cons x m)
  obtain y m2 where m': "m' = y # m2" using Cons.prems(3) by (cases m') auto
  obtain a v where x: "x = (a, v)" by (cases x)
  obtain b w where y: "y = (b, w)" by (cases y)
  have s1: "\<forall>k' \<in> fst ` set m. lt a k'" "om_sorted lt m" using Cons.prems(1) by (simp_all add: x om_sorted_Cons)
  have s2: "\<forall>k' \<in> fst ` set m2. lt b k'" "om_sorted lt m2" using Cons.prems(2) by (simp_all add: m' y om_sorted_Cons)
  have "x = y"
  proof (rule ccontr)
    assume ne: "x \<noteq> y"
    then have "x \<in> set m2" "y \<in> set m" using Cons.prems(3) by (auto simp: m')
    then have "lt b a" "lt a b" using s1 s2 by (force simp: x y)+
    then show False using asym by blast
  qed
  moreover have "x \<notin> set m" "y \<notin> set m2" using s1 s2 irrefl by (force simp: x y)+
  ultimately have "set m = set m2" using Cons.prems(3) by (auto simp: m')
  with Cons.IH [OF s1(2) s2(2)] \<open>x = y\<close> show ?case by (simp add: m')
qed simp

end

text \<open>The total quantity the books show on a side at a price.\<close>

definition total_depth :: "side \<Rightarrow> book_map \<Rightarrow> decimal \<Rightarrow> int" where
  "total_depth s books p = (\<Sum>nb \<leftarrow> books. depth_at s p (snd nb))"

definition books_ok :: "book_map \<Rightarrow> bool" where
  "books_ok books \<longleftrightarrow> (\<forall>nb \<in> set books. book_ok (snd nb)) \<and> (\<forall>s p. total_depth s books p < 2 ^ 127)"

lemma sum_books_levels:
  "acc_bids (fold add_book books acc) = add_bid_levels (concat (map (book_bids \<circ> snd) books)) (acc_bids acc)"
  "acc_asks (fold add_book books acc) = add_ask_levels (concat (map (book_asks \<circ> snd) books)) (acc_asks acc)"
  by (induction books arbitrary: acc) (simp_all add: add_book_def Let_def add_bid_levels_def add_ask_levels_def)

lemma level_sum_books:
  assumes "\<forall>nb \<in> set books. book_ok (snd nb)"
  shows "level_sum (concat (map (book_bids \<circ> snd) books)) p = total_depth Bid books p"
    and "level_sum (concat (map (book_asks \<circ> snd) books)) p = total_depth Ask books p"
  using assms by (induction books)
    (simp_all add: total_depth_def depth_at_def book_ok_def desc.level_sum_sorted asc.level_sum_sorted)

lemma books_positive:
  assumes "\<forall>nb \<in> set books. book_ok (snd nb)"
  shows "positive_quantities (set (concat (map (book_bids \<circ> snd) books)))"
    and "positive_quantities (set (concat (map (book_asks \<circ> snd) books)))"
  using assms by (force simp: positive_quantities_def book_ok_def positive_levels_def)+

lemma summed_bids:
  assumes "books_ok books"
  shows "om_sorted (>) (acc_bids (sum_books books))" and "positive_quantities (set (acc_bids (sum_books books)))"
    and "level_qty bid_find (acc_bids (sum_books books)) p = total_depth Bid books p"
proof -
  have b: "\<forall>nb \<in> set books. book_ok (snd nb)" "\<forall>p. total_depth Bid books p < 2 ^ 127"
    using assms by (simp_all add: books_ok_def)
  have e: "acc_bids (sum_books books) = fold (add_level (om_find (>)) (om_put (>))) (concat (map (book_bids \<circ> snd) books)) []"
    by (simp add: sum_books_def sum_books_levels add_bid_levels_def empty_accumulator_def)
  have "\<forall>p. level_qty bid_find [] p + level_sum (concat (map (book_bids \<circ> snd) books)) p < 2 ^ 127"
    unfolding level_sum_books(1) [OF b(1)] using b(2) by (simp add: level_qty_def)
  from bid_side.add_levels_spec [OF _ _ books_positive(1) [OF b(1)] this]
  show "om_sorted (>) (acc_bids (sum_books books))" "positive_quantities (set (acc_bids (sum_books books)))"
    "level_qty bid_find (acc_bids (sum_books books)) p = total_depth Bid books p"
    unfolding e level_sum_books(1) [OF b(1)] by (simp_all add: positive_quantities_def level_qty_def)
qed

lemma summed_asks:
  assumes "books_ok books"
  shows "om_sorted (<) (acc_asks (sum_books books))" and "positive_quantities (set (acc_asks (sum_books books)))"
    and "level_qty ask_find (acc_asks (sum_books books)) p = total_depth Ask books p"
proof -
  have b: "\<forall>nb \<in> set books. book_ok (snd nb)" "\<forall>p. total_depth Ask books p < 2 ^ 127"
    using assms by (simp_all add: books_ok_def)
  have e: "acc_asks (sum_books books) = fold (add_level (om_find (<)) (om_put (<))) (concat (map (book_asks \<circ> snd) books)) []"
    by (simp add: sum_books_def sum_books_levels add_ask_levels_def empty_accumulator_def)
  have "\<forall>p. level_qty ask_find [] p + level_sum (concat (map (book_asks \<circ> snd) books)) p < 2 ^ 127"
    unfolding level_sum_books(2) [OF b(1)] using b(2) by (simp add: level_qty_def)
  from ask_side.add_levels_spec [OF _ _ books_positive(2) [OF b(1)] this]
  show "om_sorted (<) (acc_asks (sum_books books))" "positive_quantities (set (acc_asks (sum_books books)))"
    "level_qty ask_find (acc_asks (sum_books books)) p = total_depth Ask books p"
    unfolding e level_sum_books(2) [OF b(1)] by (simp_all add: positive_quantities_def level_qty_def)
qed

lemma total_depth_pos:
  assumes "\<forall>nb \<in> set books. book_ok (snd nb)" and "0 < total_depth s books p"
  shows "0 \<le> dval p"
proof -
  have "\<exists>nb \<in> set books. 0 < depth_at s p (snd nb)"
  proof (rule ccontr)
    assume "\<not> ?thesis"
    then have "total_depth s books p \<le> 0" unfolding total_depth_def by (intro sum_list_nonpos) (auto simp: not_less)
    then show False using assms(2) by simp
  qed
  then obtain nb where nb: "nb \<in> set books" "0 < depth_at s p (snd nb)" by blast
  then have ok: "book_ok (snd nb)" using assms(1) by blast
  then show ?thesis using nb(2) positive_depth [OF ok, of p]
    by (cases s) (auto simp: book_ok_def positive_levels_def)
qed

text \<open>A side of a view: strictly ordered, with positive quantities and non-negative prices.\<close>

definition side_ok :: "price_level list \<Rightarrow> bool" where
  "side_ok ls \<longleftrightarrow> all_positive ls \<and> (\<forall>l \<in> set ls. 0 \<le> dval (price l))"

definition summed_side :: "side \<Rightarrow> book_map \<Rightarrow> price_level list" where
  "summed_side s books =
     to_levels (if s = Bid then acc_bids (sum_books books) else acc_asks (sum_books books))"

lemma to_levels_positive:
  assumes "positive_quantities (set m)"
  shows "to_levels m = map (\<lambda>(p, q). mk_level p q) m" and "all_positive (to_levels m)"
proof -
  have "filter (\<lambda>(p, q). kZero < q) m = m"
    using assms by (auto simp: filter_id_conv positive_quantities_def kZero_less_iff)
  then show e: "to_levels m = map (\<lambda>(p, q). mk_level p q) m" by (simp add: to_levels_def)
  show "all_positive (to_levels m)"
    using assms by (auto simp: e all_positive_def positive_quantities_def)
qed

lemma map_mk_level_price [simp]: "map price (map (\<lambda>(p, q). mk_level p q) m) = map fst m"
  by (induction m) auto

lemma sorted_levels_desc: "om_sorted (>) m \<Longrightarrow> descending (map (\<lambda>(p, q). mk_level p q) m)"
  by (simp add: om_sorted_def descending_def sorted_wrt_map split_def)

lemma sorted_levels_asc: "om_sorted (<) m \<Longrightarrow> ascending (map (\<lambda>(p, q). mk_level p q) m)"
  by (simp add: om_sorted_def ascending_def sorted_wrt_map split_def)

lemma level_qty_mem:
  assumes "key_order lt" and "om_sorted lt m" and "positive_quantities (set m)"
  shows "(p, q) \<in> set m \<longleftrightarrow> dval q = level_qty (om_find lt) m p \<and> 0 < dval q"
proof -
  have f: "om_find lt p m = Some r \<longleftrightarrow> (p, r) \<in> set m" for r by (rule key_order.find_iff [OF assms(1,2)])
  show ?thesis
  proof (cases "om_find lt p m")
    case None
    then have "(p, q) \<notin> set m" using f [of q] by simp
    then show ?thesis using None by (auto simp: level_qty_def)
  next
    case (Some r)
    then have "0 < dval r" using assms(3) f [of r] by (auto simp: positive_quantities_def)
    then show ?thesis using Some f [of q] by (auto simp: level_qty_def dval_inject)
  qed
qed

lemma summed_side_mem:
  assumes "books_ok books"
  shows "l \<in> set (summed_side s books) \<longleftrightarrow> dval (quantity l) = total_depth s books (price l) \<and> 0 < dval (quantity l)"
proof -
  have rec: "(\<lambda>(p, q). mk_level p q) (p, q) = l \<longleftrightarrow> p = price l \<and> q = quantity l" for p q
    by (cases l) (auto simp: mk_level_def)
  have im: "l \<in> set (map (\<lambda>(p, q). mk_level p q) m) \<longleftrightarrow> (price l, quantity l) \<in> set m" for m
    using rec [of "price l" "quantity l"] by (auto intro!: image_eqI [of _ _ "(price l, quantity l)"])
  show ?thesis
  proof (cases s)
    case Bid
    then show ?thesis
      using level_qty_mem [OF desc.key_order_axioms summed_bids(1,2) [OF assms]] summed_bids(3) [OF assms]
      by (simp only: summed_side_def if_True to_levels_positive(1) [OF summed_bids(2) [OF assms]] im simp_thms)
  next
    case Ask
    then show ?thesis
      using level_qty_mem [OF asc.key_order_axioms summed_asks(1,2) [OF assms]] summed_asks(3) [OF assms]
      by (simp only: summed_side_def if_False to_levels_positive(1) [OF summed_asks(2) [OF assms]] im side.distinct)
  qed
qed

lemma summed_side_ok:
  assumes "books_ok books"
  shows "side_ok (summed_side s books)"
proof -
  have "\<forall>nb \<in> set books. book_ok (snd nb)" using assms by (simp add: books_ok_def)
  then show ?thesis using summed_side_mem [OF assms, of _ s] total_depth_pos [of books s]
    by (auto simp: side_ok_def all_positive_def)
qed

lemma summed_side_sorted:
  assumes "books_ok books"
  shows "descending (summed_side Bid books)" and "ascending (summed_side Ask books)"
  using sorted_levels_desc [OF summed_bids(1) [OF assms]] sorted_levels_asc [OF summed_asks(1) [OF assms]]
  by (simp_all add: summed_side_def to_levels_positive(1) [OF summed_bids(2) [OF assms]]
      to_levels_positive(1) [OF summed_asks(2) [OF assms]])

lemma consume_side_ok: "side_ok ls \<Longrightarrow> side_ok (consume v ls)"
  using consume_prices [of v ls] consume_positive [of ls v] by (auto simp: side_ok_def subset_iff image_iff)

section \<open>When the checks pass\<close>

lemma bid_level_checks_ok:
  "side_ok ls \<Longrightarrow> descending ls \<Longrightarrow> \<forall>l \<in> set ls. price l \<le> price best \<Longrightarrow>
   (case prev of None \<Rightarrow> True | Some p \<Rightarrow> \<forall>l \<in> set ls. price l < p) \<Longrightarrow>
   (c, msg) \<in> set (bid_level_checks prev best ls) \<Longrightarrow> c"
proof (induction prev best ls rule: bid_level_checks.induct)
  case (2 prev best l ls)
  have "side_ok ls" "descending ls" "\<forall>l' \<in> set ls. price l' < price l" "0 \<le> dval (price l)" "0 < dval (quantity l)"
    using 2(2,3) by (simp_all add: side_ok_def descending_def)
  then show ?case using 2 by (auto simp: kZero_le_iff kZero_less_iff split: option.splits)
qed simp

lemma ask_level_checks_ok:
  "side_ok ls \<Longrightarrow> ascending ls \<Longrightarrow> \<forall>l \<in> set ls. price best \<le> price l \<Longrightarrow>
   (case prev of None \<Rightarrow> True | Some p \<Rightarrow> \<forall>l \<in> set ls. p < price l) \<Longrightarrow>
   (0 < dval (quantity bid) \<Longrightarrow> \<forall>l \<in> set ls. price bid < price l) \<Longrightarrow>
   (c, msg) \<in> set (ask_level_checks prev bid best ls) \<Longrightarrow> c"
proof (induction prev bid best ls rule: ask_level_checks.induct)
  case (2 prev bid best l ls)
  have "side_ok ls" "ascending ls" "\<forall>l' \<in> set ls. price l < price l'" "0 \<le> dval (price l)" "0 < dval (quantity l)"
    using 2(2,3) by (simp_all add: side_ok_def ascending_def)
  then show ?case using 2 by (auto simp: kZero_le_iff kZero_less_iff split: option.splits if_splits)
qed simp

lemma front_quote_sel:
  "price (front_quote ls) = (case ls of [] \<Rightarrow> 0 | l # _ \<Rightarrow> price l)"
  "quantity (front_quote ls) = (case ls of [] \<Rightarrow> 0 | l # _ \<Rightarrow> quantity l)"
  by (simp_all add: front_quote_def split: list.split)

definition sides_apart :: "price_level list \<Rightarrow> price_level list \<Rightarrow> bool" where
  "sides_apart bids asks \<longleftrightarrow> bids \<noteq> [] \<and> asks \<noteq> [] \<longrightarrow> price (hd bids) < price (hd asks)"

definition times_ok :: "aggregated_book_view \<Rightarrow> bool" where
  "times_ok view \<longleftrightarrow>
     (0 <s max_feed_timestamp_ns view \<longrightarrow> last_feed_timestamp_ns view <=s max_feed_timestamp_ns view) \<and>
     (0 <s max_local_timestamp_ns view \<longrightarrow> last_local_timestamp_ns view <=s max_local_timestamp_ns view) \<and>
     (0 <s publish_timestamp_ns view \<and> 0 <s max_feed_timestamp_ns view \<longrightarrow>
        max_feed_timestamp_ns view <=s publish_timestamp_ns view)"

lemma guarded_check: "(\<forall>(c, m) \<in> set (if P then [(Q, msg)] else []). c) \<longleftrightarrow> (P \<longrightarrow> Q)"
  by simp

lemma time_checks_iff: "(\<forall>(c, m) \<in> set (time_checks view). c) \<longleftrightarrow> times_ok view"
  unfolding time_checks_def times_ok_def set_append ball_Un guarded_check by (rule refl)

lemma descending_hd: "descending ls \<Longrightarrow> l \<in> set ls \<Longrightarrow> price l \<le> price (hd ls)"
  by (cases ls) (auto simp: descending_def less_imp_le)

lemma ascending_hd: "ascending ls \<Longrightarrow> l \<in> set ls \<Longrightarrow> price (hd ls) \<le> price l"
  by (cases ls) (auto simp: ascending_def less_imp_le)

lemma validate_iff:
  assumes b: "side_ok (bid_levels view)" "descending (bid_levels view)" "best_bid view = front_quote (bid_levels view)"
    and a: "side_ok (ask_levels view)" "ascending (ask_levels view)" "best_ask view = front_quote (ask_levels view)"
  shows "validateAggregatedView n view = Inr () \<longleftrightarrow>
    exchange_count view = word_of_nat n \<and> sides_apart (bid_levels view) (ask_levels view) \<and> times_ok view"
proof -
  let ?B = "bid_levels view" and ?A = "ask_levels view"
  have front: "\<forall>(c, m) \<in> set (front_checks m1 m2 (front_quote ls) ls). c" for m1 m2 ls
    by (auto simp: front_checks_def front_quote_sel split: list.split)
  have hdB: "?B \<noteq> [] \<Longrightarrow> price (best_bid view) = price (hd ?B) \<and> 0 < dval (quantity (best_bid view)) \<and> 0 \<le> dval (price (best_bid view))"
    using b by (cases ?B) (simp_all add: front_quote_sel side_ok_def)
  have hdA: "?A \<noteq> [] \<Longrightarrow> price (best_ask view) = price (hd ?A) \<and> 0 < dval (quantity (best_ask view)) \<and> 0 \<le> dval (price (best_ask view))"
    using a by (cases ?A) (simp_all add: front_quote_sel side_ok_def)
  have nB: "?B = [] \<Longrightarrow> quantity (best_bid view) = 0" and nA: "?A = [] \<Longrightarrow> quantity (best_ask view) = 0"
    using a(3) b(3) by (simp_all add: front_quote_sel)
  have q: "(\<forall>(c, m) \<in> set (quote_checks view). c) \<longleftrightarrow> sides_apart ?B ?A"
    using hdB hdA nB nA by (cases "?B = []"; cases "?A = []") (auto simp: quote_checks_def sides_apart_def kZero_less_iff kZero_le_iff)
  have bl: "\<forall>(c, m) \<in> set (bid_level_checks None (best_bid view) ?B). c"
    using bid_level_checks_ok [OF b(1,2), of "best_bid view" None] hdB descending_hd [OF b(2)] by fastforce
  have al: "\<forall>(c, m) \<in> set (ask_level_checks None (best_bid view) (best_ask view) ?A). c" if "sides_apart ?B ?A"
  proof -
    have "\<forall>l \<in> set ?A. price (best_ask view) \<le> price l" using hdA ascending_hd [OF a(2)] by fastforce
    moreover have "\<forall>l \<in> set ?A. price (best_bid view) < price l" if q0: "0 < dval (quantity (best_bid view))"
    proof
      fix l assume l: "l \<in> set ?A"
      have "?B \<noteq> []" using q0 nB by auto
      then have "price (best_bid view) < price (hd ?A)" using \<open>sides_apart ?B ?A\<close> hdB l by (auto simp: sides_apart_def)
      then show "price (best_bid view) < price l" using ascending_hd [OF a(2) l] by simp
    qed
    ultimately show ?thesis using ask_level_checks_ok [OF a(1,2), of "best_ask view" None "best_bid view"] by fastforce
  qed
  show ?thesis
    unfolding validateAggregatedView_def all_checks_Inr_iff set_append ball_Un time_checks_iff q b(3) a(3)
    using front bl al unfolding b(3) a(3) by auto
qed

section \<open>Timestamps\<close>

definition window_ok :: "time_window \<Rightarrow> bool" where
  "window_ok w \<longleftrightarrow> latest_ns w = max_ns w \<and> 0 \<le> sint (max_ns w)"

lemma widen_window_ok: "window_ok w \<Longrightarrow> window_ok (widen_window ns w)"
  by (auto simp: window_ok_def widen_window_def smax_def word_sless_alt)

lemma sum_books_windows:
  "window_ok (acc_feed acc) \<and> window_ok (acc_local acc) \<Longrightarrow>
   window_ok (acc_feed (fold add_book books acc)) \<and> window_ok (acc_local (fold add_book books acc))"
  by (induction books arbitrary: acc) (simp_all add: add_book_def Let_def widen_window_ok)

lemma sum_windows_ok: "window_ok (acc_feed (sum_books books))" "window_ok (acc_local (sum_books books))"
  unfolding sum_books_def
  using sum_books_windows [of empty_accumulator books]
  by (simp_all add: empty_accumulator_def empty_window_def window_ok_def)

text \<open>The newest positive feed timestamp of the books, 0 when there is none.\<close>

definition newest_feed :: "book_map \<Rightarrow> int" where
  "newest_feed books = foldr (\<lambda>nb m. max m (sint (book_feed_timestamp_ns (snd nb)))) books 0"

lemma newest_feed_nonneg: "0 \<le> newest_feed books"
  unfolding newest_feed_def by (induction books) auto

lemma fold_max_ns:
  "0 \<le> sint (max_ns (acc_feed acc)) \<Longrightarrow>
   sint (max_ns (acc_feed (fold add_book books acc))) = max (sint (max_ns (acc_feed acc))) (newest_feed books)"
proof (induction books arbitrary: acc)
  case (Cons nb books)
  let ?acc = "add_book nb acc"
  have "sint (max_ns (acc_feed ?acc)) = max (sint (max_ns (acc_feed acc))) (sint (book_feed_timestamp_ns (snd nb)))"
    using Cons.prems by (auto simp: add_book_def Let_def widen_window_def smax_def word_sless_alt)
  moreover from this have "0 \<le> sint (max_ns (acc_feed ?acc))" using Cons.prems by simp
  ultimately show ?case using Cons.IH [of ?acc] by (simp add: newest_feed_def)
qed (simp add: newest_feed_def)

lemma sum_max_feed: "sint (max_ns (acc_feed (sum_books books))) = newest_feed books"
  using fold_max_ns [of empty_accumulator books] newest_feed_nonneg [of books]
  by (simp add: sum_books_def empty_accumulator_def empty_window_def)

section \<open>The result of a consolidation\<close>

definition cache_ok :: "ask_cache \<Rightarrow> bool" where
  "cache_ok c \<longleftrightarrow> (last_best_ask_valid c \<longrightarrow>
     0 \<le> dval (price (last_best_ask c)) \<and> 0 < dval (quantity (last_best_ask c)))"

lemma empty_cache_ok: "cache_ok empty_cache"
  by (simp add: cache_ok_def empty_cache_def)

lemma mk_level_eta [simp]: "mk_level (price l) (quantity l) = l"
  by (cases l) (simp add: mk_level_def)

lemma fill_asks_spec:
  assumes "fill_asks asks cache = (asks', ask, cache')" and "side_ok asks" and "ascending asks" and "cache_ok cache"
  shows "side_ok asks' \<and> ascending asks' \<and> ask = front_quote asks' \<and> cache_ok cache' \<and>
    last_staleness_warning cache' = last_staleness_warning cache \<and>
    (asks \<noteq> [] \<longrightarrow> asks' = asks) \<and>
    (asks = [] \<longrightarrow> asks' = (if last_best_ask_valid cache then [last_best_ask cache] else []))"
  using assms
  by (cases asks) (auto simp: fill_asks_def front_quote_def side_ok_def ascending_def cache_ok_def split: if_splits)

text \<open>
  The two ways a consolidation of healthy books can still abort: the ask side is empty and the cached
  ask does not lie above the best bid, or a feed timestamp is ahead of the system clock.
\<close>

definition cached_ask_apart :: "book_map \<Rightarrow> ask_cache \<Rightarrow> bool" where
  "cached_ask_apart books cache \<longleftrightarrow>
     (\<forall>v. uncrossing_volume (summed_side Bid books) (summed_side Ask books) v \<longrightarrow>
        consume v (summed_side Ask books) = [] \<longrightarrow> last_best_ask_valid cache \<longrightarrow>
        consume v (summed_side Bid books) \<noteq> [] \<longrightarrow>
        price (hd (consume v (summed_side Bid books))) < price (last_best_ask cache))"

definition clock_ahead :: "i64 \<Rightarrow> book_map \<Rightarrow> bool" where
  "clock_ahead now books \<longleftrightarrow> 0 < sint now \<and> 0 < newest_feed books \<longrightarrow> newest_feed books \<le> sint now"

lemma build_view_sel [simp]:
  "bid_levels (build_view now n acc bids asks ask) = bids"
  "ask_levels (build_view now n acc bids asks ask) = asks"
  "best_bid (build_view now n acc bids asks ask) = front_quote bids"
  "best_ask (build_view now n acc bids asks ask) = ask"
  "exchange_count (build_view now n acc bids asks ask) = word_of_nat n"
  "publish_timestamp_ns (build_view now n acc bids asks ask) = now"
  "max_feed_timestamp_ns (build_view now n acc bids asks ask) = max_ns (acc_feed acc)"
  "last_feed_timestamp_ns (build_view now n acc bids asks ask) = latest_ns (acc_feed acc)"
  "max_local_timestamp_ns (build_view now n acc bids asks ask) = max_ns (acc_local acc)"
  "last_local_timestamp_ns (build_view now n acc bids asks ask) = latest_ns (acc_local acc)"
  by (simp_all add: build_view_def)

lemma build_view_times:
  "times_ok (build_view now n (sum_books books) bids asks ask) \<longleftrightarrow> clock_ahead now books"
  using sum_windows_ok [of books] sum_max_feed [of books]
  by (auto simp: times_ok_def clock_ahead_def window_ok_def word_sless_alt word_sle_eq)

definition consolidated :: "i64 \<Rightarrow> book_map \<Rightarrow> ask_cache \<Rightarrow> aggregated_book_view \<Rightarrow> bool" where
  "consolidated now books cache view \<longleftrightarrow>
     (\<exists>v. uncrossing_volume (summed_side Bid books) (summed_side Ask books) v \<and>
        bid_levels view = consume v (summed_side Bid books) \<and>
        ask_levels view =
          (if consume v (summed_side Ask books) = [] \<and> last_best_ask_valid cache then [last_best_ask cache]
           else consume v (summed_side Ask books))) \<and>
     best_bid view = front_quote (bid_levels view) \<and> best_ask view = front_quote (ask_levels view) \<and>
     side_ok (bid_levels view) \<and> descending (bid_levels view) \<and>
     side_ok (ask_levels view) \<and> ascending (ask_levels view) \<and>
     sides_apart (bid_levels view) (ask_levels view) \<and>
     exchange_count view = word_of_nat (length books) \<and> publish_timestamp_ns view = now"

lemma validate_no_throw: "no_throw (validateAggregatedView n view)"
  unfolding validateAggregatedView_def by (rule all_checks_no_throw)

lemma consolidate_spec:
  assumes books: "books_ok books" and cache: "cache_ok cache"
  shows "if cached_ask_apart books cache \<and> clock_ahead now books
    then \<exists>view cache' msg. consolidate now steady books cache = Inr (view, cache', msg) \<and>
      consolidated now books cache view \<and> cache_ok cache'
    else \<exists>msg. consolidate now steady books cache = Inl (Abort msg)"
proof -
  let ?B = "summed_side Bid books" and ?A = "summed_side Ask books" and ?acc = "sum_books books"
  have B: "side_ok ?B" "descending ?B" and A: "side_ok ?A" "ascending ?A"
    using summed_side_ok [OF books] summed_side_sorted [OF books] by simp_all
  obtain v where v: "uncrossing_volume ?B ?A v" "virtualUncross ?B ?A = Inr (consume v ?B, consume v ?A)"
    using virtualUncross_spec [OF B(2) A(2)] B(1) A(1) by (auto simp: side_ok_def)
  let ?b = "consume v ?B" and ?a = "consume v ?A"
  have b: "side_ok ?b" "descending ?b" and a: "side_ok ?a" "ascending ?a"
    using A B by (simp_all add: consume_side_ok consume_descending consume_ascending)
  obtain asks' ask cache' where fa: "fill_asks ?a cache = (asks', ask, cache')" by (cases "fill_asks ?a cache")
  note f = fill_asks_spec [OF fa a cache]
  define view where "view = build_view now (length books) ?acc ?b asks' ask"
  define mw where "mw = maybeWarnOnStaleness steady (last_staleness_warning cache')
    (span_ns (min_feed_timestamp_ns view) (max_feed_timestamp_ns view))
    (span_ns (min_local_timestamp_ns view) (max_local_timestamp_ns view)) (delay_ns view)"
  have sB: "to_levels (acc_bids ?acc) = ?B" and sA: "to_levels (acc_asks ?acc) = ?A"
    by (simp_all add: summed_side_def)
  have run: "consolidate now steady books cache = bind_outcome (validateAggregatedView (length books) view)
      (\<lambda>_. case mw of (warned, message) \<Rightarrow> Inr (view, cache'\<lparr>last_staleness_warning := warned\<rparr>, message))"
    by (simp only: consolidate_def Let_def sB sA v(2) bind_outcome_Inr prod.case fa view_def mw_def)
  have "?a \<noteq> [] \<Longrightarrow> sides_apart ?b ?a"
    using v(1) by (auto simp: sides_apart_def uncrossing_volume_def crossed_at_def not_le)
  then have apart1: "sides_apart ?b asks'" if "?a \<noteq> []" using that f by simp
  have cap: "cached_ask_apart books cache \<longleftrightarrow> (?a = [] \<longrightarrow> last_best_ask_valid cache \<longrightarrow> ?b \<noteq> [] \<longrightarrow>
      price (hd ?b) < price (last_best_ask cache))"
    unfolding cached_ask_apart_def using uncrossing_volume_unique [OF v(1)] v(1) by blast
  have apart: "sides_apart ?b asks' \<longleftrightarrow> cached_ask_apart books cache"
  proof (cases "?a = []")
    case True
    then show ?thesis using f unfolding cap sides_apart_def by (cases "last_best_ask_valid cache") simp_all
  next
    case False
    then show ?thesis using apart1 unfolding cap by simp
  qed
  have ask_eq: "asks' = (if ?a = [] \<and> last_best_ask_valid cache then [last_best_ask cache] else ?a)"
  proof (cases "?a = []")
    case True
    then show ?thesis using f by (cases "last_best_ask_valid cache") simp_all
  next
    case False
    then show ?thesis using f by simp
  qed
  have vsel: "bid_levels view = ?b" "ask_levels view = asks'" "best_bid view = front_quote ?b" "best_ask view = ask"
    "exchange_count view = word_of_nat (length books)" "publish_timestamp_ns view = now"
    by (simp_all add: view_def)
  have tok: "times_ok view \<longleftrightarrow> clock_ahead now books" unfolding view_def by (rule build_view_times)
  have val: "validateAggregatedView (length books) view = Inr () \<longleftrightarrow> cached_ask_apart books cache \<and> clock_ahead now books"
    using validate_iff [of view "length books", unfolded vsel] b f apart tok by blast
  show ?thesis
  proof (cases "cached_ask_apart books cache \<and> clock_ahead now books")
    case True
    obtain warned message where m: "mw = (warned, message)" by (cases mw)
    have "consolidated now books cache view"
      unfolding consolidated_def vsel using v(1) b f True apart
      by (intro conjI exI [of _ v]) (use ask_eq in \<open>blast+\<close>)
    moreover have "cache_ok (cache'\<lparr>last_staleness_warning := warned\<rparr>)" using f by (simp add: cache_ok_def)
    ultimately show ?thesis using True val by (simp add: run m)
  next
    case False
    then have "validateAggregatedView (length books) view \<noteq> Inr ()" using val by simp
    then obtain fl where fl: "validateAggregatedView (length books) view = Inl fl"
      by (cases "validateAggregatedView (length books) view") auto
    then obtain msg where "fl = Abort msg"
      using validate_no_throw [of "length books" view] by (cases fl) (simp_all add: no_throw_def)
    then show ?thesis using False fl by (auto simp: run)
  qed
qed

section \<open>The iteration order of the books does not matter\<close>

lemma om_find_add_level:
  assumes "key_order lt" and "om_sorted lt m"
  shows "om_sorted lt (add_level (om_find lt) (om_put lt) (p, q) m) \<and>
    om_find lt p' (add_level (om_find lt) (om_put lt) (p, q) m) =
      (if p' = p then Some ((case om_find lt p m of None \<Rightarrow> 0 | Some x \<Rightarrow> x) + q) else om_find lt p' m)"
  using key_order.sorted_put [OF assms] key_order.find_put_eq [OF assms] by (simp add: add_level_def)

fun level_total :: "(decimal \<times> decimal) list \<Rightarrow> decimal \<Rightarrow> decimal" where
  "level_total [] p = 0"
| "level_total ((p', q) # ls) p = (if p' = p then q else 0) + level_total ls p"

lemma om_find_add_levels:
  assumes "key_order lt"
  shows "om_sorted lt m \<Longrightarrow> om_sorted lt (fold (add_level (om_find lt) (om_put lt)) ls m) \<and>
    om_find lt p (fold (add_level (om_find lt) (om_put lt)) ls m) =
      (if p \<in> fst ` set ls then Some ((case om_find lt p m of None \<Rightarrow> 0 | Some x \<Rightarrow> x) + level_total ls p)
       else om_find lt p m)"
proof (induction ls arbitrary: m)
  case (Cons x ls)
  obtain p' q where x: "x = (p', q)" by (cases x)
  let ?m = "add_level (om_find lt) (om_put lt) (p', q) m"
  have s: "om_sorted lt ?m" and f: "\<And>r. om_find lt r ?m =
      (if r = p' then Some ((case om_find lt p' m of None \<Rightarrow> 0 | Some x \<Rightarrow> x) + q) else om_find lt r m)"
    using om_find_add_level [OF assms Cons.prems] by simp_all
  have nt: "level_total ls r = 0" if "r \<notin> fst ` set ls" for r
    using that by (induction ls) auto
  show ?case using Cons.IH [OF s] f [of p] nt [of p]
    by (auto simp: x add.assoc split: option.split)
qed simp

lemma level_total_mset: "mset ls = mset ls' \<Longrightarrow> level_total ls p = level_total ls' p"
proof -
  have "level_total xs p = sum_list (map (\<lambda>(p', q). if p' = p then q else 0) xs)" for xs
    by (induction xs) auto
  moreover assume "mset ls = mset ls'"
  then have "mset (map (\<lambda>(p', q). if p' = p then q else 0) ls) = mset (map (\<lambda>(p', q). if p' = p then q else 0) ls')"
    by simp
  ultimately show ?thesis by (metis sum_mset_sum_list)
qed

lemma add_levels_mset:
  assumes "key_order lt" and "mset ls = mset ls'"
  shows "fold (add_level (om_find lt) (om_put lt)) ls [] = fold (add_level (om_find lt) (om_put lt)) ls' []"
proof -
  let ?f = "\<lambda>ls. fold (add_level (om_find lt) (om_put lt)) ls []"
  have s: "om_sorted lt (?f xs)" for xs using om_find_add_levels [OF assms(1), of "[]"] by simp
  have st: "set ls = set ls'" using assms(2) by (rule mset_eq_setD)
  have "om_find lt p (?f ls) = om_find lt p (?f ls')" for p
    using om_find_add_levels [OF assms(1), of "[]"] level_total_mset [OF assms(2)] st by simp
  then have "x \<in> set (?f ls) \<longleftrightarrow> x \<in> set (?f ls')" for x
    using key_order.find_iff [OF assms(1) s, of "fst x" _ "snd x"] by (cases x) (metis fst_conv snd_conv)
  then have "set (?f ls) = set (?f ls')" by blast
  with key_order.sorted_ext [OF assms(1) s s] show ?thesis by blast
qed

lemma concat_levels_mset:
  assumes "mset books = mset books'"
  shows "mset (concat (map g books)) = mset (concat (map g books'))"
proof -
  have "mset (concat (map g xs)) = \<Sum>\<^sub># (image_mset (mset \<circ> g) (mset xs))" for xs
    by (induction xs) simp_all
  then show ?thesis using assms by simp
qed

lemma sint_smax: "sint (smax a b) = max (sint a) (sint b)"
  and sint_smin: "sint (smin a b) = min (sint a) (sint b)"
  by (simp_all add: smax_def smin_def word_sless_alt)

lemma sint_eqD: "sint a = sint b \<Longrightarrow> a = b"
  by (rule signed_word_eqI)

lemma smax_swap: "smax (smax w a) b = smax (smax w b) a"
  and smin_swap: "smin (smin w a) b = smin (smin w b) a"
  by (rule sint_eqD, simp add: sint_smax max.assoc max.commute [of "sint a"]) (rule sint_eqD, simp add: sint_smin min.assoc min.commute [of "sint a"])

lemma widen_commute: "widen_window a (widen_window b w) = widen_window b (widen_window a w)"
  using smax_swap [of _ a b] smin_swap [of _ a b] by (simp add: widen_window_def)

lemma windows_fold:
  "acc_feed (fold add_book books acc) = fold widen_window (map (book_feed_timestamp_ns \<circ> snd) books) (acc_feed acc)"
  "acc_local (fold add_book books acc) = fold widen_window (map (book_local_timestamp_ns \<circ> snd) books) (acc_local acc)"
  by (induction books arbitrary: acc) (simp_all add: add_book_def Let_def)

lemma fold_widen_mset: "mset xs = mset ys \<Longrightarrow> fold widen_window xs w = fold widen_window ys w"
proof -
  assume "mset xs = mset ys"
  then have "fold widen_window xs = fold widen_window ys"
    by (rule fold_multiset_equiv [rotated]) (simp add: fun_eq_iff widen_commute)
  then show ?thesis by simp
qed

lemma sum_books_order:
  assumes "mset books = mset books'"
  shows "sum_books books = sum_books books'"
proof -
  have "acc_bids (sum_books books) = acc_bids (sum_books books')" "acc_asks (sum_books books) = acc_asks (sum_books books')"
    using add_levels_mset [OF desc.key_order_axioms concat_levels_mset [OF assms]]
      add_levels_mset [OF asc.key_order_axioms concat_levels_mset [OF assms]]
    by (simp_all add: sum_books_def sum_books_levels add_bid_levels_def add_ask_levels_def empty_accumulator_def)
  moreover have "acc_feed (sum_books books) = acc_feed (sum_books books')" "acc_local (sum_books books) = acc_local (sum_books books')"
    unfolding sum_books_def windows_fold by (rule fold_widen_mset, simp add: assms)+
  ultimately show ?thesis by simp
qed

lemma consolidate_order:
  assumes "mset books = mset books'"
  shows "consolidate now steady books cache = consolidate now steady books' cache"
  using sum_books_order [OF assms] mset_eq_length [OF assms] by (simp add: consolidate_def)

section \<open>Every view that passes the checks is well formed\<close>

definition view_valid :: "aggregated_book_view \<Rightarrow> bool" where
  "view_valid view \<longleftrightarrow>
     side_ok (bid_levels view) \<and> descending (bid_levels view) \<and>
     side_ok (ask_levels view) \<and> ascending (ask_levels view) \<and>
     (\<forall>b \<in> set (bid_levels view). \<forall>a \<in> set (ask_levels view). price b < price a) \<and>
     (bid_levels view \<noteq> [] \<longrightarrow> best_bid view = hd (bid_levels view)) \<and>
     (ask_levels view \<noteq> [] \<longrightarrow> best_ask view = hd (ask_levels view))"

lemma bid_level_checks_sound:
  "\<forall>(c, m) \<in> set (bid_level_checks prev best ls). c \<Longrightarrow>
   side_ok ls \<and> descending ls \<and> (case prev of None \<Rightarrow> True | Some p \<Rightarrow> \<forall>l \<in> set ls. price l < p)"
proof (induction prev best ls rule: bid_level_checks.induct)
  case (2 prev best l ls)
  have all: "\<forall>(c, m) \<in> set (bid_level_checks (Some (price l)) best ls). c" using 2(2) by simp
  have l: "0 \<le> dval (price l)" "0 < dval (quantity l)" using 2(2) by (simp_all add: kZero_le_iff kZero_less_iff)
  have p: "case prev of None \<Rightarrow> True | Some p \<Rightarrow> price l < p" using 2(2) by (auto split: option.splits)
  from 2(1) [OF all] have IH: "side_ok ls" "descending ls" "\<forall>l' \<in> set ls. price l' < price l" by simp_all
  then show ?case using l p by (auto simp: side_ok_def descending_def split: option.splits intro: less_trans)
qed (simp add: side_ok_def descending_def split: option.split)

lemma ask_level_checks_sound:
  "\<forall>(c, m) \<in> set (ask_level_checks prev bid best ls). c \<Longrightarrow>
   side_ok ls \<and> ascending ls \<and> (case prev of None \<Rightarrow> True | Some p \<Rightarrow> \<forall>l \<in> set ls. p < price l) \<and>
   (0 < dval (quantity bid) \<longrightarrow> (\<forall>l \<in> set ls. price bid < price l))"
proof (induction prev bid best ls rule: ask_level_checks.induct)
  case (2 prev bid best l ls)
  have all: "\<forall>(c, m) \<in> set (ask_level_checks (Some (price l)) bid best ls). c" using 2(2) by simp
  have l: "0 \<le> dval (price l)" "0 < dval (quantity l)" using 2(2) by (simp_all add: kZero_le_iff kZero_less_iff)
  have p: "case prev of None \<Rightarrow> True | Some p \<Rightarrow> p < price l" using 2(2) by (auto split: option.splits)
  have b: "0 < dval (quantity bid) \<Longrightarrow> price bid < price l" using 2(2) by (auto simp: kZero_less_iff split: if_splits)
  from 2(1) [OF all] have IH: "side_ok ls" "ascending ls" "\<forall>l' \<in> set ls. price l < price l'"
    "0 < dval (quantity bid) \<longrightarrow> (\<forall>l \<in> set ls. price bid < price l)" by simp_all
  then show ?case using l p b by (auto simp: side_ok_def ascending_def split: option.splits intro: less_trans)
qed (simp add: side_ok_def ascending_def split: option.split)

lemma front_checks_sound:
  "\<forall>(c, m) \<in> set (front_checks m1 m2 best ls). c \<Longrightarrow> ls \<noteq> [] \<Longrightarrow> best = hd ls"
  by (cases ls) (auto simp: front_checks_def)

lemma validate_sound:
  assumes "validateAggregatedView n view = Inr ()"
  shows "view_valid view"
proof -
  let ?B = "bid_levels view" and ?A = "ask_levels view"
  have all: "\<forall>(c, m) \<in> set (bid_level_checks None (best_bid view) ?B). c"
    "\<forall>(c, m) \<in> set (ask_level_checks None (best_bid view) (best_ask view) ?A). c"
    "\<forall>(c, m) \<in> set (front_checks ''first bid level must match best bid'' ''first bid level quantity must match best bid'' (best_bid view) ?B). c"
    "\<forall>(c, m) \<in> set (front_checks ''first ask level must match best ask'' ''first ask level quantity must match best ask'' (best_ask view) ?A). c"
    using assms unfolding validateAggregatedView_def all_checks_Inr_iff set_append ball_Un by blast+
  have b: "side_ok ?B" "descending ?B" using bid_level_checks_sound [OF all(1)] by simp_all
  have a: "side_ok ?A" "ascending ?A" "0 < dval (quantity (best_bid view)) \<longrightarrow> (\<forall>l \<in> set ?A. price (best_bid view) < price l)"
    using ask_level_checks_sound [OF all(2)] by simp_all
  have fb: "?B \<noteq> [] \<Longrightarrow> best_bid view = hd ?B" by (rule front_checks_sound [OF all(3)])
  have fa: "?A \<noteq> [] \<Longrightarrow> best_ask view = hd ?A" by (rule front_checks_sound [OF all(4)])
  have "price x < price y" if "x \<in> set ?B" "y \<in> set ?A" for x y
  proof -
    have ne: "?B \<noteq> []" using that by auto
    then have "0 < dval (quantity (best_bid view))" using b(1) fb by (cases ?B) (simp_all add: side_ok_def)
    then have "price (best_bid view) < price y" using a(3) that(2) by blast
    moreover have "price x \<le> price (best_bid view)" using descending_hd [OF b(2) that(1)] fb [OF ne] by simp
    ultimately show ?thesis by simp
  qed
  then show ?thesis using b a fb fa by (simp add: view_valid_def)
qed

lemma fill_asks_cache:
  "fill_asks asks cache = (asks', ask, cache') \<Longrightarrow>
   last_best_ask_valid cache' \<longleftrightarrow> last_best_ask_valid cache \<or> asks \<noteq> []"
  by (cases asks) (auto simp: fill_asks_def split: if_splits)

lemma consolidate_valid:
  assumes "consolidate now steady books cache = Inr (view, cache', msg)"
  shows "view_valid view" and "publish_timestamp_ns view = now"
    and "exchange_count view = word_of_nat (length books)"
proof -
  have "\<exists>acc bids asks ask. view = build_view now (length books) acc bids asks ask \<and> validateAggregatedView (length books) view = Inr ()"
    using assms unfolding consolidate_def Let_def
    by (auto simp: bind_outcome_eq_Inr split_beta)
  then show "view_valid view" "publish_timestamp_ns view = now" "exchange_count view = word_of_nat (length books)"
    using validate_sound by auto
qed

lemma consolidate_no_throw: "no_throw (consolidate now steady books cache)"
  unfolding consolidate_def Let_def virtualUncross_def
  by (auto simp: all_checks_no_throw validate_no_throw check_descending_def check_ascending_def split: prod.split)

section \<open>Properties\<close>

text \<open>
  C2: on healthy books the consolidation returns exactly when the local clock is not behind the newest feed
  time and a cached ask that is shown again lies above the best bid left; the view then holds the summed
  levels less the uncrossed volume. Otherwise the process aborts, and it never throws.
\<close>

theorem consolidate_exact:
  assumes "books_ok books" and "cache_ok cache"
  shows "((\<exists>r. consolidate now steady books cache = Inr r) \<longleftrightarrow> cached_ask_apart books cache \<and> clock_ahead now books) \<and>
    (\<forall>view cache' msg. consolidate now steady books cache = Inr (view, cache', msg) \<longrightarrow>
       consolidated now books cache view \<and> cache_ok cache') \<and>
    (\<forall>l s. l \<in> set (summed_side s books) \<longleftrightarrow> dval (quantity l) = total_depth s books (price l) \<and> 0 < dval (quantity l)) \<and>
    no_throw (consolidate now steady books cache)"
  using consolidate_spec [OF assms, of now steady] summed_side_mem [OF assms(1)] consolidate_no_throw
  by (auto split: if_splits)

definition one_book :: book_map where
  "one_book = [(''A'', empty_book\<lparr> book_bids := [(fromInteger 100, fromInteger 5)],
     book_asks := [(fromInteger 101, fromInteger 2)] \<rparr>)]"

lemma one_book_ok: "books_ok one_book"
proof -
  have "book_ok (snd (hd one_book))" unfolding validateInvariants_iff [symmetric] by code_simp
  then show ?thesis using depth_less by (simp add: books_ok_def total_depth_def one_book_def)
qed

theorem consolidate_exact_witness:
  "(\<exists>r. consolidate 1 0 one_book empty_cache = Inr r) \<longleftrightarrow>
     cached_ask_apart one_book empty_cache \<and> clock_ahead 1 one_book"
  using consolidate_exact [OF one_book_ok empty_cache_ok] by blast

text \<open>
  C32: the books are kept in an unordered map; the consolidated view, the cache and the warning do not
  depend on the order in which the map hands them out.
\<close>

theorem consolidate_map_order:
  assumes "mset books = mset books'"
  shows "consolidate now steady books cache = consolidate now steady books' cache"
  using assms by (rule consolidate_order)

theorem consolidate_map_order_witness:
  "consolidate 1 0 [(''A'', empty_book), (''B'', snd (hd one_book))] empty_cache =
   consolidate 1 0 [(''B'', snd (hd one_book)), (''A'', empty_book)] empty_cache"
  by (rule consolidate_map_order) simp

text \<open>
  A view that passes the final check is sorted, positive and uncrossed, and its quotes are its first
  levels, whatever books and cache it was computed from.
\<close>

theorem consolidated_view_valid:
  assumes "consolidate now steady books cache = Inr (view, cache', msg)"
  shows "view_valid view \<and> publish_timestamp_ns view = now \<and> exchange_count view = word_of_nat (length books)"
  using consolidate_valid [OF assms] by blast

theorem consolidated_view_valid_witness:
  "case consolidate 1 0 one_book empty_cache of Inl _ \<Rightarrow> False | Inr (view, _, _) \<Rightarrow> view_valid view"
proof -
  have ok: "case consolidate 1 0 one_book empty_cache of Inl _ \<Rightarrow> False | Inr _ \<Rightarrow> True" by code_simp
  then obtain view c m where "consolidate 1 0 one_book empty_cache = Inr (view, c, m)"
    by (auto split: sum.splits)
  with consolidated_view_valid [OF this] show ?thesis by simp
qed

end
