(* ===== verification/Event_Queue.thy ===== *)
theory Event_Queue
  imports Prelude
begin

text \<open>
  \<open>ConcurrentQueue\<close> of src/src/common/include/hermeneutic/common/concurrent_queue.hpp. Every operation is
  one critical section under \<open>mutex_\<close>, so an execution is an interleaving of the operations below. A
  \<open>wait_pop\<close> whose predicate \<open>closed_ || !queue_.empty()\<close> is false stays blocked: it is
  not enabled in that state.

  \<open>fifo_queue\<close> is the contract shared with the lock-free queues of the benchmark suite: accepted values
  come out exactly once and in order.
\<close>

section \<open>The contract of a FIFO queue\<close>

datatype 'a queue_op = Enq 'a | Deq

text \<open>Run a sequence of operations: the values accepted, the values delivered, and the final queue.\<close>

fun run_ops ::
  "('q \<Rightarrow> bool) \<Rightarrow> ('a \<Rightarrow> 'q \<Rightarrow> 'q) \<Rightarrow> ('q \<Rightarrow> ('a \<times> 'q) option) \<Rightarrow> 'a queue_op list \<Rightarrow> 'q \<Rightarrow> 'a list \<times> 'a list \<times> 'q" where
  "run_ops acc enq deq [] q = ([], [], q)"
| "run_ops acc enq deq (Enq x # ops) q =
     (if acc q then (let (ins, outs, q') = run_ops acc enq deq ops (enq x q) in (x # ins, outs, q'))
      else run_ops acc enq deq ops (enq x q))"
| "run_ops acc enq deq (Deq # ops) q =
     (case deq q of
        None \<Rightarrow> run_ops acc enq deq ops q
      | Some (x, q1) \<Rightarrow> (let (ins, outs, q') = run_ops acc enq deq ops q1 in (ins, x # outs, q')))"

locale fifo_queue =
  fixes accepts :: "'q \<Rightarrow> bool"
    and enq :: "'a \<Rightarrow> 'q \<Rightarrow> 'q"
    and deq :: "'q \<Rightarrow> ('a \<times> 'q) option"
    and contents :: "'q \<Rightarrow> 'a list"
    and inv :: "'q \<Rightarrow> bool"
  assumes enq_contents: "inv q \<Longrightarrow> contents (enq x q) = (if accepts q then contents q @ [x] else contents q)"
    and enq_inv: "inv q \<Longrightarrow> inv (enq x q)"
    and deq_None: "inv q \<Longrightarrow> deq q = None \<longleftrightarrow> contents q = []"
    and deq_Some: "inv q \<Longrightarrow> deq q = Some (x, q') \<Longrightarrow> contents q = x # contents q' \<and> inv q'"
begin

lemma run_inv: "inv q \<Longrightarrow> run_ops accepts enq deq ops q = (ins, outs, q') \<Longrightarrow> inv q'"
proof (induction ops arbitrary: q ins outs)
  case (Cons op ops)
  show ?case
  proof (cases op)
    case (Enq x)
    then show ?thesis using Cons.prems Cons.IH [OF enq_inv [OF Cons.prems(1), of x]]
      by (auto split: if_splits prod.splits)
  next
    case Deq
    then show ?thesis using Cons.prems Cons.IH deq_Some [OF Cons.prems(1)]
      by (auto split: option.splits prod.splits)
  qed
qed simp

lemma fifo_order:
  "inv q \<Longrightarrow> run_ops accepts enq deq ops q = (ins, outs, q') \<Longrightarrow> contents q @ ins = outs @ contents q'"
proof (induction ops arbitrary: q ins outs)
  case (Cons op ops)
  show ?case
  proof (cases op)
    case (Enq x)
    then show ?thesis
      using Cons.prems Cons.IH [OF enq_inv [OF Cons.prems(1), of x]] enq_contents [OF Cons.prems(1), of x]
      by (fastforce split: if_splits prod.splits)
  next
    case Deq
    then show ?thesis using Cons.prems Cons.IH deq_Some [OF Cons.prems(1)]
      by (fastforce split: option.splits prod.splits)
  qed
qed simp

lemma deq_total: "inv q \<Longrightarrow> contents q \<noteq> [] \<Longrightarrow> \<exists>x q'. deq q = Some (x, q')"
  using deq_None [of q] by (cases "deq q") auto

end

section \<open>The queue of the engine\<close>

record 'a cqueue =
  items :: "'a list"
  closed :: bool

definition new_queue :: "'a cqueue" where
  "new_queue = \<lparr> items = [], closed = False \<rparr>"

definition cq_push :: "'a \<Rightarrow> 'a cqueue \<Rightarrow> 'a cqueue" where
  "cq_push x q = (if closed q then q else q\<lparr> items := items q @ [x] \<rparr>)"

definition try_pop :: "'a cqueue \<Rightarrow> ('a \<times> 'a cqueue) option" where
  "try_pop q = (case items q of [] \<Rightarrow> None | x # xs \<Rightarrow> Some (x, q\<lparr> items := xs \<rparr>))"

text \<open>\<open>Waiting\<close>: the call is still blocked. \<open>Finished\<close>: it returned \<open>false\<close>.\<close>

datatype 'a wait_result = Waiting | Finished | Popped 'a "'a cqueue"

definition wait_pop :: "'a cqueue \<Rightarrow> 'a wait_result" where
  "wait_pop q =
     (if \<not> (closed q \<or> items q \<noteq> []) then Waiting
      else (case items q of [] \<Rightarrow> Finished | x # xs \<Rightarrow> Popped x (q\<lparr> items := xs \<rparr>)))"

definition wait_pop_for :: "bool \<Rightarrow> 'a cqueue \<Rightarrow> 'a wait_result" where
  "wait_pop_for timed_out q =
     (if \<not> (closed q \<or> items q \<noteq> []) then (if timed_out then Finished else Waiting)
      else (case items q of [] \<Rightarrow> Finished | x # xs \<Rightarrow> Popped x (q\<lparr> items := xs \<rparr>)))"

definition cq_close :: "'a cqueue \<Rightarrow> 'a cqueue" where
  "cq_close q = q\<lparr> closed := True \<rparr>"

interpretation cq: fifo_queue "\<lambda>q. \<not> closed q" cq_push try_pop items "\<lambda>_. True"
  by unfold_locales (auto simp: cq_push_def try_pop_def split: list.splits)

lemma wait_pop_try_pop:
  "wait_pop q = (case try_pop q of Some (x, q') \<Rightarrow> Popped x q' | None \<Rightarrow> if closed q then Finished else Waiting)"
  by (simp add: wait_pop_def try_pop_def split: list.split)

lemma wait_pop_Popped: "wait_pop q = Popped x q' \<Longrightarrow> items q = x # items q' \<and> closed q' = closed q"
  by (auto simp: wait_pop_def split: if_splits list.splits)

lemma wait_pop_closed_not_waiting: "closed q \<Longrightarrow> wait_pop q \<noteq> Waiting"
  by (simp add: wait_pop_def split: list.split)

lemma closed_queue_drains:
  "items q = xs \<Longrightarrow> closed q \<Longrightarrow>
   run_ops (\<lambda>q. \<not> closed q) cq_push try_pop (replicate (length xs) Deq) q = ([], xs, q\<lparr>items := []\<rparr>)"
proof (induction xs arbitrary: q)
  case (Cons x xs)
  have "try_pop q = Some (x, q\<lparr>items := xs\<rparr>)" by (simp add: try_pop_def Cons.prems(1))
  then show ?case using Cons.IH [of "q\<lparr>items := xs\<rparr>"] Cons.prems(2) by simp
qed simp

section \<open>Properties\<close>

text \<open>
  whatever the interleaving of pushes, pops and the close, the values popped followed by those still in
  the queue are the initial ones followed by the values pushed while it was open, in order; and a closed
  queue hands out everything it holds before it reports the end.
\<close>

theorem queue_fifo:
  assumes "run_ops (\<lambda>q. \<not> closed q) cq_push try_pop ops q = (ins, outs, q')"
  shows "items q @ ins = outs @ items q' \<and>
    (closed q \<longrightarrow> run_ops (\<lambda>q. \<not> closed q) cq_push try_pop (replicate (length (items q)) Deq) q =
       ([], items q, q\<lparr> items := [] \<rparr>))"
  using cq.fifo_order [OF _ assms] closed_queue_drains [OF refl] by blast

theorem queue_fifo_witness:
  "fst (snd (run_ops (\<lambda>q. \<not> closed q) cq_push try_pop [Enq (1 :: nat), Deq, Enq 2, Deq] new_queue)) = [1, 2]"
proof -
  have r: "run_ops (\<lambda>q. \<not> closed q) cq_push try_pop [Enq (1 :: nat), Deq, Enq 2, Deq] new_queue =
      ([1, 2], [1, 2], new_queue)"
    by (simp add: cq_push_def try_pop_def new_queue_def)
  show ?thesis using queue_fifo [OF r] r by simp
qed

end
