(* ===== verification/Engine.thy ===== *)
theory Engine
  imports Aggregator Event_Queue "HOL-Library.AList" "HOL-Library.Sublist"
begin

text \<open>
  The running \<open>AggregationEngine\<close> of src/src/aggregator/aggregator.cpp: the worker thread (\<open>run\<close>), the
  publisher thread (\<open>publisherLoop\<close>, \<open>publish\<close>) and the public operations, as a step relation whose
  steps are the critical sections and blocking calls of the code. A thread that is blocked in
  \<open>wait_pop\<close> has no step. An aborted assertion or an uncaught exception ends the process, so such a
  state has no successor (\<open>worker_fails\<close> describes it). \<open>popped\<close>, \<open>produced\<close>, \<open>taken\<close> and \<open>delivered\<close>
  only record what happened; no step reads them.
\<close>

datatype worker_pc = Worker_none | Worker_check | Worker_wait | Worker_update book_event
  | Worker_enqueue aggregated_book_view | Worker_done

datatype publisher_pc = Publisher_none | Publisher_wait | Publisher_publish aggregated_book_view
  | Publisher_deliver aggregated_book_view "u64 list" | Publisher_done

datatype control_pc = Control_idle | Control_close | Control_join_worker | Control_join_publisher

record engine =
  eng_books :: book_map
  eng_view :: aggregated_book_view
  eng_cache :: ask_cache
  expected_exchanges :: "string set"
  ready_exchanges :: "string set"
  require_all_ready :: bool
  eng_queue :: "book_event cqueue"
  publish_queue :: "aggregated_book_view cqueue"
  running :: bool
  subscribers :: "u64 list"
  next_subscriber_id :: u64
  worker :: worker_pc
  publisher :: publisher_pc
  control :: control_pc
  accepted :: "book_event list"
  popped :: "book_event list"
  produced :: "aggregated_book_view list"
  taken :: "aggregated_book_view list"
  delivered :: "(u64 \<times> aggregated_book_view) list"

definition initial_engine :: engine where
  "initial_engine = \<lparr> eng_books = [], eng_view = empty_view, eng_cache = empty_cache,
     expected_exchanges = {}, ready_exchanges = {}, require_all_ready = False,
     eng_queue = new_queue, publish_queue = new_queue, running = False,
     subscribers = [], next_subscriber_id = 1,
     worker = Worker_none, publisher = Publisher_none, control = Control_idle,
     accepted = [], popped = [], produced = [], taken = [], delivered = [] \<rparr>"

section \<open>Operations of the clients\<close>

definition eng_push :: "book_event \<Rightarrow> engine \<Rightarrow> engine outcome" where
  "eng_push ev e =
     bind_outcome (assert_debug (ev_exchange ev \<noteq> []) ''book event missing exchange'') (\<lambda>_.
       Inr (e\<lparr> eng_queue := cq_push ev (eng_queue e),
               accepted := (if closed (eng_queue e) then accepted e else accepted e @ [ev]) \<rparr>))"

definition eng_subscribe :: "engine \<Rightarrow> u64 \<times> engine" where
  "eng_subscribe e =
     (let i = next_subscriber_id e
      in (i, e\<lparr> next_subscriber_id := i + 1,
                subscribers := (if i \<in> set (subscribers e) then subscribers e else i # subscribers e) \<rparr>))"

definition eng_unsubscribe :: "u64 \<Rightarrow> engine \<Rightarrow> engine" where
  "eng_unsubscribe i e = e\<lparr> subscribers := removeAll i (subscribers e) \<rparr>"

definition latest :: "engine \<Rightarrow> aggregated_book_view" where
  "latest e = eng_view e"

definition setExpectedExchanges :: "string list \<Rightarrow> engine \<Rightarrow> engine outcome" where
  "setExpectedExchanges names e =
     bind_outcome (all_checks (map (\<lambda>ex. (ex \<noteq> [], ''expected exchange names must be non-empty'')) names)) (\<lambda>_.
       Inr (e\<lparr> expected_exchanges := set names, ready_exchanges := {}, require_all_ready := (names \<noteq> []) \<rparr>))"

definition eng_start :: "engine \<Rightarrow> engine" where
  "eng_start e =
     (if running e then e
      else e\<lparr> running := True, publisher := Publisher_wait, worker := Worker_check \<rparr>)"

text \<open>\<open>stop\<close>: clear the flag, close the queue, join the worker, close the publish queue, join the publisher.\<close>

definition stop_begin :: "engine \<Rightarrow> engine" where
  "stop_begin e = e\<lparr> running := False, control := Control_close \<rparr>"

definition stop_close_queue :: "engine \<Rightarrow> engine" where
  "stop_close_queue e = e\<lparr> eng_queue := cq_close (eng_queue e), control := Control_join_worker \<rparr>"

definition stop_close_publish :: "engine \<Rightarrow> engine" where
  "stop_close_publish e = e\<lparr> publish_queue := cq_close (publish_queue e), control := Control_join_publisher \<rparr>"

definition stop_end :: "engine \<Rightarrow> engine" where
  "stop_end e = e\<lparr> control := Control_idle \<rparr>"

section \<open>The worker\<close>

definition run_check :: "engine \<Rightarrow> engine" where
  "run_check e = e\<lparr> worker := (if running e then Worker_wait else Worker_done) \<rparr>"

definition run_wait :: "engine \<Rightarrow> engine option" where
  "run_wait e =
     (case wait_pop (eng_queue e) of
        Waiting \<Rightarrow> None
      | Finished \<Rightarrow> Some (e\<lparr> worker := Worker_done \<rparr>)
      | Popped ev q \<Rightarrow> Some (e\<lparr> eng_queue := q, worker := Worker_update ev, popped := popped e @ [ev] \<rparr>))"

definition book_of :: "string \<Rightarrow> book_map \<Rightarrow> limit_order_book" where
  "book_of name books = (case map_of books name of None \<Rightarrow> empty_book | Some b \<Rightarrow> b)"

definition mark_ready :: "string \<Rightarrow> engine \<Rightarrow> string set" where
  "mark_ready name e =
     (if require_all_ready e \<and> name \<in> expected_exchanges e then insert name (ready_exchanges e) else ready_exchanges e)"

definition can_publish :: "engine \<Rightarrow> bool" where
  "can_publish e \<longleftrightarrow> \<not> require_all_ready e \<or> card (ready_exchanges e) = card (expected_exchanges e)"

text \<open>
  The critical section of \<open>run\<close>: apply the event to its book, mark the exchange ready, consolidate.
  \<open>t_apply\<close>, \<open>t_view\<close> and \<open>t_steady\<close> are the clock readings it takes.
\<close>

definition run_update :: "i64 \<Rightarrow> i64 \<Rightarrow> i64 \<Rightarrow> book_event \<Rightarrow> engine \<Rightarrow> engine outcome" where
  "run_update t_apply t_view t_steady ev e =
     bind_outcome (apply_event t_apply ev (book_of (ev_exchange ev) (eng_books e))) (\<lambda>book.
       (let books = AList.update (ev_exchange ev) book (eng_books e);
            ready = mark_ready (ev_exchange ev) e
        in bind_outcome (consolidate t_view t_steady books (eng_cache e)) (\<lambda>(view, cache, warning).
             (let e' = e\<lparr> eng_books := books, ready_exchanges := ready, eng_view := view, eng_cache := cache \<rparr>
              in Inr (e'\<lparr> worker := (if can_publish e' then Worker_enqueue view else Worker_check) \<rparr>)))))"

definition enqueueSnapshot :: "aggregated_book_view \<Rightarrow> engine \<Rightarrow> engine" where
  "enqueueSnapshot view e =
     e\<lparr> publish_queue := cq_push view (publish_queue e), worker := Worker_check,
        produced := (if closed (publish_queue e) then produced e else produced e @ [view]) \<rparr>"

section \<open>The publisher\<close>

definition publisher_wait :: "engine \<Rightarrow> engine option" where
  "publisher_wait e =
     (case wait_pop (publish_queue e) of
        Waiting \<Rightarrow> None
      | Finished \<Rightarrow> Some (e\<lparr> publisher := Publisher_done \<rparr>)
      | Popped view q \<Rightarrow> Some (e\<lparr> publish_queue := q, publisher := Publisher_publish view, taken := taken e @ [view] \<rparr>))"

text \<open>\<open>publish\<close> copies the subscribers under the lock and calls them one after the other.\<close>

definition publish_copy :: "aggregated_book_view \<Rightarrow> engine \<Rightarrow> engine" where
  "publish_copy view e = e\<lparr> publisher := Publisher_deliver view (subscribers e) \<rparr>"

fun publish_deliver :: "aggregated_book_view \<Rightarrow> u64 list \<Rightarrow> engine \<Rightarrow> engine" where
  "publish_deliver view [] e = e\<lparr> publisher := Publisher_wait \<rparr>"
| "publish_deliver view (i # ids) e =
     e\<lparr> publisher := Publisher_deliver view ids, delivered := delivered e @ [(i, view)] \<rparr>"

section \<open>The step relation\<close>

inductive eng_step :: "engine \<Rightarrow> engine \<Rightarrow> bool" where
  push: "eng_push ev e = Inr e' \<Longrightarrow> eng_step e e'"
| subscribe: "eng_subscribe e = (i, e') \<Longrightarrow> eng_step e e'"
| unsubscribe: "eng_step e (eng_unsubscribe i e)"
| expected: "setExpectedExchanges names e = Inr e' \<Longrightarrow> eng_step e e'"
| start: "control e = Control_idle \<Longrightarrow> eng_step e (eng_start e)"
| stop_begin: "control e = Control_idle \<Longrightarrow> eng_step e (stop_begin e)"
| stop_close: "control e = Control_close \<Longrightarrow> eng_step e (stop_close_queue e)"
| stop_join: "control e = Control_join_worker \<Longrightarrow> worker e \<in> {Worker_none, Worker_done} \<Longrightarrow>
    eng_step e (stop_close_publish e)"
| stop_end: "control e = Control_join_publisher \<Longrightarrow> publisher e \<in> {Publisher_none, Publisher_done} \<Longrightarrow>
    eng_step e (stop_end e)"
| check: "worker e = Worker_check \<Longrightarrow> eng_step e (run_check e)"
| wait: "worker e = Worker_wait \<Longrightarrow> run_wait e = Some e' \<Longrightarrow> eng_step e e'"
| update: "worker e = Worker_update ev \<Longrightarrow> run_update t_apply t_view t_steady ev e = Inr e' \<Longrightarrow> eng_step e e'"
| enqueue: "worker e = Worker_enqueue view \<Longrightarrow> eng_step e (enqueueSnapshot view e)"
| publisher_wait: "publisher e = Publisher_wait \<Longrightarrow> publisher_wait e = Some e' \<Longrightarrow> eng_step e e'"
| copy: "publisher e = Publisher_publish view \<Longrightarrow> eng_step e (publish_copy view e)"
| deliver: "publisher e = Publisher_deliver view ids \<Longrightarrow> eng_step e (publish_deliver view ids e)"

inductive reachable_engine :: "engine \<Rightarrow> bool" where
  init: "reachable_engine initial_engine"
| step: "reachable_engine e \<Longrightarrow> eng_step e e' \<Longrightarrow> reachable_engine e'"

definition worker_fails :: "engine \<Rightarrow> failure \<Rightarrow> bool" where
  "worker_fails e f \<longleftrightarrow> (\<exists>ev t_apply t_view t_steady.
     worker e = Worker_update ev \<and> run_update t_apply t_view t_steady ev e = Inl f)"

section \<open>Books are keyed by their exchange and stay healthy\<close>

definition books_inv :: "book_map \<Rightarrow> bool" where
  "books_inv books \<longleftrightarrow> distinct (map fst books) \<and>
     (\<forall>(name, b) \<in> set books. exchange_name b = name \<and> book_ok b)"

lemma empty_book_ok: "book_ok empty_book"
  using empty_book_inv by (simp add: book_inv_def)

lemma remove_order_name: "remove_order i b = Inr b' \<Longrightarrow> exchange_name b' = exchange_name b"
  using remove_order_header by (fastforce simp: same_header_def)

lemma dispatch_event_name: "dispatch_event ev b = Inr b' \<Longrightarrow> exchange_name b' = exchange_name b"
  by (auto simp: dispatch_event_def apply_snapshot_def apply_new_order_def apply_cancel_def emplace_order_def
      bind_outcome_eq_Inr Let_def remove_order_name split: book_event_kind.splits if_splits)

lemma apply_event_name:
  assumes "apply_event now ev b = Inr b'" and "exchange_name b = ev_exchange ev \<or> exchange_name b = []"
  shows "exchange_name b' = ev_exchange ev"
  using assms by (auto simp: apply_event_def stamp_book_def bind_outcome_eq_Inr Let_def
      dest!: dispatch_event_name split: if_splits)

lemma apply_event_stale:
  assumes "stale_sequence ev b" and "apply_event now ev b = Inr b'"
  shows "book_bids b' = book_bids b \<and> book_asks b' = book_asks b \<and> orders b' = orders b"
proof -
  have "stale_sequence ev (stamp_book now ev b)" using assms(1) by (simp add: stale_sequence_def stamp_book_def)
  then have "b' = stamp_book now ev b" using assms(2) by (auto simp: apply_event_def Let_def split: if_splits)
  then show ?thesis by (simp add: stamp_book_def)
qed

lemma apply_event_book_ok:
  assumes "book_ok b" and "apply_event now ev b = Inr b'"
  shows "book_ok b'"
proof (cases "stale_sequence ev b")
  case True
  with apply_event_stale [OF True assms(2)] assms(1) show ?thesis by (simp add: book_ok_def)
next
  case False
  with assms show ?thesis by (blast intro: apply_event_keeps_valid)
qed

lemma book_of_ok: "books_inv books \<Longrightarrow> book_ok (book_of name books) \<and> exchange_name (book_of name books) \<in> {name, []}"
  using empty_book_ok
  by (auto simp: book_of_def books_inv_def empty_book_def split: option.split dest!: map_of_SomeD)

lemma update_books_inv:
  assumes "books_inv books" and "book_ok b" and "exchange_name b = name"
  shows "books_inv (AList.update name b books)"
proof -
  have "distinct (map fst (AList.update name b books))"
    using assms(1) by (simp add: books_inv_def distinct_update)
  moreover have "(n, b') \<in> set (AList.update name b books) \<Longrightarrow> (n = name \<and> b' = b) \<or> (n, b') \<in> set books" for n b'
    by (induction books) (auto split: if_splits)
  ultimately show ?thesis using assms unfolding books_inv_def by blast
qed

section \<open>The invariant of the engine\<close>

definition views_to :: "u64 \<Rightarrow> engine \<Rightarrow> aggregated_book_view list" where
  "views_to i e = map snd (filter (\<lambda>d. fst d = i) (delivered e))"

definition delivery_inv :: "engine \<Rightarrow> bool" where
  "delivery_inv e \<longleftrightarrow>
     (case publisher e of
        Publisher_publish v \<Rightarrow> taken e \<noteq> [] \<and> last (taken e) = v \<and> (\<forall>i. subseq (views_to i e) (butlast (taken e)))
      | Publisher_deliver v ids \<Rightarrow> taken e \<noteq> [] \<and> last (taken e) = v \<and> distinct ids \<and>
          (\<forall>i. subseq (views_to i e) (if i \<in> set ids then butlast (taken e) else taken e))
      | _ \<Rightarrow> (\<forall>i. subseq (views_to i e) (taken e)))"

definition queue_inv :: "engine \<Rightarrow> bool" where
  "queue_inv e \<longleftrightarrow> accepted e = popped e @ items (eng_queue e) \<and> produced e = taken e @ items (publish_queue e) \<and>
     (publisher e = Publisher_done \<longrightarrow> closed (publish_queue e) \<and> items (publish_queue e) = [])"

definition ready_inv :: "engine \<Rightarrow> bool" where
  "ready_inv e \<longleftrightarrow> finite (expected_exchanges e) \<and> ready_exchanges e \<subseteq> expected_exchanges e \<and>
     (require_all_ready e \<longleftrightarrow> expected_exchanges e \<noteq> {})"

definition view_inv :: "engine \<Rightarrow> bool" where
  "view_inv e \<longleftrightarrow> (\<forall>v \<in> set (produced e). view_valid v) \<and>
     (\<forall>v. worker e = Worker_enqueue v \<longrightarrow> view_valid v)"

definition control_inv :: "engine \<Rightarrow> bool" where
  "control_inv e \<longleftrightarrow> (control e \<noteq> Control_idle \<longrightarrow> \<not> running e) \<and>
     (control e = Control_idle \<and> \<not> running e \<longrightarrow>
        worker e \<in> {Worker_none, Worker_done} \<and> publisher e \<in> {Publisher_none, Publisher_done}) \<and>
     (control e = Control_join_publisher \<longrightarrow> worker e \<in> {Worker_none, Worker_done})"

definition engine_inv :: "engine \<Rightarrow> bool" where
  "engine_inv e \<longleftrightarrow> books_inv (eng_books e) \<and> distinct (subscribers e) \<and> delivery_inv e \<and> queue_inv e \<and>
     ready_inv e \<and> view_inv e \<and> control_inv e"

lemma engine_inv_initial: "engine_inv initial_engine"
  by (simp add: engine_inv_def initial_engine_def books_inv_def delivery_inv_def queue_inv_def ready_inv_def
      view_inv_def new_queue_def views_to_def control_inv_def)

text \<open>The parts of the invariant that a step leaves alone.\<close>

lemma delivery_inv_cong:
  "publisher e' = publisher e \<Longrightarrow> taken e' = taken e \<Longrightarrow> delivered e' = delivered e \<Longrightarrow> delivery_inv e' = delivery_inv e"
  by (simp add: delivery_inv_def views_to_def cong: publisher_pc.case_cong)

lemma queue_inv_cong:
  "publisher e' = publisher e \<Longrightarrow> taken e' = taken e \<Longrightarrow> accepted e' = accepted e \<Longrightarrow> popped e' = popped e \<Longrightarrow>
   produced e' = produced e \<Longrightarrow> items (eng_queue e') = items (eng_queue e) \<Longrightarrow>
   publish_queue e' = publish_queue e \<Longrightarrow> queue_inv e' = queue_inv e"
  by (simp add: queue_inv_def)

lemma ready_inv_cong:
  "expected_exchanges e' = expected_exchanges e \<Longrightarrow> ready_exchanges e' = ready_exchanges e \<Longrightarrow>
   require_all_ready e' = require_all_ready e \<Longrightarrow> ready_inv e' = ready_inv e"
  by (simp add: ready_inv_def)

lemma control_inv_cong:
  "control e' = control e \<Longrightarrow> running e' = running e \<Longrightarrow> worker e' = worker e \<Longrightarrow> publisher e' = publisher e \<Longrightarrow>
   control_inv e' = control_inv e"
  by (simp add: control_inv_def)

lemma subseq_butlast: "subseq xs (butlast ys) \<Longrightarrow> subseq xs ys"
  by (cases ys rule: rev_cases) (auto intro: list_emb_append_mono [of _ xs _ "[]", simplified])

lemma run_update_shape:
  assumes "run_update t_apply t_view t_steady ev e = Inr e'"
  obtains book view cache warning e1 where
    "apply_event t_apply ev (book_of (ev_exchange ev) (eng_books e)) = Inr book"
    and "consolidate t_view t_steady (AList.update (ev_exchange ev) book (eng_books e)) (eng_cache e) = Inr (view, cache, warning)"
    and "e1 = e\<lparr>eng_books := AList.update (ev_exchange ev) book (eng_books e),
      ready_exchanges := mark_ready (ev_exchange ev) e, eng_view := view, eng_cache := cache\<rparr>"
    and "e' = e1\<lparr>worker := (if can_publish e1 then Worker_enqueue view else Worker_check)\<rparr>"
proof -
  obtain book where book: "apply_event t_apply ev (book_of (ev_exchange ev) (eng_books e)) = Inr book"
    using assms by (auto simp: run_update_def bind_outcome_eq_Inr)
  let ?books = "AList.update (ev_exchange ev) book (eng_books e)"
  obtain view cache warning where c: "consolidate t_view t_steady ?books (eng_cache e) = Inr (view, cache, warning)"
    using assms book by (auto simp: run_update_def bind_outcome_eq_Inr Let_def)
  show thesis by (rule that [OF book c refl]) (use assms in \<open>simp add: run_update_def book c Let_def\<close>)
qed

lemma run_update_pc:
  assumes "run_update t_apply t_view t_steady ev e = Inr e'"
  shows "worker e' = (if can_publish e' then Worker_enqueue (eng_view e') else Worker_check)"
  using assms by (rule run_update_shape) (simp add: can_publish_def)

lemma run_update_inv:
  assumes inv: "engine_inv e" and w: "worker e = Worker_update ev"
    and u: "run_update t_apply t_view t_steady ev e = Inr e'"
  shows "engine_inv e'"
proof -
  obtain book view cache warning e1 where
    book: "apply_event t_apply ev (book_of (ev_exchange ev) (eng_books e)) = Inr book"
    and c: "consolidate t_view t_steady (AList.update (ev_exchange ev) book (eng_books e)) (eng_cache e) = Inr (view, cache, warning)"
    and e1_def: "e1 = e\<lparr>eng_books := AList.update (ev_exchange ev) book (eng_books e),
      ready_exchanges := mark_ready (ev_exchange ev) e, eng_view := view, eng_cache := cache\<rparr>"
    and e': "e' = e1\<lparr>worker := (if can_publish e1 then Worker_enqueue view else Worker_check)\<rparr>"
    using u by (rule run_update_shape)
  let ?books = "AList.update (ev_exchange ev) book (eng_books e)"
  have "books_inv (eng_books e)" using inv by (simp add: engine_inv_def)
  note bo = book_of_ok [OF this, of "ev_exchange ev"]
  have "books_inv ?books"
    by (rule update_books_inv) (use inv bo apply_event_book_ok [OF _ book] apply_event_name [OF book] in \<open>auto simp: engine_inv_def\<close>)
  moreover have "view_valid view" by (rule consolidate_valid(1) [OF c])
  moreover have "ready_inv e'" using inv by (auto simp: engine_inv_def ready_inv_def e' e1_def mark_ready_def)
  moreover have "delivery_inv e'" using inv delivery_inv_cong [of e' e] by (simp add: engine_inv_def e' e1_def)
  moreover have "queue_inv e'" using inv queue_inv_cong [of e' e] by (simp add: engine_inv_def e' e1_def)
  moreover have "control_inv e'" using inv w by (auto simp: engine_inv_def control_inv_def e' e1_def)
  ultimately show ?thesis using inv by (auto simp: engine_inv_def view_inv_def e' e1_def)
qed

lemma publisher_wait_inv:
  assumes inv: "engine_inv e" and p: "publisher e = Publisher_wait" and s: "publisher_wait e = Some e'"
  shows "engine_inv e'"
proof (cases "wait_pop (publish_queue e)")
  case Waiting
  then show ?thesis using s by (simp add: publisher_wait_def)
next
  case Finished
  then have q: "closed (publish_queue e) \<and> items (publish_queue e) = []"
    by (auto simp: wait_pop_def split: if_splits list.splits)
  have e': "e' = e\<lparr>publisher := Publisher_done\<rparr>" using s Finished by (simp add: publisher_wait_def)
  show ?thesis using inv q p
    by (auto simp: engine_inv_def e' delivery_inv_def queue_inv_def ready_inv_def view_inv_def views_to_def control_inv_def)
next
  case (Popped v q)
  note q = wait_pop_Popped [OF Popped]
  have e': "e' = e\<lparr>publish_queue := q, publisher := Publisher_publish v, taken := taken e @ [v]\<rparr>"
    using s Popped by (simp add: publisher_wait_def)
  show ?thesis using inv q p
    by (auto simp: engine_inv_def e' delivery_inv_def queue_inv_def ready_inv_def view_inv_def views_to_def control_inv_def)
qed

lemma deliver_inv:
  assumes inv: "engine_inv e" and p: "publisher e = Publisher_deliver v ids"
  shows "engine_inv (publish_deliver v ids e)"
proof (cases ids)
  case Nil
  then show ?thesis using inv p
    by (auto simp: engine_inv_def delivery_inv_def queue_inv_def ready_inv_def view_inv_def views_to_def control_inv_def)
next
  case (Cons i rest)
  have d: "delivery_inv e" using inv by (simp add: engine_inv_def)
  then have t: "taken e \<noteq> []" "last (taken e) = v" "distinct ids"
    and s: "\<And>j. subseq (views_to j e) (if j \<in> set ids then butlast (taken e) else taken e)"
    by (simp_all add: delivery_inv_def p)
  let ?e = "publish_deliver v ids e"
  have tk: "taken e = butlast (taken e) @ [v]" using t by (metis append_butlast_last_id)
  have vt: "views_to j ?e = (if j = i then views_to j e @ [v] else views_to j e)" for j
    by (simp add: Cons views_to_def)
  have sub: "subseq (views_to j ?e) (if j \<in> set rest then butlast (taken e) else taken e)" for j
  proof (cases "j = i")
    case True
    then have "subseq (views_to j e @ [v]) (butlast (taken e) @ [v])"
      using s [of j] by (simp add: Cons list_emb_append_mono)
    then show ?thesis using True t(3) tk vt by (simp add: Cons)
  next
    case False
    then show ?thesis using s [of j] vt by (simp add: Cons)
  qed
  have pub: "publisher ?e = Publisher_deliver v rest" "taken ?e = taken e" by (simp_all add: Cons)
  have "distinct rest" using t(3) by (simp add: Cons)
  then have "delivery_inv ?e" unfolding delivery_inv_def pub publisher_pc.case using t(1,2) sub by blast
  then show ?thesis using inv p by (auto simp: engine_inv_def Cons queue_inv_def ready_inv_def view_inv_def control_inv_def)
qed

lemma eng_push_inv:
  assumes "engine_inv e" and "eng_push ev e = Inr e'"
  shows "engine_inv e'"
proof -
  have e': "e' = e\<lparr>eng_queue := cq_push ev (eng_queue e),
      accepted := (if closed (eng_queue e) then accepted e else accepted e @ [ev])\<rparr>"
    using assms(2) by (simp add: eng_push_def bind_outcome_eq_Inr)
  show ?thesis using assms(1) delivery_inv_cong [of e' e] control_inv_cong [of e' e]
    by (simp add: engine_inv_def e' queue_inv_def ready_inv_def view_inv_def cq_push_def)
qed

lemma enqueue_inv:
  assumes "engine_inv e" and "worker e = Worker_enqueue v"
  shows "engine_inv (enqueueSnapshot v e)"
  using assms delivery_inv_cong [of "enqueueSnapshot v e" e]
  by (auto simp: engine_inv_def enqueueSnapshot_def queue_inv_def ready_inv_def view_inv_def cq_push_def control_inv_def)

lemma expected_inv:
  assumes "engine_inv e" and "setExpectedExchanges names e = Inr e'"
  shows "engine_inv e'"
proof -
  have e': "e' = e\<lparr>expected_exchanges := set names, ready_exchanges := {}, require_all_ready := (names \<noteq> [])\<rparr>"
    using assms(2) by (simp add: setExpectedExchanges_def bind_outcome_eq_Inr)
  show ?thesis using assms(1) delivery_inv_cong [of e' e] queue_inv_cong [of e' e] control_inv_cong [of e' e]
    by (simp add: engine_inv_def e' ready_inv_def view_inv_def)
qed

lemma other_parts_cong:
  assumes "eng_books e' = eng_books e" and "subscribers e' = subscribers e" and "publisher e' = publisher e"
    and "taken e' = taken e" and "delivered e' = delivered e" and "accepted e' = accepted e" and "popped e' = popped e"
    and "produced e' = produced e" and "items (eng_queue e') = items (eng_queue e)"
    and "items (publish_queue e') = items (publish_queue e)"
    and "closed (publish_queue e) \<Longrightarrow> closed (publish_queue e')"
    and "expected_exchanges e' = expected_exchanges e" and "ready_exchanges e' = ready_exchanges e"
    and "require_all_ready e' = require_all_ready e"
    and "worker e' = worker e \<or> worker e' \<in> {Worker_wait, Worker_done}"
    and "engine_inv e" and "control_inv e'"
  shows "engine_inv e'"
  using assms delivery_inv_cong [of e' e] ready_inv_cong [of e' e]
  by (auto simp: engine_inv_def queue_inv_def view_inv_def)

lemma stop_begin_inv: "engine_inv e \<Longrightarrow> engine_inv (stop_begin e)"
  by (rule other_parts_cong [of _ e]) (simp_all add: stop_begin_def engine_inv_def control_inv_def)

lemma stop_close_queue_inv: "engine_inv e \<Longrightarrow> control e = Control_close \<Longrightarrow> engine_inv (stop_close_queue e)"
  by (rule other_parts_cong [of _ e]) (auto simp: stop_close_queue_def cq_close_def engine_inv_def control_inv_def)

lemma stop_close_publish_inv:
  "engine_inv e \<Longrightarrow> control e = Control_join_worker \<Longrightarrow> worker e \<in> {Worker_none, Worker_done} \<Longrightarrow>
   engine_inv (stop_close_publish e)"
  by (rule other_parts_cong [of _ e]) (auto simp: stop_close_publish_def cq_close_def engine_inv_def control_inv_def)

lemma stop_end_inv:
  "engine_inv e \<Longrightarrow> control e = Control_join_publisher \<Longrightarrow> publisher e \<in> {Publisher_none, Publisher_done} \<Longrightarrow>
   engine_inv (stop_end e)"
  by (rule other_parts_cong [of _ e]) (auto simp: stop_end_def engine_inv_def control_inv_def)

lemma run_check_inv: "engine_inv e \<Longrightarrow> worker e = Worker_check \<Longrightarrow> engine_inv (run_check e)"
  by (rule other_parts_cong [of _ e]) (auto simp: run_check_def engine_inv_def control_inv_def)

lemma run_wait_inv:
  assumes "engine_inv e" and "worker e = Worker_wait" and "run_wait e = Some e'"
  shows "engine_inv e'"
proof (cases "wait_pop (eng_queue e)")
  case Finished
  then have "e' = e\<lparr>worker := Worker_done\<rparr>" using assms(3) by (simp add: run_wait_def)
  then show ?thesis using assms(1,2)
    by (intro other_parts_cong [of e' e]) (auto simp: engine_inv_def control_inv_def)
next
  case (Popped ev q)
  then have e': "e' = e\<lparr>eng_queue := q, worker := Worker_update ev, popped := popped e @ [ev]\<rparr>"
    using assms(3) by (simp add: run_wait_def)
  show ?thesis using assms(1,2) wait_pop_Popped [OF Popped] delivery_inv_cong [of e' e] ready_inv_cong [of e' e]
    by (simp add: engine_inv_def e' queue_inv_def view_inv_def control_inv_def)
qed (use assms in \<open>simp add: run_wait_def\<close>)

lemma start_inv:
  assumes "engine_inv e" and "control e = Control_idle"
  shows "engine_inv (eng_start e)"
proof (cases "running e")
  case True
  then show ?thesis using assms by (simp add: eng_start_def)
next
  case False
  then have p: "publisher e \<in> {Publisher_none, Publisher_done}"
    using assms by (auto simp: engine_inv_def control_inv_def)
  then have "\<forall>i. subseq (views_to i e) (taken e)" using assms(1) by (auto simp: engine_inv_def delivery_inv_def)
  then have "delivery_inv (eng_start e)" using False by (simp add: delivery_inv_def eng_start_def views_to_def)
  then show ?thesis using assms False
    by (auto simp: engine_inv_def eng_start_def queue_inv_def ready_inv_def view_inv_def control_inv_def)
qed

lemma publish_copy_inv:
  assumes "engine_inv e" and "publisher e = Publisher_publish v"
  shows "engine_inv (publish_copy v e)"
proof -
  have "taken e \<noteq> []" "last (taken e) = v" "\<forall>i. subseq (views_to i e) (butlast (taken e))"
    using assms by (auto simp: engine_inv_def delivery_inv_def)
  then have "delivery_inv (publish_copy v e)" using assms(1)
    by (auto simp: delivery_inv_def publish_copy_def views_to_def engine_inv_def intro: subseq_butlast)
  then show ?thesis using assms
    by (auto simp: engine_inv_def publish_copy_def queue_inv_def ready_inv_def view_inv_def control_inv_def)
qed

lemma subscribe_inv:
  assumes "engine_inv e" and "eng_subscribe e = (i, e')"
  shows "engine_inv e'"
  using assms delivery_inv_cong [of e' e] queue_inv_cong [of e' e] control_inv_cong [of e' e] ready_inv_cong [of e' e]
  by (auto simp: eng_subscribe_def Let_def engine_inv_def view_inv_def)

lemma unsubscribe_inv: "engine_inv e \<Longrightarrow> engine_inv (eng_unsubscribe i e)"
  using delivery_inv_cong [of "eng_unsubscribe i e" e] queue_inv_cong [of "eng_unsubscribe i e" e]
    control_inv_cong [of "eng_unsubscribe i e" e] ready_inv_cong [of "eng_unsubscribe i e" e]
  by (simp add: eng_unsubscribe_def engine_inv_def view_inv_def distinct_removeAll)

lemma eng_step_inv: "eng_step e e' \<Longrightarrow> engine_inv e \<Longrightarrow> engine_inv e'"
  by (induction rule: eng_step.induct)
    (blast intro: eng_push_inv subscribe_inv unsubscribe_inv expected_inv start_inv stop_begin_inv
      stop_close_queue_inv stop_close_publish_inv stop_end_inv run_check_inv run_wait_inv run_update_inv
      enqueue_inv publisher_wait_inv publish_copy_inv deliver_inv)+

lemma reachable_engine_inv: "reachable_engine e \<Longrightarrow> engine_inv e"
  by (induction rule: reachable_engine.induct) (auto intro: engine_inv_initial eng_step_inv)

section \<open>Consequences\<close>

text \<open>A view is handed over for publication only when every expected exchange has delivered an event.\<close>

lemma run_update_ready:
  assumes "engine_inv e" and "worker e = Worker_update ev" and "run_update t_apply t_view t_steady ev e = Inr e'"
  shows "worker e' = Worker_enqueue (eng_view e') \<longleftrightarrow> expected_exchanges e' \<subseteq> ready_exchanges e'"
proof -
  have inv: "engine_inv e'" by (rule run_update_inv [OF assms])
  then have r: "finite (expected_exchanges e')" "ready_exchanges e' \<subseteq> expected_exchanges e'"
    "require_all_ready e' \<longleftrightarrow> expected_exchanges e' \<noteq> {}"
    by (simp_all add: engine_inv_def ready_inv_def)
  have "worker e' = Worker_enqueue (eng_view e') \<longleftrightarrow> can_publish e'"
    using run_update_pc [OF assms(3)] by simp
  also have "\<dots> \<longleftrightarrow> expected_exchanges e' \<subseteq> ready_exchanges e'"
    using r card_subset_eq [OF r(1,2)] by (auto simp: can_publish_def)
  finally show ?thesis .
qed

lemma no_view_lost:
  assumes "reachable_engine e" and "publisher e = Publisher_done"
  shows "taken e = produced e"
  using reachable_engine_inv [OF assms(1)] assms(2) by (simp add: engine_inv_def queue_inv_def)

lemma delivered_in_order:
  assumes "reachable_engine e"
  shows "subseq (views_to i e) (produced e)"
proof -
  have "delivery_inv e" "queue_inv e" using reachable_engine_inv [OF assms] by (simp_all add: engine_inv_def)
  then have "subseq (views_to i e) (taken e)"
    by (auto simp: delivery_inv_def split: publisher_pc.splits if_splits intro: subseq_butlast)
  then show ?thesis using \<open>queue_inv e\<close> by (auto simp: queue_inv_def intro: subseq_order.trans)
qed

lemma run_update_no_throw:
  assumes "engine_inv e"
  shows "no_throw (run_update t_apply t_view t_steady ev e)"
proof -
  have "exchange_name (book_of (ev_exchange ev) (eng_books e)) \<in> {ev_exchange ev, []}"
    using assms book_of_ok [of "eng_books e" "ev_exchange ev"] by (simp add: engine_inv_def)
  then have "no_throw (apply_event t_apply ev (book_of (ev_exchange ev) (eng_books e)))"
    by (auto simp: no_throw_def apply_event_throws_iff exchange_matches_def)
  then show ?thesis
    by (auto simp: run_update_def Let_def consolidate_no_throw split: prod.split)
qed

lemma worker_never_throws: "reachable_engine e \<Longrightarrow> worker_fails e f \<Longrightarrow> \<exists>msg. f = Abort msg"
  using run_update_no_throw [OF reachable_engine_inv]
  by (cases f) (auto simp: worker_fails_def no_throw_def)

text \<open>Once \<open>stop\<close> has cleared the flag and closed the queue, the worker ends in at most four steps.\<close>

fun worker_left :: "worker_pc \<Rightarrow> nat" where
  "worker_left Worker_wait = 4"
| "worker_left (Worker_update ev) = 3"
| "worker_left (Worker_enqueue v) = 2"
| "worker_left Worker_check = 1"
| "worker_left Worker_none = 0"
| "worker_left Worker_done = 0"

inductive worker_step :: "engine \<Rightarrow> engine \<Rightarrow> bool" where
  "worker e = Worker_check \<Longrightarrow> worker_step e (run_check e)"
| "worker e = Worker_wait \<Longrightarrow> run_wait e = Some e' \<Longrightarrow> worker_step e e'"
| "worker e = Worker_update ev \<Longrightarrow> run_update t_apply t_view t_steady ev e = Inr e' \<Longrightarrow> worker_step e e'"
| "worker e = Worker_enqueue view \<Longrightarrow> worker_step e (enqueueSnapshot view e)"

inductive_cases worker_stepE: "worker_step e e'"

lemma worker_step_is_step: "worker_step e e' \<Longrightarrow> eng_step e e'"
  by (induction rule: worker_step.induct) (auto intro: eng_step.intros)

lemma run_update_keeps:
  "run_update t_apply t_view t_steady ev e = Inr e' \<Longrightarrow>
   running e' = running e \<and> eng_queue e' = eng_queue e \<and> worker_left (worker e') \<le> 2"
  by (auto simp: run_update_def bind_outcome_eq_Inr Let_def split_beta)

lemma worker_step_stopping:
  assumes "worker_step e e'" and "\<not> running e" and "closed (eng_queue e)"
  shows "worker_left (worker e') < worker_left (worker e) \<and> \<not> running e' \<and> closed (eng_queue e')"
  using assms
  by (auto elim!: worker_stepE simp: run_check_def run_wait_def enqueueSnapshot_def
      split: wait_result.splits dest!: run_update_keeps wait_pop_Popped)

lemma worker_step_enabled:
  assumes "closed (eng_queue e)" and "worker e \<notin> {Worker_none, Worker_done}"
  shows "(\<exists>e'. worker_step e e') \<or> (\<exists>f. worker_fails e f)"
proof (cases "worker e")
  case Worker_check
  then show ?thesis by (blast intro: worker_step.intros)
next
  case Worker_wait
  then show ?thesis using wait_pop_closed_not_waiting [OF assms(1)]
    using worker_step.intros(2) [OF Worker_wait]
    by (cases "wait_pop (eng_queue e)") (auto simp: run_wait_def)
next
  case (Worker_update ev)
  then show ?thesis
    by (cases "run_update 0 0 0 ev e") (auto intro: worker_step.intros(3) simp: worker_fails_def)
next
  case (Worker_enqueue v)
  then show ?thesis by (blast intro: worker_step.intros)
qed (use assms in auto)

section \<open>Runs of the worker over a list of events\<close>

fun process_events :: "i64 \<Rightarrow> i64 \<Rightarrow> book_event list \<Rightarrow> engine \<Rightarrow> engine outcome" where
  "process_events now steady [] e = Inr e"
| "process_events now steady (ev # evs) e =
     bind_outcome (run_update now now steady ev e) (process_events now steady evs)"

definition demo_order :: "u64 \<Rightarrow> side \<Rightarrow> i64 \<Rightarrow> market_order" where
  "demo_order i s p = \<lparr> order_id = i, order_side = s, order_price = fromInteger p, order_quantity = fromInteger 1 \<rparr>"

definition demo_event :: "string \<Rightarrow> book_event_kind \<Rightarrow> market_order \<Rightarrow> book_event" where
  "demo_event ex k ord = empty_event\<lparr> ev_exchange := ex, ev_kind := k, ev_order := ord \<rparr>"

text \<open>
  One exchange, three ordinary events: an ask at 100, its cancellation, a bid at 101. The ask side is
  empty, the cached ask at 100 is shown again, and the assertion ends the process.
\<close>

definition stale_ask_events :: "book_event list" where
  "stale_ask_events =
     [demo_event ''A'' NewOrder (demo_order 1 Ask 100),
      demo_event ''A'' CancelOrder (demo_order 1 Ask 100),
      demo_event ''A'' NewOrder (demo_order 2 Bid 101)]"

lemma stale_ask_aborts:
  "process_events 1 0 stale_ask_events initial_engine = Inl (Abort ''best ask must exceed best bid'')"
  by code_simp

lemma future_feed_aborts:
  "process_events 1 0 [(demo_event ''A'' NewOrder (demo_order 1 Ask 100))\<lparr> ev_feed_timestamp_ns := 10 \<rparr>] initial_engine =
   Inl (Abort ''publish timestamp must not precede feed data'')"
  by code_simp

text \<open>Without any ask, the cached one is shown again, and must lie above every bid.\<close>

lemma depth_zero_or_more: "book_ok b \<Longrightarrow> 0 \<le> depth_at s p b"
proof -
  assume ok: "book_ok b"
  have "om_find lt k m = Some v \<Longrightarrow> v \<in> snd ` set m" for lt k v and m :: "(decimal \<times> decimal) list"
    by (induction m) (auto split: if_splits)
  then show ?thesis
    using ok by (cases s) (fastforce simp: depth_at_def level_qty_def book_ok_def positive_levels_def split: option.split)+
qed

lemma total_depth_positive:
  assumes "\<forall>nb \<in> set books. book_ok (snd nb)"
  shows "0 < total_depth s books p \<longleftrightarrow> (\<exists>nb \<in> set books. 0 < depth_at s p (snd nb))"
  using assms
proof (induction books)
  case (Cons nb books)
  have "0 \<le> total_depth s books p"
    unfolding total_depth_def by (rule sum_list_nonneg) (use Cons.prems depth_zero_or_more in auto)
  moreover have "0 \<le> depth_at s p (snd nb)" using Cons.prems depth_zero_or_more by simp
  moreover have "total_depth s (nb # books) p = depth_at s p (snd nb) + total_depth s books p" by (simp add: total_depth_def)
  ultimately show ?case using Cons by auto
qed (simp add: total_depth_def)

lemma apart_without_asks:
  assumes ok: "books_ok books" and none: "\<forall>nb \<in> set books. book_asks (snd nb) = []" and valid: "last_best_ask_valid cache"
  shows "cached_ask_apart books cache \<longleftrightarrow>
    (\<forall>nb \<in> set books. \<forall>p. 0 < depth_at Bid p (snd nb) \<longrightarrow> p < price (last_best_ask cache))"
    and "summed_side Ask books = []"
proof -
  let ?B = "summed_side Bid books" and ?A = "summed_side Ask books"
  have good: "\<forall>nb \<in> set books. book_ok (snd nb)" using ok by (simp add: books_ok_def)
  have "map (\<lambda>nb. depth_at Ask p (snd nb)) books = map (\<lambda>_. 0) books" for p
    using none by (intro map_cong refl) (simp add: depth_at_def level_qty_def)
  then have "total_depth Ask books p = 0" for p
    unfolding total_depth_def by (simp only: sum_list_0)
  then show A: "?A = []" using summed_side_mem [OF ok, of _ Ask] by (cases ?A) force+
  have v: "uncrossing_volume ?B [] v \<Longrightarrow> v = 0" for v by (simp add: uncrossing_volume_def volume_def)
  obtain w where "uncrossing_volume ?B ?A w"
    using virtualUncross_spec [OF summed_side_sorted [OF ok]] summed_side_ok [OF ok] by (auto simp: side_ok_def)
  then have u: "uncrossing_volume ?B [] v \<longleftrightarrow> v = 0" for v using v A by metis
  have "cached_ask_apart books cache \<longleftrightarrow> (?B \<noteq> [] \<longrightarrow> price (hd ?B) < price (last_best_ask cache))"
    using valid by (simp add: cached_ask_apart_def A u)
  also have "\<dots> \<longleftrightarrow> (\<forall>l \<in> set ?B. price l < price (last_best_ask cache))"
    using summed_side_sorted(1) [OF ok] by (cases ?B) (auto simp: descending_def)
  also have "\<dots> \<longleftrightarrow> (\<forall>p. 0 < total_depth Bid books p \<longrightarrow> p < price (last_best_ask cache))"
  proof -
    have "(\<exists>l \<in> set ?B. price l = p) \<longleftrightarrow> 0 < total_depth Bid books p" for p
    proof
      assume "0 < total_depth Bid books p"
      moreover have "total_depth Bid books p < 2 ^ 127" using ok by (simp add: books_ok_def)
      ultimately have "dval (fromRaw (word_of_int (total_depth Bid books p))) = total_depth Bid books p"
        by (simp add: fromRaw_def sint_word_of_int128)
      then obtain q where "dval q = total_depth Bid books p" by blast
      then have "mk_level p q \<in> set ?B" using summed_side_mem [OF ok, of "mk_level p q" Bid] \<open>0 < total_depth Bid books p\<close> by simp
      then show "\<exists>l \<in> set ?B. price l = p" by force
    qed (use summed_side_mem [OF ok] in auto)
    then show ?thesis by metis
  qed
  finally show "cached_ask_apart books cache \<longleftrightarrow>
      (\<forall>nb \<in> set books. \<forall>p. 0 < depth_at Bid p (snd nb) \<longrightarrow> p < price (last_best_ask cache))"
    using total_depth_positive [OF good] by blast
qed

lemma run_update_consolidate:
  assumes "apply_event t_apply ev (book_of (ev_exchange ev) (eng_books e)) = Inr b"
    and "books = AList.update (ev_exchange ev) b (eng_books e)"
  shows "case consolidate t_view t_steady books (eng_cache e) of
      Inl f \<Rightarrow> run_update t_apply t_view t_steady ev e = Inl f
    | Inr (view, cache, warning) \<Rightarrow> \<exists>e'. run_update t_apply t_view t_steady ev e = Inr e' \<and> eng_view e' = view \<and> eng_books e' = books"
  using assms by (cases "consolidate t_view t_steady books (eng_cache e)") (auto simp: run_update_def Let_def)

section \<open>Properties\<close>

text \<open>
  C1: in every state the engine's threads and clients can reach, the books are healthy and keyed by their
  exchange, every view produced is sorted and uncrossed, events and views leave the queues in the order
  they entered, each subscriber has received a subsequence of the produced views, and once the publisher
  thread has ended every produced view has been published.
\<close>

theorem engine_delivery:
  assumes "reachable_engine e"
  shows "books_inv (eng_books e) \<and> (\<forall>v \<in> set (produced e). view_valid v) \<and>
    accepted e = popped e @ items (eng_queue e) \<and> produced e = taken e @ items (publish_queue e) \<and>
    (\<forall>i. subseq (views_to i e) (produced e)) \<and>
    (publisher e = Publisher_done \<longrightarrow> taken e = produced e)"
  using reachable_engine_inv [OF assms] delivered_in_order [OF assms] no_view_lost [OF assms]
  unfolding engine_inv_def view_inv_def queue_inv_def by blast

theorem engine_delivery_witness:
  "accepted (eng_start initial_engine) = popped (eng_start initial_engine) @ items (eng_queue (eng_start initial_engine))"
proof -
  have "eng_step initial_engine (eng_start initial_engine)" by (rule eng_step.start) (simp add: initial_engine_def)
  then have "reachable_engine (eng_start initial_engine)" by (rule reachable_engine.step [OF reachable_engine.init])
  from engine_delivery [OF this] show ?thesis by blast
qed

text \<open>C8: no exception leaves the worker thread of a reachable engine: if it fails, an assertion has ended the process.\<close>

theorem engine_worker_no_exception:
  assumes "reachable_engine e" and "worker_fails e f"
  shows "\<exists>msg. f = Abort msg"
  using assms by (rule worker_never_throws)

definition future_event :: book_event where
  "future_event = (demo_event ''A'' NewOrder (demo_order 1 Ask 100))\<lparr> ev_feed_timestamp_ns := 10 \<rparr>"

definition busy_engine :: engine where
  "busy_engine = initial_engine\<lparr> running := True, publisher := Publisher_wait,
     worker := Worker_update future_event, accepted := [future_event], popped := [future_event] \<rparr>"

lemma busy_engine_reachable: "reachable_engine busy_engine"
proof -
  let ?e1 = "eng_start initial_engine"
  obtain e2 where p: "eng_push future_event ?e1 = Inr e2" and e2: "e2 = ?e1\<lparr> eng_queue := cq_push future_event new_queue, accepted := [future_event] \<rparr>"
    by (simp add: eng_push_def eng_start_def initial_engine_def future_event_def demo_event_def empty_event_def new_queue_def)
  let ?e3 = "run_check e2"
  have w: "run_wait ?e3 = Some busy_engine"
    by (simp add: e2 eng_start_def initial_engine_def run_check_def run_wait_def wait_pop_def cq_push_def new_queue_def busy_engine_def)
  have "reachable_engine ?e1"
    by (rule reachable_engine.step [OF reachable_engine.init eng_step.start]) (simp add: initial_engine_def)
  then have "reachable_engine e2" using eng_step.push [OF p] by (rule reachable_engine.step)
  moreover have "worker e2 = Worker_check" by (simp add: e2 eng_start_def initial_engine_def)
  ultimately have "reachable_engine ?e3" using eng_step.check reachable_engine.step by blast
  moreover have "worker ?e3 = Worker_wait" by (simp add: e2 eng_start_def initial_engine_def run_check_def)
  ultimately show ?thesis using eng_step.wait [OF _ w] reachable_engine.step by blast
qed

theorem engine_worker_no_exception_witness:
  "\<exists>msg f. worker_fails busy_engine f \<and> f = Abort msg"
proof -
  have "case run_update 1 1 0 future_event busy_engine of Inl _ \<Rightarrow> True | Inr _ \<Rightarrow> False" by code_simp
  then obtain f where "run_update 1 1 0 future_event busy_engine = Inl f" by (auto split: sum.splits)
  then have "worker_fails busy_engine f" unfolding worker_fails_def by (force simp: busy_engine_def)
  with engine_worker_no_exception [OF busy_engine_reachable this] show ?thesis by blast
qed

text \<open>
  C9: after an update the worker hands the new view to the publisher exactly when every expected exchange
  has delivered an event (at once when none is expected).
\<close>

theorem engine_publishes_when_ready:
  assumes "reachable_engine e" and "worker e = Worker_update ev" and "run_update t_apply t_view t_steady ev e = Inr e'"
  shows "worker e' = (if expected_exchanges e' \<subseteq> ready_exchanges e' then Worker_enqueue (eng_view e') else Worker_check) \<and>
    expected_exchanges e' = expected_exchanges e \<and>
    ready_exchanges e' = (if ev_exchange ev \<in> expected_exchanges e then insert (ev_exchange ev) (ready_exchanges e) else ready_exchanges e)"
proof -
  have inv: "engine_inv e" using assms(1) by (rule reachable_engine_inv)
  then have r: "require_all_ready e \<longleftrightarrow> expected_exchanges e \<noteq> {}" by (simp add: engine_inv_def ready_inv_def)
  have "worker e' = (if expected_exchanges e' \<subseteq> ready_exchanges e' then Worker_enqueue (eng_view e') else Worker_check)"
    using run_update_ready [OF inv assms(2,3)] run_update_pc [OF assms(3)] by auto
  then show ?thesis using assms(3) r by (auto elim!: run_update_shape simp: mark_ready_def)
qed

theorem engine_publishes_when_ready_witness:
  "case run_update 20 20 0 future_event busy_engine of
     Inl _ \<Rightarrow> False | Inr e' \<Rightarrow> worker e' = Worker_enqueue (eng_view e')"
proof -
  have ok: "case run_update 20 20 0 future_event busy_engine of Inl _ \<Rightarrow> False | Inr _ \<Rightarrow> True" by code_simp
  then obtain e' where e': "run_update 20 20 0 future_event busy_engine = Inr e'" by (auto split: sum.splits)
  have "worker busy_engine = Worker_update future_event" by (simp add: busy_engine_def)
  moreover have "expected_exchanges busy_engine = {}" by (simp add: busy_engine_def initial_engine_def)
  ultimately show ?thesis using engine_publishes_when_ready [OF busy_engine_reachable _ e'] e' by simp
qed

text \<open>
  C7: stopping ends: with the flag cleared and the queue closed, the worker is never blocked, and every
  step it takes brings it nearer to its end, in at most four steps.
\<close>

theorem engine_stop_terminates:
  assumes "\<not> running e" and "closed (eng_queue e)"
  shows "(worker e \<notin> {Worker_none, Worker_done} \<longrightarrow> (\<exists>e'. worker_step e e') \<or> (\<exists>f. worker_fails e f)) \<and>
    (\<forall>e'. worker_step e e' \<longrightarrow> worker_left (worker e') < worker_left (worker e) \<and>
       \<not> running e' \<and> closed (eng_queue e')) \<and> worker_left (worker e) \<le> 4"
proof -
  have "worker_left w \<le> 4" for w by (cases w) auto
  then show ?thesis using worker_step_enabled [OF assms(2)] worker_step_stopping [OF _ assms] by blast
qed

theorem engine_stop_terminates_witness:
  "worker_left (worker (stop_close_queue (stop_begin busy_engine))) \<le> 4"
  using engine_stop_terminates [of "stop_close_queue (stop_begin busy_engine)"]
  by (simp add: stop_close_queue_def stop_begin_def cq_close_def)

text \<open>
  C35: an update after which no book holds an ask, while an ask has been cached before, ends the process exactly
  when some book holds a bid at or above the cached price (or the clock is behind the newest feed time):
  the cached ask is shown again and the final check finds it crossed. Otherwise the view shows the cached ask
  as its only ask. An ask at 100, its cancellation and a bid at 101 are enough, as the witness shows.
\<close>

theorem stale_ask_abort:
  assumes "apply_event t_apply ev (book_of (ev_exchange ev) (eng_books e)) = Inr b"
    and "books = AList.update (ev_exchange ev) b (eng_books e)" and "books_ok books" and "cache_ok (eng_cache e)"
    and "\<forall>nb \<in> set books. book_asks (snd nb) = []" and "last_best_ask_valid (eng_cache e)"
  shows "if (\<exists>nb \<in> set books. \<exists>p \<ge> price (last_best_ask (eng_cache e)). 0 < depth_at Bid p (snd nb)) \<or> \<not> clock_ahead t_view books
    then \<exists>msg. run_update t_apply t_view t_steady ev e = Inl (Abort msg)
    else \<exists>e'. run_update t_apply t_view t_steady ev e = Inr e' \<and> ask_levels (eng_view e') = [last_best_ask (eng_cache e)]"
proof -
  note A = apart_without_asks [OF assms(3,5,6)]
  have c: "(\<exists>nb \<in> set books. \<exists>p \<ge> price (last_best_ask (eng_cache e)). 0 < depth_at Bid p (snd nb)) \<longleftrightarrow>
      \<not> cached_ask_apart books (eng_cache e)"
    unfolding A(1) by (auto simp: not_less [symmetric])
  note S = consolidate_spec [OF assms(3,4), of t_view t_steady] and R = run_update_consolidate [OF assms(1,2), of t_view t_steady]
  show ?thesis
  proof (cases "cached_ask_apart books (eng_cache e) \<and> clock_ahead t_view books")
    case True
    then obtain view cache' msg where v: "consolidate t_view t_steady books (eng_cache e) = Inr (view, cache', msg)"
      "consolidated t_view books (eng_cache e) view" using S by auto
    then have "ask_levels view = [last_best_ask (eng_cache e)]"
      using assms(6) A(2) by (auto simp: consolidated_def)
    then show ?thesis using True R v(1) c by auto
  next
    case False
    then obtain msg where "consolidate t_view t_steady books (eng_cache e) = Inl (Abort msg)" using S by auto
    then show ?thesis using False R c by auto
  qed
qed

theorem stale_ask_abort_witness:
  "\<exists>e msg. process_events 1 0 [demo_event ''A'' NewOrder (demo_order 1 Ask 100),
       demo_event ''A'' CancelOrder (demo_order 1 Ask 100)] initial_engine = Inr e \<and>
     run_update 1 1 0 (demo_event ''A'' NewOrder (demo_order 2 Bid 101)) e = Inl (Abort msg)"
proof -
  let ?ev = "demo_event ''A'' NewOrder (demo_order 2 Bid 101)"
  let ?two = "process_events 1 0 [demo_event ''A'' NewOrder (demo_order 1 Ask 100),
       demo_event ''A'' CancelOrder (demo_order 1 Ask 100)] initial_engine"
  have "case ?two of Inl _ \<Rightarrow> False | Inr e \<Rightarrow> map fst (eng_books e) = [''A''] \<and> last_best_ask_valid (eng_cache e) \<and>
      price (last_best_ask (eng_cache e)) = fromInteger 100 \<and> quantity (last_best_ask (eng_cache e)) = fromInteger 1 \<and>
      \<not> stale_sequence ?ev (book_of ''A'' (eng_books e)) \<and>
      (case apply_event 1 ?ev (book_of ''A'' (eng_books e)) of Inl _ \<Rightarrow> False
       | Inr b \<Rightarrow> book_asks b = [] \<and> depth_at Bid (fromInteger 101) b = 10 ^ 18)"
    by code_simp
  then obtain e b where e: "?two = Inr e" "map fst (eng_books e) = [''A'']" "last_best_ask_valid (eng_cache e)"
      "price (last_best_ask (eng_cache e)) = fromInteger 100" "quantity (last_best_ask (eng_cache e)) = fromInteger 1"
      "\<not> stale_sequence ?ev (book_of ''A'' (eng_books e))"
    and b: "apply_event 1 ?ev (book_of ''A'' (eng_books e)) = Inr b" "book_asks b = []" "depth_at Bid (fromInteger 101) b = 10 ^ 18"
    by (auto split: sum.splits)
  have books: "AList.update ''A'' b (eng_books e) = [(''A'', b)]" using e(2) by (cases "eng_books e") auto
  have "book_ok b" using apply_event_keeps_valid [OF b(1) e(6)] .
  then have ok: "books_ok [(''A'', b)]" using depth_less by (simp add: books_ok_def total_depth_def)
  have c: "cache_ok (eng_cache e)" using e(4,5) by (simp add: cache_ok_def fromInteger_dval)
  have le: "price (last_best_ask (eng_cache e)) \<le> fromInteger 101" unfolding e(4) by code_simp
  have ex: "ev_exchange ?ev = ''A''" by (simp add: demo_event_def)
  have "\<exists>nb \<in> set [(''A'', b)]. \<exists>p \<ge> price (last_best_ask (eng_cache e)). 0 < depth_at Bid p (snd nb)"
    using le b(3) by (intro bexI [of _ "(''A'', b)"] exI [of _ "fromInteger 101"]) simp_all
  then have "\<exists>msg. run_update 1 1 0 ?ev e = Inl (Abort msg)"
    using stale_ask_abort [of 1 ?ev e b, unfolded ex books, OF b(1) refl ok c _ e(3), of 1 0] b(2) by simp
  then show ?thesis using e(1) by blast
qed

end
