(* ===== verification/Transport.thy ===== *)
theory Transport
  imports Uncross Event_Queue
begin

text \<open>
  The gRPC boundary: the conversions \<open>FromDomain\<close> and \<open>ToDomain\<close> and the authorization header of
  src/services/common/grpc_helpers.hpp, the streaming service of src/src/aggregator/grpc_service.cpp
  and the reading loop of src/services/common/book_stream_client.cpp. The generated protobuf message is
  the record of its fields (src/proto/aggregator.proto). What gRPC itself decides (cancellation, the
  result of a write, the messages read) is a parameter of each step.
\<close>

record proto_quote =
  pq_price :: string
  pq_quantity :: string

record aggregated_book =
  msg_best_bid :: proto_quote
  msg_best_ask :: proto_quote
  msg_exchange_count :: u32
  msg_timestamp_unix_millis :: i64
  msg_publish_timestamp_ns :: i64
  msg_bid_levels :: "proto_quote list"
  msg_ask_levels :: "proto_quote list"
  msg_last_feed_timestamp_ns :: i64
  msg_last_local_timestamp_ns :: i64
  msg_min_feed_timestamp_ns :: i64
  msg_max_feed_timestamp_ns :: i64
  msg_min_local_timestamp_ns :: i64
  msg_max_local_timestamp_ns :: i64

section \<open>Conversions\<close>

definition quote_to_proto :: "price_level \<Rightarrow> proto_quote" where
  "quote_to_proto l = \<lparr> pq_price = toString 8 (price l), pq_quantity = toString 8 (quantity l) \<rparr>"

definition quote_of_proto :: "proto_quote \<Rightarrow> price_level outcome" where
  "quote_of_proto q =
     bind_outcome (fromString (pq_price q)) (\<lambda>p.
     bind_outcome (fromString (pq_quantity q)) (\<lambda>n. Inr (mk_level p n)))"

fun levels_of_proto :: "proto_quote list \<Rightarrow> price_level list outcome" where
  "levels_of_proto [] = Inr []"
| "levels_of_proto (q # qs) =
     bind_outcome (quote_of_proto q) (\<lambda>l. bind_outcome (levels_of_proto qs) (\<lambda>ls. Inr (l # ls)))"

text \<open>\<open>duration_cast\<close> between nanoseconds and milliseconds; the division rounds towards zero.\<close>

definition ns_to_ms :: "i64 \<Rightarrow> i64" where
  "ns_to_ms t = word_of_int (sint t sdiv 1000000)"

definition ms_to_ns :: "i64 \<Rightarrow> i64" where
  "ms_to_ns t = t * 1000000"

definition ToDomain :: "aggregated_book \<Rightarrow> aggregated_book_view outcome" where
  "ToDomain m =
     bind_outcome (quote_of_proto (msg_best_bid m)) (\<lambda>bid.
     bind_outcome (quote_of_proto (msg_best_ask m)) (\<lambda>ask.
     bind_outcome (levels_of_proto (msg_bid_levels m)) (\<lambda>bids.
     bind_outcome (levels_of_proto (msg_ask_levels m)) (\<lambda>asks.
       (let published = (if 0 <s msg_publish_timestamp_ns m then msg_publish_timestamp_ns m
                         else ms_to_ns (msg_timestamp_unix_millis m))
        in Inr \<lparr> bid_levels = bids, ask_levels = asks, best_bid = bid, best_ask = ask,
             timestamp = published, exchange_count = ucast (msg_exchange_count m),
             last_feed_timestamp_ns = msg_last_feed_timestamp_ns m,
             last_local_timestamp_ns = msg_last_local_timestamp_ns m,
             min_feed_timestamp_ns = msg_min_feed_timestamp_ns m,
             max_feed_timestamp_ns = msg_max_feed_timestamp_ns m,
             min_local_timestamp_ns = msg_min_local_timestamp_ns m,
             max_local_timestamp_ns = msg_max_local_timestamp_ns m,
             publish_timestamp_ns = published \<rparr>)))))"

definition FromDomain :: "aggregated_book_view \<Rightarrow> aggregated_book" where
  "FromDomain v =
     \<lparr> msg_best_bid = quote_to_proto (best_bid v), msg_best_ask = quote_to_proto (best_ask v),
       msg_exchange_count = ucast (exchange_count v),
       msg_timestamp_unix_millis = ns_to_ms (timestamp v),
       msg_publish_timestamp_ns = (if publish_timestamp_ns v \<noteq> 0 then publish_timestamp_ns v else timestamp v),
       msg_bid_levels = map quote_to_proto (bid_levels v),
       msg_ask_levels = map quote_to_proto (ask_levels v),
       msg_last_feed_timestamp_ns = last_feed_timestamp_ns v,
       msg_last_local_timestamp_ns = last_local_timestamp_ns v,
       msg_min_feed_timestamp_ns = min_feed_timestamp_ns v,
       msg_max_feed_timestamp_ns = max_feed_timestamp_ns v,
       msg_min_local_timestamp_ns = min_local_timestamp_ns v,
       msg_max_local_timestamp_ns = max_local_timestamp_ns v \<rparr>"

section \<open>Authorization\<close>

type_synonym metadata = "(string \<times> string) list"

definition AttachAuth :: "string \<Rightarrow> metadata \<Rightarrow> metadata" where
  "AttachAuth token context =
     (if token \<noteq> [] then context @ [(''authorization'', ''Bearer '' @ token)] else context)"

definition strip_bearer :: "string \<Rightarrow> string" where
  "strip_bearer header = (if take 7 header = ''Bearer '' then drop 7 header else header)"

definition authorize :: "string \<Rightarrow> metadata \<Rightarrow> bool" where
  "authorize expected_token context =
     (if expected_token = [] then True
      else (case map_of context ''authorization'' of
              None \<Rightarrow> False
            | Some header \<Rightarrow> strip_bearer header = expected_token))"

datatype rpc_status = Unauthenticated | Invalid_symbol | Rpc_ok

text \<open>The two checks before \<open>StreamBooks\<close> subscribes; \<open>None\<close> lets the stream start.\<close>

definition StreamBooks_check :: "string \<Rightarrow> string \<Rightarrow> metadata \<Rightarrow> string \<Rightarrow> rpc_status option" where
  "StreamBooks_check expected_token symbol context requested =
     (if \<not> authorize expected_token context then Some Unauthenticated
      else if requested \<noteq> [] \<and> requested \<noteq> symbol then Some Invalid_symbol
      else None)"

section \<open>The streaming loop\<close>

datatype stream_pc = Stream_check | Stream_wait | Stream_write aggregated_book_view | Stream_leave | Stream_returned

text \<open>
  \<open>offered\<close>, \<open>dequeued\<close> and \<open>sent\<close> record the accepted views, the views taken and the messages handed to
  \<open>Write\<close>, the last of which may be one that it could not write.
\<close>

record stream =
  st_pc :: stream_pc
  st_queue :: "aggregated_book_view cqueue"
  st_active :: bool
  offered :: "aggregated_book_view list"
  dequeued :: "aggregated_book_view list"
  sent :: "aggregated_book list"

definition new_stream :: stream where
  "new_stream = \<lparr> st_pc = Stream_check, st_queue = new_queue, st_active = True, offered = [], dequeued = [], sent = [] \<rparr>"

definition stream_callback :: "aggregated_book_view \<Rightarrow> stream \<Rightarrow> stream" where
  "stream_callback view s =
     (if \<not> st_active s then s
      else s\<lparr> st_queue := cq_push view (st_queue s),
              offered := (if closed (st_queue s) then offered s else offered s @ [view]) \<rparr>)"

definition stream_check :: "bool \<Rightarrow> stream \<Rightarrow> stream" where
  "stream_check cancelled s = s\<lparr> st_pc := (if cancelled then Stream_leave else Stream_wait) \<rparr>"

definition stream_wait :: "bool \<Rightarrow> bool \<Rightarrow> stream \<Rightarrow> stream option" where
  "stream_wait timed_out cancelled s =
     (case wait_pop_for timed_out (st_queue s) of
        Waiting \<Rightarrow> None
      | Finished \<Rightarrow> Some (s\<lparr> st_pc := (if cancelled then Stream_leave else Stream_check) \<rparr>)
      | Popped view q \<Rightarrow> Some (s\<lparr> st_queue := q, st_pc := Stream_write view, dequeued := dequeued s @ [view] \<rparr>))"

definition stream_write :: "bool \<Rightarrow> aggregated_book_view \<Rightarrow> stream \<Rightarrow> stream" where
  "stream_write written view s =
     s\<lparr> st_pc := (if written then Stream_check else Stream_leave), sent := sent s @ [FromDomain view] \<rparr>"

text \<open>Clear \<open>active\<close>, close the queue, return; the guard's destructor unsubscribes.\<close>

definition stream_leave :: "stream \<Rightarrow> stream" where
  "stream_leave s = s\<lparr> st_active := False, st_queue := cq_close (st_queue s), st_pc := Stream_returned \<rparr>"

inductive stream_step :: "stream \<Rightarrow> stream \<Rightarrow> bool" where
  callback: "stream_step s (stream_callback view s)"
| check: "st_pc s = Stream_check \<Longrightarrow> stream_step s (stream_check cancelled s)"
| wait: "st_pc s = Stream_wait \<Longrightarrow> stream_wait timed_out cancelled s = Some s' \<Longrightarrow> stream_step s s'"
| send: "st_pc s = Stream_write view \<Longrightarrow> stream_step s (stream_write written view s)"
| leave: "st_pc s = Stream_leave \<Longrightarrow> stream_step s (stream_leave s)"

inductive reachable_stream :: "stream \<Rightarrow> bool" where
  init: "reachable_stream new_stream"
| step: "reachable_stream s \<Longrightarrow> stream_step s s' \<Longrightarrow> reachable_stream s'"

section \<open>The client\<close>

text \<open>
  One connection of \<open>BookStreamClient::run\<close>: every message read is converted and handed to the
  callback. An exception of \<open>ToDomain\<close> leaves the thread function, which ends the process.
\<close>

fun client_session :: "aggregated_book list \<Rightarrow> aggregated_book_view list outcome" where
  "client_session [] = Inr []"
| "client_session (m # ms) =
     bind_outcome (ToDomain m) (\<lambda>v. bind_outcome (client_session ms) (\<lambda>vs. Inr (v # vs)))"

section \<open>Lemmas\<close>

definition truncate8 :: "decimal \<Rightarrow> decimal" where
  "truncate8 d = fromRaw (word_of_int (dval d sdiv 10 ^ 10 * 10 ^ 10))"

definition printable :: "decimal \<Rightarrow> bool" where
  "printable d \<longleftrightarrow> dval d \<noteq> - (2 ^ 127)"

definition printable_level :: "price_level \<Rightarrow> bool" where
  "printable_level l \<longleftrightarrow> printable (price l) \<and> printable (quantity l)"

definition truncate_level :: "price_level \<Rightarrow> price_level" where
  "truncate_level l = mk_level (truncate8 (price l)) (truncate8 (quantity l))"

lemma parse_print8: "printable d \<Longrightarrow> fromString (toString 8 d) = Inr (truncate8 d)"
  using fromString_toString [of d 8]
  by (simp add: printable_def truncate8_def shown_scale_def clamp_precision_def)

lemma quote_roundtrip: "printable_level l \<Longrightarrow> quote_of_proto (quote_to_proto l) = Inr (truncate_level l)"
  by (simp add: quote_of_proto_def quote_to_proto_def printable_level_def parse_print8 truncate_level_def)

lemma levels_roundtrip:
  "\<forall>l \<in> set ls. printable_level l \<Longrightarrow> levels_of_proto (map quote_to_proto ls) = Inr (map truncate_level ls)"
  by (induction ls) (simp_all add: quote_roundtrip)

definition printable_view :: "aggregated_book_view \<Rightarrow> bool" where
  "printable_view v \<longleftrightarrow> printable_level (best_bid v) \<and> printable_level (best_ask v) \<and>
     (\<forall>l \<in> set (bid_levels v) \<union> set (ask_levels v). printable_level l)"

text \<open>
  The time that arrives: the time of publication or, when none is set, the time stamp; when that is not positive,
  the time stamp cut to milliseconds, as \<open>ToDomain\<close> then takes it from the field in milliseconds.
\<close>

definition sent_time :: "aggregated_book_view \<Rightarrow> i64" where
  "sent_time v =
     (let t = (if publish_timestamp_ns v \<noteq> 0 then publish_timestamp_ns v else timestamp v)
      in if 0 <s t then t else ms_to_ns (ns_to_ms (timestamp v)))"

definition received_view :: "aggregated_book_view \<Rightarrow> aggregated_book_view" where
  "received_view v = v\<lparr> bid_levels := map truncate_level (bid_levels v), ask_levels := map truncate_level (ask_levels v),
     best_bid := truncate_level (best_bid v), best_ask := truncate_level (best_ask v),
     timestamp := sent_time v, publish_timestamp_ns := sent_time v,
     exchange_count := ucast (ucast (exchange_count v) :: u32) \<rparr>"

lemma transport_roundtrip: "printable_view v \<Longrightarrow> ToDomain (FromDomain v) = Inr (received_view v)"
  by (simp add: ToDomain_def FromDomain_def printable_view_def quote_roundtrip levels_roundtrip received_view_def sent_time_def Let_def)

lemma sint_word_of_int64: "- (2 ^ 63) \<le> z \<Longrightarrow> z < 2 ^ 63 \<Longrightarrow> sint (word_of_int z :: i64) = z"
  by (simp add: sint_sbintrunc' signed_take_bit_int_eq_self)

lemma ms_roundtrip: "sint (ms_to_ns (ns_to_ms t)) = sint t sdiv 1000000 * 1000000"
proof -
  have b: "- (2 ^ 63) \<le> sint t" "sint t < 2 ^ 63" using sint_ge [of t] sint_lt [of t] by simp_all
  have "- (2 ^ 63) \<le> sint t sdiv 1000000 * 1000000" "sint t sdiv 1000000 * 1000000 < 2 ^ 63"
    using b div_times_less_eq_dividend
    by (auto simp: signed_divide_int_def sgn_if)
  moreover have "ms_to_ns (ns_to_ms t) = word_of_int (sint t sdiv 1000000 * 1000000)"
    unfolding ms_to_ns_def ns_to_ms_def by (simp add: wi_hom_mult [symmetric])
  ultimately show ?thesis by (metis sint_word_of_int64)
qed

lemma sent_time_value:
  "0 < sint (publish_timestamp_ns v) \<Longrightarrow> sent_time v = publish_timestamp_ns v"
  "publish_timestamp_ns v = 0 \<Longrightarrow> 0 < sint (timestamp v) \<Longrightarrow> sent_time v = timestamp v"
  "sint (publish_timestamp_ns v) < 0 \<or> publish_timestamp_ns v = 0 \<and> sint (timestamp v) \<le> 0 \<Longrightarrow>
    sint (sent_time v) = sint (timestamp v) sdiv 1000000 * 1000000"
  by (auto simp: sent_time_def word_sless_alt ms_roundtrip)

lemma count_kept: "unat (n :: u64) < 2 ^ 32 \<Longrightarrow> ucast (ucast n :: u32) = n"
  by (simp add: word_unat_eq_iff unsigned_ucast_eq unsigned_take_bit_eq take_bit_nat_eq_self)

lemma truncate8_dval:
  assumes "printable d"
  shows "dval (truncate8 d) = dval d sdiv 10 ^ 10 * 10 ^ 10"
proof -
  have e: "dval d sdiv 10 ^ 10 * 10 ^ 10 =
      (if dval d < 0 then - int (nat \<bar>dval d\<bar> div 10 ^ 10 * 10 ^ 10) else int (nat \<bar>dval d\<bar> div 10 ^ 10 * 10 ^ 10))"
    using sdiv_trunc [of "10 ^ 10" "dval d"] by simp
  have "nat \<bar>dval d\<bar> div 10 ^ 10 * 10 ^ 10 \<le> nat \<bar>dval d\<bar>" by (rule div_times_less_eq_dividend)
  then have "int (nat \<bar>dval d\<bar> div 10 ^ 10 * 10 ^ 10) \<le> \<bar>dval d\<bar>" by linarith
  then have "- (2 ^ 127) \<le> dval d sdiv 10 ^ 10 * 10 ^ 10" "dval d sdiv 10 ^ 10 * 10 ^ 10 < 2 ^ 127"
    unfolding e using dval_bounds [of d] assms by (auto simp: printable_def)
  then show ?thesis unfolding truncate8_def fromRaw_def decimal.sel by (rule sint_word_of_int128)
qed

lemma truncate8_mono:
  assumes "printable a" and "printable b" and "0 \<le> dval a" and "a \<le> b"
  shows "truncate8 a \<le> truncate8 b"
proof -
  have ab: "dval a \<le> dval b" using assms(4) by (simp add: decimal_simps)
  then have "dval a div 10 ^ 10 \<le> dval b div 10 ^ 10" by (rule zdiv_mono1) simp
  moreover have "dval a sdiv 10 ^ 10 = dval a div 10 ^ 10" "dval b sdiv 10 ^ 10 = dval b div 10 ^ 10"
    using assms(3) ab by (auto simp: signed_divide_int_def sgn_if)
  ultimately show ?thesis by (simp add: decimal_le_iff truncate8_dval assms(1,2))
qed

lemma authorize_attached:
  "map_of context ''authorization'' = None \<Longrightarrow> authorize token (AttachAuth token context)"
  by (auto simp: authorize_def AttachAuth_def strip_bearer_def map_add_def split: option.split)

lemma authorize_iff:
  assumes "token \<noteq> []" and "take 7 token \<noteq> ''Bearer ''"
  shows "authorize token context \<longleftrightarrow>
    map_of context ''authorization'' = Some token \<or> map_of context ''authorization'' = Some (''Bearer '' @ token)"
proof -
  have "strip_bearer h = token \<longleftrightarrow> h = token \<or> h = ''Bearer '' @ token" for h
  proof
    assume s: "strip_bearer h = token"
    show "h = token \<or> h = ''Bearer '' @ token"
    proof (cases "take 7 h = ''Bearer ''")
      case True
      then have "h = ''Bearer '' @ drop 7 h" by (metis append_take_drop_id)
      then show ?thesis using s True by (simp add: strip_bearer_def)
    qed (use s in \<open>simp add: strip_bearer_def\<close>)
  qed (use assms(2) in \<open>auto simp: strip_bearer_def\<close>)
  then show ?thesis using assms(1) by (auto simp: authorize_def split: option.split)
qed

definition stream_inv :: "stream \<Rightarrow> bool" where
  "stream_inv s \<longleftrightarrow> offered s = dequeued s @ items (st_queue s) \<and>
     (case st_pc s of
        Stream_write view \<Rightarrow> dequeued s \<noteq> [] \<and> last (dequeued s) = view \<and> sent s = map FromDomain (butlast (dequeued s))
      | _ \<Rightarrow> sent s = map FromDomain (dequeued s))"

lemma wait_pop_for_Popped: "wait_pop_for t q = Popped x q' \<Longrightarrow> items q = x # items q'"
  by (auto simp: wait_pop_for_def split: if_splits list.splits)

lemma stream_step_inv: "stream_step s s' \<Longrightarrow> stream_inv s \<Longrightarrow> stream_inv s'"
proof (induction rule: stream_step.induct)
  case (callback s view)
  then show ?case by (cases "st_pc s") (auto simp: stream_inv_def stream_callback_def cq_push_def)
next
  case (wait s timed_out cancelled s')
  then show ?case
    by (auto simp: stream_inv_def stream_wait_def split: wait_result.splits if_splits dest!: wait_pop_for_Popped)
next
  case (send s view written)
  then have d: "dequeued s \<noteq> []" "last (dequeued s) = view" "sent s = map FromDomain (butlast (dequeued s))"
    by (simp_all add: stream_inv_def)
  then have "map FromDomain (dequeued s) = sent s @ [FromDomain view]"
    by (metis append_butlast_last_id list.map(1,2) map_append)
  then show ?case using send by (simp add: stream_inv_def stream_write_def)
qed (auto simp: stream_inv_def stream_check_def stream_leave_def cq_close_def)

lemma reachable_stream_inv: "reachable_stream s \<Longrightarrow> stream_inv s"
proof (induction rule: reachable_stream.induct)
  case init
  show ?case by (simp add: stream_inv_def new_stream_def new_queue_def)
qed (blast intro: stream_step_inv)

lemma client_session_roundtrip:
  assumes "\<forall>v \<in> set vs. printable_view v"
  shows "client_session (map FromDomain vs) = Inr (map received_view vs)"
  using assms by (induction vs) (simp_all add: transport_roundtrip)

section \<open>Properties\<close>

text \<open>
  C24: a view sent over the wire arrives with every price and quantity cut to eight decimals towards zero,
  its number of exchanges cut to 32 bits, and its time stamp and time of publication both replaced by one
  time: the time of publication if that is positive, the time stamp if no time of publication is set and the
  time stamp is positive, and otherwise the time stamp cut to milliseconds. The other time stamps are
  unchanged. The cut of the decimals keeps the order of non-negative prices, so a sorted side stays (weakly)
  sorted.
\<close>

theorem wire_roundtrip:
  assumes "printable_view v"
  shows "ToDomain (FromDomain v) = Inr (v\<lparr> bid_levels := map truncate_level (bid_levels v),
      ask_levels := map truncate_level (ask_levels v), best_bid := truncate_level (best_bid v),
      best_ask := truncate_level (best_ask v), timestamp := sent_time v, publish_timestamp_ns := sent_time v,
      exchange_count := ucast (ucast (exchange_count v) :: u32) \<rparr>) \<and>
    (0 < sint (publish_timestamp_ns v) \<longrightarrow> sent_time v = publish_timestamp_ns v) \<and>
    (publish_timestamp_ns v = 0 \<and> 0 < sint (timestamp v) \<longrightarrow> sent_time v = timestamp v) \<and>
    (sint (publish_timestamp_ns v) < 0 \<or> publish_timestamp_ns v = 0 \<and> sint (timestamp v) \<le> 0 \<longrightarrow>
       sint (sent_time v) = sint (timestamp v) sdiv 1000000 * 1000000) \<and>
    (unat (exchange_count v) < 2 ^ 32 \<longrightarrow> ucast (ucast (exchange_count v) :: u32) = exchange_count v) \<and>
    (\<forall>a b. printable a \<and> printable b \<and> 0 \<le> dval a \<and> a \<le> b \<longrightarrow> truncate8 a \<le> truncate8 b)"
  using transport_roundtrip [OF assms, unfolded received_view_def] sent_time_value [of v] count_kept truncate8_mono by blast

definition wire_view :: aggregated_book_view where
  "wire_view = empty_view\<lparr> bid_levels := [mk_level (fromInteger 100) (fromInteger 5)],
     best_bid := mk_level (fromInteger 100) (fromInteger 5), publish_timestamp_ns := 1 \<rparr>"

lemma wire_view_printable: "printable_view wire_view"
  by (simp add: printable_view_def printable_level_def printable_def wire_view_def empty_view_def fromInteger_dval)

theorem wire_roundtrip_witness:
  "ToDomain (FromDomain wire_view) = Inr (wire_view\<lparr> timestamp := 1 \<rparr>) \<and> timestamp wire_view = 0"
proof -
  have l: "truncate_level (mk_level (fromInteger 100) (fromInteger 5)) = mk_level (fromInteger 100) (fromInteger 5)"
    "truncate_level (mk_level 0 0) = mk_level 0 0" by code_simp+
  have p: "publish_timestamp_ns wire_view = 1" by (simp add: wire_view_def)
  note W = wire_roundtrip [OF wire_view_printable]
  have "sent_time wire_view = 1" using W p by simp
  then show ?thesis using conjunct1 [OF W] by (simp add: l) (simp add: wire_view_def empty_view_def l)
qed

text \<open>
  a call is authorized exactly when the configured token is presented, bare or after the word Bearer;
  a client that attaches the token is always let in.
\<close>

theorem authorize_exact:
  assumes "token \<noteq> []" and "take 7 token \<noteq> ''Bearer ''"
  shows "(authorize token context \<longleftrightarrow>
      map_of context ''authorization'' = Some token \<or> map_of context ''authorization'' = Some (''Bearer '' @ token)) \<and>
    (map_of context ''authorization'' = None \<longrightarrow> authorize token (AttachAuth token context))"
  using authorize_iff [OF assms] authorize_attached by blast

theorem authorize_exact_witness: "authorize ''secret'' (AttachAuth ''secret'' [])"
  using authorize_exact [of "''secret''" "[]"] by simp

text \<open>
  C25: in every reachable state of a stream, the messages written are the conversions of the views taken
  from its queue, and these with the views still queued are the views offered to it, in order.
\<close>

theorem stream_order:
  assumes "reachable_stream s"
  shows "offered s = dequeued s @ items (st_queue s) \<and>
    (\<exists>k. sent s = map FromDomain (take k (dequeued s)) \<and> length (dequeued s) \<le> Suc k) \<and>
    (st_pc s = Stream_returned \<longrightarrow> sent s = map FromDomain (dequeued s))"
proof -
  have inv: "stream_inv s" using assms by (rule reachable_stream_inv)
  then have o: "offered s = dequeued s @ items (st_queue s)" by (simp add: stream_inv_def)
  have "\<exists>k. sent s = map FromDomain (take k (dequeued s)) \<and> length (dequeued s) \<le> Suc k"
  proof (cases "\<exists>view. st_pc s = Stream_write view")
    case True
    then show ?thesis using inv
      by (intro exI [of _ "length (dequeued s) - 1"]) (auto simp: stream_inv_def butlast_conv_take)
  next
    case False
    then have "sent s = map FromDomain (dequeued s)" using inv by (cases "st_pc s") (auto simp: stream_inv_def)
    then show ?thesis by (intro exI [of _ "length (dequeued s)"]) simp
  qed
  moreover have "st_pc s = Stream_returned \<longrightarrow> sent s = map FromDomain (dequeued s)"
    using inv by (auto simp: stream_inv_def)
  ultimately show ?thesis using o by blast
qed

theorem stream_order_witness:
  "offered (stream_callback wire_view new_stream) =
   dequeued (stream_callback wire_view new_stream) @ items (st_queue (stream_callback wire_view new_stream))"
proof -
  have "reachable_stream (stream_callback wire_view new_stream)"
    using reachable_stream.step [OF reachable_stream.init stream_step.callback] .
  from stream_order [OF this] show ?thesis by blast
qed

end
