(* ===== verification/Stream_Client.thy ===== *)
theory Stream_Client
  imports Transport
begin

text \<open>
  \<open>BookStreamClient\<close> of src/services/common/book_stream_client.cpp: \<open>start\<close> and \<open>stop\<close> of the owner and
  the worker thread that opens a call, hands every message to the callback and reconnects. A step is what a
  thread does up to its next access to \<open>running_\<close>, the mutex or gRPC. What gRPC does is a step of its own: a
  message arrives, the server ends the call; the channel factory may fail. As gRPC documents it, \<open>Read\<close>
  waits for a message or the end of the call, \<open>Finish\<close> waits for the end of the call, and a cancelled
  call has ended for both.
\<close>

section \<open>State\<close>

datatype client_pc =
    W_check
  | W_channel
  | W_register
  | W_open
  | W_loop
  | W_read
  | W_clear
  | W_finish
  | W_after
  | W_sleep
  | W_exit
  | W_terminated failure

datatype user_pc = U_idle | U_spawn | U_cancel | U_join

text \<open>A call with its \<open>ClientContext\<close>. \<open>arrived\<close> is what the server has sent, \<open>handled\<close> what the callback got.\<close>

record rpc_call =
  call_metadata :: metadata
  call_symbol :: string
  call_cancelled :: bool
  call_ended :: bool
  arrived :: "aggregated_book list"
  taken :: nat
  handled :: "aggregated_book_view list"

record stream_client =
  c_token :: string
  c_symbol :: string
  c_running :: bool
  c_worker :: "client_pc option"
  active_context :: bool
  call :: rpc_call
  past_calls :: "rpc_call list"
  owner :: user_pc

definition fresh_call :: rpc_call where
  "fresh_call = \<lparr> call_metadata = [], call_symbol = [], call_cancelled = False, call_ended = False,
     arrived = [], taken = 0, handled = [] \<rparr>"

text \<open>The constructor with its assertions; \<open>callback_ok\<close> says that the callback is callable.\<close>

definition new_client :: "string \<Rightarrow> string \<Rightarrow> bool \<Rightarrow> stream_client outcome" where
  "new_client token symbol callback_ok =
     bind_outcome (assert_debug (symbol \<noteq> []) ''symbol must be non-empty'') (\<lambda>_.
     bind_outcome (assert_debug callback_ok ''callback must be valid'') (\<lambda>_.
     Inr \<lparr> c_token = token, c_symbol = symbol, c_running = False, c_worker = None, active_context = False,
       call = fresh_call, past_calls = [], owner = U_idle \<rparr>))"

section \<open>The owner\<close>

text \<open>\<open>start\<close>: the exchange of the flag, then the new thread.\<close>

definition client_start :: "stream_client \<Rightarrow> stream_client" where
  "client_start s = (if c_running s then s else s\<lparr> c_running := True, owner := U_spawn \<rparr>)"

definition client_spawn :: "stream_client \<Rightarrow> stream_client" where
  "client_spawn s = s\<lparr> c_worker := Some W_check, owner := U_idle \<rparr>"

text \<open>\<open>stop\<close>: the exchange of the flag, \<open>cancelActiveContext\<close>, then the join.\<close>

definition client_stop :: "stream_client \<Rightarrow> stream_client" where
  "client_stop s = (if \<not> c_running s then s else s\<lparr> c_running := False, owner := U_cancel \<rparr>)"

definition cancelActiveContext :: "stream_client \<Rightarrow> stream_client" where
  "cancelActiveContext s =
     (if active_context s then s\<lparr> call := (call s)\<lparr> call_cancelled := True \<rparr>, owner := U_join \<rparr>
      else s\<lparr> owner := U_join \<rparr>)"

definition client_join :: "stream_client \<Rightarrow> stream_client option" where
  "client_join s =
     (case c_worker s of
        None \<Rightarrow> Some (s\<lparr> owner := U_idle \<rparr>)
      | Some W_exit \<Rightarrow> Some (s\<lparr> c_worker := None, owner := U_idle \<rparr>)
      | Some _ \<Rightarrow> None)"

section \<open>The worker\<close>

definition at_worker :: "client_pc \<Rightarrow> stream_client \<Rightarrow> stream_client" where
  "at_worker pc s = s\<lparr> c_worker := Some pc \<rparr>"

definition worker_check :: "stream_client \<Rightarrow> stream_client" where
  "worker_check s = at_worker (if c_running s then W_channel else W_exit) s"

definition worker_channel :: "bool \<Rightarrow> stream_client \<Rightarrow> stream_client" where
  "worker_channel available s =
     (if available then at_worker W_register (s\<lparr> call := fresh_call, past_calls := past_calls s @ [call s] \<rparr>)
      else at_worker W_sleep s)"

definition worker_register :: "stream_client \<Rightarrow> stream_client" where
  "worker_register s = at_worker W_open (s\<lparr> active_context := True \<rparr>)"

definition worker_open :: "stream_client \<Rightarrow> stream_client" where
  "worker_open s =
     at_worker W_loop (s\<lparr> call := (call s)\<lparr> call_metadata := AttachAuth (c_token s) (call_metadata (call s)), call_symbol := c_symbol s \<rparr> \<rparr>)"

definition worker_loop :: "stream_client \<Rightarrow> stream_client" where
  "worker_loop s = at_worker (if c_running s then W_read else W_clear) s"

text \<open>\<open>Read\<close> returns the next message, or false; a message goes through \<open>ToDomain\<close> to the callback \<open>cb\<close>.\<close>

definition worker_message :: "(aggregated_book_view \<Rightarrow> unit outcome) \<Rightarrow> stream_client \<Rightarrow> stream_client option" where
  "worker_message cb s =
     (let c = call s
      in if taken c < length (arrived c)
         then Some (case ToDomain (arrived c ! taken c) of
             Inl e \<Rightarrow> at_worker (W_terminated e) s
           | Inr view \<Rightarrow>
               (let s1 = s\<lparr> call := c\<lparr> taken := taken c + 1, handled := handled c @ [view] \<rparr> \<rparr>
                in case cb view of Inl e \<Rightarrow> at_worker (W_terminated e) s1 | Inr _ \<Rightarrow> at_worker W_loop s1))
         else None)"

definition worker_read_end :: "stream_client \<Rightarrow> stream_client option" where
  "worker_read_end s =
     (let c = call s
      in if call_cancelled c \<or> call_ended c \<and> taken c = length (arrived c) then Some (at_worker W_clear s) else None)"

definition worker_clear :: "stream_client \<Rightarrow> stream_client" where
  "worker_clear s = at_worker W_finish (s\<lparr> active_context := False \<rparr>)"

definition worker_finish :: "stream_client \<Rightarrow> stream_client option" where
  "worker_finish s = (if call_cancelled (call s) \<or> call_ended (call s) then Some (at_worker W_after s) else None)"

definition worker_after :: "stream_client \<Rightarrow> stream_client" where
  "worker_after s = at_worker (if c_running s then W_sleep else W_exit) s"

inductive client_worker_step :: "(aggregated_book_view \<Rightarrow> unit outcome) \<Rightarrow> stream_client \<Rightarrow> stream_client \<Rightarrow> bool" for cb where
  check: "c_worker s = Some W_check \<Longrightarrow> client_worker_step cb s (worker_check s)"
| channel: "c_worker s = Some W_channel \<Longrightarrow> client_worker_step cb s (worker_channel available s)"
| register: "c_worker s = Some W_register \<Longrightarrow> client_worker_step cb s (worker_register s)"
| opens: "c_worker s = Some W_open \<Longrightarrow> client_worker_step cb s (worker_open s)"
| loop: "c_worker s = Some W_loop \<Longrightarrow> client_worker_step cb s (worker_loop s)"
| message: "c_worker s = Some W_read \<Longrightarrow> worker_message cb s = Some s' \<Longrightarrow> client_worker_step cb s s'"
| read_end: "c_worker s = Some W_read \<Longrightarrow> worker_read_end s = Some s' \<Longrightarrow> client_worker_step cb s s'"
| clear: "c_worker s = Some W_clear \<Longrightarrow> client_worker_step cb s (worker_clear s)"
| finish: "c_worker s = Some W_finish \<Longrightarrow> worker_finish s = Some s' \<Longrightarrow> client_worker_step cb s s'"
| after: "c_worker s = Some W_after \<Longrightarrow> client_worker_step cb s (worker_after s)"
| sleep: "c_worker s = Some W_sleep \<Longrightarrow> client_worker_step cb s (at_worker W_check s)"

section \<open>All steps\<close>

text \<open>The server side of the current call, while it is open.\<close>

definition call_open :: "stream_client \<Rightarrow> bool" where
  "call_open s \<longleftrightarrow> c_worker s \<in> {Some W_loop, Some W_read, Some W_clear, Some W_finish} \<and> \<not> call_ended (call s)"

definition server_send :: "aggregated_book \<Rightarrow> stream_client \<Rightarrow> stream_client" where
  "server_send m s = s\<lparr> call := (call s)\<lparr> arrived := arrived (call s) @ [m] \<rparr> \<rparr>"

definition server_end :: "stream_client \<Rightarrow> stream_client" where
  "server_end s = s\<lparr> call := (call s)\<lparr> call_ended := True \<rparr> \<rparr>"

text \<open>Everything but the end of a call: the steps of the program and messages that arrive.\<close>

inductive client_step :: "(aggregated_book_view \<Rightarrow> unit outcome) \<Rightarrow> stream_client \<Rightarrow> stream_client \<Rightarrow> bool" for cb where
  start: "owner s = U_idle \<Longrightarrow> client_step cb s (client_start s)"
| spawn: "owner s = U_spawn \<Longrightarrow> client_step cb s (client_spawn s)"
| stop: "owner s = U_idle \<Longrightarrow> client_step cb s (client_stop s)"
| cancel: "owner s = U_cancel \<Longrightarrow> client_step cb s (cancelActiveContext s)"
| join: "owner s = U_join \<Longrightarrow> client_join s = Some s' \<Longrightarrow> client_step cb s s'"
| worker: "client_worker_step cb s s' \<Longrightarrow> client_step cb s s'"
| send: "call_open s \<Longrightarrow> client_step cb s (server_send m s)"

inductive client_reachable :: "(aggregated_book_view \<Rightarrow> unit outcome) \<Rightarrow> stream_client \<Rightarrow> bool" for cb where
  new: "new_client token symbol True = Inr s \<Longrightarrow> client_reachable cb s"
| step: "client_reachable cb s \<Longrightarrow> client_step cb s s' \<Longrightarrow> client_reachable cb s'"
| ended: "client_reachable cb s \<Longrightarrow> call_open s \<Longrightarrow> client_reachable cb (server_end s)"

inductive_cases worker_stepE: "client_worker_step cb s s'"
inductive_cases client_stepE: "client_step cb s s'"

section \<open>The invariant\<close>

definition call_ok :: "rpc_call \<Rightarrow> bool" where
  "call_ok c \<longleftrightarrow> taken c \<le> length (arrived c) \<and>
     list_all2 (\<lambda>m v. ToDomain m = Inr v) (take (taken c) (arrived c)) (handled c)"

fun in_session :: "client_pc option \<Rightarrow> bool" where
  "in_session (Some W_open) = True"
| "in_session (Some W_loop) = True"
| "in_session (Some W_read) = True"
| "in_session (Some W_clear) = True"
| "in_session _ = False"

text \<open>Which thread is where: the flag, the thread object and the registered context.\<close>

fun control_ok :: "user_pc \<Rightarrow> bool \<Rightarrow> client_pc option \<Rightarrow> bool \<Rightarrow> bool" where
  "control_ok u r w a \<longleftrightarrow>
     (in_session w \<longrightarrow> a) \<and> (a \<longrightarrow> in_session w \<or> (\<exists>e. w = Some (W_terminated e))) \<and> (w = Some W_exit \<longrightarrow> \<not> r) \<and>
     (case u of U_idle \<Rightarrow> r = (w \<noteq> None) | U_spawn \<Rightarrow> r \<and> w = None | U_cancel \<Rightarrow> \<not> r \<and> w \<noteq> None | U_join \<Rightarrow> \<not> r \<and> w \<noteq> None)"

definition calls_ok :: "stream_client \<Rightarrow> bool" where
  "calls_ok s \<longleftrightarrow> call_ok (call s) \<and> (\<forall>c \<in> set (past_calls s). call_ok c)"

definition request_ok :: "stream_client \<Rightarrow> bool" where
  "request_ok s \<longleftrightarrow>
     (c_worker s \<in> {Some W_loop, Some W_read, Some W_clear, Some W_finish} \<longrightarrow>
        call_metadata (call s) = AttachAuth (c_token s) [] \<and> call_symbol (call s) = c_symbol s) \<and>
     (c_worker s \<in> {Some W_register, Some W_open} \<longrightarrow> call_metadata (call s) = [])"

definition client_inv :: "stream_client \<Rightarrow> bool" where
  "client_inv s \<longleftrightarrow> control_ok (owner s) (c_running s) (c_worker s) (active_context s) \<and> calls_ok s \<and> request_ok s"

lemma call_ok_fresh: "call_ok fresh_call"
  by (simp add: call_ok_def fresh_call_def)

lemma call_ok_take:
  assumes "call_ok c" and "taken c < length (arrived c)" and "ToDomain (arrived c ! taken c) = Inr v"
  shows "call_ok (c\<lparr> taken := taken c + 1, handled := handled c @ [v] \<rparr>)"
  using assms by (simp add: call_ok_def take_Suc_conv_app_nth list_all2_appendI)

lemma call_ok_arrive: "call_ok c \<Longrightarrow> call_ok (c\<lparr> arrived := arrived c @ [m] \<rparr>)"
  by (simp add: call_ok_def)

lemma call_ok_same:
  "call_ok (c\<lparr> call_cancelled := b \<rparr>) = call_ok c" "call_ok (c\<lparr> call_ended := b \<rparr>) = call_ok c"
  "call_ok (c\<lparr> call_metadata := m, call_symbol := y \<rparr>) = call_ok c"
  by (simp_all add: call_ok_def)

lemmas worker_defs = worker_check_def worker_channel_def worker_register_def worker_open_def worker_loop_def
  worker_clear_def worker_after_def at_worker_def

lemma worker_message_cases:
  assumes "worker_message cb s = Some s'" and "calls_ok s"
  obtains (stop) e where "s' = at_worker (W_terminated e) s"
  | (got) v w where "s' = at_worker w (s\<lparr> call := (call s)\<lparr> taken := taken (call s) + 1, handled := handled (call s) @ [v] \<rparr> \<rparr>)"
      "call_ok ((call s)\<lparr> taken := taken (call s) + 1, handled := handled (call s) @ [v] \<rparr>)"
      "w = W_loop \<or> (\<exists>e. w = W_terminated e)" "taken (call s) < length (arrived (call s))"
proof -
  have c: "taken (call s) < length (arrived (call s))" using assms(1) by (auto simp: worker_message_def Let_def split: if_splits)
  show ?thesis
  proof (cases "ToDomain (arrived (call s) ! taken (call s))")
    case (Inl e)
    then show ?thesis using assms(1) c by (intro stop [of e]) (simp add: worker_message_def Let_def)
  next
    case (Inr v)
    have ok: "call_ok ((call s)\<lparr> taken := taken (call s) + 1, handled := handled (call s) @ [v] \<rparr>)"
      by (rule call_ok_take [OF _ c Inr]) (use assms(2) in \<open>simp add: calls_ok_def\<close>)
    define w where "w = (case cb v of Inl e \<Rightarrow> W_terminated e | Inr _ \<Rightarrow> W_loop)"
    have "s' = at_worker w (s\<lparr> call := (call s)\<lparr> taken := taken (call s) + 1, handled := handled (call s) @ [v] \<rparr> \<rparr>)"
      using assms(1) c Inr by (simp add: worker_message_def Let_def w_def split: sum.splits)
    moreover have "w = W_loop \<or> (\<exists>e. w = W_terminated e)" by (simp add: w_def split: sum.splits)
    ultimately show ?thesis using got ok c by blast
  qed
qed

lemma worker_step_control:
  assumes "client_worker_step cb s s'" and "control_ok (owner s) (c_running s) (c_worker s) (active_context s)" and "calls_ok s"
  shows "control_ok (owner s') (c_running s') (c_worker s') (active_context s')"
  using assms(1)
proof cases
  case message
  from message(2) assms(3) show ?thesis
    by (cases rule: worker_message_cases) (use assms(2) message(1) in \<open>auto simp: at_worker_def split: user_pc.splits\<close>)
qed (use assms(2) in
  \<open>auto simp: worker_defs worker_read_end_def worker_finish_def Let_def split: user_pc.splits if_splits\<close>)

lemma worker_step_calls:
  assumes "client_worker_step cb s s'" and "calls_ok s"
  shows "calls_ok s'"
  using assms(1)
proof cases
  case message
  from message(2) assms(2) show ?thesis
    by (cases rule: worker_message_cases) (use assms(2) in \<open>auto simp: at_worker_def calls_ok_def\<close>)
qed (use assms(2) call_ok_fresh in
  \<open>auto simp: calls_ok_def worker_defs worker_read_end_def worker_finish_def call_ok_same Let_def split: if_splits\<close>)

lemma worker_step_request:
  assumes "client_worker_step cb s s'" and "request_ok s" and "calls_ok s"
  shows "request_ok s'"
  using assms(1)
proof cases
  case message
  from message(2) assms(3) show ?thesis
    by (cases rule: worker_message_cases) (use assms(2) message(1) in \<open>auto simp: at_worker_def request_ok_def\<close>)
qed (use assms(2) in
  \<open>auto simp: request_ok_def worker_defs worker_read_end_def worker_finish_def fresh_call_def Let_def split: if_splits\<close>)

lemma control_idle: "control_ok U_idle r w a \<Longrightarrow> r = (w \<noteq> None) \<and> (w = None \<longrightarrow> \<not> a)"
  by auto

lemma control_spawn: "control_ok U_spawn r w a \<Longrightarrow> r \<and> w = None \<and> \<not> a"
  by auto

lemma control_stop: "control_ok U_idle True w a \<Longrightarrow> control_ok U_cancel False w a"
  by auto

lemma control_cancel: "control_ok U_cancel r w a \<Longrightarrow> control_ok U_join r w a"
  by auto

lemma control_join: "control_ok U_join r (Some W_exit) a \<Longrightarrow> \<not> r \<and> \<not> a"
  by auto

lemma client_step_inv:
  assumes "client_step cb s s'" and "client_inv s"
  shows "client_inv s'"
proof -
  have c: "control_ok (owner s) (c_running s) (c_worker s) (active_context s)" and k: "calls_ok s" and r: "request_ok s"
    using assms(2) unfolding client_inv_def by blast+
  show ?thesis
    using assms(1)
  proof cases
    case worker
    show ?thesis unfolding client_inv_def
      using worker_step_control [OF worker c k] worker_step_calls [OF worker k] worker_step_request [OF worker r k] by blast
  next
    case join
    then have e: "s' = s\<lparr> c_worker := None, owner := U_idle \<rparr>" "c_worker s = Some W_exit"
      using c by (auto simp: client_join_def split: option.splits client_pc.splits)
    then have "\<not> c_running s \<and> \<not> active_context s" using c join(1) control_join by metis
    then show ?thesis using k r e by (simp add: client_inv_def calls_ok_def request_ok_def)
  next
    case start
    show ?thesis
    proof (cases "c_running s")
      case False
      then have "c_worker s = None \<and> \<not> active_context s" using c start(2) control_idle by metis
      then show ?thesis using k r False by (simp add: start(1) client_inv_def client_start_def calls_ok_def request_ok_def)
    qed (use assms(2) start in \<open>simp add: client_start_def\<close>)
  next
    case spawn
    then have "c_running s \<and> c_worker s = None \<and> \<not> active_context s" using c control_spawn by metis
    then show ?thesis using k by (simp add: spawn(1) client_inv_def client_spawn_def calls_ok_def request_ok_def)
  next
    case stop
    show ?thesis
    proof (cases "c_running s")
      case True
      then have "control_ok U_cancel False (c_worker s) (active_context s)" using c stop(2) control_stop by metis
      then show ?thesis using k r True
        by (simp add: stop(1) client_inv_def client_stop_def calls_ok_def request_ok_def del: control_ok.simps)
    qed (use assms(2) stop in \<open>simp add: client_stop_def\<close>)
  next
    case cancel
    then have "control_ok U_join (c_running s) (c_worker s) (active_context s)" using c control_cancel by metis
    then show ?thesis using k r
      by (cases "active_context s")
        (simp_all add: cancel(1) client_inv_def cancelActiveContext_def calls_ok_def request_ok_def call_ok_same del: control_ok.simps)
  next
    case (send m)
    then show ?thesis using c k r
      by (simp add: client_inv_def server_send_def calls_ok_def request_ok_def call_ok_arrive del: control_ok.simps)
  qed
qed

lemma client_reachable_inv: "client_reachable cb s \<Longrightarrow> client_inv s"
proof (induction rule: client_reachable.induct)
  case (new token symbol s)
  then have "s = \<lparr> c_token = token, c_symbol = symbol, c_running = False, c_worker = None, active_context = False,
      call = fresh_call, past_calls = [], owner = U_idle \<rparr>"
    by (auto simp: new_client_def assert_debug_def split: if_splits)
  then show ?case using call_ok_fresh by (simp add: client_inv_def calls_ok_def request_ok_def)
next
  case (step s s')
  then show ?case by (blast intro: client_step_inv)
next
  case (ended s)
  then show ?case by (auto simp: client_inv_def server_end_def call_ok_same calls_ok_def request_ok_def)
qed

section \<open>Stopping\<close>

text \<open>
  The owner that waits in its join has cancelled the call whenever the worker waits for a message: the worker
  read the flag before it was cleared, with its context registered.
\<close>

definition join_ok :: "stream_client \<Rightarrow> bool" where
  "join_ok s \<longleftrightarrow> (owner s = U_join \<and> c_worker s = Some W_read \<longrightarrow> call_cancelled (call s))"

lemma join_ok_step:
  assumes "client_step cb s s'" and "client_inv s" and "join_ok s"
  shows "join_ok s'"
proof -
  have c: "control_ok (owner s) (c_running s) (c_worker s) (active_context s)" and k: "calls_ok s"
    using assms(2) unfolding client_inv_def by blast+
  show ?thesis
    using assms(1)
  proof cases
    case worker
    from worker show ?thesis
    proof cases
      case message
      from message(2) k show ?thesis by (cases rule: worker_message_cases) (auto simp: at_worker_def join_ok_def)
    next
      case loop
      then show ?thesis using c by (auto simp: worker_loop_def at_worker_def join_ok_def)
    qed (auto simp: worker_defs worker_read_end_def worker_finish_def join_ok_def Let_def split: if_splits)
  next
    case cancel
    then show ?thesis using c by (auto simp: cancelActiveContext_def join_ok_def)
  qed (use assms(3) in \<open>auto simp: client_start_def client_spawn_def client_stop_def client_join_def server_send_def join_ok_def
      split: if_splits option.splits client_pc.splits\<close>)
qed

lemma client_reachable_join: "client_reachable cb s \<Longrightarrow> join_ok s"
proof (induction rule: client_reachable.induct)
  case (new token symbol s)
  then show ?case by (auto simp: new_client_def assert_debug_def join_ok_def split: if_splits)
next
  case (step s s')
  then show ?case by (blast intro: join_ok_step client_reachable_inv)
next
  case (ended s)
  then show ?case by (simp add: server_end_def join_ok_def)
qed

text \<open>How many steps the worker can still make once the flag is cleared.\<close>

fun worker_dist :: "client_pc \<Rightarrow> nat" where
  "worker_dist W_channel = 7"
| "worker_dist W_register = 6"
| "worker_dist W_open = 5"
| "worker_dist W_read = 5"
| "worker_dist W_loop = 4"
| "worker_dist W_clear = 3"
| "worker_dist W_finish = 2"
| "worker_dist W_sleep = 2"
| "worker_dist W_check = 1"
| "worker_dist W_after = 1"
| "worker_dist W_exit = 0"
| "worker_dist (W_terminated e) = 0"

definition stopping :: "stream_client \<Rightarrow> bool" where
  "stopping s \<longleftrightarrow> owner s = U_join \<and> c_worker s \<notin> {Some W_channel, Some W_register} \<and>
     (call_cancelled (call s) \<or> call_ended (call s))"

lemma stopping_step:
  assumes st: "client_worker_step cb s s'" and inv: "client_inv s" and "stopping s"
  shows "stopping s' \<and> worker_dist (the (c_worker s')) < worker_dist (the (c_worker s))"
proof -
  have run: "\<not> c_running s" and k: "calls_ok s" and o: "owner s = U_join" "call_cancelled (call s) \<or> call_ended (call s)"
    "c_worker s \<noteq> Some W_channel" "c_worker s \<noteq> Some W_register"
    using inv assms(3) unfolding client_inv_def stopping_def by auto
  from st show ?thesis
  proof cases
    case message
    from message(2) k show ?thesis
      by (cases rule: worker_message_cases) (use o message(1) in \<open>auto simp: at_worker_def stopping_def\<close>)
  qed (use run o in \<open>auto simp: worker_defs worker_read_end_def worker_finish_def stopping_def Let_def split: if_splits\<close>)
qed

lemma stopping_moves:
  assumes inv: "client_inv s" "join_ok s" and st: "stopping s"
  shows "worker_dist (the (c_worker s)) = 0 \<or> (\<exists>s'. client_worker_step cb s s')"
proof -
  have o: "owner s = U_join" "call_cancelled (call s) \<or> call_ended (call s)" "c_worker s \<noteq> Some W_channel" "c_worker s \<noteq> Some W_register"
    using st unfolding stopping_def by auto
  then obtain pc where pc: "c_worker s = Some pc" using inv(1) unfolding client_inv_def by auto
  show ?thesis
  proof (cases pc)
    case W_read
    then have "worker_read_end s = Some (at_worker W_clear s)" using inv(2) o pc by (simp add: worker_read_end_def join_ok_def)
    then show ?thesis using client_worker_step.read_end W_read pc by blast
  next
    case W_finish
    then have "worker_finish s = Some (at_worker W_after s)" using o by (simp add: worker_finish_def)
    then show ?thesis using client_worker_step.finish W_finish pc by blast
  qed (use pc o client_worker_step.intros in \<open>auto intro: client_worker_step.intros\<close>)
qed

section \<open>A stop that never returns\<close>

text \<open>The worker waits for the end of a call that nobody has cancelled, the owner for the worker.\<close>

definition stuck :: "stream_client \<Rightarrow> bool" where
  "stuck s \<longleftrightarrow> owner s = U_join \<and> c_worker s = Some W_finish \<and> \<not> call_cancelled (call s) \<and> \<not> call_ended (call s)"

lemma stuck_step: "client_step cb s s' \<Longrightarrow> stuck s \<Longrightarrow> stuck s'"
  by (auto simp: stuck_def server_send_def client_join_def worker_finish_def elim!: client_stepE worker_stepE split: if_splits)

lemma stuck_steps: "(client_step cb)\<^sup>*\<^sup>* s s' \<Longrightarrow> stuck s \<Longrightarrow> stuck s'"
  by (induction rule: rtranclp_induct) (auto intro: stuck_step)

text \<open>The flag is cleared between the worker's test of it and the registration of the context.\<close>

definition late_stop :: stream_client where
  "late_stop = worker_clear (worker_loop (worker_open (worker_register (cancelActiveContext (client_stop
     (worker_channel True (worker_check (client_spawn (client_start
       \<lparr> c_token = [], c_symbol = ''BTCUSDT'', c_running = False, c_worker = None, active_context = False,
         call = fresh_call, past_calls = [], owner = U_idle \<rparr>)))))))))"

lemmas client_defs = worker_defs client_start_def client_spawn_def client_stop_def cancelActiveContext_def

lemma late_stop_stuck: "stuck late_stop"
  by (simp add: late_stop_def stuck_def client_defs fresh_call_def)

lemma late_stop_reachable: "client_reachable cb late_stop"
proof -
  let ?s0 = "\<lparr> c_token = [], c_symbol = ''BTCUSDT'', c_running = False, c_worker = None, active_context = False,
         call = fresh_call, past_calls = [], owner = U_idle \<rparr>"
  have "client_reachable cb ?s0" by (rule client_reachable.new [of "[]" "''BTCUSDT''"]) (simp add: new_client_def)
  then have "client_reachable cb (client_start ?s0)" by (rule client_reachable.step) (simp add: client_step.start)
  then have "client_reachable cb (client_spawn (client_start ?s0))" (is "client_reachable cb ?s2")
    by (rule client_reachable.step) (simp add: client_step.spawn client_start_def)
  then have "client_reachable cb (worker_check ?s2)" (is "client_reachable cb ?s3")
    by (rule client_reachable.step) (intro client_step.worker client_worker_step.intros, simp add: client_defs)
  then have "client_reachable cb (worker_channel True ?s3)" (is "client_reachable cb ?s4")
    by (rule client_reachable.step) (intro client_step.worker client_worker_step.intros, simp add: client_defs)
  then have "client_reachable cb (client_stop ?s4)" (is "client_reachable cb ?s5")
    by (rule client_reachable.step) (intro client_step.stop, simp add: client_defs)
  then have "client_reachable cb (cancelActiveContext ?s5)" (is "client_reachable cb ?s6")
    by (rule client_reachable.step) (intro client_step.cancel, simp add: client_defs)
  then have "client_reachable cb (worker_register ?s6)" (is "client_reachable cb ?s7")
    by (rule client_reachable.step) (intro client_step.worker client_worker_step.intros, simp add: client_defs)
  then have "client_reachable cb (worker_open ?s7)" (is "client_reachable cb ?s8")
    by (rule client_reachable.step) (intro client_step.worker client_worker_step.intros, simp add: client_defs)
  then have "client_reachable cb (worker_loop ?s8)" (is "client_reachable cb ?s9")
    by (rule client_reachable.step) (intro client_step.worker client_worker_step.intros, simp add: client_defs)
  then have "client_reachable cb (worker_clear ?s9)"
    by (rule client_reachable.step) (intro client_step.worker client_worker_step.intros, simp add: client_defs)
  then show ?thesis unfolding late_stop_def .
qed

section \<open>Properties\<close>

text \<open>
  C20: stop of the stream client can wait forever: when the flag is cleared after the worker has tested it but
  before the worker has registered its context, nothing is cancelled, and the worker waits in Finish for
  the end of a call the server has no reason to end. From then on no step of the owner, of the worker or of
  a server that keeps sending lets stop return.
\<close>

theorem client_stop_hangs:
  "\<exists>s. client_reachable cb s \<and> owner s = U_join \<and> \<not> (\<exists>s'. (client_step cb)\<^sup>*\<^sup>* s s' \<and> owner s' \<noteq> U_join)"
  using late_stop_reachable late_stop_stuck stuck_steps unfolding stuck_def by blast

text \<open>
  C19: Once the owner's cancellation has reached the open call, or the server has ended it, stop returns: every
  step of the worker brings it nearer to its end, whatever messages, callbacks and connection attempts do,
  and until it has ended it can always make one.
\<close>

theorem client_stop_returns:
  assumes "client_reachable cb s" and "stopping s"
  shows "(\<forall>s'. client_worker_step cb s s' \<longrightarrow> stopping s' \<and> worker_dist (the (c_worker s')) < worker_dist (the (c_worker s))) \<and>
    (worker_dist (the (c_worker s)) = 0 \<or> (\<exists>s'. client_worker_step cb s s')) \<and>
    (c_worker s = Some W_exit \<longrightarrow> (\<exists>s'. client_join s = Some s' \<and> owner s' = U_idle \<and> c_worker s' = None))"
  using stopping_step [OF _ client_reachable_inv [OF assms(1)] assms(2)]
    stopping_moves [OF client_reachable_inv [OF assms(1)] client_reachable_join [OF assms(1)] assms(2)]
  by (auto simp: client_join_def)

theorem client_stop_returns_witness: "\<exists>s'. client_worker_step (\<lambda>_. Inr ()) (server_end late_stop) s'"
proof -
  have "client_reachable (\<lambda>_. Inr ()) (server_end late_stop)"
    by (rule client_reachable.ended [OF late_stop_reachable])
      (use late_stop_stuck in \<open>simp add: call_open_def stuck_def\<close>)
  moreover have "stopping (server_end late_stop)" "c_worker (server_end late_stop) = Some W_finish"
    using late_stop_stuck by (simp_all add: stopping_def stuck_def server_end_def)
  ultimately show ?thesis using client_stop_returns [of "\<lambda>_. Inr ()" "server_end late_stop"] by auto
qed

text \<open>
  C18: In every call of the stream client the callback gets exactly the messages read so far, converted, in the
  order the server sent them; a call is opened with a request that the service for this token and symbol
  accepts; and once stop has returned there is no worker that could still call back, and no context left
  registered.
\<close>

theorem client_calls:
  assumes "client_reachable cb s"
  shows "(\<forall>c \<in> set (call s # past_calls s). taken c \<le> length (arrived c) \<and>
      map ToDomain (take (taken c) (arrived c)) = map Inr (handled c)) \<and>
    (c_worker s \<in> {Some W_loop, Some W_read, Some W_clear, Some W_finish} \<longrightarrow>
      StreamBooks_check (c_token s) (c_symbol s) (call_metadata (call s)) (call_symbol (call s)) = None) \<and>
    (owner s = U_idle \<and> \<not> c_running s \<longrightarrow> c_worker s = None \<and> \<not> active_context s)"
proof -
  note i = client_reachable_inv [OF assms, unfolded client_inv_def]
  have "map ToDomain xs = map Inr vs" if "list_all2 (\<lambda>m v. ToDomain m = Inr v) xs vs" for xs vs
    using that by (induction rule: list_all2_induct) simp_all
  then have "\<forall>c \<in> set (call s # past_calls s). taken c \<le> length (arrived c) \<and>
      map ToDomain (take (taken c) (arrived c)) = map Inr (handled c)"
    using i unfolding calls_ok_def call_ok_def by auto
  moreover have "StreamBooks_check t y (AttachAuth t []) y = None" for t y
    by (simp add: StreamBooks_check_def authorize_def AttachAuth_def strip_bearer_def)
  moreover have "c_worker s = None \<and> \<not> active_context s" if "owner s = U_idle" "\<not> c_running s"
    using i that control_idle by metis
  ultimately show ?thesis using i unfolding request_ok_def by auto
qed

theorem client_calls_witness: "StreamBooks_check [] ''BTCUSDT'' (call_metadata (call late_stop)) (call_symbol (call late_stop)) = None"
proof -
  have "c_worker late_stop = Some W_finish" "c_token late_stop = []" "c_symbol late_stop = ''BTCUSDT''"
    by (simp_all add: late_stop_def client_defs fresh_call_def)
  then show ?thesis using client_calls [OF late_stop_reachable [of "\<lambda>_. Inr ()"]] by simp
qed

end
