(* ===== verification/Bands.thy ===== *)
theory Bands
  imports Uncross
begin

text \<open>
  The calculators that consume an aggregated view: the price bands
  (src/src/price_bands/price_bands_publisher.cpp), the volume bands
  (src/src/volume_bands/volume_bands_publisher.cpp) and the best bid and offer line
  (src/src/bbo/bbo_publisher.cpp). \<open>widen\<close> keeps the representation and only selects the 256-bit
  products, so it is the identity of the model.
\<close>

definition kOne :: decimal where
  "kOne = fromInteger 1"

definition kTenThousand :: decimal where
  "kTenThousand = fromInteger 10000"

definition widen :: "decimal \<Rightarrow> decimal" where
  "widen d = fromRaw (raw d)"

section \<open>Price bands\<close>

definition adjustPrice :: "decimal \<Rightarrow> decimal \<Rightarrow> bool \<Rightarrow> decimal outcome" where
  "adjustPrice p offset bid =
     (let wide_price = widen p
      in bind_outcome (divide_wide (widen offset) (widen kTenThousand)) (\<lambda>wide_fraction.
           (let wide_one = widen kOne;
                factor = (if bid then wide_one - wide_fraction else wide_one + wide_fraction)
            in bind_outcome (mult_wide wide_price factor) (\<lambda>adjusted. Inr (fromRaw (raw adjusted))))))"

record band_cache =
  cached_best_bid :: aggregated_quote
  cached_best_ask :: aggregated_quote
  have_cached_best :: bool

definition empty_band_cache :: band_cache where
  "empty_band_cache = \<lparr> cached_best_bid = mk_level 0 0, cached_best_ask = mk_level 0 0, have_cached_best = False \<rparr>"

definition effective_best :: "aggregated_quote \<Rightarrow> price_level list \<Rightarrow> aggregated_quote" where
  "effective_best best ls =
     (case ls of [] \<Rightarrow> best | l # _ \<Rightarrow> if quantity best \<le> kZero then mk_level (price l) (quantity l) else best)"

definition has_live_best :: "aggregated_quote \<Rightarrow> aggregated_quote \<Rightarrow> bool" where
  "has_live_best bid ask \<longleftrightarrow> kZero < quantity bid \<and> kZero < quantity ask \<and> price bid < price ask"

definition band_quote :: "aggregated_quote \<Rightarrow> aggregated_quote \<Rightarrow> decimal \<Rightarrow> price_band_quote outcome" where
  "band_quote bid ask offset =
     bind_outcome (adjustPrice (price bid) offset True) (\<lambda>bid_price.
     bind_outcome (adjustPrice (price ask) offset False) (\<lambda>ask_price.
     bind_outcome (assert_debug (kZero \<le> bid_price) ''price band bid negative'') (\<lambda>_.
     bind_outcome (assert_debug (kZero \<le> ask_price) ''price band ask negative'') (\<lambda>_.
     bind_outcome (if \<not> bid_price < ask_price then assert_debug False ''price band ask must exceed bid for offset'' else Inr ()) (\<lambda>_.
       Inr \<lparr> offset_bps = offset, pb_bid_price = bid_price, pb_ask_price = ask_price \<rparr>)))))"

fun band_quotes :: "aggregated_quote \<Rightarrow> aggregated_quote \<Rightarrow> decimal list \<Rightarrow> price_band_quote list outcome" where
  "band_quotes bid ask [] = Inr []"
| "band_quotes bid ask (offset # offsets) =
     bind_outcome (band_quote bid ask offset) (\<lambda>q.
     bind_outcome (band_quotes bid ask offsets) (\<lambda>qs. Inr (q # qs)))"

definition checked_quotes :: "aggregated_quote \<Rightarrow> aggregated_quote \<Rightarrow> decimal list \<Rightarrow> price_band_quote list outcome" where
  "checked_quotes bid ask offsets =
     bind_outcome (assert_debug (price bid < price ask) ''price band input best ask must exceed best bid'') (\<lambda>_.
       band_quotes bid ask offsets)"

text \<open>\<open>PriceBandsCalculator::compute\<close>: the new cache, and the quotes.\<close>

definition compute_price_bands ::
  "decimal list \<Rightarrow> band_cache \<Rightarrow> aggregated_book_view \<Rightarrow> band_cache \<times> price_band_quote list outcome" where
  "compute_price_bands offsets cache view =
     (let bid = effective_best (best_bid view) (bid_levels view);
          ask = effective_best (best_ask view) (ask_levels view)
      in if has_live_best bid ask
         then (cache\<lparr> cached_best_bid := bid, cached_best_ask := ask, have_cached_best := True \<rparr>,
               checked_quotes bid ask offsets)
         else if have_cached_best cache
         then (cache, checked_quotes (cached_best_bid cache) (cached_best_ask cache) offsets)
         else (cache, Inr []))"

definition defaultOffsets :: "decimal list" where
  "defaultOffsets = map fromInteger [50, 100, 200, 500, 1000]"

definition format_price_band :: "price_band_quote \<Rightarrow> string" where
  "format_price_band q =
     ''Offset '' @ toString 0 (offset_bps q) @ '' bps -> bid '' @ toString 2 (pb_bid_price q) @
     '' ask '' @ toString 2 (pb_ask_price q)"

section \<open>Volume bands\<close>

fun find_price_from :: "decimal \<Rightarrow> decimal \<Rightarrow> price_level list \<Rightarrow> decimal outcome" where
  "find_price_from accumulated threshold [] = Inr (fromRaw 0)"
| "find_price_from accumulated threshold (l # ls) =
     bind_outcome (mult_wide (widen (price l)) (widen (quantity l))) (\<lambda>m.
       (let acc = accumulated + m
        in if widen threshold \<le> acc then Inr (price l) else find_price_from acc threshold ls))"

definition findPriceForThreshold :: "price_level list \<Rightarrow> decimal \<Rightarrow> decimal outcome" where
  "findPriceForThreshold ls threshold = find_price_from (fromRaw 0) threshold ls"

definition normalizeLevels :: "price_level list \<Rightarrow> aggregated_quote \<Rightarrow> price_level list" where
  "normalizeLevels ls q =
     (if ls \<noteq> [] then ls else if kZero < quantity q then [mk_level (price q) (quantity q)] else [])"

fun volume_quotes :: "price_level list \<Rightarrow> price_level list \<Rightarrow> decimal list \<Rightarrow> volume_band_quote list outcome" where
  "volume_quotes bids asks [] = Inr []"
| "volume_quotes bids asks (t # ts) =
     bind_outcome (findPriceForThreshold bids t) (\<lambda>b.
     bind_outcome (findPriceForThreshold asks t) (\<lambda>a.
     bind_outcome (volume_quotes bids asks ts) (\<lambda>qs.
       Inr (\<lparr> notional = t, vb_bid_price = b, vb_ask_price = a \<rparr> # qs))))"

definition compute_volume_bands :: "decimal list \<Rightarrow> aggregated_book_view \<Rightarrow> volume_band_quote list outcome" where
  "compute_volume_bands thresholds view =
     volume_quotes (normalizeLevels (bid_levels view) (best_bid view)) (normalizeLevels (ask_levels view) (best_ask view))
       thresholds"

definition defaultThresholds :: "decimal list" where
  "defaultThresholds = map fromInteger [1000000, 5000000, 10000000, 25000000, 50000000]"

definition format_volume_band :: "volume_band_quote \<Rightarrow> string" where
  "format_volume_band q =
     ''Bands '' @ toString 0 (notional q) @ '' -> bid '' @ toString 2 (vb_bid_price q) @
     '' ask '' @ toString 2 (vb_ask_price q)"

section \<open>Best bid and offer\<close>

definition format_bbo :: "aggregated_book_view \<Rightarrow> string" where
  "format_bbo view =
     ''BEST_BID='' @ toString 8 (price (best_bid view)) @ ''@'' @ toString 8 (quantity (best_bid view)) @
     '' BEST_ASK='' @ toString 8 (price (best_ask view)) @ ''@'' @ toString 8 (quantity (best_ask view)) @
     '' EXCHANGES='' @ nat_text (unat (exchange_count view))"

section \<open>Lemmas\<close>

lemma widen_id [simp]: "widen d = d"
  by (simp add: widen_def fromRaw_raw)

lemma kOne_dval: "dval kOne = 10 ^ 18" and kTenThousand_dval: "dval kTenThousand = 10000 * 10 ^ 18"
  by (simp_all add: kOne_def kTenThousand_def fromInteger_dval)

text \<open>The fraction \<open>offset / 10000\<close>, truncated to 18 decimals.\<close>

definition band_fraction :: "decimal \<Rightarrow> int" where
  "band_fraction offset = dval offset div 10000"

lemma sdiv_nonneg: "0 \<le> x \<Longrightarrow> 0 < s \<Longrightarrow> x sdiv s = x div s" for x s :: int
  by (cases "x = 0") (simp_all add: signed_divide_int_def)

lemma fraction_value:
  assumes "0 \<le> dval offset"
  shows "\<exists>f. divide_wide offset kTenThousand = Inr f \<and> dval f = band_fraction offset"
proof -
  have q: "dval offset * 10 ^ 18 div (10000 * 10 ^ 18) = dval offset div 10000"
    by (rule div_mult_mult2) simp
  have "\<bar>dval offset\<bar> * 10 ^ 18 div \<bar>dval kTenThousand\<bar> < 2 ^ 127"
    unfolding kTenThousand_dval using assms dval_bounds [of offset] q by simp
  then obtain f where "divide_wide offset kTenThousand = Inr f" "dval f = (dval offset * 10 ^ 18) sdiv dval kTenThousand"
    using divide_wide_value [of kTenThousand offset] kTenThousand_dval by auto
  moreover have "(dval offset * 10 ^ 18) sdiv dval kTenThousand = band_fraction offset"
    unfolding kTenThousand_dval using assms q by (subst sdiv_nonneg) (simp_all add: band_fraction_def)
  ultimately show ?thesis by auto
qed

definition band_factor :: "bool \<Rightarrow> decimal \<Rightarrow> int" where
  "band_factor bid offset = (if bid then 10 ^ 18 - band_fraction offset else 10 ^ 18 + band_fraction offset)"

lemma adjustPrice_value:
  assumes "0 \<le> dval offset" and "\<bar>dval p * band_factor bid offset\<bar> div 10 ^ 18 < 2 ^ 127"
  shows "\<exists>r. adjustPrice p offset bid = Inr r \<and> dval r = (dval p * band_factor bid offset) sdiv 10 ^ 18"
proof -
  obtain f where f: "divide_wide offset kTenThousand = Inr f" "dval f = band_fraction offset"
    using fraction_value [OF assms(1)] by blast
  have "10000 * (x div 10000) \<le> x" for x :: int by presburger
  from this [of "dval offset"] have fr: "0 \<le> band_fraction offset" "10000 * band_fraction offset < 2 ^ 127"
    using assms(1) dval_bounds(2) [of offset] by (simp_all add: band_fraction_def)
  have fac: "dval (if bid then kOne - f else kOne + f) = band_factor bid offset"
    using fr f(2) dval_plus_nonneg [of kOne f] dval_minus [of kOne f] by (simp add: band_factor_def kOne_dval)
  obtain r where r: "mult_wide p (if bid then kOne - f else kOne + f) = Inr r"
    "dval r = (dval p * band_factor bid offset) sdiv 10 ^ 18"
    using mult_wide_value [of p "if bid then kOne - f else kOne + f"] assms(2) unfolding fac by blast
  then show ?thesis using f(1) fromRaw_raw [of r]
    by (simp add: adjustPrice_def Let_def del: if_split)
qed

text \<open>Offsets of at most 100 percent keep the bid between zero and the best bid, and the ask above the best ask.\<close>

definition band_range :: "decimal \<Rightarrow> decimal \<Rightarrow> bool" where
  "band_range ask offset \<longleftrightarrow> 0 \<le> dval offset \<and> dval offset \<le> 10000 * 10 ^ 18 \<and> 2 * dval ask < 2 ^ 127"

lemma band_fraction_range:
  assumes "0 \<le> dval offset" and "dval offset \<le> 10000 * 10 ^ 18"
  shows "0 \<le> band_fraction offset" and "band_fraction offset \<le> 10 ^ 18"
  using assms by (simp_all add: band_fraction_def)

lemma adjust_bid:
  assumes "0 \<le> dval p" and "0 \<le> dval offset" and "dval offset \<le> 10000 * 10 ^ 18"
  shows "\<exists>r. adjustPrice p offset True = Inr r \<and> 0 \<le> dval r \<and> dval r \<le> dval p \<and>
    dval r = dval p * (10 ^ 18 - band_fraction offset) div 10 ^ 18"
proof -
  note fr = band_fraction_range [OF assms(2,3)]
  define F where "F = 10 ^ 18 - band_fraction offset"
  have F: "0 \<le> F" "F \<le> 10 ^ 18" using fr by (simp_all add: F_def)
  have le: "dval p * F div 10 ^ 18 \<le> dval p"
    using zdiv_mono1 [OF mult_left_mono [OF F(2) assms(1)], of "10 ^ 18"] by simp
  have nn: "0 \<le> dval p * F" using assms(1) F by simp
  have fac: "band_factor True offset = F" by (simp add: band_factor_def F_def)
  have "\<bar>dval p * band_factor True offset\<bar> div 10 ^ 18 < 2 ^ 127"
    unfolding fac abs_of_nonneg [OF nn] using le dval_bounds(2) [of p] by linarith
  from adjustPrice_value [OF assms(2) this]
  obtain r where r: "adjustPrice p offset True = Inr r" "dval r = (dval p * F) sdiv 10 ^ 18" unfolding fac by blast
  have d: "dval r = dval p * F div 10 ^ 18" unfolding r(2) by (rule sdiv_nonneg [OF nn]) simp
  have "0 \<le> dval p * F div 10 ^ 18" using nn by (simp add: pos_imp_zdiv_nonneg_iff)
  then have "0 \<le> dval r" "dval r \<le> dval p" using le unfolding d by simp_all
  then show ?thesis using r(1) d [unfolded F_def] by blast
qed

lemma adjust_ask:
  assumes "0 \<le> dval p" and "band_range p offset"
  shows "\<exists>r. adjustPrice p offset False = Inr r \<and> dval p \<le> dval r \<and>
    dval r = dval p * (10 ^ 18 + band_fraction offset) div 10 ^ 18"
proof -
  have off: "0 \<le> dval offset" "dval offset \<le> 10000 * 10 ^ 18" and p2: "2 * dval p < 2 ^ 127"
    using assms(2) by (simp_all add: band_range_def)
  note fr = band_fraction_range [OF off]
  define F where "F = 10 ^ 18 + band_fraction offset"
  have F: "10 ^ 18 \<le> F" "F \<le> 2 * 10 ^ 18" using fr by (simp_all add: F_def)
  have ge: "dval p \<le> dval p * F div 10 ^ 18"
    using zdiv_mono1 [OF mult_left_mono [OF F(1) assms(1)], of "10 ^ 18"] by simp
  have le: "dval p * F div 10 ^ 18 \<le> 2 * dval p"
    using zdiv_mono1 [OF mult_left_mono [OF F(2) assms(1)], of "10 ^ 18"] by (simp add: mult.assoc)
  have nn: "0 \<le> dval p * F" using assms(1) F by simp
  have fac: "band_factor False offset = F" by (simp add: band_factor_def F_def)
  have "\<bar>dval p * band_factor False offset\<bar> div 10 ^ 18 < 2 ^ 127"
    unfolding fac abs_of_nonneg [OF nn] using le p2 by linarith
  from adjustPrice_value [OF off(1) this]
  obtain r where r: "adjustPrice p offset False = Inr r" "dval r = (dval p * F) sdiv 10 ^ 18" unfolding fac by blast
  have d: "dval r = dval p * F div 10 ^ 18" unfolding r(2) by (rule sdiv_nonneg [OF nn]) simp
  have "dval p \<le> dval r" using ge unfolding d by simp
  then show ?thesis using r(1) d [unfolded F_def] by blast
qed

definition band_value :: "aggregated_quote \<Rightarrow> aggregated_quote \<Rightarrow> decimal \<Rightarrow> price_band_quote \<Rightarrow> bool" where
  "band_value bid ask offset q \<longleftrightarrow> offset_bps q = offset \<and>
     dval (pb_bid_price q) = dval (price bid) * (10 ^ 18 - band_fraction offset) div 10 ^ 18 \<and>
     dval (pb_ask_price q) = dval (price ask) * (10 ^ 18 + band_fraction offset) div 10 ^ 18 \<and>
     0 \<le> dval (pb_bid_price q) \<and> pb_bid_price q \<le> price bid \<and> price ask \<le> pb_ask_price q"

lemma band_quote_value:
  assumes "0 \<le> dval (price bid)" and "price bid < price ask" and "band_range (price ask) offset"
  shows "\<exists>q. band_quote bid ask offset = Inr q \<and> band_value bid ask offset q"
proof -
  have off: "0 \<le> dval offset" "dval offset \<le> 10000 * 10 ^ 18" using assms(3) by (simp_all add: band_range_def)
  have pa: "0 \<le> dval (price ask)" using assms(1,2) by (simp add: decimal_simps)
  obtain b where b: "adjustPrice (price bid) offset True = Inr b" "0 \<le> dval b" "dval b \<le> dval (price bid)"
    "dval b = dval (price bid) * (10 ^ 18 - band_fraction offset) div 10 ^ 18"
    using adjust_bid [OF assms(1) off] by blast
  obtain a where a: "adjustPrice (price ask) offset False = Inr a" "dval (price ask) \<le> dval a"
    "dval a = dval (price ask) * (10 ^ 18 + band_fraction offset) div 10 ^ 18"
    using adjust_ask [OF pa assms(3)] by blast
  have "b < a" using b(3) a(2) assms(2) by (simp add: decimal_simps)
  moreover have "0 \<le> b" "0 \<le> a" using b(2) a(2) pa by (simp_all add: decimal_simps)
  ultimately show ?thesis using b a
    by (simp add: band_quote_def band_value_def decimal_simps)
qed

lemma band_quotes_value:
  assumes "0 \<le> dval (price bid)" and "price bid < price ask" and "\<forall>offset \<in> set offsets. band_range (price ask) offset"
  shows "\<exists>qs. band_quotes bid ask offsets = Inr qs \<and> list_all2 (band_value bid ask) offsets qs"
  using assms(3)
proof (induction offsets)
  case (Cons offset offsets)
  then obtain qs where qs: "band_quotes bid ask offsets = Inr qs" "list_all2 (band_value bid ask) offsets qs" by auto
  obtain q where "band_quote bid ask offset = Inr q" "band_value bid ask offset q"
    using band_quote_value [OF assms(1,2)] Cons.prems by auto
  with qs show ?case by simp
qed simp

lemma negative_band_aborts:
  assumes "0 < dval (price bid)" and "0 \<le> dval (price ask)"
    and off: "dval offset = 20000 * 10 ^ 18" and "3 * dval (price ask) < 2 ^ 127"
  shows "\<exists>msg. band_quote bid ask offset = Inl (Abort msg)"
proof -
  have fr: "band_fraction offset = 2 * 10 ^ 18" by (simp add: band_fraction_def off)
  have fb: "dval (price bid) * band_factor True offset = - (dval (price bid) * 10 ^ 18)"
    and fa: "dval (price ask) * band_factor False offset = 3 * dval (price ask) * 10 ^ 18"
    by (simp_all add: band_factor_def fr)
  have qb: "\<bar>dval (price bid) * band_factor True offset\<bar> div 10 ^ 18 = dval (price bid)"
    unfolding fb using assms(1) by simp
  have qa: "\<bar>dval (price ask) * band_factor False offset\<bar> div 10 ^ 18 = 3 * dval (price ask)"
    unfolding fa using assms(2) by simp
  have nn: "0 \<le> dval offset" using off by simp
  obtain b where b: "adjustPrice (price bid) offset True = Inr b"
    "dval b = (dval (price bid) * band_factor True offset) sdiv 10 ^ 18"
    using adjustPrice_value [OF nn, of "price bid" True] qb dval_bounds(2) [of "price bid"] by auto
  obtain a where a: "adjustPrice (price ask) offset False = Inr a"
    using adjustPrice_value [OF nn, of "price ask" False] qa assms(4) by auto
  have "dval b < 0" unfolding b(2) fb using assms(1) by (simp add: signed_divide_int_def abs_mult sgn_mult)
  then have "\<not> 0 \<le> b" by (simp add: decimal_simps)
  then show ?thesis using a b(1) by (simp add: band_quote_def)
qed

text \<open>The money at a level, truncated as the product is, and the money in the first levels.\<close>

definition level_notional :: "price_level \<Rightarrow> int" where
  "level_notional l = dval (price l) * dval (quantity l) div 10 ^ 18"

definition cumulative :: "price_level list \<Rightarrow> nat \<Rightarrow> int" where
  "cumulative ls k = (\<Sum>l \<leftarrow> take k ls. level_notional l)"

definition measurable :: "price_level list \<Rightarrow> bool" where
  "measurable ls \<longleftrightarrow> (\<forall>l \<in> set ls. 0 \<le> dval (price l) \<and> 0 \<le> dval (quantity l)) \<and> cumulative ls (length ls) < 2 ^ 127"

lemma level_notional_nonneg: "0 \<le> dval (price l) \<Longrightarrow> 0 \<le> dval (quantity l) \<Longrightarrow> 0 \<le> level_notional l"
  by (simp add: level_notional_def pos_imp_zdiv_nonneg_iff)

lemma cumulative_0 [simp]: "cumulative ls 0 = 0"
  and cumulative_Suc_Cons [simp]: "cumulative (l # ls) (Suc k) = level_notional l + cumulative ls k"
  by (simp_all add: cumulative_def)

lemma cumulative_nonneg:
  "\<forall>l \<in> set ls. 0 \<le> dval (price l) \<and> 0 \<le> dval (quantity l) \<Longrightarrow> 0 \<le> cumulative ls k"
  unfolding cumulative_def by (rule sum_list_nonneg) (auto dest!: in_set_takeD intro: level_notional_nonneg)

definition reaches :: "price_level list \<Rightarrow> int \<Rightarrow> nat \<Rightarrow> bool" where
  "reaches ls t k \<longleftrightarrow> k < length ls \<and> t \<le> cumulative ls (Suc k) \<and> (\<forall>j < k. cumulative ls (Suc j) < t)"

lemma find_price_from_spec:
  "0 \<le> dval acc \<Longrightarrow> \<forall>l \<in> set ls. 0 \<le> dval (price l) \<and> 0 \<le> dval (quantity l) \<Longrightarrow>
   dval acc + cumulative ls (length ls) < 2 ^ 127 \<Longrightarrow>
   \<exists>r. find_price_from acc t ls = Inr r \<and>
     ((\<exists>k. reaches ls (dval t - dval acc) k \<and> r = price (ls ! k)) \<or>
      ((\<forall>k < length ls. cumulative ls (Suc k) < dval t - dval acc) \<and> r = 0))"
proof (induction ls arbitrary: acc)
  case Nil
  then show ?case by (simp add: zero_decimal_def)
next
  case (Cons l ls)
  have l: "0 \<le> dval (price l)" "0 \<le> dval (quantity l)" and ls: "\<forall>l \<in> set ls. 0 \<le> dval (price l) \<and> 0 \<le> dval (quantity l)"
    using Cons.prems(2) by simp_all
  have nn: "0 \<le> level_notional l" "0 \<le> cumulative ls (length ls)"
    using level_notional_nonneg [OF l] cumulative_nonneg [OF ls] by simp_all
  have total: "dval acc + level_notional l + cumulative ls (length ls) < 2 ^ 127"
    using Cons.prems(3) by simp
  have pq: "0 \<le> dval (price l) * dval (quantity l)" using l by simp
  have "level_notional l < 2 ^ 127" using total nn Cons.prems(1) by linarith
  then have "\<bar>dval (price l) * dval (quantity l)\<bar> div 10 ^ 18 < 2 ^ 127"
    unfolding abs_of_nonneg [OF pq] level_notional_def .
  from mult_wide_value [OF this] obtain m where m: "mult_wide (price l) (quantity l) = Inr m"
    "dval m = (dval (price l) * dval (quantity l)) sdiv 10 ^ 18" by blast
  have dm: "dval m = level_notional l"
    unfolding m(2) level_notional_def by (rule sdiv_nonneg [OF pq]) simp
  have acc: "dval (acc + m) = dval acc + level_notional l"
    using dval_plus_nonneg [of acc m] dm nn total Cons.prems(1) by simp
  show ?case
  proof (cases "t \<le> acc + m")
    case True
    then have "reaches (l # ls) (dval t - dval acc) 0" by (simp add: reaches_def decimal_simps acc)
    then show ?thesis using True m(1) by (intro exI [of _ "price l"]) (auto simp: fun_eq_iff)
  next
    case False
    then have lt: "level_notional l < dval t - dval acc" by (simp add: decimal_simps acc)
    have step: "find_price_from acc t (l # ls) = find_price_from (acc + m) t ls" using False m(1) by simp
    obtain r where r: "find_price_from (acc + m) t ls = Inr r"
      and alt: "(\<exists>k. reaches ls (dval t - dval (acc + m)) k \<and> r = price (ls ! k)) \<or>
        ((\<forall>k < length ls. cumulative ls (Suc k) < dval t - dval (acc + m)) \<and> r = 0)"
      using Cons.IH [of "acc + m"] ls acc nn total Cons.prems(1) by auto
    from alt show ?thesis
    proof
      assume "\<exists>k. reaches ls (dval t - dval (acc + m)) k \<and> r = price (ls ! k)"
      then obtain k where k: "reaches ls (dval t - dval (acc + m)) k" "r = price (ls ! k)" by blast
      have "reaches (l # ls) (dval t - dval acc) (Suc k)"
        using k(1) lt unfolding reaches_def acc by (auto simp: less_Suc_eq_0_disj simp del: cumulative_def)
      then show ?thesis using r k(2) step by auto
    next
      assume a: "(\<forall>k < length ls. cumulative ls (Suc k) < dval t - dval (acc + m)) \<and> r = 0"
      have "cumulative (l # ls) (Suc k) < dval t - dval acc" if "k < length (l # ls)" for k
        using a that lt unfolding acc by (cases k) auto
      then show ?thesis using r a step by auto
    qed
  qed
qed

lemma findPriceForThreshold_spec:
  assumes "measurable ls"
  shows "\<exists>r. findPriceForThreshold ls t = Inr r \<and>
    ((\<exists>k. reaches ls (dval t) k \<and> r = price (ls ! k)) \<or>
     ((\<forall>k < length ls. cumulative ls (Suc k) < dval t) \<and> r = 0))"
  using find_price_from_spec [of "fromRaw 0" ls t] assms
  by (simp add: findPriceForThreshold_def measurable_def fromRaw_def)

lemma reaches_mono:
  assumes "reaches ls t1 k1" and "reaches ls t2 k2" and "t1 \<le> t2"
  shows "k1 \<le> k2"
proof (rule ccontr)
  assume "\<not> k1 \<le> k2"
  then have "cumulative ls (Suc k2) < t1" using assms(1) by (auto simp: reaches_def)
  then show False using assms(2,3) by (auto simp: reaches_def)
qed

section \<open>Properties\<close>

text \<open>
  From a live book with non-negative prices, and offsets of at most 10000 basis points, every band is
  computed without an abort; the bid of an offset is the best bid scaled down and the ask the best ask
  scaled up, rounded towards zero, so a band encloses the spread.
\<close>

theorem price_bands_value:
  fixes view cache
  defines "bid \<equiv> effective_best (best_bid view) (bid_levels view)"
    and "ask \<equiv> effective_best (best_ask view) (ask_levels view)"
  assumes "has_live_best bid ask" and "0 \<le> dval (price bid)" and "\<forall>offset \<in> set offsets. band_range (price ask) offset"
  shows "\<exists>qs. compute_price_bands offsets cache view =
      (cache\<lparr> cached_best_bid := bid, cached_best_ask := ask, have_cached_best := True \<rparr>, Inr qs) \<and>
    list_all2 (band_value bid ask) offsets qs"
proof -
  have l: "price bid < price ask" using assms(3) by (simp add: has_live_best_def)
  from band_quotes_value [OF assms(4) l assms(5)] obtain qs
    where "band_quotes bid ask offsets = Inr qs" "list_all2 (band_value bid ask) offsets qs" by blast
  then show ?thesis using assms(3) l unfolding bid_def ask_def
    by (simp add: compute_price_bands_def checked_quotes_def Let_def)
qed

definition small_view :: aggregated_book_view where
  "small_view = empty_view\<lparr> bid_levels := [mk_level (fromInteger 100) (fromInteger 5)],
     ask_levels := [mk_level (fromInteger 101) (fromInteger 2)],
     best_bid := mk_level (fromInteger 100) (fromInteger 5), best_ask := mk_level (fromInteger 101) (fromInteger 2) \<rparr>"

lemma small_view_best:
  "effective_best (best_bid small_view) (bid_levels small_view) = mk_level (fromInteger 100) (fromInteger 5)"
  "effective_best (best_ask small_view) (ask_levels small_view) = mk_level (fromInteger 101) (fromInteger 2)"
  by (simp_all add: effective_best_def small_view_def mk_level_def)

theorem price_bands_value_witness:
  "\<exists>qs. snd (compute_price_bands defaultOffsets empty_band_cache small_view) = Inr qs \<and>
     list_all2 (band_value (mk_level (fromInteger 100) (fromInteger 5)) (mk_level (fromInteger 101) (fromInteger 2)))
       defaultOffsets qs"
proof -
  have l: "has_live_best (mk_level (fromInteger 100) (fromInteger 5)) (mk_level (fromInteger 101) (fromInteger 2))"
    by code_simp
  have o: "\<forall>offset \<in> set defaultOffsets. band_range (price (mk_level (fromInteger 101) (fromInteger 2))) offset"
    by (simp add: defaultOffsets_def band_range_def fromInteger_dval)
  have n: "0 \<le> dval (price (mk_level (fromInteger 100) (fromInteger 5)))" by (simp add: fromInteger_dval)
  show ?thesis
    using price_bands_value [of small_view defaultOffsets empty_band_cache, unfolded small_view_best, OF l n o] by auto
qed

definition depth_price :: "price_level list \<Rightarrow> decimal \<Rightarrow> decimal \<Rightarrow> bool" where
  "depth_price ls t r \<longleftrightarrow> (\<exists>k. reaches ls (dval t) k \<and> r = price (ls ! k)) \<or>
     ((\<forall>k < length ls. cumulative ls (Suc k) < dval t) \<and> r = 0)"

lemma findPriceForThreshold_depth:
  "measurable ls \<Longrightarrow> \<exists>r. findPriceForThreshold ls t = Inr r \<and> depth_price ls t r"
  unfolding depth_price_def by (rule findPriceForThreshold_spec)

lemma volume_quotes_depth:
  assumes "measurable bids" and "measurable asks"
  shows "\<exists>qs. volume_quotes bids asks ts = Inr qs \<and>
    list_all2 (\<lambda>t q. notional q = t \<and> depth_price bids t (vb_bid_price q) \<and> depth_price asks t (vb_ask_price q)) ts qs"
proof (induction ts)
  case (Cons t ts)
  obtain b a where "findPriceForThreshold bids t = Inr b" "depth_price bids t b"
    "findPriceForThreshold asks t = Inr a" "depth_price asks t a"
    using findPriceForThreshold_depth [OF assms(1)] findPriceForThreshold_depth [OF assms(2)] by blast
  with Cons show ?case by auto
qed simp

text \<open>
  C31: the price of a threshold is that of the first level at which the money accumulated from the best
  level on reaches it, and zero when the side holds less.
\<close>

theorem volume_bands_value:
  fixes view
  defines "bids \<equiv> normalizeLevels (bid_levels view) (best_bid view)"
    and "asks \<equiv> normalizeLevels (ask_levels view) (best_ask view)"
  assumes "measurable bids" and "measurable asks"
  shows "\<exists>qs. compute_volume_bands ts view = Inr qs \<and>
    list_all2 (\<lambda>t q. notional q = t \<and> depth_price bids t (vb_bid_price q) \<and> depth_price asks t (vb_ask_price q)) ts qs"
  using volume_quotes_depth [OF assms(3,4)] unfolding compute_volume_bands_def bids_def asks_def by blast

theorem volume_bands_value_witness:
  "\<exists>qs. compute_volume_bands [fromInteger 300] small_view = Inr qs \<and>
     depth_price [mk_level (fromInteger 100) (fromInteger 5)] (fromInteger 300) (vb_bid_price (hd qs))"
proof -
  have n: "normalizeLevels (bid_levels small_view) (best_bid small_view) = [mk_level (fromInteger 100) (fromInteger 5)]"
    "normalizeLevels (ask_levels small_view) (best_ask small_view) = [mk_level (fromInteger 101) (fromInteger 2)]"
    by (simp_all add: normalizeLevels_def small_view_def)
  have m: "measurable [mk_level (fromInteger 100) (fromInteger 5)]" "measurable [mk_level (fromInteger 101) (fromInteger 2)]"
    by (simp_all add: measurable_def fromInteger_dval cumulative_def level_notional_def)
  show ?thesis using volume_bands_value [of small_view "[fromInteger 300]", unfolded n, OF m]
    by (auto simp: list_all2_Cons1)
qed

end
