(* ===== verification/Services.thy ===== *)
theory Services
  imports Decimal Enum_Support
begin

text \<open>
  The services around the engine: the CSV header guard (src/services/common/csv_utils.cpp), the wait for
  the feed hosts (src/services/aggregator_service/feed_wait.cpp) and the replay of recorded payloads by
  the demo exchange (\<open>PayloadCycler\<close> in src/services/cex_type1_service/main.cpp). A file is its
  contents, or \<open>None\<close> when it does not exist; whether it can be opened is a parameter. The loops that
  wait for something outside the program take fuel, and the lemmas say when a bounded amount is enough.
\<close>

section \<open>CSV headers\<close>

type_synonym csv_file = "string option"

abbreviation NL :: char where "NL \<equiv> CHR 0x0A"
abbreviation CR :: char where "CR \<equiv> CHR 0x0D"
abbreviation NUL :: char where "NUL \<equiv> CHR 0x00"

definition drop_if :: "char \<Rightarrow> string \<Rightarrow> string" where
  "drop_if c s = (case s of x # xs \<Rightarrow> if x = c then xs else s | [] \<Rightarrow> [])"

definition stripHeaderIfPresent :: "string \<Rightarrow> string \<Rightarrow> string" where
  "stripHeaderIfPresent data header =
     (if take (length header) data \<noteq> header then data
      else drop_if NL (drop_if CR (drop (length header) data)))"

definition writeHeaderOnly :: "bool \<Rightarrow> string \<Rightarrow> csv_file \<Rightarrow> bool \<times> csv_file" where
  "writeHeaderOnly writable header f = (if writable then (True, Some (header @ [NL])) else (False, f))"

definition first_line :: "string \<Rightarrow> string" where
  "first_line contents =
     (let l = takeWhile (\<lambda>c. c \<noteq> NL) contents
      in if l \<noteq> [] \<and> last l = CR then butlast l else l)"

definition ensureCsvHasHeader :: "bool \<Rightarrow> bool \<Rightarrow> string \<Rightarrow> csv_file \<Rightarrow> bool \<times> csv_file" where
  "ensureCsvHasHeader readable writable header f =
     (case f of
        None \<Rightarrow> writeHeaderOnly writable header f
      | Some contents \<Rightarrow>
          if contents = [] then writeHeaderOnly writable header f
          else if \<not> readable then (False, f)
          else if NUL \<notin> set contents \<and> first_line contents = header then (True, f)
          else (let sanitized = stripHeaderIfPresent (filter (\<lambda>c. c \<noteq> NUL) contents) header
                in if \<not> writable then (False, f) else (True, Some (header @ [NL] @ sanitized))))"

definition plain_header :: "string \<Rightarrow> bool" where
  "plain_header header \<longleftrightarrow> NL \<notin> set header \<and> NUL \<notin> set header \<and> (header = [] \<or> last header \<noteq> CR)"

lemma first_line_header:
  assumes "plain_header header"
  shows "first_line (header @ NL # rest) = header"
proof -
  have "\<forall>c \<in> set header. c \<noteq> NL" using assms by (auto simp: plain_header_def)
  then have "takeWhile (\<lambda>c. c \<noteq> NL) (header @ NL # rest) = header" by (simp add: takeWhile_append)
  then show ?thesis using assms by (auto simp: first_line_def plain_header_def)
qed

lemma drop_if_subset: "set (drop_if c s) \<subseteq> set s"
  by (auto simp: drop_if_def split: list.splits if_splits)

lemma strip_subset: "set (stripHeaderIfPresent data header) \<subseteq> set data"
  unfolding stripHeaderIfPresent_def
  using drop_if_subset [of NL "drop_if CR (drop (length header) data)"] drop_if_subset [of CR "drop (length header) data"]
    set_drop_subset [of "length header" data] by auto

lemma ensureCsv_post:
  assumes "plain_header header" and "ensureCsvHasHeader r w header f = (True, f')"
  shows "\<exists>c. f' = Some c \<and> c \<noteq> [] \<and> NUL \<notin> set c \<and> first_line c = header"
proof -
  have h: "NUL \<notin> set header" using assms(1) by (simp add: plain_header_def)
  have w: "\<exists>c. f' = Some c \<and> c \<noteq> [] \<and> NUL \<notin> set c \<and> first_line c = header"
    if "writeHeaderOnly w header f = (True, f')"
    using that h first_line_header [OF assms(1), of "[]"] by (auto simp: writeHeaderOnly_def split: if_splits)
  show ?thesis
  proof (cases f)
    case None
    with assms(2) w show ?thesis by (simp add: ensureCsvHasHeader_def)
  next
    case (Some c)
    show ?thesis
    proof (cases "c = []")
      case True
      with assms(2) Some w show ?thesis by (simp add: ensureCsvHasHeader_def)
    next
      case False
      have "NUL \<notin> set (stripHeaderIfPresent (filter (\<lambda>c. c \<noteq> NUL) c) header)"
        using strip_subset [of "filter (\<lambda>c. c \<noteq> NUL) c" header] by auto
      then show ?thesis using assms(2) Some False h first_line_header [OF assms(1)]
        by (auto simp: ensureCsvHasHeader_def Let_def split: if_splits)
    qed
  qed
qed

lemma ensureCsv_idempotent:
  assumes "plain_header header" and "ensureCsvHasHeader r w header f = (True, f')"
  shows "ensureCsvHasHeader True w' header f' = (True, f')"
  using ensureCsv_post [OF assms] by (auto simp: ensureCsvHasHeader_def)

text \<open>A first line that merely starts with the header loses that prefix.\<close>

lemma header_prefix_eaten:
  "ensureCsvHasHeader True True ''ts,bid'' (Some (''ts,bid2'' @ [NL] @ ''1,2'')) =
   (True, Some (''ts,bid'' @ [NL] @ ''2'' @ [NL] @ ''1,2''))"
  by code_simp

section \<open>Waiting for feeds\<close>

definition to_lower :: "char \<Rightarrow> char" where
  "to_lower c = (let n = (of_char c :: nat) in if 65 \<le> n \<and> n \<le> 90 then char_of (n + 32) else c)"

definition normalizeEnvValue :: "string option \<Rightarrow> string" where
  "normalizeEnvValue env =
     (case env of None \<Rightarrow> [] | Some v \<Rightarrow> map to_lower (filter (\<lambda>c. \<not> isWhitespace c) v))"

definition shouldWaitForFeeds :: "string option \<Rightarrow> bool" where
  "shouldWaitForFeeds env =
     (let n = normalizeEnvValue env
      in if n = [] then True else \<not> (n = ''0'' \<or> n = ''false'' \<or> n = ''no'' \<or> n = ''off''))"

text \<open>\<open>uri_host\<close> is \<open>Poco::URI(url).getHost()\<close>, \<open>None\<close> when the constructor throws.\<close>

fun collect_hosts :: "(string \<Rightarrow> string option) \<Rightarrow> string list \<Rightarrow> string list \<Rightarrow> string set \<Rightarrow> string list" where
  "collect_hosts uri_host [] hosts seen = hosts"
| "collect_hosts uri_host (url # urls) hosts seen =
     (case uri_host url of
        None \<Rightarrow> collect_hosts uri_host urls hosts seen
      | Some host \<Rightarrow>
          if host \<noteq> [] \<and> host \<notin> seen
          then collect_hosts uri_host urls (hosts @ [host]) (insert host seen)
          else collect_hosts uri_host urls hosts seen)"

definition collectFeedHosts :: "(string \<Rightarrow> string option) \<Rightarrow> string list \<Rightarrow> string list" where
  "collectFeedHosts uri_host urls = collect_hosts uri_host urls [] {}"

lemma collect_hosts_spec:
  "distinct hosts \<Longrightarrow> seen = set hosts \<Longrightarrow>
   distinct (collect_hosts uri_host urls hosts seen) \<and>
   set (collect_hosts uri_host urls hosts seen) = set hosts \<union> {h. h \<noteq> [] \<and> Some h \<in> uri_host ` set urls}"
proof (induction urls arbitrary: hosts seen)
  case (Cons url urls)
  show ?case
  proof (cases "uri_host url")
    case None
    with Cons.IH [OF Cons.prems] show ?thesis by auto
  next
    case (Some host)
    show ?thesis
    proof (cases "host \<noteq> [] \<and> host \<notin> seen")
      case True
      with Cons.prems have "distinct (hosts @ [host])" "insert host seen = set (hosts @ [host])" by auto
      from Cons.IH [OF this] Some True Cons.prems show ?thesis by auto
    next
      case False
      with Cons.IH [OF Cons.prems] Some Cons.prems show ?thesis by auto
    qed
  qed
qed simp

text \<open>
  The retry loop. \<open>runs t\<close> is the value of the flag at its \<open>t\<close>-th reading and \<open>resolves t h\<close> the
  answer of the resolver called after that reading (\<open>None\<close>: resolved, \<open>Some\<close>: an error text).
\<close>

datatype host_wait = Resolved nat | Interrupted nat | Out_of_fuel

fun wait_host :: "nat \<Rightarrow> (nat \<Rightarrow> bool) \<Rightarrow> (nat \<Rightarrow> string \<Rightarrow> string option) \<Rightarrow> string \<Rightarrow> nat \<Rightarrow> host_wait" where
  "wait_host 0 runs resolves host t = Out_of_fuel"
| "wait_host (Suc fuel) runs resolves host t =
     (if \<not> runs t then Interrupted (Suc t)
      else (case resolves t host of
              None \<Rightarrow> Resolved (Suc t)
            | Some error \<Rightarrow>
                if \<not> runs (Suc t) then Interrupted (Suc (Suc t))
                else wait_host fuel runs resolves host (Suc (Suc t))))"

text \<open>The hosts resolved before the wait ended, and whether it was interrupted.\<close>

fun waitForFeedHosts ::
  "nat \<Rightarrow> (nat \<Rightarrow> bool) \<Rightarrow> (nat \<Rightarrow> string \<Rightarrow> string option) \<Rightarrow> string list \<Rightarrow> nat \<Rightarrow> (string list \<times> bool) option" where
  "waitForFeedHosts fuel runs resolves [] t = Some ([], False)"
| "waitForFeedHosts fuel runs resolves (host # hosts) t =
     (case wait_host fuel runs resolves host t of
        Out_of_fuel \<Rightarrow> None
      | Interrupted t' \<Rightarrow> (if \<not> runs t' then Some ([], True)
          else map_option (\<lambda>(hs, i). (hs, i)) (waitForFeedHosts fuel runs resolves hosts (Suc t')))
      | Resolved t' \<Rightarrow> (if \<not> runs t' then Some ([host], True)
          else map_option (\<lambda>(hs, i). (host # hs, i)) (waitForFeedHosts fuel runs resolves hosts (Suc t'))))"

definition stays_down :: "(nat \<Rightarrow> bool) \<Rightarrow> bool" where
  "stays_down runs \<longleftrightarrow> (\<forall>t. \<not> runs t \<longrightarrow> \<not> runs (Suc t))"

lemma stays_downD: "stays_down runs \<Longrightarrow> \<not> runs t \<Longrightarrow> t \<le> t' \<Longrightarrow> \<not> runs t'"
  by (induction t' rule: nat_induct) (auto simp: stays_down_def le_Suc_eq)

text \<open>Without an interruption the wait succeeds only with every host resolved, in order.\<close>

lemma waitForFeedHosts_complete:
  assumes "stays_down runs" and "waitForFeedHosts fuel runs resolves hosts t = Some (hs, False)"
  shows "hs = hosts"
  using assms(2)
proof (induction hosts arbitrary: hs t)
  case (Cons host hosts)
  have i: "\<not> runs t'" if "wait_host fuel runs resolves host t = Interrupted t'" for t'
    using that assms(1)
  proof (induction fuel arbitrary: t)
    case (Suc fuel)
    then show ?case
      by (auto split: if_splits option.splits dest: stays_downD [OF assms(1)] simp: stays_down_def)
  qed simp
  show ?case using Cons i by (auto split: host_wait.splits if_splits)
qed simp

section \<open>Replaying payloads\<close>

text \<open>\<open>std::string::find\<close> of a pattern: the text from the first occurrence on.\<close>

fun find_from :: "string \<Rightarrow> string \<Rightarrow> string option" where
  "find_from pat s = (if take (length pat) s = pat then Some s else (case s of [] \<Rightarrow> None | _ # cs \<Rightarrow> find_from pat cs))"

declare find_from.simps [simp del]

definition strtoull :: "string \<Rightarrow> u64" where
  "strtoull ds = (let n = digits_nat ds 0 in if n < 2 ^ 64 then word_of_nat n else - 1)"

definition extractSequence :: "string \<Rightarrow> u64" where
  "extractSequence line =
     (case find_from (CHR 0x22 # ''sequence'' @ [CHR 0x22]) line of
        None \<Rightarrow> 0
      | Some s \<Rightarrow>
          (case find_from '':'' s of
             None \<Rightarrow> 0
           | Some t \<Rightarrow>
               (let rest = dropWhile isWhitespace (tl t);
                    ds = takeWhile is_digit_char rest
                in if ds = [] then 0 else strtoull ds)))"

record cycler =
  file_lines :: "string list"
  unread :: "string list"
  skip_until :: u64
  past_threshold :: bool

definition new_cycler :: "string list \<Rightarrow> u64 \<Rightarrow> cycler" where
  "new_cycler ls skip = \<lparr> file_lines = ls, unread = ls, skip_until = skip, past_threshold = (skip = 0) \<rparr>"

definition sequenceAllows :: "cycler \<Rightarrow> string \<Rightarrow> bool" where
  "sequenceAllows c line = (if skip_until c = 0 then True else skip_until c \<le> extractSequence line)"

text \<open>\<open>next\<close>: one unit of fuel per round of its endless loop.\<close>

fun next_payload :: "nat \<Rightarrow> cycler \<Rightarrow> (string \<times> cycler) option" where
  "next_payload 0 c = None"
| "next_payload (Suc fuel) c =
     (case unread c of
        [] \<Rightarrow> next_payload fuel (c\<lparr> unread := file_lines c \<rparr>)
      | line # ls \<Rightarrow>
          (let c1 = c\<lparr> unread := ls \<rparr>
           in if line = [] then next_payload fuel c1
              else if \<not> past_threshold c1 \<and> \<not> sequenceAllows c1 line then next_payload fuel c1
              else Some (line, c1\<lparr> past_threshold := True \<rparr>)))"

definition acceptable :: "cycler \<Rightarrow> string \<Rightarrow> bool" where
  "acceptable c line \<longleftrightarrow> line \<noteq> [] \<and> (past_threshold c \<or> sequenceAllows c line)"

lemma acceptable_unread [simp]: "acceptable (c\<lparr>unread := u\<rparr>) l = acceptable c l"
  by (simp add: acceptable_def sequenceAllows_def)

lemma next_payload_Cons:
  "unread c = l # ls \<Longrightarrow> next_payload (Suc fuel) c =
     (if acceptable c l then Some (l, c\<lparr>unread := ls, past_threshold := True\<rparr>)
      else next_payload fuel (c\<lparr>unread := ls\<rparr>))"
  by (simp add: acceptable_def sequenceAllows_def Let_def)

lemma next_payload_Nil:
  "unread c = [] \<Longrightarrow> next_payload (Suc fuel) c = next_payload fuel (c\<lparr>unread := file_lines c\<rparr>)"
  by simp

declare next_payload.simps(2) [simp del]

lemma next_payload_result:
  "next_payload fuel c = Some (line, c') \<Longrightarrow>
   acceptable c line \<and> (line \<in> set (unread c) \<or> line \<in> set (file_lines c)) \<and>
   past_threshold c' \<and> file_lines c' = file_lines c \<and> skip_until c' = skip_until c"
proof (induction fuel arbitrary: c)
  case (Suc fuel)
  show ?case
  proof (cases "unread c")
    case Nil
    then show ?thesis using Suc.IH [of "c\<lparr>unread := file_lines c\<rparr>"] Suc.prems
      by (simp add: next_payload_Nil)
  next
    case (Cons l ls)
    then show ?thesis using Suc.IH [of "c\<lparr>unread := ls\<rparr>"] Suc.prems
      by (auto simp: next_payload_Cons split: if_splits)
  qed
qed simp

lemma next_payload_skips:
  "unread c = xs @ line # ys \<Longrightarrow> \<forall>x \<in> set xs. \<not> acceptable c x \<Longrightarrow> acceptable c line \<Longrightarrow> length xs < fuel \<Longrightarrow>
   next_payload fuel c = Some (line, c\<lparr> unread := ys, past_threshold := True \<rparr>)"
proof (induction xs arbitrary: c fuel)
  case Nil
  then show ?case by (cases fuel) (auto simp: next_payload_Cons)
next
  case (Cons x xs)
  then obtain fuel' where fuel: "fuel = Suc fuel'" by (cases fuel) auto
  have "next_payload fuel c = next_payload fuel' (c\<lparr>unread := xs @ line # ys\<rparr>)"
    using Cons.prems(1,2) by (simp add: fuel next_payload_Cons)
  moreover have "next_payload fuel' (c\<lparr>unread := xs @ line # ys\<rparr>) =
      Some (line, c\<lparr>unread := xs @ line # ys, unread := ys, past_threshold := True\<rparr>)"
    by (rule Cons.IH) (use Cons.prems fuel in auto)
  ultimately show ?case by simp
qed

lemma next_payload_skips_list:
  "unread c = us \<Longrightarrow> \<forall>x \<in> set us. \<not> acceptable c x \<Longrightarrow>
   next_payload (Suc (length us + fuel)) c = next_payload fuel (c\<lparr>unread := file_lines c\<rparr>)"
proof (induction us arbitrary: c)
  case Nil
  then show ?case by (simp add: next_payload_Nil)
next
  case (Cons l ls)
  then show ?case using Cons.IH [of "c\<lparr>unread := ls\<rparr>"] by (simp add: next_payload_Cons [OF Cons.prems(1)])
qed

lemmas next_payload_skips_all = next_payload_skips_list [OF refl]

lemma next_payload_returns:
  assumes "\<exists>x \<in> set (file_lines c). acceptable c x"
  shows "\<exists>line c'. next_payload (length (unread c) + length (file_lines c) + 2) c = Some (line, c')"
proof -
  have found: "\<exists>line c'. next_payload fuel d = Some (line, c')"
    if ex: "\<exists>x \<in> set (unread d). acceptable d x" and f: "length (unread d) \<le> fuel" for d fuel
  proof -
    obtain xs l ys where s: "unread d = xs @ l # ys" "acceptable d l" "\<forall>x \<in> set xs. \<not> acceptable d x"
      using split_list_first_prop [OF ex] by blast
    with f next_payload_skips [of d xs l ys fuel] show ?thesis by auto
  qed
  show ?thesis
  proof (cases "\<exists>x \<in> set (unread c). acceptable c x")
    case True
    then show ?thesis by (rule found) simp
  next
    case False
    then have "next_payload (Suc (length (unread c) + (length (file_lines c) + 1))) c =
        next_payload (length (file_lines c) + 1) (c\<lparr>unread := file_lines c\<rparr>)"
      by (intro next_payload_skips_all) blast
    moreover have "\<exists>line c'. next_payload (length (file_lines c) + 1) (c\<lparr>unread := file_lines c\<rparr>) = Some (line, c')"
      by (rule found) (use assms in simp_all)
    ultimately show ?thesis by simp
  qed
qed

lemma next_payload_diverges:
  "\<forall>x \<in> set (unread c) \<union> set (file_lines c). \<not> acceptable c x \<Longrightarrow> next_payload fuel c = None"
proof (induction fuel arbitrary: c)
  case (Suc fuel)
  show ?case
  proof (cases "unread c")
    case Nil
    then show ?thesis using Suc.IH [of "c\<lparr>unread := file_lines c\<rparr>"] Suc.prems by (simp add: next_payload_Nil)
  next
    case (Cons l ls)
    then show ?thesis using Suc.IH [of "c\<lparr>unread := ls\<rparr>"] Suc.prems by (simp add: next_payload_Cons)
  qed
qed simp

section \<open>Properties\<close>

text \<open>
  C37: when the header guard reports success the file exists, starts with the header line and holds no NUL
  byte, and running the guard again leaves it as it is.
\<close>

theorem csv_header_ensured:
  assumes "plain_header header" and "ensureCsvHasHeader r w header f = (True, f')"
  shows "(\<exists>c. f' = Some c \<and> NUL \<notin> set c \<and> first_line c = header) \<and>
    ensureCsvHasHeader True w' header f' = (True, f')"
  using ensureCsv_post [OF assms] ensureCsv_idempotent [OF assms] by blast

theorem csv_header_ensured_witness:
  "ensureCsvHasHeader True False ''ts,bid'' (Some ([CHR ''t'', CHR ''s'', CHR '','', CHR ''b'', CHR ''i'', CHR ''d'', NL])) =
     (True, Some [CHR ''t'', CHR ''s'', CHR '','', CHR ''b'', CHR ''i'', CHR ''d'', NL])"
proof -
  have p: "plain_header ''ts,bid''" by code_simp
  have e: "ensureCsvHasHeader True True ''ts,bid'' None =
      (True, Some [CHR ''t'', CHR ''s'', CHR '','', CHR ''b'', CHR ''i'', CHR ''d'', NL])" by code_simp
  from csv_header_ensured [OF p e, of False] show ?thesis by blast
qed

text \<open>
  C36: the replay returns a line, within one pass over the rest and one over the file, when some line of the
  file is acceptable, and the line it returns is acceptable; when no line is, its loop never ends.
\<close>

theorem next_payload_total:
  "((\<exists>x \<in> set (file_lines c). acceptable c x) \<longrightarrow>
      (\<exists>line c'. next_payload (length (unread c) + length (file_lines c) + 2) c = Some (line, c') \<and> acceptable c line)) \<and>
   ((\<forall>x \<in> set (unread c) \<union> set (file_lines c). \<not> acceptable c x) \<longrightarrow> (\<forall>fuel. next_payload fuel c = None))"
  using next_payload_returns [of c] next_payload_result [of _ c] next_payload_diverges [of c] by blast

theorem next_payload_total_witness:
  "\<forall>fuel. next_payload fuel (new_cycler [''a''] 5) = None"
proof -
  have "\<not> acceptable (new_cycler [''a''] 5) ''a''" by code_simp
  then show ?thesis using next_payload_total [of "new_cycler [''a''] 5"] by (simp add: new_cycler_def)
qed

text \<open>
  the feed hosts waited for are the distinct, non-empty hosts of the configured addresses, and the wait
  reports success only when every one of them has been resolved, in order.
\<close>

theorem feed_wait_complete:
  assumes "stays_down runs" and "waitForFeedHosts fuel runs resolves (collectFeedHosts uri_host urls) t = Some (hs, False)"
  shows "hs = collectFeedHosts uri_host urls \<and> distinct hs \<and>
    set hs = {h. h \<noteq> [] \<and> Some h \<in> uri_host ` set urls}"
  using waitForFeedHosts_complete [OF assms] collect_hosts_spec [of "[]" "{}" uri_host urls]
  by (auto simp: collectFeedHosts_def)

theorem feed_wait_complete_witness: "collectFeedHosts (\<lambda>u. Some u) [''a'', ''b'', ''a''] = [''a'', ''b'']"
proof -
  have w: "waitForFeedHosts 5 (\<lambda>t. True) (\<lambda>t h. None) (collectFeedHosts (\<lambda>u. Some u) [''a'', ''b'', ''a'']) 0 =
      Some ([''a'', ''b''], False)"
    by (simp add: collectFeedHosts_def numeral_eq_Suc)
  have d: "stays_down (\<lambda>t. True)" by (simp add: stays_down_def)
  from feed_wait_complete [OF d w] show ?thesis by simp
qed

end
