(* ===== verification/Exporters.thy ===== *)
theory Exporters
  imports Bands Services
begin

text \<open>
  The three exporting services: src/services/bbo_service/main.cpp,
  src/services/price_bands_service/main.cpp and src/services/volume_bands_service/main.cpp. Each reads its
  command line, guards the header of its CSV file, opens the file for appending and then appends rows for
  every view its stream client receives until a signal arrives. The received views and the success of the
  file operations are parameters; a file is its contents. The rows are checked against a reader of comma
  separated text, through a locale that the three services interpret.
\<close>

section \<open>Command line\<close>

record service_args =
  arg_endpoint :: string
  arg_token :: string
  arg_symbol :: string
  arg_csv_path :: string

text \<open>\<open>argv\<close> with the program's name in front, as \<open>main\<close> gets it.\<close>

definition arg_or :: "string list \<Rightarrow> nat \<Rightarrow> string \<Rightarrow> string" where
  "arg_or argv i fallback = (if i < length argv then argv ! i else fallback)"

definition service_arguments :: "string \<Rightarrow> string list \<Rightarrow> service_args" where
  "service_arguments csv_default argv =
     \<lparr> arg_endpoint = arg_or argv 1 ''127.0.0.1:50051'', arg_token = arg_or argv 2 [],
       arg_symbol = arg_or argv 3 ''BTCUSDT'', arg_csv_path = arg_or argv 4 csv_default \<rparr>"

section \<open>Rows\<close>

text \<open>The fields of a row, separated by commas and closed by a newline.\<close>

fun csv_row :: "string list \<Rightarrow> string" where
  "csv_row [] = [NL]"
| "csv_row [f] = f @ [NL]"
| "csv_row (f # fs) = f @ '','' @ csv_row fs"

definition i64_text :: "i64 \<Rightarrow> string" where
  "i64_text w = int_text (sint w)"

definition row_timestamp :: "aggregated_book_view \<Rightarrow> i64" where
  "row_timestamp view = (if publish_timestamp_ns view = 0 then timestamp view else publish_timestamp_ns view)"

definition both_sides :: "aggregated_book_view \<Rightarrow> bool" where
  "both_sides view \<longleftrightarrow> fromRaw 0 < quantity (best_bid view) \<and> fromRaw 0 < quantity (best_ask view)"

definition check_export :: "string \<Rightarrow> aggregated_book_view \<Rightarrow> unit outcome" where
  "check_export msg view =
     (if both_sides view then assert_debug (price (best_bid view) \<le> price (best_ask view)) msg else Inr ())"

definition bbo_header :: string where
  "bbo_header =
     ''timestamp_ns,symbol,best_bid_price,best_bid_quantity,best_ask_price,best_ask_quantity,exchange_count,'' @
     ''last_feed_timestamp_ns,last_local_timestamp_ns,min_feed_timestamp_ns,max_feed_timestamp_ns,'' @
     ''min_local_timestamp_ns,max_local_timestamp_ns,publish_timestamp_ns''"

definition bbo_fields :: "string \<Rightarrow> aggregated_book_view \<Rightarrow> string list" where
  "bbo_fields symbol view =
     [i64_text (row_timestamp view), symbol,
      toString 8 (price (best_bid view)), toString 8 (quantity (best_bid view)),
      toString 8 (price (best_ask view)), toString 8 (quantity (best_ask view)),
      nat_text (unat (exchange_count view)),
      i64_text (last_feed_timestamp_ns view), i64_text (last_local_timestamp_ns view),
      i64_text (min_feed_timestamp_ns view), i64_text (max_feed_timestamp_ns view),
      i64_text (min_local_timestamp_ns view), i64_text (max_local_timestamp_ns view),
      i64_text (row_timestamp view)]"

definition price_header :: string where
  "price_header =
     ''timestamp_ns,symbol,offset_bps,bid_price,ask_price,last_feed_timestamp_ns,last_local_timestamp_ns,'' @
     ''min_feed_timestamp_ns,max_feed_timestamp_ns,min_local_timestamp_ns,max_local_timestamp_ns,publish_timestamp_ns''"

definition price_fields :: "string \<Rightarrow> aggregated_book_view \<Rightarrow> price_band_quote \<Rightarrow> string list" where
  "price_fields symbol view q =
     [i64_text (row_timestamp view), symbol, toString 0 (offset_bps q),
      toString 8 (pb_bid_price q), toString 8 (pb_ask_price q),
      i64_text (last_feed_timestamp_ns view), i64_text (last_local_timestamp_ns view),
      i64_text (min_feed_timestamp_ns view), i64_text (max_feed_timestamp_ns view),
      i64_text (min_local_timestamp_ns view), i64_text (max_local_timestamp_ns view),
      i64_text (row_timestamp view)]"

definition volume_header :: string where
  "volume_header =
     ''timestamp_ns,symbol,notional,bid_price,ask_price,last_feed_timestamp_ns,last_local_timestamp_ns,'' @
     ''min_feed_timestamp_ns,max_feed_timestamp_ns,min_local_timestamp_ns,max_local_timestamp_ns,publish_timestamp_ns''"

definition volume_fields :: "string \<Rightarrow> aggregated_book_view \<Rightarrow> volume_band_quote \<Rightarrow> string list" where
  "volume_fields symbol view q =
     [i64_text (row_timestamp view), symbol, toString 0 (notional q),
      toString 8 (vb_bid_price q), toString 8 (vb_ask_price q),
      i64_text (last_feed_timestamp_ns view), i64_text (last_local_timestamp_ns view),
      i64_text (min_feed_timestamp_ns view), i64_text (max_feed_timestamp_ns view),
      i64_text (min_local_timestamp_ns view), i64_text (max_local_timestamp_ns view),
      i64_text (row_timestamp view)]"

section \<open>Callbacks\<close>

text \<open>What a callback changes: the open file, the lines logged at level info, the calculator's cache.\<close>

record export_state =
  csv_text :: string
  info_lines :: "string list"
  calculator :: band_cache

definition write_row :: "string list \<Rightarrow> string \<Rightarrow> export_state \<Rightarrow> export_state" where
  "write_row row line st =
     st\<lparr> csv_text := csv_text st @ csv_row row, info_lines := info_lines st @ [line] \<rparr>"

definition bbo_callback :: "string \<Rightarrow> export_state \<Rightarrow> aggregated_book_view \<Rightarrow> export_state \<times> unit outcome" where
  "bbo_callback symbol st view =
     (case check_export ''csv export detected crossed book'' view of
        Inl e \<Rightarrow> (st, Inl e)
      | Inr _ \<Rightarrow> (write_row (bbo_fields symbol view) (format_bbo view) st, Inr ()))"

definition price_bands_callback :: "string \<Rightarrow> export_state \<Rightarrow> aggregated_book_view \<Rightarrow> export_state \<times> unit outcome" where
  "price_bands_callback symbol st view =
     (case check_export ''price bands export detected crossed book'' view of
        Inl e \<Rightarrow> (st, Inl e)
      | Inr _ \<Rightarrow>
          (let (cache, quotes) = compute_price_bands defaultOffsets (calculator st) view;
               st1 = st\<lparr> calculator := cache \<rparr>
           in case quotes of
                Inl e \<Rightarrow> (st1, Inl e)
              | Inr qs \<Rightarrow> (fold (\<lambda>q. write_row (price_fields symbol view q) (format_price_band q)) qs st1, Inr ())))"

definition volume_bands_callback :: "string \<Rightarrow> export_state \<Rightarrow> aggregated_book_view \<Rightarrow> export_state \<times> unit outcome" where
  "volume_bands_callback symbol st view =
     (case check_export ''volume bands export detected crossed book'' view of
        Inl e \<Rightarrow> (st, Inl e)
      | Inr _ \<Rightarrow>
          (case compute_volume_bands defaultThresholds view of
             Inl e \<Rightarrow> (st, Inl e)
           | Inr qs \<Rightarrow> (fold (\<lambda>q. write_row (volume_fields symbol view q) (format_volume_band q)) qs st, Inr ())))"

section \<open>Services\<close>

datatype export_service = Bbo_service | Price_bands_service | Volume_bands_service

fun service_header :: "export_service \<Rightarrow> string" where
  "service_header Bbo_service = bbo_header"
| "service_header Price_bands_service = price_header"
| "service_header Volume_bands_service = volume_header"

fun default_csv :: "export_service \<Rightarrow> string" where
  "default_csv Bbo_service = ''bbo_quotes.csv''"
| "default_csv Price_bands_service = ''price_bands.csv''"
| "default_csv Volume_bands_service = ''volume_bands.csv''"

fun service_callback :: "export_service \<Rightarrow> string \<Rightarrow> export_state \<Rightarrow> aggregated_book_view \<Rightarrow> export_state \<times> unit outcome" where
  "service_callback Bbo_service = bbo_callback"
| "service_callback Price_bands_service = price_bands_callback"
| "service_callback Volume_bands_service = volume_bands_callback"

text \<open>The worker of the stream client calls the callback for each received view; a failure ends the process.\<close>

fun run_callbacks ::
  "(export_state \<Rightarrow> aggregated_book_view \<Rightarrow> export_state \<times> unit outcome) \<Rightarrow> export_state \<Rightarrow> aggregated_book_view list \<Rightarrow>
     export_state \<times> unit outcome" where
  "run_callbacks callback st [] = (st, Inr ())"
| "run_callbacks callback st (view # views) =
     (case callback st view of
        (st1, Inl e) \<Rightarrow> (st1, Inl e)
      | (st1, Inr _) \<Rightarrow> run_callbacks callback st1 views)"

text \<open>
  \<open>main\<close>: the file afterwards, the logged lines and the exit status. \<open>opens\<close> tells whether the file can
  be opened for appending; the constructor of the stream client rejects an empty symbol.
\<close>

definition service_main ::
  "export_service \<Rightarrow> string list \<Rightarrow> bool \<Rightarrow> bool \<Rightarrow> bool \<Rightarrow> csv_file \<Rightarrow> aggregated_book_view list \<Rightarrow>
     csv_file \<times> string list \<times> nat outcome" where
  "service_main s argv readable writable opens f views =
     (let symbol = arg_symbol (service_arguments (default_csv s) argv);
          (ok, f1) = ensureCsvHasHeader readable writable (service_header s) f
      in if \<not> ok then (f1, [], Inr 1)
         else if \<not> opens then (f1, [], Inr 1)
         else (let contents = (case f1 of None \<Rightarrow> [] | Some c \<Rightarrow> c)
               in case assert_debug (symbol \<noteq> []) ''symbol must be non-empty'' of
                    Inl e \<Rightarrow> (Some contents, [], Inl e)
                  | Inr _ \<Rightarrow>
                      (let (st, r) = run_callbacks (service_callback s symbol)
                             \<lparr> csv_text = contents, info_lines = [], calculator = empty_band_cache \<rparr> views
                       in (Some (csv_text st), info_lines st, bind_outcome r (\<lambda>_. Inr 0)))))"

section \<open>Reading rows back\<close>

text \<open>A reader of comma separated text: the fields of each line that a newline ends.\<close>

fun split_on :: "char \<Rightarrow> string \<Rightarrow> string list" where
  "split_on c [] = [[]]"
| "split_on c (x # xs) =
     (if x = c then [] # split_on c xs else (case split_on c xs of w # ws \<Rightarrow> (x # w) # ws | [] \<Rightarrow> [[x]]))"

definition csv_rows :: "string \<Rightarrow> string list list" where
  "csv_rows contents = map (split_on (CHR '','')) (butlast (split_on NL contents))"

definition plain_field :: "string \<Rightarrow> bool" where
  "plain_field f \<longleftrightarrow> CHR '','' \<notin> set f \<and> NL \<notin> set f"

lemma split_on_not_Nil [simp]: "split_on c xs \<noteq> []"
  by (induction xs) (auto split: list.split)

lemma split_on_single: "c \<notin> set f \<Longrightarrow> split_on c f = [f]"
  by (induction f) auto

lemma split_on_append: "c \<notin> set f \<Longrightarrow> split_on c (f @ c # rest) = f # split_on c rest"
  by (induction f) auto

lemma csv_row_line:
  assumes "row \<noteq> []" and "\<forall>f \<in> set row. plain_field f"
  shows "\<exists>line. csv_row row = line @ [NL] \<and> NL \<notin> set line \<and> split_on (CHR '','') line = row"
  using assms
proof (induction row rule: csv_row.induct)
  case (2 f)
  then show ?case by (auto simp: plain_field_def split_on_single)
next
  case (3 f g fs)
  then obtain line where "csv_row (g # fs) = line @ [NL]" "NL \<notin> set line" "split_on (CHR '','') line = g # fs" by auto
  with 3 show ?case by (intro exI [of _ "f @ CHR '','' # line"]) (auto simp: plain_field_def split_on_append)
qed simp

lemma csv_rows_written:
  "\<forall>row \<in> set rows. row \<noteq> [] \<and> (\<forall>f \<in> set row. plain_field f) \<Longrightarrow> csv_rows (concat (map csv_row rows)) = rows"
proof (induction rows)
  case Nil
  then show ?case by (simp add: csv_rows_def)
next
  case (Cons row rows)
  then obtain line where "csv_row row = line @ [NL]" "NL \<notin> set line" "split_on (CHR '','') line = row"
    using csv_row_line [of row] by auto
  with Cons show ?case by (simp add: csv_rows_def split_on_append)
qed

section \<open>Fields\<close>

lemma digit_plain: "is_digit_char c \<Longrightarrow> c \<noteq> CHR '','' \<and> c \<noteq> NL"
  by (auto simp: is_digit_char_def char_code_def)

lemma digits_plain: "list_all is_digit_char f \<Longrightarrow> plain_field f"
  by (auto simp: plain_field_def list_all_iff dest: digit_plain)

lemma digits_plain_set: "\<forall>c \<in> set f. is_digit_char c \<Longrightarrow> plain_field f"
  by (auto simp: plain_field_def dest: digit_plain)

lemma plain_field_append [simp]: "plain_field (f @ g) \<longleftrightarrow> plain_field f \<and> plain_field g"
  by (auto simp: plain_field_def)

lemma plain_field_Cons [simp]: "plain_field (c # f) \<longleftrightarrow> c \<noteq> CHR '','' \<and> c \<noteq> NL \<and> plain_field f"
  by (auto simp: plain_field_def)

lemma plain_field_Nil [simp]: "plain_field []"
  by (simp add: plain_field_def)

lemma nat_text_plain: "plain_field (nat_text n)"
  using nat_text_digits [of n] by (intro digits_plain) simp

lemma i64_text_plain: "plain_field (i64_text w)"
  by (simp add: i64_text_def int_text_def nat_text_plain)

lemma decimal_text_plain:
  assumes "decimal_text s"
  shows "plain_field s"
proof -
  define body where "body = unsigned_body s"
  have "plain_field (takeWhile is_digit_char body)"
    by (rule digits_plain_set) (auto dest: set_takeWhileD)
  moreover have "plain_field (dropWhile is_digit_char body)"
  proof (cases "dropWhile is_digit_char body")
    case (Cons p ps)
    then have "dropWhile is_digit_char (unsigned_body s) \<noteq> []" by (simp add: body_def)
    then have "p = CHR ''.''" "all_digits ps" using assms Cons unfolding decimal_text_def body_def Let_def by auto
    then show ?thesis using Cons by (simp add: digits_plain)
  next
    case Nil
    then show ?thesis by (simp only: plain_field_Nil)
  qed
  ultimately have "plain_field body" by (metis plain_field_append takeWhile_dropWhile_id)
  then show ?thesis by (auto simp: body_def unsigned_body_def split: list.splits if_splits)
qed

definition printable :: "decimal \<Rightarrow> bool" where
  "printable d \<longleftrightarrow> dval d \<noteq> - (2 ^ 127)"

definition view_printable :: "aggregated_book_view \<Rightarrow> bool" where
  "view_printable view \<longleftrightarrow>
     (\<forall>l \<in> insert (best_bid view) (insert (best_ask view) (set (bid_levels view) \<union> set (ask_levels view))).
        printable (price l) \<and> printable (quantity l))"

lemma toString_plain: "printable d \<Longrightarrow> plain_field (toString p d)"
  using toString_decimal_text decimal_text_plain by (simp add: printable_def)

lemma printable_nonneg: "0 \<le> dval d \<Longrightarrow> printable d"
  by (simp add: printable_def)

lemma printable_0_le: "0 \<le> d \<Longrightarrow> printable d"
  by (rule printable_nonneg) (simp add: decimal_simps)

lemma printable_fromRaw_0 [simp]: "printable (fromRaw 0)"
  by (simp add: printable_def fromRaw_def)

section \<open>The contract of a callback\<close>

text \<open>What every row of a view must be: one field per column, in plain text, with the view's time and symbol.\<close>

definition row_for :: "string \<Rightarrow> string \<Rightarrow> aggregated_book_view \<Rightarrow> string list \<Rightarrow> bool" where
  "row_for header symbol view row \<longleftrightarrow>
     length row = length (split_on (CHR '','') header) \<and> (\<forall>f \<in> set row. plain_field f) \<and>
     row ! 0 = i64_text (row_timestamp view) \<and> row ! 1 = symbol \<and> last row = i64_text (row_timestamp view)"

definition written :: "export_state \<Rightarrow> export_state \<Rightarrow> string list list \<Rightarrow> bool" where
  "written st st' rows \<longleftrightarrow>
     csv_text st' = csv_text st @ concat (map csv_row rows) \<and>
     (\<exists>ls. info_lines st' = info_lines st @ ls \<and> length ls = length rows)"

lemma written_refl: "written st st []"
  by (simp add: written_def)

lemma written_trans: "written st st1 rows1 \<Longrightarrow> written st1 st2 rows2 \<Longrightarrow> written st st2 (rows1 @ rows2)"
  by (auto simp: written_def)

lemma written_row: "written st (write_row row line st) [row]"
  by (simp add: written_def write_row_def)

lemma written_fold: "written st (fold (\<lambda>q. write_row (r q) (l q)) qs st) (map r qs)"
proof (induction qs arbitrary: st)
  case (Cons q qs)
  from written_trans [OF written_row Cons.IH] show ?case by simp
qed (simp add: written_refl)

lemma written_cache: "written (st\<lparr>calculator := c\<rparr>) st' rows \<longleftrightarrow> written st st' rows"
  by (simp add: written_def)

locale csv_exporter =
  fixes header :: string
    and callback :: "string \<Rightarrow> export_state \<Rightarrow> aggregated_book_view \<Rightarrow> export_state \<times> unit outcome"
    and counts :: "nat set"
  assumes header_plain: "plain_header header" and header_columns: "split_on (CHR '','') header \<noteq> []"
    and callback_rows: "plain_field symbol \<Longrightarrow> view_printable view \<Longrightarrow> callback symbol st view = (st', Inr u) \<Longrightarrow>
      \<exists>rows. written st st' rows \<and> length rows \<in> counts \<and> (\<forall>row \<in> set rows. row_for header symbol view row)"
    and callback_fails: "callback symbol st view = (st', Inl e) \<Longrightarrow> written st st' []"
begin

text \<open>The rows of each processed view, in order; the session fails at the first view it does not finish.\<close>

definition rows_of :: "string \<Rightarrow> aggregated_book_view \<Rightarrow> string list list \<Rightarrow> bool" where
  "rows_of symbol view rows \<longleftrightarrow> length rows \<in> counts \<and> (\<forall>row \<in> set rows. row_for header symbol view row)"

lemma run_rows:
  assumes "plain_field symbol" and "\<forall>view \<in> set views. view_printable view"
    and "run_callbacks (callback symbol) st views = (st', r)"
  shows "\<exists>k rss. k \<le> length views \<and> list_all2 (rows_of symbol) (take k views) rss \<and> written st st' (concat rss) \<and>
    (r = Inr () \<longleftrightarrow> k = length views)"
  using assms(2,3)
proof (induction views arbitrary: st)
  case Nil
  then show ?case using written_refl by simp
next
  case (Cons view views)
  obtain st1 r1 where c: "callback symbol st view = (st1, r1)" by (cases "callback symbol st view")
  show ?case
  proof (cases r1)
    case (Inl e)
    with c Cons.prems have "st' = st1" "r = Inl e" by simp_all
    with callback_fails c Inl show ?thesis by (intro exI [of _ 0] exI [of _ "[]"]) auto
  next
    case (Inr u)
    with c Cons.prems have run: "run_callbacks (callback symbol) st1 views = (st', r)"
      and ok: "\<forall>view \<in> set views. view_printable view" "view_printable view" by simp_all
    obtain rows where rows: "written st st1 rows" "rows_of symbol view rows"
      using callback_rows [OF assms(1) ok(2)] c Inr unfolding rows_of_def by blast
    obtain k rss where "k \<le> length views" "list_all2 (rows_of symbol) (take k views) rss"
      "written st1 st' (concat rss)" "(r = Inr ()) = (k = length views)"
      using Cons.IH [OF ok(1) run] by blast
    with rows show ?thesis
      by (intro exI [of _ "Suc k"] exI [of _ "rows # rss"]) (auto intro: written_trans)
  qed
qed

lemma rows_of_plain:
  assumes "list_all2 (rows_of symbol) views rss" and "row \<in> set (concat rss)"
  shows "row \<noteq> [] \<and> (\<forall>f \<in> set row. plain_field f)"
proof -
  obtain rs where "rs \<in> set rss" "row \<in> set rs" using assms(2) by auto
  then obtain i where i: "i < length rss" "row \<in> set (rss ! i)" using in_set_conv_nth [of rs rss] by auto
  then have "rows_of symbol (views ! i) (rss ! i)" using assms(1) by (simp add: list_all2_conv_all_nth)
  with i(2) have "row_for header symbol (views ! i) row" by (simp add: rows_of_def)
  with header_columns show ?thesis by (cases row) (auto simp: row_for_def)
qed

lemma rows_read_back: "list_all2 (rows_of symbol) views rss \<Longrightarrow> csv_rows (concat (map csv_row (concat rss))) = concat rss"
  using rows_of_plain by (intro csv_rows_written) blast

end

section \<open>The three services keep the contract\<close>

lemma header_plain_list:
  "plain_header bbo_header" "plain_header price_header" "plain_header volume_header"
  by code_simp+

lemma header_column_counts:
  "length (split_on (CHR '','') bbo_header) = 14" "length (split_on (CHR '','') price_header) = 12"
  "length (split_on (CHR '','') volume_header) = 12"
  by code_simp+

lemmas field_simps_plain = toString_plain i64_text_plain nat_text_plain

lemma bbo_row: "plain_field symbol \<Longrightarrow> view_printable view \<Longrightarrow> row_for bbo_header symbol view (bbo_fields symbol view)"
  by (simp add: row_for_def bbo_fields_def header_column_counts field_simps_plain view_printable_def)

lemma price_row:
  "plain_field symbol \<Longrightarrow> printable (offset_bps q) \<Longrightarrow> printable (pb_bid_price q) \<Longrightarrow> printable (pb_ask_price q) \<Longrightarrow>
   row_for price_header symbol view (price_fields symbol view q)"
  by (simp add: row_for_def price_fields_def header_column_counts field_simps_plain)

lemma volume_row:
  "plain_field symbol \<Longrightarrow> printable (notional q) \<Longrightarrow> printable (vb_bid_price q) \<Longrightarrow> printable (vb_ask_price q) \<Longrightarrow>
   row_for volume_header symbol view (volume_fields symbol view q)"
  by (simp add: row_for_def volume_fields_def header_column_counts field_simps_plain)

lemma band_quotes_printable:
  "band_quotes bid ask offsets = Inr qs \<Longrightarrow>
   length qs = length offsets \<and>
   (\<forall>q \<in> set qs. offset_bps q \<in> set offsets \<and> printable (pb_bid_price q) \<and> printable (pb_ask_price q))"
proof (induction offsets arbitrary: qs)
  case (Cons offset offsets)
  then show ?case
    by (auto simp: outcome_simps band_quote_def printable_0_le split: if_splits)
qed simp

lemma compute_price_bands_printable:
  assumes "compute_price_bands offsets cache view = (cache', Inr qs)"
  shows "length qs \<in> {0, length offsets} \<and>
   (\<forall>q \<in> set qs. offset_bps q \<in> set offsets \<and> printable (pb_bid_price q) \<and> printable (pb_ask_price q))"
  using assms band_quotes_printable
  by (fastforce simp: compute_price_bands_def Let_def checked_quotes_def outcome_simps split: if_splits)

lemma find_price_from_member:
  "find_price_from acc t ls = Inr r \<Longrightarrow> r = fromRaw 0 \<or> (\<exists>l \<in> set ls. r = price l)"
  by (induction ls arbitrary: acc) (auto simp: outcome_simps Let_def split: if_splits)

lemma findPrice_printable:
  "findPriceForThreshold (normalizeLevels ls q) t = Inr r \<Longrightarrow> \<forall>l \<in> insert q (set ls). printable (price l) \<Longrightarrow> printable r"
  unfolding findPriceForThreshold_def
  by (drule find_price_from_member) (auto simp: normalizeLevels_def split: if_splits)

lemma volume_quotes_printable:
  assumes "view_printable view"
  shows "volume_quotes (normalizeLevels (bid_levels view) (best_bid view)) (normalizeLevels (ask_levels view) (best_ask view)) ts =
     Inr qs \<Longrightarrow> length qs = length ts \<and>
   (\<forall>q \<in> set qs. notional q \<in> set ts \<and> printable (vb_bid_price q) \<and> printable (vb_ask_price q))"
proof (induction ts arbitrary: qs)
  case (Cons t ts)
  have "\<forall>l \<in> insert (best_bid view) (set (bid_levels view)). printable (price l)"
    and "\<forall>l \<in> insert (best_ask view) (set (ask_levels view)). printable (price l)"
    using assms by (simp_all add: view_printable_def)
  then have p: "findPriceForThreshold (normalizeLevels (bid_levels view) (best_bid view)) t = Inr r \<Longrightarrow> printable r"
    "findPriceForThreshold (normalizeLevels (ask_levels view) (best_ask view)) t = Inr r \<Longrightarrow> printable r" for r
    using findPrice_printable by blast+
  show ?case using Cons by (auto simp: outcome_simps p)
qed simp

lemma default_printable:
  "\<forall>d \<in> set defaultOffsets. printable d" "\<forall>d \<in> set defaultThresholds. printable d"
  "length defaultOffsets = 5" "length defaultThresholds = 5"
  by (simp_all add: defaultOffsets_def defaultThresholds_def printable_def fromInteger_dval)

interpretation bbo: csv_exporter bbo_header bbo_callback "{1}"
proof (unfold_locales, goal_cases)
  case (3 symbol view st st' u)
  then have "st' = write_row (bbo_fields symbol view) (format_bbo view) st"
    by (auto simp: bbo_callback_def split: sum.splits)
  then show ?case using bbo_row [OF 3(1,2)] written_row by (intro exI [of _ "[bbo_fields symbol view]"]) simp
next
  case (4 symbol st view st' e)
  then show ?case by (auto simp: bbo_callback_def written_refl split: sum.splits)
qed (simp_all add: header_plain_list)

interpretation price_bands: csv_exporter price_header price_bands_callback "{0, 5}"
proof (unfold_locales, goal_cases)
  case (3 symbol view st st' u)
  then obtain cache qs where c: "compute_price_bands defaultOffsets (calculator st) view = (cache, Inr qs)"
    and st': "st' = fold (\<lambda>q. write_row (price_fields symbol view q) (format_price_band q)) qs (st\<lparr>calculator := cache\<rparr>)"
    by (auto simp: price_bands_callback_def Let_def split: sum.splits prod.splits)
  have "written st st' (map (price_fields symbol view) qs)"
    using written_fold [of "st\<lparr>calculator := cache\<rparr>" "price_fields symbol view" format_price_band qs]
    by (simp add: st' written_cache)
  moreover have "length qs \<in> {0, 5}" and q: "\<forall>q \<in> set qs. printable (offset_bps q) \<and> printable (pb_bid_price q) \<and> printable (pb_ask_price q)"
    using compute_price_bands_printable [OF c] default_printable by auto
  ultimately show ?case using price_row [OF 3(1)]
    by (intro exI [of _ "map (price_fields symbol view) qs"]) auto
next
  case (4 symbol st view st' e)
  then show ?case by (auto simp: price_bands_callback_def Let_def written_def split: sum.splits prod.splits)
qed (simp_all add: header_plain_list)

interpretation volume_bands: csv_exporter volume_header volume_bands_callback "{5}"
proof (unfold_locales, goal_cases)
  case (3 symbol view st st' u)
  then obtain qs where c: "compute_volume_bands defaultThresholds view = Inr qs"
    and st': "st' = fold (\<lambda>q. write_row (volume_fields symbol view q) (format_volume_band q)) qs st"
    by (auto simp: volume_bands_callback_def split: sum.splits)
  have "written st st' (map (volume_fields symbol view) qs)" unfolding st' by (rule written_fold)
  moreover have "length qs = 5" and "\<forall>q \<in> set qs. printable (notional q) \<and> printable (vb_bid_price q) \<and> printable (vb_ask_price q)"
    using volume_quotes_printable [OF 3(2) c [unfolded compute_volume_bands_def]] default_printable by auto
  ultimately show ?case using volume_row [OF 3(1)]
    by (intro exI [of _ "map (volume_fields symbol view) qs"]) auto
next
  case (4 symbol st view st' e)
  then show ?case by (auto simp: volume_bands_callback_def written_refl split: sum.splits)
qed (simp_all add: header_plain_list)

section \<open>Properties\<close>

fun row_counts :: "export_service \<Rightarrow> nat set" where
  "row_counts Bbo_service = {1}"
| "row_counts Price_bands_service = {0, 5}"
| "row_counts Volume_bands_service = {5}"

text \<open>The rows a session writes for one view, and what a finished or failed run has written.\<close>

definition rows_for_view :: "export_service \<Rightarrow> string \<Rightarrow> aggregated_book_view \<Rightarrow> string list list \<Rightarrow> bool" where
  "rows_for_view s symbol view rows \<longleftrightarrow>
     length rows \<in> row_counts s \<and> (\<forall>row \<in> set rows. row_for (service_header s) symbol view row)"

lemma service_run:
  assumes "plain_field symbol" and "\<forall>view \<in> set views. view_printable view"
    and "run_callbacks (service_callback s symbol) st views = (st', r)"
  shows "\<exists>k rss. k \<le> length views \<and> list_all2 (rows_for_view s symbol) (take k views) rss \<and> written st st' (concat rss) \<and>
    (r = Inr () \<longleftrightarrow> k = length views) \<and> csv_rows (concat (map csv_row (concat rss))) = concat rss"
proof (cases s)
  case Bbo_service
  have eq: "bbo.rows_of = rows_for_view s"
    by (intro ext) (simp only: bbo.rows_of_def rows_for_view_def Bbo_service service_header.simps row_counts.simps)
  show ?thesis using bbo.run_rows [OF assms(1,2)] bbo.rows_read_back assms(3)
    unfolding eq by (simp add: Bbo_service) metis
next
  case Price_bands_service
  have eq: "price_bands.rows_of = rows_for_view s"
    by (intro ext) (simp only: price_bands.rows_of_def rows_for_view_def Price_bands_service service_header.simps row_counts.simps)
  show ?thesis using price_bands.run_rows [OF assms(1,2)] price_bands.rows_read_back assms(3)
    unfolding eq by (simp add: Price_bands_service) metis
next
  case Volume_bands_service
  have eq: "volume_bands.rows_of = rows_for_view s"
    by (intro ext) (simp only: volume_bands.rows_of_def rows_for_view_def Volume_bands_service service_header.simps row_counts.simps)
  show ?thesis using volume_bands.run_rows [OF assms(1,2)] volume_bands.rows_read_back assms(3)
    unfolding eq by (simp add: Volume_bands_service) metis
qed

text \<open>
  C26: a session that the header guard lets start leaves the file as the guard made it, followed by the
  rows of the views it received, in order: reading the added text back gives exactly these rows, each with
  one field per column of the header, the time and the symbol of its view in place, and one logged line
  per row. The service exits normally exactly when every view was processed; otherwise the file holds the
  rows of the views before the one that failed.
\<close>

theorem export_session:
  assumes "arg_symbol (service_arguments (default_csv s) argv) = symbol" and "plain_field symbol" and "symbol \<noteq> []"
    and "\<forall>view \<in> set views. view_printable view"
    and "ensureCsvHasHeader readable writable (service_header s) f = (True, Some old)"
    and "service_main s argv readable writable True f views = (f', log, r)"
  shows "\<exists>k rss. k \<le> length views \<and> list_all2 (rows_for_view s symbol) (take k views) rss \<and>
    f' = Some (old @ concat (map csv_row (concat rss))) \<and>
    csv_rows (concat (map csv_row (concat rss))) = concat rss \<and>
    length log = length (concat rss) \<and> (r = Inr 0 \<longleftrightarrow> k = length views)"
proof -
  define st where "st = \<lparr> csv_text = old, info_lines = [], calculator = empty_band_cache \<rparr>"
  obtain st' r' where run: "run_callbacks (service_callback s symbol) st views = (st', r')"
    by (cases "run_callbacks (service_callback s symbol) st views")
  have out: "f' = Some (csv_text st')" "log = info_lines st'" "r = bind_outcome r' (\<lambda>_. Inr 0)"
    using assms(1,3,5,6) run by (simp_all add: service_main_def st_def)
  obtain k rss where "k \<le> length views" "list_all2 (rows_for_view s symbol) (take k views) rss"
    "written st st' (concat rss)" "r' = Inr () \<longleftrightarrow> k = length views"
    "csv_rows (concat (map csv_row (concat rss))) = concat rss"
    using service_run [OF assms(2,4) run] by blast
  moreover have "r = Inr 0 \<longleftrightarrow> r' = Inr ()" using out(3) by (cases r') auto
  ultimately show ?thesis using out(1,2)
    by (intro exI [of _ k] exI [of _ rss]) (auto simp: written_def st_def)
qed

theorem export_session_witness:
  "\<exists>rss. fst (service_main Bbo_service [''bbo''] True True True None [small_view]) =
     Some (bbo_header @ [NL] @ concat (map csv_row (concat rss))) \<and> list_all2 (rows_for_view Bbo_service ''BTCUSDT'') [small_view] rss"
proof -
  have a: "arg_symbol (service_arguments (default_csv Bbo_service) [''bbo'']) = ''BTCUSDT''" by code_simp
  have p: "plain_field ''BTCUSDT''" by code_simp
  have v: "\<forall>view \<in> set [small_view]. view_printable view"
    by (simp add: small_view_def view_printable_def printable_def fromInteger_dval)
  have h: "ensureCsvHasHeader True True (service_header Bbo_service) None = (True, Some (bbo_header @ [NL]))"
    by (simp add: ensureCsvHasHeader_def writeHeaderOnly_def)
  have c: "\<not> fromInteger 101 < fromInteger 100" "fromInteger 100 \<le> fromInteger 101" by code_simp+
  have m: "service_main Bbo_service [''bbo''] True True True None [small_view] =
      (Some (bbo_header @ [NL] @ csv_row (bbo_fields ''BTCUSDT'' small_view)), [format_bbo small_view], Inr 0)"
    using a h c by (simp add: service_main_def bbo_callback_def check_export_def small_view_def write_row_def)
  from export_session [OF a p _ v h m] obtain k rss where r: "k \<le> length [small_view]"
    "list_all2 (rows_for_view Bbo_service ''BTCUSDT'') (take k [small_view]) rss"
    "bbo_header @ [NL] @ csv_row (bbo_fields ''BTCUSDT'' small_view) = (bbo_header @ [NL]) @ concat (map csv_row (concat rss))"
    "k = length [small_view]" by auto
  then show ?thesis unfolding m by (intro exI [of _ rss]) simp
qed

text \<open>A view is crossed for an exporter when both best quantities are positive and the ask lies below the bid.\<close>

definition crossed_view :: "aggregated_book_view \<Rightarrow> bool" where
  "crossed_view view \<longleftrightarrow> both_sides view \<and> price (best_ask view) < price (best_bid view)"

lemma check_export_iff: "check_export msg view = (if crossed_view view then Inl (Abort msg) else Inr ())"
  by (auto simp: check_export_def crossed_view_def assert_debug_def decimal_simps)

lemma bbo_run:
  "\<forall>view \<in> set views. \<not> crossed_view view \<Longrightarrow>
   run_callbacks (bbo_callback symbol) st views =
     (st\<lparr> csv_text := csv_text st @ concat (map (\<lambda>v. csv_row (bbo_fields symbol v)) views),
          info_lines := info_lines st @ map format_bbo views \<rparr>, Inr ())"
  by (induction views arbitrary: st) (simp_all add: bbo_callback_def check_export_iff write_row_def)

lemma bbo_run_crossed:
  "crossed_view view \<Longrightarrow> \<forall>v \<in> set before. \<not> crossed_view v \<Longrightarrow>
   run_callbacks (bbo_callback symbol) st (before @ view # after) =
     (fst (run_callbacks (bbo_callback symbol) st before), Inl (Abort ''csv export detected crossed book''))"
  by (induction before arbitrary: st) (simp_all add: bbo_callback_def check_export_iff)

text \<open>
  the best bid and offer exporter writes one row for each view and exits normally when no view is
  crossed; at the first crossed view it aborts, having written exactly the rows of the views before it.
\<close>

theorem bbo_export_exact:
  fixes argv
  defines "symbol \<equiv> arg_symbol (service_arguments ''bbo_quotes.csv'' argv)"
  assumes "symbol \<noteq> []" and "ensureCsvHasHeader readable writable bbo_header f = (True, Some old)"
    and "\<forall>v \<in> set before. \<not> crossed_view v"
  shows "service_main Bbo_service argv readable writable True f before =
      (Some (old @ concat (map (\<lambda>v. csv_row (bbo_fields symbol v)) before)), map format_bbo before, Inr 0) \<and>
    (crossed_view view \<longrightarrow> service_main Bbo_service argv readable writable True f (before @ view # after) =
      (Some (old @ concat (map (\<lambda>v. csv_row (bbo_fields symbol v)) before)), map format_bbo before,
       Inl (Abort ''csv export detected crossed book'')))"
  using assms bbo_run [OF assms(4)] bbo_run_crossed [OF _ assms(4)]
  by (simp_all add: service_main_def symbol_def)

theorem bbo_export_exact_witness:
  "service_main Bbo_service [''bbo''] True True True None [small_view\<lparr>best_ask := mk_level (fromInteger 99) (fromInteger 2)\<rparr>] =
     (Some (bbo_header @ [NL]), [], Inl (Abort ''csv export detected crossed book''))"
proof -
  have s: "arg_symbol (service_arguments ''bbo_quotes.csv'' [''bbo'']) \<noteq> []" by code_simp
  have h: "ensureCsvHasHeader True True bbo_header None = (True, Some (bbo_header @ [NL]))"
    by (simp add: ensureCsvHasHeader_def writeHeaderOnly_def)
  define view where "view = small_view\<lparr>best_ask := mk_level (fromInteger 99) (fromInteger 2)\<rparr>"
  have c: "crossed_view view" unfolding view_def by code_simp
  from bbo_export_exact [OF s h, of "[]" view "[]"] c show ?thesis unfolding view_def [symmetric] by simp
qed

text \<open>A file that holds the header without a newline passes the guard, and the first row joins its first line.\<close>

lemma header_without_newline:
  "ensureCsvHasHeader True True bbo_header (Some bbo_header) = (True, Some bbo_header)"
  by code_simp

end
