(* ===== verification/Feed.thy ===== *)
theory Feed
  imports Events
begin

text \<open>
  The exchange feed (src/src/cex_type1/feed.cpp) and the configuration loader (\<open>loadAggregatorConfig\<close> in
  src/src/aggregator/aggregator.cpp). Both read a JSON document through simdjson, which is not part of the
  sources: its accessors are the record \<open>json_api\<close>, each answering \<open>None\<close> where the library reports an
  error. Reading a field or converting an erroneous element to a value throws the library's exception.
  \<open>std::llround\<close> on long doubles is the field \<open>scaled_round\<close>: it returns a 64 bit \<open>long long\<close>.
\<close>

record ('e, 'd) json_api =
  get_string :: "'e \<Rightarrow> string option"
  get_double :: "'e \<Rightarrow> 'd option"
  get_uint64 :: "'e \<Rightarrow> u64 option"
  get_int64 :: "'e \<Rightarrow> i64 option"
  get_array :: "'e \<Rightarrow> 'e list option"
  is_object :: "'e \<Rightarrow> bool"
  member_of :: "'e \<Rightarrow> string \<Rightarrow> 'e option"
  scaled_round :: "'d \<Rightarrow> i64"

definition simdjson_error :: failure where
  "simdjson_error = Throw (Library_error ''simdjson'')"

text \<open>\<open>obj[key]\<close> on a possibly erroneous object, and the accessors applied to a possibly erroneous element.\<close>

definition field :: "('e, 'd) json_api \<Rightarrow> 'e option \<Rightarrow> string \<Rightarrow> 'e option" where
  "field api e key = Option.bind e (\<lambda>x. if is_object api x then member_of api x key else None)"

definition need :: "'e option \<Rightarrow> 'e outcome" where
  "need e = (case e of None \<Rightarrow> Inl simdjson_error | Some x \<Rightarrow> Inr x)"

section \<open>Values\<close>

definition feed_parseSide :: "string \<Rightarrow> side" where
  "feed_parseSide text = (if text = ''ask'' then Ask else Bid)"

definition fromDouble :: "('e, 'd) json_api \<Rightarrow> 'd \<Rightarrow> decimal" where
  "fromDouble api v = fromRaw (scast (scaled_round api v))"

definition parseDecimal :: "('e, 'd) json_api \<Rightarrow> 'e \<Rightarrow> decimal outcome" where
  "parseDecimal api e =
     (case get_string api e of
        Some s \<Rightarrow> fromString s
      | None \<Rightarrow>
          (case get_double api e of
             Some v \<Rightarrow> Inr (fromDouble api v)
           | None \<Rightarrow> Inl (Throw (Runtime_error ''invalid decimal payload''))))"

text \<open>\<open>std::stoull\<close>: leading white space, an optional sign, digits; what follows is ignored.\<close>

definition stoull :: "string \<Rightarrow> u64 outcome" where
  "stoull s =
     (let t = dropWhile isWhitespace s;
          negative = (t \<noteq> [] \<and> hd t = CHR ''-'');
          body = (if t \<noteq> [] \<and> (hd t = CHR ''-'' \<or> hd t = CHR ''+'') then tl t else t);
          ds = takeWhile is_digit_char body;
          n = digits_nat ds 0
      in if ds = [] then Inl (Throw (Invalid_argument ''stoull''))
         else if 2 ^ 64 \<le> n then Inl (Throw (Out_of_range ''stoull''))
         else Inr (if negative then - word_of_nat n else word_of_nat n))"

definition parseOrderId :: "('e, 'd) json_api \<Rightarrow> 'e \<Rightarrow> u64 option" where
  "parseOrderId api e =
     (case get_uint64 api e of
        Some n \<Rightarrow> Some n
      | None \<Rightarrow>
          (case get_string api e of
             Some s \<Rightarrow> (case stoull s of Inr n \<Rightarrow> Some n | Inl _ \<Rightarrow> None)
           | None \<Rightarrow> None))"

section \<open>Frames\<close>

definition decode_level :: "('e, 'd) json_api \<Rightarrow> 'e \<Rightarrow> price_level outcome" where
  "decode_level api e =
     bind_outcome (need (field api (Some e) ''price'')) (\<lambda>pe.
     bind_outcome (parseDecimal api pe) (\<lambda>p.
     bind_outcome (need (field api (Some e) ''quantity'')) (\<lambda>qe.
     bind_outcome (parseDecimal api qe) (\<lambda>q. Inr (mk_level p q)))))"

fun decode_level_list :: "('e, 'd) json_api \<Rightarrow> 'e list \<Rightarrow> price_level list outcome" where
  "decode_level_list api [] = Inr []"
| "decode_level_list api (e # es) =
     bind_outcome (decode_level api e) (\<lambda>l.
     bind_outcome (decode_level_list api es) (\<lambda>ls. Inr (l # ls)))"

definition decode_side :: "('e, 'd) json_api \<Rightarrow> 'e option \<Rightarrow> string \<Rightarrow> price_level list outcome" where
  "decode_side api obj key =
     (case Option.bind (field api obj key) (get_array api) of
        None \<Rightarrow> Inr []
      | Some es \<Rightarrow> decode_level_list api es)"

definition frame_header :: "('e, 'd) json_api \<Rightarrow> string \<Rightarrow> i64 \<Rightarrow> 'e option \<Rightarrow> book_event" where
  "frame_header api exchange now obj =
     empty_event\<lparr> ev_exchange := exchange, ev_timestamp := now, ev_local_timestamp_ns := now,
       ev_feed_timestamp_ns :=
         (case Option.bind (field api obj ''timestamp_ns'') (get_int64 api) of
            Some ns \<Rightarrow> ns
          | None \<Rightarrow>
              (case Option.bind (field api obj ''timestamp_ms'') (get_int64 api) of
                 Some ms \<Rightarrow> ms * 1000000
               | None \<Rightarrow> now)),
       ev_sequence :=
         (case Option.bind (field api obj ''sequence'') (get_uint64 api) of Some n \<Rightarrow> n | None \<Rightarrow> 0) \<rparr>"

definition decode_snapshot :: "('e, 'd) json_api \<Rightarrow> 'e option \<Rightarrow> book_event \<Rightarrow> book_event option outcome" where
  "decode_snapshot api obj ev =
     bind_outcome (decode_side api obj ''bids'') (\<lambda>bs.
     bind_outcome (decode_side api obj ''asks'') (\<lambda>as.
     Inr (Some (ev\<lparr> ev_kind := Snapshot, ev_snapshot := \<lparr> snap_bids = bs, snap_asks = as \<rparr> \<rparr>))))"

definition decode_new_order :: "('e, 'd) json_api \<Rightarrow> 'e option \<Rightarrow> book_event \<Rightarrow> book_event option outcome" where
  "decode_new_order api obj ev =
     bind_outcome (need (field api obj ''order_id'')) (\<lambda>ie.
     (case parseOrderId api ie of
        None \<Rightarrow> Inr None
      | Some oid \<Rightarrow>
          (case Option.bind (field api obj ''side'') (get_string api) of
             None \<Rightarrow> Inr None
           | Some st \<Rightarrow>
               bind_outcome (need (field api obj ''price'')) (\<lambda>pe.
               bind_outcome (parseDecimal api pe) (\<lambda>p.
               bind_outcome (need (field api obj ''quantity'')) (\<lambda>qe.
               bind_outcome (parseDecimal api qe) (\<lambda>q.
               Inr (Some (ev\<lparr> ev_kind := NewOrder,
                 ev_order := \<lparr> order_id = oid, order_side = feed_parseSide st,
                               order_price = p, order_quantity = q \<rparr> \<rparr>)))))))))"

definition decode_cancel :: "('e, 'd) json_api \<Rightarrow> 'e option \<Rightarrow> book_event \<Rightarrow> book_event option outcome" where
  "decode_cancel api obj ev =
     bind_outcome (need (field api obj ''order_id'')) (\<lambda>ie.
     (case parseOrderId api ie of
        None \<Rightarrow> Inr None
      | Some oid \<Rightarrow> Inr (Some (ev\<lparr> ev_kind := CancelOrder, ev_order := empty_order\<lparr> order_id := oid \<rparr> \<rparr>))))"

text \<open>The body of the \<open>try\<close> block: the event handed to the callback, if any.\<close>

definition decode_frame :: "('e, 'd) json_api \<Rightarrow> string \<Rightarrow> i64 \<Rightarrow> 'e option \<Rightarrow> book_event option outcome" where
  "decode_frame api exchange now obj =
     (case Option.bind (field api obj ''type'') (get_string api) of
        None \<Rightarrow> Inr None
      | Some ty \<Rightarrow>
          (let ev = frame_header api exchange now obj
           in if ty = ''snapshot'' then decode_snapshot api obj ev
              else if ty = ''new_order'' then decode_new_order api obj ev
              else if ty = ''cancel_order'' then decode_cancel api obj ev
              else Inr None))"

section \<open>The receive loop\<close>

datatype ws_op = Op_ping | Op_text | Op_other

record ws_frame =
  frame_op :: ws_op
  frame_payload :: string
  frame_now :: i64

datatype feed_action = Pong string | Callback book_event | Warn exn

text \<open>One round of \<open>pump\<close> on a frame of positive length; \<open>parse\<close> is \<open>parser.parse\<close>.\<close>

definition handle_frame ::
  "('e, 'd) json_api \<Rightarrow> (string \<Rightarrow> 'e option) \<Rightarrow> string \<Rightarrow> ws_frame \<Rightarrow> feed_action list" where
  "handle_frame api parse exchange f =
     (case frame_op f of
        Op_ping \<Rightarrow> [Pong (frame_payload f)]
      | Op_other \<Rightarrow> []
      | Op_text \<Rightarrow>
          (case decode_frame api exchange (frame_now f) (parse (frame_payload f)) of
             Inr (Some ev) \<Rightarrow> [Callback ev]
           | Inr None \<Rightarrow> []
           | Inl (Throw e) \<Rightarrow> [Warn e]
           | Inl (Abort m) \<Rightarrow> []))"

fun pump :: "('e, 'd) json_api \<Rightarrow> (string \<Rightarrow> 'e option) \<Rightarrow> string \<Rightarrow> ws_frame list \<Rightarrow> feed_action list" where
  "pump api parse exchange [] = []"
| "pump api parse exchange (f # fs) =
     (if frame_payload f = [] then [] else handle_frame api parse exchange f @ pump api parse exchange fs)"

section \<open>Configuration\<close>

record feed_config =
  fc_name :: string
  fc_url :: string
  fc_auth_token :: string

record grpc_config =
  listen_address :: string
  grpc_port :: u32
  grpc_auth_token :: string

record aggregator_config =
  cfg_feeds :: "feed_config list"
  publish_interval :: u64
  cfg_symbol :: string
  cfg_grpc :: grpc_config

definition default_grpc :: grpc_config where
  "default_grpc = \<lparr> listen_address = ''0.0.0.0'', grpc_port = 50051, grpc_auth_token = [] \<rparr>"

definition default_config :: aggregator_config where
  "default_config = \<lparr> cfg_feeds = [], publish_interval = 50, cfg_symbol = ''BTCUSDT'', cfg_grpc = default_grpc \<rparr>"

definition string_or :: "('e, 'd) json_api \<Rightarrow> 'e option \<Rightarrow> string \<Rightarrow> string \<Rightarrow> string" where
  "string_or api obj key dflt =
     (case Option.bind (field api obj key) (get_string api) of Some s \<Rightarrow> s | None \<Rightarrow> dflt)"

definition need_string :: "('e, 'd) json_api \<Rightarrow> 'e option \<Rightarrow> string \<Rightarrow> string outcome" where
  "need_string api obj key =
     (case Option.bind (field api obj key) (get_string api) of Some s \<Rightarrow> Inr s | None \<Rightarrow> Inl simdjson_error)"

definition load_grpc :: "('e, 'd) json_api \<Rightarrow> 'e \<Rightarrow> grpc_config" where
  "load_grpc api g =
     \<lparr> listen_address = string_or api (Some g) ''listen_address'' (listen_address default_grpc),
       grpc_port = (case Option.bind (field api (Some g) ''port'') (get_int64 api) of
                      Some p \<Rightarrow> ucast p | None \<Rightarrow> grpc_port default_grpc),
       grpc_auth_token = string_or api (Some g) ''auth_token'' (grpc_auth_token default_grpc) \<rparr>"

definition load_feed :: "('e, 'd) json_api \<Rightarrow> 'e \<Rightarrow> feed_config outcome" where
  "load_feed api f =
     bind_outcome (need_string api (Some f) ''name'') (\<lambda>name.
     bind_outcome (need_string api (Some f) ''url'') (\<lambda>url.
     Inr \<lparr> fc_name = name, fc_url = url, fc_auth_token = string_or api (Some f) ''auth_token'' [] \<rparr>))"

fun load_feeds :: "('e, 'd) json_api \<Rightarrow> 'e list \<Rightarrow> feed_config list outcome" where
  "load_feeds api [] = Inr []"
| "load_feeds api (f # fs) =
     bind_outcome (load_feed api f) (\<lambda>c. bind_outcome (load_feeds api fs) (\<lambda>cs. Inr (c # cs)))"

text \<open>\<open>doc\<close> is the result of \<open>parser.load(path)\<close>.\<close>

definition loadAggregatorConfig :: "('e, 'd) json_api \<Rightarrow> 'e option \<Rightarrow> aggregator_config outcome" where
  "loadAggregatorConfig api doc =
     (let interval = (case Option.bind (field api doc ''publish_interval_ms'') (get_uint64 api) of
                        Some n \<Rightarrow> n | None \<Rightarrow> publish_interval default_config);
          sym = string_or api doc ''symbol'' (cfg_symbol default_config)
      in case Option.bind (field api doc ''grpc'') (\<lambda>g. if is_object api g then Some g else None) of
           None \<Rightarrow> Inl (Throw (Runtime_error ''config missing grpc section''))
         | Some g \<Rightarrow>
             (case Option.bind (field api doc ''feeds'') (get_array api) of
                None \<Rightarrow> Inl (Throw (Runtime_error ''config missing feeds array''))
              | Some fs \<Rightarrow>
                  bind_outcome (load_feeds api fs) (\<lambda>cs.
                  Inr \<lparr> cfg_feeds = cs, publish_interval = interval, cfg_symbol = sym,
                        cfg_grpc = load_grpc api g \<rparr>)))"

section \<open>Lemmas\<close>

text \<open>A decimal given as a JSON number has at most 64 bits: 9.223... is the largest magnitude.\<close>

lemma fromDouble_bound: "- (2 ^ 63) \<le> dval (fromDouble api v) \<and> dval (fromDouble api v) < 2 ^ 63"
proof -
  let ?i = "scaled_round api v"
  have b: "- 9223372036854775808 \<le> sint ?i" "sint ?i < 9223372036854775808"
    using sint_ge [of ?i] sint_lt [of ?i] by simp_all
  have "sint (scast ?i :: i128) = sint ?i"
    by (simp add: signed_scast_eq signed_take_bit_int_eq_self_iff) (use b in linarith)
  then show ?thesis using b by (simp add: fromDouble_def fromRaw_def)
qed

text \<open>Decoding may throw, but it never aborts the process.\<close>

definition no_abort :: "'a outcome \<Rightarrow> bool" where
  "no_abort r \<longleftrightarrow> (\<forall>m. r \<noteq> Inl (Abort m))"

lemma no_abort_Inr [simp]: "no_abort (Inr x)"
  by (simp add: no_abort_def)

lemma no_abort_Throw [simp]: "no_abort (Inl (Throw e))"
  by (simp add: no_abort_def)

lemma no_abort_bind [intro!]: "no_abort r \<Longrightarrow> (\<And>x. no_abort (f x)) \<Longrightarrow> no_abort (bind_outcome r f)"
  by (cases r) (simp_all add: no_abort_def)

lemma no_abort_need [simp]: "no_abort (need e)"
  by (simp add: need_def simdjson_error_def split: option.splits)

lemma fromString_no_abort [simp]: "no_abort (fromString s)"
  using fromString_accepts_iff [of s] fromString_rejects [of s] by (force simp: no_abort_def)

lemma parseDecimal_no_abort [simp]: "no_abort (parseDecimal api e)"
  by (simp add: parseDecimal_def split: option.splits)

lemma digit_not_space: "is_digit_char c \<Longrightarrow> \<not> isWhitespace c"
proof -
  assume "is_digit_char c"
  then have "48 \<le> int (of_char c)" by (simp add: is_digit_char_def char_code_def of_nat_of_char)
  then have "48 \<le> (of_char c :: nat)" by linarith
  then show ?thesis unfolding isWhitespace_def Let_def by linarith
qed

text \<open>The decimal text of an order id is read back, whatever non-digit follows it.\<close>

lemma stoull_nat_text:
  assumes "n < 2 ^ 64" and "rest = [] \<or> \<not> is_digit_char (hd rest)"
  shows "stoull (nat_text n @ rest) = Inr (word_of_nat n)"
proof -
  obtain c cs where t: "nat_text n = c # cs" using nat_text_digits [of n] by (cases "nat_text n") auto
  have c: "is_digit_char c" using nat_text_digits [of n] by (simp add: t)
  then have w: "\<not> isWhitespace c" "c \<noteq> CHR ''-''" "c \<noteq> CHR ''+''"
    using digit_not_space [OF c] by (auto simp: is_digit_char_def char_code_def)
  have "takeWhile is_digit_char (nat_text n @ rest) = nat_text n"
    using nat_text_digits [of n] assms(2) by (cases rest) (auto simp: takeWhile_append list_all_iff)
  then have "takeWhile is_digit_char (c # cs @ rest) = c # cs" by (simp add: t)
  moreover have "digits_nat (c # cs) 0 = n" using nat_text_digits [of n] by (simp add: t)
  ultimately show ?thesis using w assms(1) by (simp add: stoull_def t Let_def)
qed

lemma need_cases: "need e = Inr x \<longleftrightarrow> e = Some x"
  by (cases e) (simp_all add: need_def)

lemma decode_snapshot_ok:
  "decode_snapshot api obj ev = Inr (Some ev') \<Longrightarrow>
   \<exists>bs as. decode_side api obj ''bids'' = Inr bs \<and> decode_side api obj ''asks'' = Inr as \<and>
     ev' = ev\<lparr> ev_kind := Snapshot, ev_snapshot := \<lparr> snap_bids = bs, snap_asks = as \<rparr> \<rparr>"
  by (auto simp: decode_snapshot_def bind_outcome_eq_Inr)

lemma decode_new_order_ok:
  "decode_new_order api obj ev = Inr (Some ev') \<Longrightarrow>
   \<exists>ie oid s p q. field api obj ''order_id'' = Some ie \<and> parseOrderId api ie = Some oid \<and>
     ev' = ev\<lparr> ev_kind := NewOrder,
       ev_order := \<lparr> order_id = oid, order_side = s, order_price = p, order_quantity = q \<rparr> \<rparr>"
proof -
  assume d: "decode_new_order api obj ev = Inr (Some ev')"
  then obtain ie where ie: "field api obj ''order_id'' = Some ie"
    by (auto simp: decode_new_order_def bind_outcome_eq_Inr need_cases)
  with d obtain oid where oid: "parseOrderId api ie = Some oid"
    by (cases "parseOrderId api ie") (auto simp: decode_new_order_def need_def)
  show ?thesis
  proof (cases "Option.bind (field api obj ''side'') (get_string api)")
    case None
    with d ie oid show ?thesis by (simp add: decode_new_order_def need_def)
  next
    case (Some st)
    with d ie oid show ?thesis
      by (auto simp: decode_new_order_def need_def [of "Some ie"] bind_outcome_eq_Inr need_cases)
  qed
qed

lemma decode_cancel_ok:
  "decode_cancel api obj ev = Inr (Some ev') \<Longrightarrow>
   \<exists>ie oid. field api obj ''order_id'' = Some ie \<and> parseOrderId api ie = Some oid \<and>
     ev' = ev\<lparr> ev_kind := CancelOrder, ev_order := empty_order\<lparr> order_id := oid \<rparr> \<rparr>"
  unfolding decode_cancel_def
  by (auto simp: bind_outcome_eq_Inr need_cases split: option.splits)

lemma frame_header_sel [simp]:
  "ev_exchange (frame_header api exchange now obj) = exchange"
  "ev_local_timestamp_ns (frame_header api exchange now obj) = now"
  "ev_snapshot (frame_header api exchange now obj) = empty_snapshot"
  "ev_order (frame_header api exchange now obj) = empty_order"
  by (simp_all add: frame_header_def empty_event_def)

lemma decode_frame_cases:
  assumes "decode_frame api exchange now obj = Inr (Some ev)"
  shows "decode_snapshot api obj (frame_header api exchange now obj) = Inr (Some ev) \<or>
    decode_new_order api obj (frame_header api exchange now obj) = Inr (Some ev) \<or>
    decode_cancel api obj (frame_header api exchange now obj) = Inr (Some ev)"
proof -
  have three: "x = Inr (Some ev) \<or> y = Inr (Some ev) \<or> z = Inr (Some ev)"
    if "(if a then x else if b then y else if c then z else Inr None) = Inr (Some ev)"
    for a b c and x y z :: "book_event option outcome"
    using that by (auto split: if_splits)
  show ?thesis
  proof (cases "Option.bind (field api obj ''type'') (get_string api)")
    case None
    with assms show ?thesis by (simp add: decode_frame_def)
  next
    case (Some ty)
    show ?thesis using assms unfolding decode_frame_def Some Let_def option.case by (rule three)
  qed
qed

lemma decode_frame_ok:
  assumes "decode_frame api exchange now obj = Inr (Some ev)"
  shows "ev_exchange ev = exchange \<and> ev_local_timestamp_ns ev = now \<and>
    (ev_kind ev \<noteq> Snapshot \<longrightarrow> ev_snapshot ev = empty_snapshot \<and>
       (\<exists>e. field api obj ''order_id'' = Some e \<and> parseOrderId api e = Some (order_id (ev_order ev)))) \<and>
    (ev_kind ev = Snapshot \<longrightarrow> ev_order ev = empty_order)"
  using decode_frame_cases [OF assms]
  by (elim disjE) (auto dest!: decode_snapshot_ok decode_new_order_ok decode_cancel_ok)

lemma decode_level_list_no_abort [simp]: "no_abort (decode_level_list api es)"
  by (induction es) (auto simp: decode_level_def)

lemma decode_side_no_abort [simp]: "no_abort (decode_side api obj key)"
  by (simp add: decode_side_def split: option.splits)

lemma decode_frame_no_abort: "no_abort (decode_frame api exchange now obj)"
proof -
  have "no_abort (decode_snapshot api obj ev)" "no_abort (decode_new_order api obj ev)"
    "no_abort (decode_cancel api obj ev)" for ev
    by (auto simp: decode_snapshot_def decode_new_order_def decode_cancel_def split: option.split)
  then show ?thesis unfolding decode_frame_def Let_def by (simp split: option.split)
qed

text \<open>The fields of a new order message arrive unchanged.\<close>

lemma decode_new_order_fields:
  assumes "Option.bind (field api obj ''type'') (get_string api) = Some ''new_order''"
    and "field api obj ''order_id'' = Some ie" and "parseOrderId api ie = Some oid"
    and "Option.bind (field api obj ''side'') (get_string api) = Some (if s = Ask then ''ask'' else ''bid'')"
    and "field api obj ''price'' = Some pe" and "get_string api pe = Some (toString 18 p)"
    and "field api obj ''quantity'' = Some qe" and "get_string api qe = Some (toString 18 q)"
    and "dval p \<noteq> - (2 ^ 127)" and "dval q \<noteq> - (2 ^ 127)"
  shows "decode_frame api exchange now obj = Inr (Some ((frame_header api exchange now obj)
     \<lparr> ev_kind := NewOrder,
       ev_order := \<lparr> order_id = oid, order_side = s, order_price = p, order_quantity = q \<rparr> \<rparr>))"
proof -
  have "fromString (toString 18 p) = Inr p" "fromString (toString 18 q) = Inr q"
    using assms(9,10) by (simp_all add: toString_exact)
  then show ?thesis using assms(1-8)
    by (cases s) (simp_all add: decode_frame_def Let_def decode_new_order_def need_def parseDecimal_def
        feed_parseSide_def)
qed

lemma pump_append:
  "\<forall>f \<in> set fs. frame_payload f \<noteq> [] \<Longrightarrow>
   pump api parse exchange (fs @ gs) = pump api parse exchange fs @ pump api parse exchange gs"
  by (induction fs) auto

lemma pump_eq: "pump api parse exchange fs = concat (map (handle_frame api parse exchange) (takeWhile (\<lambda>f. frame_payload f \<noteq> []) fs))"
  by (induction fs) auto

definition callbacks :: "feed_action list \<Rightarrow> book_event list" where
  "callbacks as = concat (map (\<lambda>a. case a of Callback ev \<Rightarrow> [ev] | _ \<Rightarrow> []) as)"

text \<open>A frame that cannot be decoded is reported and costs nothing else: the others are delivered in order.\<close>

definition frame_events ::
  "('e, 'd) json_api \<Rightarrow> (string \<Rightarrow> 'e option) \<Rightarrow> string \<Rightarrow> ws_frame \<Rightarrow> book_event list" where
  "frame_events api parse exchange f =
     (if frame_op f = Op_text
      then (case decode_frame api exchange (frame_now f) (parse (frame_payload f)) of
              Inr (Some ev) \<Rightarrow> [ev] | _ \<Rightarrow> [])
      else [])"

lemma callbacks_append: "callbacks (as @ bs) = callbacks as @ callbacks bs"
  by (simp add: callbacks_def)

lemma callbacks_handle: "callbacks (handle_frame api parse exchange f) = frame_events api parse exchange f"
  by (auto simp: callbacks_def handle_frame_def frame_events_def split: ws_op.splits sum.splits option.splits failure.splits)

lemma callbacks_pump:
  "callbacks (pump api parse exchange fs) =
   concat (map (frame_events api parse exchange) (takeWhile (\<lambda>f. frame_payload f \<noteq> []) fs))"
  by (induction fs) (simp_all add: callbacks_append callbacks_handle, simp_all add: callbacks_def)

lemma load_feeds_iff:
  "load_feeds api es = Inr cs \<longleftrightarrow> list_all2 (\<lambda>e c. load_feed api e = Inr c) es cs"
  by (induction es arbitrary: cs) (auto simp: bind_outcome_eq_Inr list_all2_Cons1)

lemma loadAggregatorConfig_iff:
  "(\<exists>c. loadAggregatorConfig api doc = Inr c) \<longleftrightarrow>
   (\<exists>g fs cs. field api doc ''grpc'' = Some g \<and> is_object api g \<and>
      Option.bind (field api doc ''feeds'') (get_array api) = Some fs \<and> load_feeds api fs = Inr cs)"
  by (auto simp: loadAggregatorConfig_def Let_def bind_outcome_eq_Inr split: option.splits bind_splits if_splits)

section \<open>Properties\<close>

text \<open>
  A connection hands to the engine, in order, exactly the events decoded from the text frames before
  the first empty frame; a frame that cannot be decoded is reported and costs no other frame, and decoding
  never ends the process.
\<close>

theorem feed_delivers_decoded:
  "callbacks (pump api parse exchange fs) =
     concat (map (frame_events api parse exchange) (takeWhile (\<lambda>f. frame_payload f \<noteq> []) fs)) \<and>
   no_abort (decode_frame api exchange now obj)"
  using callbacks_pump decode_frame_no_abort by blast

text \<open>
  A new order message whose price and quantity are the printed decimals is decoded to exactly that
  order, under the feed's exchange name.
\<close>

theorem feed_new_order_fields:
  assumes "Option.bind (field api obj ''type'') (get_string api) = Some ''new_order''"
    and "field api obj ''order_id'' = Some ie" and "get_uint64 api ie = None"
    and "get_string api ie = Some (nat_text n)" and "n < 2 ^ 64"
    and "Option.bind (field api obj ''side'') (get_string api) = Some (if s = Ask then ''ask'' else ''bid'')"
    and "field api obj ''price'' = Some pe" and "get_string api pe = Some (toString 18 p)"
    and "field api obj ''quantity'' = Some qe" and "get_string api qe = Some (toString 18 q)"
    and "dval p \<noteq> - (2 ^ 127)" and "dval q \<noteq> - (2 ^ 127)"
  shows "decode_frame api exchange now obj = Inr (Some ((frame_header api exchange now obj)
     \<lparr> ev_kind := NewOrder,
       ev_order := \<lparr> order_id = word_of_nat n, order_side = s, order_price = p, order_quantity = q \<rparr> \<rparr>))"
proof -
  have "stoull (nat_text n) = Inr (word_of_nat n)" using stoull_nat_text [OF assms(5), of "[]"] by simp
  then have "parseOrderId api ie = Some (word_of_nat n)" using assms(3,4) by (simp add: parseOrderId_def)
  from decode_new_order_fields [OF assms(1,2) this assms(6-12)] show ?thesis .
qed

definition text_api :: "(string, unit) json_api" where
  "text_api = \<lparr> get_string = (\<lambda>e. Some (if e = ''t'' then ''new_order'' else if e = ''s'' then ''ask'' else if e = ''i'' then nat_text 5 else toString 18 0)),
     get_double = (\<lambda>_. None), get_uint64 = (\<lambda>_. None), get_int64 = (\<lambda>_. None), get_array = (\<lambda>_. None),
     is_object = (\<lambda>_. True),
     member_of = (\<lambda>_ k. Some (if k = ''type'' then ''t'' else if k = ''side'' then ''s'' else if k = ''order_id'' then ''i'' else ''p'')),
     scaled_round = (\<lambda>_. 0) \<rparr>"

theorem feed_new_order_fields_witness:
  "decode_frame text_api ''A'' 1 (Some ''o'') = Inr (Some ((frame_header text_api ''A'' 1 (Some ''o''))
     \<lparr> ev_kind := NewOrder,
       ev_order := \<lparr> order_id = word_of_nat 5, order_side = Ask, order_price = 0, order_quantity = 0 \<rparr> \<rparr>))"
  by (rule feed_new_order_fields [of _ _ "''i''" _ _ "''p''" _ "''p''"]) (simp_all add: text_api_def field_def)

text \<open>
  A price sent as a JSON number passes through a 64 bit integer, so no such price can reach 9.3:
  larger ones cannot arrive as what was sent.
\<close>

theorem feed_number_bound:
  assumes "get_string api e = None" and "parseDecimal api e = Inr d"
  shows "\<bar>dval d\<bar> \<le> 2 ^ 63 \<and> d < fromRaw 9300000000000000000"
proof -
  obtain v where d: "d = fromDouble api v" using assms by (auto simp: parseDecimal_def split: option.splits)
  have "dval (fromRaw 9300000000000000000) = 9300000000000000000" by (simp add: fromRaw_def)
  then show ?thesis using fromDouble_bound [of api v] by (simp add: d decimal_simps abs_le_iff)
qed

definition number_api :: "(string, unit) json_api" where
  "number_api = text_api\<lparr> get_string := (\<lambda>_. None), get_double := (\<lambda>_. Some ()), scaled_round := (\<lambda>_. 5) \<rparr>"

theorem feed_number_bound_witness: "fromDouble number_api () < fromRaw 9300000000000000000"
  using feed_number_bound [of number_api "''x''" "fromDouble number_api ()"]
  by (simp add: number_api_def parseDecimal_def)

end
