(* ===== verification/Mains.thy ===== *)
theory Mains
  imports Services Feed
begin

text \<open>
  The demo exchange and the main programs around it: the request handler and \<open>main\<close> of
  src/services/cex_type1_service/main.cpp, the request and the life of a feed in src/src/cex_type1/feed.cpp,
  and \<open>main\<close> of src/services/aggregator_service/main.cpp. The HTTP server of Poco and the gRPC server are
  not part of the sources: what they answer is an argument. A program ends with an exit status, or is
  terminated by an exception nobody catches or by a failed assertion.
\<close>

datatype program_end = Exit_status nat | Terminated failure

section \<open>The request of a feed and the demo exchange\<close>

text \<open>The path and the \<open>Authorization\<close> header a feed sends; \<open>path_of\<close> is \<open>getPathAndQuery\<close> of its URL.\<close>

record http_request =
  req_uri :: string
  req_auth :: "string option"

definition feed_request :: "string \<Rightarrow> string \<Rightarrow> http_request" where
  "feed_request path_of auth_token =
     \<lparr> req_uri = (if path_of = [] then ''/'' else path_of),
       req_auth = (if auth_token \<noteq> [] then Some (''Bearer '' @ auth_token) else None) \<rparr>"

definition createRequestHandler :: "string \<Rightarrow> http_request \<Rightarrow> bool" where
  "createRequestHandler exchange request = (req_uri request = ''/'' @ exchange)"

datatype http_answer = No_handler | Unauthorized | Web_socket "string list"

definition request_authorized :: "string \<Rightarrow> http_request \<Rightarrow> bool" where
  "request_authorized token request =
     (let auth = (case req_auth request of None \<Rightarrow> [] | Some a \<Rightarrow> a)
      in \<not> (token \<noteq> [] \<and> auth \<noteq> ''Bearer '' @ token))"

text \<open>The loop of \<open>handleRequest\<close> over \<open>n\<close> rounds; \<open>fuel\<close> bounds each call of \<open>next\<close>.\<close>

fun send_payloads :: "nat \<Rightarrow> nat \<Rightarrow> cycler \<Rightarrow> (string list \<times> cycler) option" where
  "send_payloads fuel 0 c = Some ([], c)"
| "send_payloads fuel (Suc n) c =
     (case next_payload fuel c of
        None \<Rightarrow> None
      | Some (payload, c1) \<Rightarrow> map_option (\<lambda>(ps, c2). (payload # ps, c2)) (send_payloads fuel n c1))"

definition handleRequest :: "string \<Rightarrow> nat \<Rightarrow> nat \<Rightarrow> http_request \<Rightarrow> cycler \<Rightarrow> (http_answer \<times> cycler) option" where
  "handleRequest token fuel n request c =
     (if \<not> request_authorized token request then Some (Unauthorized, c)
      else map_option (\<lambda>(ps, c1). (Web_socket ps, c1)) (send_payloads fuel n c))"

definition serve :: "string \<Rightarrow> string \<Rightarrow> nat \<Rightarrow> nat \<Rightarrow> http_request \<Rightarrow> cycler \<Rightarrow> (http_answer \<times> cycler) option" where
  "serve exchange token fuel n request c =
     (if createRequestHandler exchange request then handleRequest token fuel n request c else Some (No_handler, c))"

section \<open>The main program of the demo exchange\<close>

text \<open>\<open>std::stoi\<close>: white space, a sign, digits; the rest of the text is ignored.\<close>

definition signed_digits :: "string \<Rightarrow> bool \<times> string" where
  "signed_digits text =
     (let s = dropWhile isWhitespace text;
          (neg, s1) = (case s of c # cs \<Rightarrow> if c = CHR ''-'' then (True, cs) else if c = CHR ''+'' then (False, cs) else (False, s)
                       | [] \<Rightarrow> (False, []))
      in (neg, takeWhile is_digit_char s1))"

definition stoi :: "string \<Rightarrow> int outcome" where
  "stoi text =
     (let (neg, ds) = signed_digits text
      in if ds = [] then Inl (Throw (Invalid_argument ''stoi''))
         else (let v = (if neg then - int (digits_nat ds 0) else int (digits_nat ds 0))
               in if v < - (2 ^ 31) \<or> 2 ^ 31 \<le> v then Inl (Throw (Out_of_range ''stoi'')) else Inr v))"

text \<open>\<open>std::strtoull\<close> on a whole argument: 0 without digits, the negated value after a minus sign.\<close>

definition strtoull_arg :: "string \<Rightarrow> u64" where
  "strtoull_arg text =
     (let (neg, ds) = signed_digits text
      in if ds = [] then 0
         else if neg \<and> digits_nat ds 0 < 2 ^ 64 then - strtoull ds else strtoull ds)"

record demo_settings =
  demo_exchange :: string
  demo_port :: "16 word"
  demo_token :: string
  demo_interval_ms :: int
  demo_payloads :: cycler

text \<open>
  \<open>main\<close> up to the started server. \<open>argv\<close> holds the arguments after the program name, \<open>read_file\<close> the lines
  of a file that can be opened, \<open>bind_port\<close> whether the server socket can be bound. The conversions of the
  port and of the interval stand before the \<open>try\<close>.
\<close>

definition demo_arguments :: "string list \<Rightarrow> (string \<times> string \<times> 16 word \<times> string \<times> int \<times> u64) outcome" where
  "demo_arguments argv =
     bind_outcome (stoi (argv ! 2)) (\<lambda>port.
     bind_outcome (if 4 < length argv then stoi (argv ! 4) else Inr 200) (\<lambda>interval.
     Inr (argv ! 0, argv ! 1, word_of_int port, argv ! 3, interval,
          if 5 < length argv then strtoull_arg (argv ! 5) else 0)))"

definition demo_main ::
  "(string \<Rightarrow> string list option) \<Rightarrow> (16 word \<Rightarrow> bool) \<Rightarrow> string list \<Rightarrow> demo_settings option \<times> program_end option" where
  "demo_main read_file bind_port argv =
     (if length argv < 4 then (None, Some (Exit_status 1))
      else (case demo_arguments argv of
              Inl e \<Rightarrow> (None, Some (Terminated e))
            | Inr (exchange, file, port, token, interval, start_sequence) \<Rightarrow>
                (case read_file file of
                   None \<Rightarrow> (None, Some (Exit_status 1))
                 | Some ls \<Rightarrow>
                     if \<not> bind_port port then (None, Some (Exit_status 1))
                     else (Some \<lparr> demo_exchange = exchange, demo_port = port, demo_token = token,
                       demo_interval_ms = interval, demo_payloads = new_cycler ls start_sequence \<rparr>, None))))"

text \<open>Once signalled, the server is stopped and \<open>main\<close> returns 0.\<close>

definition demo_signalled :: "demo_settings option \<times> program_end option \<Rightarrow> program_end option" where
  "demo_signalled r = (case r of (Some _, None) \<Rightarrow> Some (Exit_status 0) | (_, e) \<Rightarrow> e)"

section \<open>The life of a feed\<close>

text \<open>
  \<open>run\<close>: one connection after the other. A connection fails, or brings frames until it ends; a frame longer
  than the buffer of 4096 bytes makes \<open>receiveFrame\<close> throw, which ends the connection.
\<close>

datatype connection = Refused exn | Connected "ws_frame list"

definition kFeedBuffer :: nat where
  "kFeedBuffer = 4096"

definition feed_connection ::
  "('e, 'd) json_api \<Rightarrow> (string \<Rightarrow> 'e option) \<Rightarrow> string \<Rightarrow> connection \<Rightarrow> feed_action list" where
  "feed_connection api parse exchange conn =
     (case conn of
        Refused e \<Rightarrow> [Warn e]
      | Connected frames \<Rightarrow>
          (let good = takeWhile (\<lambda>f. length (frame_payload f) \<le> kFeedBuffer) frames
           in pump api parse exchange good @
              (if length good = length frames \<or> (\<exists>f \<in> set good. frame_payload f = []) then []
               else [Warn (Library_error ''payload too big'')])))"

fun feed_run ::
  "('e, 'd) json_api \<Rightarrow> (string \<Rightarrow> 'e option) \<Rightarrow> string \<Rightarrow> connection list \<Rightarrow> feed_action list" where
  "feed_run api parse exchange [] = []"
| "feed_run api parse exchange (conn # conns) = feed_connection api parse exchange conn @ feed_run api parse exchange conns"

section \<open>The main program of the aggregator\<close>




section \<open>Lemmas\<close>

text \<open>The replay from a position of the file on: every line is sent, and the file starts over at its end.\<close>

lemma next_payload_cycle:
  assumes "skip_until c = 0" "past_threshold c" and "[] \<notin> set (file_lines c)" and "k < length (file_lines c)"
    and "unread c = drop k (file_lines c) \<or> k = 0 \<and> unread c = []" and "2 \<le> fuel"
  shows "next_payload fuel c = Some (file_lines c ! k, c\<lparr> unread := drop (Suc k) (file_lines c) \<rparr>)"
proof -
  obtain f where f: "fuel = Suc (Suc f)" using assms(6) by (metis add_2_eq_Suc le_Suc_ex)
  define d where "d = c\<lparr> unread := drop k (file_lines c) \<rparr>"
  have d: "unread d = (file_lines c ! k) # drop (Suc k) (file_lines c)"
    unfolding d_def using assms(4) by (simp add: Cons_nth_drop_Suc)
  have "file_lines c ! k \<noteq> []" using assms(3,4) nth_mem by metis
  then have "acceptable d (file_lines c ! k)" using assms(2) by (simp add: d_def acceptable_def)
  then have n: "next_payload (Suc g) d = Some (file_lines c ! k, c\<lparr> unread := drop (Suc k) (file_lines c) \<rparr>)" for g
    using assms(2) by (simp add: next_payload_Cons [OF d], simp add: d_def)
  show ?thesis
  proof (cases "unread c = []")
    case True
    then have "k = 0" using assms(4,5) by auto
    then show ?thesis using n [of f] next_payload_Nil [OF True, of "Suc f"] by (simp add: f d_def)
  next
    case False
    then have "d = c" using assms(5) by (auto simp: d_def)
    then show ?thesis using n [of "Suc f"] f by simp
  qed
qed

lemma send_payloads_cycle:
  assumes "skip_until c = 0" "past_threshold c" and "[] \<notin> set (file_lines c)" and "file_lines c \<noteq> []"
    and "unread c = drop (k mod length (file_lines c)) (file_lines c) \<or> k mod length (file_lines c) = 0 \<and> unread c = []" and "2 \<le> fuel"
  shows "\<exists>c'. send_payloads fuel n c = Some (map (\<lambda>i. file_lines c ! (i mod length (file_lines c))) [k..<k + n], c')"
  using assms(1-5)
proof (induction n arbitrary: c k)
  case (Suc n)
  define L where "L = length (file_lines c)"
  have L: "0 < L" using Suc.prems(4) by (simp add: L_def)
  let ?c1 = "c\<lparr> unread := drop (Suc (k mod L)) (file_lines c) \<rparr>"
  have step: "next_payload fuel c = Some (file_lines c ! (k mod L), ?c1)"
    using Suc.prems L by (intro next_payload_cycle assms(6)) (simp_all add: L_def)
  have "unread ?c1 = drop (Suc k mod L) (file_lines ?c1) \<or> Suc k mod L = 0 \<and> unread ?c1 = []"
    by (simp add: mod_Suc) (simp add: L_def)
  then obtain c' where "send_payloads fuel n ?c1 = Some (map (\<lambda>i. file_lines c ! (i mod L)) [Suc k..<Suc k + n], c')"
    using Suc.IH [of ?c1 "Suc k"] Suc.prems by (auto simp: L_def)
  moreover have "[k..<k + Suc n] = k # [Suc k..<Suc k + n]" by (simp add: upt_conv_Cons)
  ultimately show ?case using step by (simp add: L_def)
qed simp

definition text_frame :: "i64 \<Rightarrow> string \<Rightarrow> ws_frame" where
  "text_frame now payload = \<lparr> frame_op = Op_text, frame_payload = payload, frame_now = now \<rparr>"

lemma callbacks_connection:
  assumes "\<forall>p \<in> set ps. p \<noteq> [] \<and> length p \<le> kFeedBuffer"
  shows "callbacks (feed_connection api parse exchange (Connected (map (text_frame now) ps))) =
    concat (map (\<lambda>p. frame_events api parse exchange (text_frame now p)) ps)"
proof -
  have l: "takeWhile (\<lambda>f. length (frame_payload f) \<le> kFeedBuffer) (map (text_frame now) ps) = map (text_frame now) ps"
    using assms by (intro takeWhile_eq_all_conv [THEN iffD2]) (auto simp: text_frame_def)
  have e: "takeWhile (\<lambda>f. frame_payload f \<noteq> []) (map (text_frame now) ps) = map (text_frame now) ps"
    using assms by (intro takeWhile_eq_all_conv [THEN iffD2]) (auto simp: text_frame_def)
  show ?thesis unfolding feed_connection_def Let_def connection.case l
    using callbacks_pump [of api parse exchange "map (text_frame now) ps"] by (simp add: e comp_def)
qed

text \<open>A message longer than the buffer is never delivered, and takes what follows it on its connection along.\<close>

lemma oversized_frame:
  assumes "kFeedBuffer < length p"
  shows "callbacks (feed_connection api parse exchange (Connected (text_frame now p # frames))) = []"
  using assms by (simp add: feed_connection_def text_frame_def callbacks_def)

lemma oversized_forever:
  assumes "kFeedBuffer < length p"
  shows "callbacks (feed_run api parse exchange (replicate k (Connected (text_frame now p # frames)))) = []"
proof (induction k)
  case (Suc k)
  then show ?case using oversized_frame [OF assms] by (simp add: callbacks_append)
qed (simp add: callbacks_def)

text \<open>The loader of the configuration holds no assertion: it throws or returns.\<close>

lemma load_feeds_never_abort: "load_feeds api fs \<noteq> Inl (Abort m)"
  by (induction fs)
    (auto simp: load_feed_def need_string_def simdjson_error_def bind_outcome_def split: option.splits sum.splits)

lemma loader_never_aborts: "loadAggregatorConfig api doc \<noteq> Inl (Abort m)"
  using load_feeds_never_abort
  by (auto simp: loadAggregatorConfig_def bind_outcome_def Let_def split: option.splits sum.splits)











section \<open>Properties\<close>

text \<open>
  C29: From the demo exchange to a feed: a feed with the exchange's path and token is accepted, and for a file of
  non-empty lines that fit its buffer it delivers, for every number of rounds, exactly what its decoder makes
  of the lines, in the order of the file and starting over at its end.
\<close>

theorem demo_feed_delivers:
  assumes "ls \<noteq> []" and "\<forall>l \<in> set ls. l \<noteq> [] \<and> length l \<le> kFeedBuffer" and "2 \<le> fuel"
  shows "\<exists>c' ps. serve exchange token fuel n (feed_request (''/'' @ exchange) token) (new_cycler ls 0) = Some (Web_socket ps, c') \<and>
    ps = map (\<lambda>i. ls ! (i mod length ls)) [0..<n] \<and>
    callbacks (feed_connection api parse name (Connected (map (text_frame now) ps))) =
      concat (map (\<lambda>i. frame_events api parse name (text_frame now (ls ! (i mod length ls)))) [0..<n])"
proof -
  let ?ps = "map (\<lambda>i. ls ! (i mod length ls)) [0..<n]"
  have "\<exists>c'. send_payloads fuel n (new_cycler ls 0) =
      Some (map (\<lambda>i. file_lines (new_cycler ls 0) ! (i mod length (file_lines (new_cycler ls 0)))) [0..<0 + n], c')"
    by (rule send_payloads_cycle) (use assms in \<open>auto simp: new_cycler_def\<close>)
  then obtain c' where "send_payloads fuel n (new_cycler ls 0) = Some (?ps, c')" by (auto simp: new_cycler_def)
  then have "serve exchange token fuel n (feed_request (''/'' @ exchange) token) (new_cycler ls 0) = Some (Web_socket ?ps, c')"
    by (simp add: serve_def createRequestHandler_def feed_request_def handleRequest_def request_authorized_def)
  moreover have "\<forall>p \<in> set ?ps. p \<noteq> [] \<and> length p \<le> kFeedBuffer"
  proof
    fix p assume "p \<in> set ?ps"
    then obtain i where "p = ls ! (i mod length ls)" by auto
    then have "p \<in> set ls" using assms(1) by simp
    then show "p \<noteq> [] \<and> length p \<le> kFeedBuffer" using assms(2) by blast
  qed
  then have "callbacks (feed_connection api parse name (Connected (map (text_frame now) ?ps))) =
      concat (map (\<lambda>p. frame_events api parse name (text_frame now p)) ?ps)" by (rule callbacks_connection)
  ultimately show ?thesis by (auto simp: comp_def)
qed

theorem demo_feed_delivers_witness:
  "\<exists>c'. serve ''ex'' ''tok'' 2 3 (feed_request ''/ex'' ''tok'') (new_cycler [''a'', ''b''] 0) = Some (Web_socket [''a'', ''b'', ''a''], c')"
proof -
  have "\<forall>l \<in> set [''a'', ''b'']. l \<noteq> [] \<and> length l \<le> kFeedBuffer" by (simp add: kFeedBuffer_def)
  from demo_feed_delivers [OF _ this, of 2 "''ex''" "''tok''" 3 text_api "\<lambda>_. None" "''x''" 0]
  show ?thesis by (simp add: numeral_3_eq_3)
qed



text \<open>A port that is not a number terminates the demo exchange, while a missing file makes it return 1.\<close>

lemma demo_bad_port:
  "demo_main read_file bind_port [''ex'', ''file'', ''port'', ''tok''] = (None, Some (Terminated (Throw (Invalid_argument ''stoi''))))"
  "demo_main (\<lambda>_. None) bind_port [''ex'', ''file'', ''80'', ''tok''] = (None, Some (Exit_status 1))"
  by code_simp+

end
