(* ===== verification/Format_Ext.thy ===== *)
theory Format_Ext
  imports Prelude
begin

text \<open>
  The formatting extension of src/instructions/extension.h: the buffered sink \<open>FormatSinkImpl\<close> with its
  1024 byte buffer in front of a raw sink, the conversion characters and the bit sets of them, the flags
  and the conversion specification. The raw sink is the text written to it; \<open>PutPaddedString\<close> and
  \<open>FlagsToString\<close> are only declared in this header and are not modelled.
\<close>

unbundle bit_operations_syntax

section \<open>The sink\<close>

record format_sink =
  raw_out :: string
  sink_size :: u64
  sink_buf :: string

definition kBufSize :: nat where
  "kBufSize = 1024"

definition new_sink :: format_sink where
  "new_sink = \<lparr> raw_out = [], sink_size = 0, sink_buf = [] \<rparr>"

definition Avail :: "format_sink \<Rightarrow> nat" where
  "Avail s = kBufSize - length (sink_buf s)"

definition raw_write :: "string \<Rightarrow> format_sink \<Rightarrow> format_sink" where
  "raw_write v s = s\<lparr> raw_out := raw_out s @ v \<rparr>"

definition Flush :: "format_sink \<Rightarrow> format_sink" where
  "Flush s = (raw_write (sink_buf s) s)\<lparr> sink_buf := [] \<rparr>"

definition raw_append :: "nat \<Rightarrow> char \<Rightarrow> format_sink \<Rightarrow> format_sink" where
  "raw_append count c s = s\<lparr> sink_buf := sink_buf s @ replicate count c \<rparr>"

text \<open>The loop of \<open>Append(size_t n, char c)\<close>: fill the rest of the buffer and flush until the rest fits.\<close>

function append_loop :: "nat \<Rightarrow> char \<Rightarrow> format_sink \<Rightarrow> format_sink" where
  "append_loop n c s =
     (if Avail s < n
      then append_loop (n - Avail s) c (Flush (if 0 < Avail s then raw_append (Avail s) c s else s))
      else raw_append n c s)"
  by pat_completeness auto
termination
  by (relation "measure (\<lambda>(n, c, s). 2 * n + (if Avail s = 0 then 1 else 0))")
    (auto simp: Avail_def Flush_def raw_write_def kBufSize_def)

declare append_loop.simps [simp del]

definition Append_char :: "nat \<Rightarrow> char \<Rightarrow> format_sink \<Rightarrow> format_sink" where
  "Append_char n c s =
     (if n = 0 then s else append_loop n c (s\<lparr> sink_size := sink_size s + word_of_nat n \<rparr>))"

definition Append_text :: "string \<Rightarrow> format_sink \<Rightarrow> format_sink" where
  "Append_text v s =
     (let n = length v
      in if n = 0 then s
         else (let s1 = s\<lparr> sink_size := sink_size s + word_of_nat n \<rparr>
               in if Avail s1 \<le> n then raw_write v (Flush s1) else s1\<lparr> sink_buf := sink_buf s1 @ v \<rparr>))"

section \<open>Flags\<close>

type_synonym flags = u8

definition kBasic :: flags where "kBasic = 0"
definition kLeft :: flags where "kLeft = push_bit 0 1"
definition kShowPos :: flags where "kShowPos = push_bit 1 1"
definition kSignCol :: flags where "kSignCol = push_bit 2 1"
definition kAlt :: flags where "kAlt = push_bit 3 1"
definition kZeroFlag :: flags where "kZeroFlag = push_bit 4 1"
definition kNonBasic :: flags where "kNonBasic = push_bit 5 1"

definition flags_or :: "flags \<Rightarrow> flags \<Rightarrow> flags" where
  "flags_or a b = a OR b"

definition FlagsContains :: "flags \<Rightarrow> flags \<Rightarrow> bool" where
  "FlagsContains haystack needle \<longleftrightarrow> haystack AND needle = needle"

section \<open>Conversion characters\<close>

datatype conv_char =
    Conv_c | Conv_s
  | Conv_d | Conv_i | Conv_o | Conv_u | Conv_x | Conv_X
  | Conv_f | Conv_F | Conv_e | Conv_E | Conv_g | Conv_G | Conv_a | Conv_A
  | Conv_n | Conv_p
  | Conv_kNone

text \<open>The table the macro \<open>ABSL_INTERNAL_CONVERSION_CHARS_EXPAND_\<close> expands, in its order.\<close>

definition conversion_chars :: "(char \<times> conv_char) list" where
  "conversion_chars =
     [(CHR ''c'', Conv_c), (CHR ''s'', Conv_s),
      (CHR ''d'', Conv_d), (CHR ''i'', Conv_i), (CHR ''o'', Conv_o),
      (CHR ''u'', Conv_u), (CHR ''x'', Conv_x), (CHR ''X'', Conv_X),
      (CHR ''f'', Conv_f), (CHR ''F'', Conv_F), (CHR ''e'', Conv_e), (CHR ''E'', Conv_E),
      (CHR ''g'', Conv_g), (CHR ''G'', Conv_G), (CHR ''a'', Conv_a), (CHR ''A'', Conv_A),
      (CHR ''n'', Conv_n), (CHR ''p'', Conv_p)]"

definition conv_value :: "conv_char \<Rightarrow> nat" where
  "conv_value c = (case c of
     Conv_c \<Rightarrow> 0 | Conv_s \<Rightarrow> 1 | Conv_d \<Rightarrow> 2 | Conv_i \<Rightarrow> 3 | Conv_o \<Rightarrow> 4 | Conv_u \<Rightarrow> 5 | Conv_x \<Rightarrow> 6 | Conv_X \<Rightarrow> 7
   | Conv_f \<Rightarrow> 8 | Conv_F \<Rightarrow> 9 | Conv_e \<Rightarrow> 10 | Conv_E \<Rightarrow> 11 | Conv_g \<Rightarrow> 12 | Conv_G \<Rightarrow> 13 | Conv_a \<Rightarrow> 14 | Conv_A \<Rightarrow> 15
   | Conv_n \<Rightarrow> 16 | Conv_p \<Rightarrow> 17 | Conv_kNone \<Rightarrow> 18)"

definition FormatConversionCharFromChar :: "char \<Rightarrow> conv_char" where
  "FormatConversionCharFromChar ch = (case map_of conversion_chars ch of Some c \<Rightarrow> c | None \<Rightarrow> Conv_kNone)"

fun char_of_conv :: "(char \<times> conv_char) list \<Rightarrow> conv_char \<Rightarrow> char" where
  "char_of_conv [] c = CHR 0x00"
| "char_of_conv ((ch, e) # es) c = (if c = e then ch else char_of_conv es c)"

definition FormatConversionCharToChar :: "conv_char \<Rightarrow> char" where
  "FormatConversionCharToChar c = (if c = Conv_kNone then CHR 0x00 else char_of_conv conversion_chars c)"

definition FormatConversionCharIsUpper :: "conv_char \<Rightarrow> bool" where
  "FormatConversionCharIsUpper c \<longleftrightarrow> c = Conv_X \<or> c = Conv_F \<or> c = Conv_E \<or> c = Conv_G \<or> c = Conv_A"

definition FormatConversionCharIsFloat :: "conv_char \<Rightarrow> bool" where
  "FormatConversionCharIsFloat c \<longleftrightarrow>
     c = Conv_a \<or> c = Conv_e \<or> c = Conv_f \<or> c = Conv_g \<or> c = Conv_A \<or> c = Conv_E \<or> c = Conv_F \<or> c = Conv_G"

definition print_conversion_char :: "conv_char \<Rightarrow> string" where
  "print_conversion_char v =
     (let c = FormatConversionCharToChar v in if c = CHR 0x00 then ''?'' else [c])"

section \<open>Conversion specifications\<close>

record conversion_spec =
  spec_conv :: conv_char
  spec_flags :: flags
  spec_width :: int
  spec_precision :: int

definition is_basic :: "conversion_spec \<Rightarrow> bool" where "is_basic s \<longleftrightarrow> spec_flags s = kBasic"
definition has_left_flag :: "conversion_spec \<Rightarrow> bool" where "has_left_flag s = FlagsContains (spec_flags s) kLeft"
definition has_show_pos_flag :: "conversion_spec \<Rightarrow> bool" where "has_show_pos_flag s = FlagsContains (spec_flags s) kShowPos"
definition has_sign_col_flag :: "conversion_spec \<Rightarrow> bool" where "has_sign_col_flag s = FlagsContains (spec_flags s) kSignCol"
definition has_alt_flag :: "conversion_spec \<Rightarrow> bool" where "has_alt_flag s = FlagsContains (spec_flags s) kAlt"
definition has_zero_flag :: "conversion_spec \<Rightarrow> bool" where "has_zero_flag s = FlagsContains (spec_flags s) kZeroFlag"

definition SetFlags :: "flags \<Rightarrow> conversion_spec \<Rightarrow> conversion_spec" where "SetFlags f s = s\<lparr> spec_flags := f \<rparr>"
definition SetConversionChar :: "conv_char \<Rightarrow> conversion_spec \<Rightarrow> conversion_spec" where "SetConversionChar c s = s\<lparr> spec_conv := c \<rparr>"
definition SetWidth :: "int \<Rightarrow> conversion_spec \<Rightarrow> conversion_spec" where "SetWidth w s = s\<lparr> spec_width := w \<rparr>"
definition SetPrecision :: "int \<Rightarrow> conversion_spec \<Rightarrow> conversion_spec" where "SetPrecision p s = s\<lparr> spec_precision := p \<rparr>"

section \<open>Sets of conversion characters\<close>

type_synonym conv_set = u64

fun FormatConversionCharSetUnion :: "conv_set \<Rightarrow> conv_set list \<Rightarrow> conv_set" where
  "FormatConversionCharSetUnion a [] = a"
| "FormatConversionCharSetUnion a (b # rest) = a OR FormatConversionCharSetUnion b rest"

definition conv_to_int :: "conv_char \<Rightarrow> u64" where
  "conv_to_int c = push_bit (1 + conv_value c) 1"

definition FormatConversionCharToConvInt :: "char \<Rightarrow> u64" where
  "FormatConversionCharToConvInt conv =
     (case map_of conversion_chars conv of
        Some c \<Rightarrow> conv_to_int c
      | None \<Rightarrow> if conv = CHR ''*'' then 1 else 0)"

definition FormatConversionCharToConvValue :: "char \<Rightarrow> conv_set" where
  "FormatConversionCharToConvValue conv = FormatConversionCharToConvInt conv"

definition kStar :: conv_set where "kStar = FormatConversionCharToConvValue CHR ''*''"

definition char_sets :: "string \<Rightarrow> conv_set list" where
  "char_sets cs = map FormatConversionCharToConvValue cs"

definition kIntegral :: conv_set where
  "kIntegral = FormatConversionCharSetUnion (FormatConversionCharToConvValue CHR ''d'') (char_sets ''iuoxX'')"

definition kFloating :: conv_set where
  "kFloating = FormatConversionCharSetUnion (FormatConversionCharToConvValue CHR ''a'') (char_sets ''efgAEFG'')"

definition kNumeric :: conv_set where
  "kNumeric = FormatConversionCharSetUnion kIntegral [kFloating]"

definition kPointer :: conv_set where "kPointer = FormatConversionCharToConvValue CHR ''p''"

definition conv_set_or :: "conv_set \<Rightarrow> conv_set \<Rightarrow> conv_set" where
  "conv_set_or a b = FormatConversionCharSetUnion a [b]"

definition ToFormatConversionCharSet :: "char \<Rightarrow> conv_set" where
  "ToFormatConversionCharSet c = FormatConversionCharToConvValue c"

definition Contains_char :: "conv_set \<Rightarrow> char \<Rightarrow> bool" where
  "Contains_char S c \<longleftrightarrow> S AND FormatConversionCharToConvValue c \<noteq> 0"

definition Contains_set :: "conv_set \<Rightarrow> conv_set \<Rightarrow> bool" where
  "Contains_set S c \<longleftrightarrow> S AND c = c"

definition Contains_conv :: "conv_set \<Rightarrow> conv_char \<Rightarrow> bool" where
  "Contains_conv S c \<longleftrightarrow> S AND conv_to_int c \<noteq> 0"

definition Excess :: "nat \<Rightarrow> nat \<Rightarrow> nat" where
  "Excess used capacity = (if used < capacity then capacity - used else 0)"

section \<open>The sink writes what is appended\<close>

text \<open>
  The interface of a text sink: appending a run of one character and appending a text extend the text
  written so far, flushing does not change it, and each operation keeps the sink's invariant.
\<close>

datatype sink_op = Op_char nat char | Op_text string | Op_flush

fun op_text :: "sink_op \<Rightarrow> string" where
  "op_text (Op_char n c) = replicate n c"
| "op_text (Op_text v) = v"
| "op_text Op_flush = []"

fun run_sink_op ::
  "(nat \<Rightarrow> char \<Rightarrow> 's \<Rightarrow> 's) \<Rightarrow> (string \<Rightarrow> 's \<Rightarrow> 's) \<Rightarrow> ('s \<Rightarrow> 's) \<Rightarrow> sink_op \<Rightarrow> 's \<Rightarrow> 's" where
  "run_sink_op put_char put_text flush (Op_char n c) s = put_char n c s"
| "run_sink_op put_char put_text flush (Op_text v) s = put_text v s"
| "run_sink_op put_char put_text flush Op_flush s = flush s"

locale text_sink =
  fixes put_char :: "nat \<Rightarrow> char \<Rightarrow> 's \<Rightarrow> 's"
    and put_text :: "string \<Rightarrow> 's \<Rightarrow> 's"
    and flush :: "'s \<Rightarrow> 's"
    and written :: "'s \<Rightarrow> string"
    and inv :: "'s \<Rightarrow> bool"
  assumes put_char: "inv s \<Longrightarrow> inv (put_char n c s) \<and> written (put_char n c s) = written s @ replicate n c"
    and put_text: "inv s \<Longrightarrow> inv (put_text v s) \<and> written (put_text v s) = written s @ v"
    and flush: "inv s \<Longrightarrow> inv (flush s) \<and> written (flush s) = written s"
begin

lemma run_op: "inv s \<Longrightarrow> inv (run_sink_op put_char put_text flush op s) \<and>
   written (run_sink_op put_char put_text flush op s) = written s @ op_text op"
  using put_char put_text flush by (cases op) auto

lemma run_ops: "inv s \<Longrightarrow> inv (fold (run_sink_op put_char put_text flush) ops s) \<and>
   written (fold (run_sink_op put_char put_text flush) ops s) = written s @ concat (map op_text ops)"
proof (induction ops arbitrary: s)
  case (Cons op ops)
  then show ?case using run_op [OF Cons.prems, of op] by simp
qed simp

end

definition sink_text :: "format_sink \<Rightarrow> string" where
  "sink_text s = raw_out s @ sink_buf s"

definition sink_ok :: "format_sink \<Rightarrow> bool" where
  "sink_ok s \<longleftrightarrow> length (sink_buf s) \<le> kBufSize \<and> sink_size s = word_of_nat (length (sink_text s))"

lemmas sink_defs = sink_text_def Flush_def raw_write_def raw_append_def Avail_def

lemma append_loop_spec:
  "length (sink_buf s) \<le> kBufSize \<Longrightarrow>
   sink_text (append_loop n c s) = sink_text s @ replicate n c \<and> length (sink_buf (append_loop n c s)) \<le> kBufSize \<and>
   sink_size (append_loop n c s) = sink_size s"
proof (induction n c s rule: append_loop.induct)
  case (1 n c s)
  let ?s = "Flush (if 0 < Avail s then raw_append (Avail s) c s else s)"
  show ?case
  proof (cases "Avail s < n")
    case True
    have tx: "sink_text ?s = sink_text s @ replicate (Avail s) c" and sz: "sink_size ?s = sink_size s"
      and buf: "length (sink_buf ?s) \<le> kBufSize"
      by (simp_all add: sink_defs)
    have "replicate (Avail s) c @ replicate (n - Avail s) c = replicate n c"
      using True by (simp flip: replicate_add)
    then show ?thesis using "1.IH" [OF True buf] True by (simp add: append_loop.simps [of n] tx sz)
  next
    case False
    then show ?thesis using "1.prems" by (auto simp: append_loop.simps [of n] sink_defs)
  qed
qed

lemma Append_char_spec:
  assumes "sink_ok s"
  shows "sink_ok (Append_char n c s) \<and> sink_text (Append_char n c s) = sink_text s @ replicate n c"
  using assms append_loop_spec [of "s\<lparr>sink_size := sink_size s + word_of_nat n\<rparr>" n c]
  by (auto simp: Append_char_def sink_ok_def sink_text_def [of "s\<lparr>sink_size := x\<rparr>" for x] simp flip: sink_text_def)

lemma Append_text_spec:
  assumes "sink_ok s"
  shows "sink_ok (Append_text v s) \<and> sink_text (Append_text v s) = sink_text s @ v"
  using assms by (auto simp: Append_text_def sink_ok_def sink_defs Let_def)

lemma Flush_spec: "sink_ok s \<Longrightarrow> sink_ok (Flush s) \<and> sink_text (Flush s) = sink_text s \<and> sink_buf (Flush s) = []"
  by (simp add: sink_ok_def sink_defs)

interpretation sink: text_sink Append_char Append_text Flush sink_text sink_ok
  using Append_char_spec Append_text_spec Flush_spec by unfold_locales auto

section \<open>Characters and sets\<close>

lemma conv_roundtrip: "FormatConversionCharFromChar (FormatConversionCharToChar c) = c"
  by (cases c) (simp_all add: FormatConversionCharFromChar_def FormatConversionCharToChar_def conversion_chars_def)

lemma conv_value_less: "conv_value c \<le> 18"
  by (cases c) (simp_all add: conv_value_def)

lemma conv_value_inj: "conv_value c = conv_value c' \<longleftrightarrow> c = c'"
  by (cases c; cases c') (simp_all add: conv_value_def)

lemma conv_int_bit: "bit (conv_to_int c) k \<longleftrightarrow> k = 1 + conv_value c"
proof -
  have "bit (push_bit (1 + conv_value c) (1 :: u64)) k \<longleftrightarrow> 1 + conv_value c \<le> k \<and> k < 64 \<and> k - (1 + conv_value c) = 0"
    unfolding bit_push_bit_iff bit_1_iff by (simp add: possible_bit_word)
  then show ?thesis using conv_value_less [of c] unfolding conv_to_int_def by auto
qed

lemma Contains_conv_bit: "Contains_conv S c \<longleftrightarrow> bit S (1 + conv_value c)"
proof -
  have "bit (S AND conv_to_int c) k \<longleftrightarrow> bit S k \<and> k = 1 + conv_value c" for k
    by (simp add: bit_and_iff conv_int_bit)
  then show ?thesis unfolding Contains_conv_def by (metis bit_0_eq bit_eqI bot_apply bot_bool_def)
qed

lemma union_bit: "bit (FormatConversionCharSetUnion a rest) k \<longleftrightarrow> bit a k \<or> (\<exists>b \<in> set rest. bit b k)"
  by (induction a rest rule: FormatConversionCharSetUnion.induct) (auto simp: bit_or_iff)

lemma char_int_conv: "FormatConversionCharToConvInt (FormatConversionCharToChar c) = (if c = Conv_kNone then 0 else conv_to_int c)"
  by (cases c) (simp_all add: FormatConversionCharToConvInt_def FormatConversionCharToChar_def conversion_chars_def)

lemma kFloating_value: "kFloating = 0x1FE00" and kIntegral_value: "kIntegral = 0x1F8"
  by code_simp+

lemma kFloating_spec: "Contains_conv kFloating c \<longleftrightarrow> FormatConversionCharIsFloat c"
  by (cases c) (simp_all add: kFloating_value Contains_conv_def conv_to_int_def conv_value_def FormatConversionCharIsFloat_def)

lemma kIntegral_spec:
  "Contains_conv kIntegral c \<longleftrightarrow> c \<in> {Conv_d, Conv_i, Conv_o, Conv_u, Conv_x, Conv_X}"
  by (cases c) (simp_all add: kIntegral_value Contains_conv_def conv_to_int_def conv_value_def)

lemma flags_contains_or: "FlagsContains (flags_or a b) c \<longleftrightarrow> (\<forall>k. bit c k \<longrightarrow> bit a k \<or> bit b k)"
  unfolding FlagsContains_def flags_or_def bit_eq_iff by (auto simp: bit_and_iff bit_or_iff) (use bit_imp_le_length [of c] in force)

section \<open>Properties\<close>

text \<open>
  whatever is appended to a sink, in whatever chunks and with flushes in between, the raw sink and the
  buffer together hold exactly the appended text, the buffer never overflows, the size is the number of
  characters (modulo 2^64), and a last flush, the destructor's, hands everything to the raw sink.
\<close>

theorem sink_writes_all:
  assumes "sink_ok s"
  shows "sink_text (fold (run_sink_op Append_char Append_text Flush) ops s) = sink_text s @ concat (map op_text ops) \<and>
    sink_ok (fold (run_sink_op Append_char Append_text Flush) ops s) \<and>
    raw_out (Flush (fold (run_sink_op Append_char Append_text Flush) ops s)) = sink_text s @ concat (map op_text ops)"
  using sink.run_ops [OF assms, of ops] by (simp add: sink_defs)

theorem sink_writes_all_witness:
  "raw_out (Flush (fold (run_sink_op Append_char Append_text Flush) [Op_text ''ab'', Op_char 3 CHR ''x''] new_sink)) = ''abxxx''"
proof -
  have ok: "sink_ok new_sink" by (simp add: sink_ok_def new_sink_def sink_text_def)
  show ?thesis using sink_writes_all [OF ok, of "[Op_text ''ab'', Op_char 3 CHR ''x'']"]
    by (simp add: new_sink_def sink_text_def numeral_eq_Suc)
qed

text \<open>
  Conversion characters survive the translation to text and back, each set contains exactly its
  members, and the union of sets is the union of their members.
\<close>

theorem conversion_sets:
  "FormatConversionCharFromChar (FormatConversionCharToChar c) = c \<and>
   (Contains_conv (FormatConversionCharSetUnion a rest) c \<longleftrightarrow> (\<exists>S \<in> set (a # rest). Contains_conv S c)) \<and>
   (Contains_conv kFloating c \<longleftrightarrow> FormatConversionCharIsFloat c) \<and>
   (Contains_conv kNumeric c \<longleftrightarrow> FormatConversionCharIsFloat c \<or> c \<in> {Conv_d, Conv_i, Conv_o, Conv_u, Conv_x, Conv_X}) \<and>
   (c \<noteq> Conv_kNone \<longrightarrow> Contains_char a (FormatConversionCharToChar c) = Contains_conv a c)"
proof -
  have u: "Contains_conv (FormatConversionCharSetUnion a rest) c \<longleftrightarrow> (\<exists>S \<in> set (a # rest). Contains_conv S c)" for a rest
    by (simp add: Contains_conv_bit union_bit)
  have "Contains_conv kNumeric c \<longleftrightarrow> Contains_conv kIntegral c \<or> Contains_conv kFloating c"
    unfolding kNumeric_def u by simp
  then have "Contains_conv kNumeric c \<longleftrightarrow> FormatConversionCharIsFloat c \<or> c \<in> {Conv_d, Conv_i, Conv_o, Conv_u, Conv_x, Conv_X}"
    using kFloating_spec [of c] kIntegral_spec [of c] by argo
  moreover have "c \<noteq> Conv_kNone \<longrightarrow> Contains_char a (FormatConversionCharToChar c) = Contains_conv a c"
    by (simp add: Contains_char_def Contains_conv_def FormatConversionCharToConvValue_def char_int_conv)
  ultimately show ?thesis using u [of a rest] conv_roundtrip [of c] kFloating_spec [of c] by argo
qed

theorem conversion_sets_witness: "Contains_char kFloating (FormatConversionCharToChar Conv_g) = Contains_conv kFloating Conv_g"
  using conversion_sets [of Conv_g kFloating "[]"] by simp

end
