(* ===== verification/Promise_Seq.thy ===== *)
theory Promise_Seq
  imports Prelude
begin

text \<open>
  \<open>BasicSeqIter\<close> of src/instructions/basic_seq.h: a promise that runs one promise per element of a range,
  each made from the element and the value so far. The promises and the traits belong to gRPC and are not
  part of the sources: \<open>sq_run\<close> polls a promise once and gives its next state, \<open>sq_next\<close> is the factory,
  \<open>sq_first\<close> the factory on the initial argument, \<open>sq_wrap\<close> the conversion of that argument to the result type,
  and \<open>sq_check\<close> is \<open>CheckResultAndRunNext\<close>, which either ends the sequence with a value or passes one on.
\<close>

datatype 'w poll = Pending | Ready 'w

record ('v, 'a, 'w, 's) seq_traits =
  sq_run :: "'s \<Rightarrow> 'w poll \<times> 's"
  sq_first :: "'v \<Rightarrow> 'a \<Rightarrow> 's"
  sq_next :: "'v \<Rightarrow> 'w \<Rightarrow> 's"
  sq_wrap :: "'a \<Rightarrow> 'w"
  sq_check :: "'w \<Rightarrow> 'w + 'w"

text \<open>The union of the class, and the elements from \<open>cur_\<close> up to \<open>end_\<close>.\<close>

datatype ('a, 's) seq_cell = Result_cell 'a | State_cell 's

record ('v, 'a, 's) seq_iter =
  rest :: "'v list"
  cell :: "('a, 's) seq_cell"

definition BasicSeqIter :: "('v, 'a, 'w, 's) seq_traits \<Rightarrow> 'v list \<Rightarrow> 'a \<Rightarrow> ('v, 'a, 's) seq_iter" where
  "BasicSeqIter T vs arg =
     \<lparr> rest = vs, cell = (case vs of [] \<Rightarrow> Result_cell arg | v # _ \<Rightarrow> State_cell (sq_first T v arg)) \<rparr>"

text \<open>
  \<open>PollNonEmpty\<close> on the elements \<open>v # vs\<close>. The last element is not left when its promise is done: the value
  is returned and \<open>cur_\<close> stays.
\<close>

fun PollNonEmpty :: "('v, 'a, 'w, 's) seq_traits \<Rightarrow> 'v list \<Rightarrow> 's \<Rightarrow> 'w poll \<times> ('v, 'a, 's) seq_iter" where
  "PollNonEmpty T [] st = (Pending, \<lparr> rest = [], cell = State_cell st \<rparr>)"
| "PollNonEmpty T (v # vs) st =
     (case sq_run T st of
        (Pending, st') \<Rightarrow> (Pending, \<lparr> rest = v # vs, cell = State_cell st' \<rparr>)
      | (Ready r, st') \<Rightarrow>
          (case sq_check T r of
             Inl w \<Rightarrow> (Ready w, \<lparr> rest = v # vs, cell = State_cell st' \<rparr>)
           | Inr w \<Rightarrow>
               (case vs of
                  [] \<Rightarrow> (Ready w, \<lparr> rest = [v], cell = State_cell st' \<rparr>)
                | v' # vs' \<Rightarrow> PollNonEmpty T vs (sq_next T v' w))))"

text \<open>\<open>operator()\<close>; the union holds the initial argument exactly when there is no element.\<close>

definition poll_seq :: "('v, 'a, 'w, 's) seq_traits \<Rightarrow> ('v, 'a, 's) seq_iter \<Rightarrow> 'w poll \<times> ('v, 'a, 's) seq_iter" where
  "poll_seq T s =
     (case cell s of
        Result_cell arg \<Rightarrow> (Ready (sq_wrap T arg), s)
      | State_cell st \<Rightarrow> PollNonEmpty T (rest s) st)"

lemma poll_seq_simps [simp]:
  "poll_seq T \<lparr> rest = vs, cell = State_cell st \<rparr> = PollNonEmpty T vs st"
  "poll_seq T \<lparr> rest = vs, cell = Result_cell arg \<rparr> = (Ready (sq_wrap T arg), \<lparr> rest = vs, cell = Result_cell arg \<rparr>)"
  by (simp_all add: poll_seq_def)

section \<open>Driving promises\<close>

text \<open>Polling up to \<open>n\<close> times.\<close>

fun drive :: "('s \<Rightarrow> 'w poll \<times> 's) \<Rightarrow> nat \<Rightarrow> 's \<Rightarrow> 'w option" where
  "drive f 0 st = None"
| "drive f (Suc n) st = (case f st of (Ready r, _) \<Rightarrow> Some r | (Pending, st') \<Rightarrow> drive f n st')"

text \<open>What the sequence stands for: each promise runs to its end before the next one is made.\<close>

fun seq_value :: "('v, 'a, 'w, 's) seq_traits \<Rightarrow> ('s \<Rightarrow> 'w option) \<Rightarrow> 'v list \<Rightarrow> 's \<Rightarrow> 'w option" where
  "seq_value T val [] st = None"
| "seq_value T val (v # vs) st =
     (case val st of
        None \<Rightarrow> None
      | Some r \<Rightarrow>
          (case sq_check T r of
             Inl w \<Rightarrow> Some w
           | Inr w \<Rightarrow> (case vs of [] \<Rightarrow> Some w | v' # vs' \<Rightarrow> seq_value T val vs (sq_next T v' w))))"

text \<open>The value of a promise, if it ever gets ready.\<close>

definition resolves :: "('s \<Rightarrow> 'w poll \<times> 's) \<Rightarrow> ('s \<Rightarrow> 'w option) \<Rightarrow> bool" where
  "resolves f val \<longleftrightarrow> (\<forall>st. (\<exists>n. drive f n st = val st \<and> val st \<noteq> None) \<or> val st = None \<and> (\<forall>n. drive f n st = None))"

lemma drive_more: "drive f n st = Some r \<Longrightarrow> n \<le> m \<Longrightarrow> drive f m st = Some r"
proof (induction n arbitrary: st m)
  case (Suc n)
  then obtain k where m: "m = Suc k" "n \<le> k" by (cases m) auto
  show ?case using Suc.prems(1) Suc.IH [OF _ m(2)] by (simp add: m(1) split: prod.splits poll.splits)
qed simp

lemma resolves_step:
  assumes "resolves f val"
  shows "f st = (Ready r, st') \<Longrightarrow> val st = Some r" and "f st = (Pending, st') \<Longrightarrow> val st = val st'"
proof -
  show "val st = Some r" if e: "f st = (Ready r, st')"
  proof -
    have "drive f (Suc 0) st = Some r" using e by simp
    then show ?thesis using assms drive_more [of f "Suc 0" st r] drive_more [of f _ st]
      unfolding resolves_def by (metis option.exhaust nle_le option.sel)
  qed
  show "val st = val st'" if e: "f st = (Pending, st')"
  proof -
    have d: "drive f (Suc n) st = drive f n st'" for n using e by simp
    show ?thesis
    proof (cases "val st'")
      case None
      then have "drive f n st' = None" for n using assms unfolding resolves_def by metis
      then have "drive f n st = None" for n using d by (cases n) simp_all
      then show ?thesis using assms None unfolding resolves_def by metis
    next
      case (Some r)
      then obtain n where "drive f n st' = Some r" using assms unfolding resolves_def by metis
      then have "drive f (Suc n) st = Some r" using d by simp
      then show ?thesis using assms Some drive_more [of f] unfolding resolves_def by (metis nle_le option.exhaust option.sel)
    qed
  qed
qed

text \<open>One poll of the sequence keeps its value, and gives it when the poll is ready.\<close>

lemma PollNonEmpty_value:
  assumes "resolves (sq_run T) val" and "vs \<noteq> []"
  shows "case PollNonEmpty T vs st of
      (Ready w, _) \<Rightarrow> seq_value T val vs st = Some w
    | (Pending, s) \<Rightarrow> rest s \<noteq> [] \<and> (\<exists>st'. cell s = State_cell st' \<and> seq_value T val (rest s) st' = seq_value T val vs st)"
  using assms(2)
proof (induction vs arbitrary: st)
  case (Cons v vs)
  note step = resolves_step [OF assms(1)]
  show ?case
  proof (cases "sq_run T st")
    case (Pair p st')
    show ?thesis
    proof (cases p)
      case Pending
      then show ?thesis using Pair step(2) [of st st'] by simp
    next
      case (Ready r)
      then have v: "val st = Some r" using Pair step(1) by blast
      show ?thesis
      proof (cases "sq_check T r")
        case (Inl w)
        then show ?thesis using Pair Ready v by simp
      next
        case (Inr w)
        show ?thesis
        proof (cases vs)
          case Nil
          then show ?thesis using Pair Ready v Inr by simp
        next
          case (Cons v' vs')
          have P: "PollNonEmpty T (v # vs) st = PollNonEmpty T vs (sq_next T v' w)" using Pair Ready Inr Cons by simp
          have V: "seq_value T val (v # vs) st = seq_value T val vs (sq_next T v' w)" using v Inr Cons by simp
          show ?thesis unfolding P V using Cons.IH [of "sq_next T v' w"] Cons by simp
        qed
      qed
    qed
  qed
qed simp

text \<open>A poll that is pending has polled one promise once, so the sequence gets ready when its promises do.\<close>

lemma seq_ready:
  assumes "resolves (sq_run T) val" and "seq_value T val vs st = Some w"
  shows "\<exists>n. drive (poll_seq T) n \<lparr> rest = vs, cell = State_cell st \<rparr> = Some w"
  using assms(2)
proof (induction vs arbitrary: st)
  case (Cons v vs)
  note step = resolves_step [OF assms(1)]
  from Cons.prems obtain r where v: "val st = Some r" by (auto split: option.splits)
  obtain n where "drive (sq_run T) n st = Some r" using assms(1) v unfolding resolves_def by metis
  then show ?case using v Cons.prems
  proof (induction n arbitrary: st)
    case (Suc n)
    show ?case
    proof (cases "sq_run T st")
      case (Pair p st')
      show ?thesis
      proof (cases p)
        case Pending
        have "val st' = val st" using step(2) Pair Pending by simp
        then have "\<exists>n. drive (poll_seq T) n \<lparr> rest = v # vs, cell = State_cell st' \<rparr> = Some w"
          using Suc.IH [of st'] Suc.prems Pair Pending by simp
        then obtain n where "drive (poll_seq T) n \<lparr> rest = v # vs, cell = State_cell st' \<rparr> = Some w" ..
        then show ?thesis using Pair Pending by (intro exI [of _ "Suc n"]) simp
      next
        case (Ready r')
        then have "r' = r" using step(1) [of st r' st'] Pair Suc.prems(2) by simp
        show ?thesis
        proof (cases "sq_check T r")
          case (Inl w')
          then show ?thesis using Suc.prems(2,3) Pair Ready \<open>r' = r\<close>
            by (intro exI [of _ "Suc 0"]) simp
        next
          case (Inr w')
          show ?thesis
          proof (cases vs)
            case Nil
            then show ?thesis using Suc.prems(2,3) Pair Ready \<open>r' = r\<close> Inr
              by (intro exI [of _ "Suc 0"]) simp
          next
            case (Cons v' vs')
            have "seq_value T val vs (sq_next T v' w') = Some w" using Suc.prems(2,3) Inr Cons by simp
            then obtain k where k: "drive (poll_seq T) k \<lparr> rest = vs, cell = State_cell (sq_next T v' w') \<rparr> = Some w"
              using Cons.IH by blast
            then obtain k' where "k = Suc k'" by (cases k) auto
            then show ?thesis using k Pair Ready \<open>r' = r\<close> Inr Cons
              by (intro exI [of _ "Suc k'"]) simp
          qed
        qed
      qed
    qed
  qed simp
qed simp

lemma seq_sound:
  assumes "resolves (sq_run T) val"
  shows "drive (poll_seq T) n \<lparr> rest = vs, cell = State_cell st \<rparr> = Some w \<Longrightarrow> vs \<noteq> [] \<Longrightarrow> seq_value T val vs st = Some w"
proof (induction n arbitrary: vs st)
  case (Suc n)
  note p = PollNonEmpty_value [OF assms Suc.prems(2), of st]
  obtain q s where q: "PollNonEmpty T vs st = (q, s)" by fastforce
  show ?case
  proof (cases q)
    case (Ready w')
    then show ?thesis using Suc.prems(1) p q by simp
  next
    case Pending
    then obtain st' where s: "rest s \<noteq> []" "cell s = State_cell st'" "seq_value T val (rest s) st' = seq_value T val vs st"
      using p q by auto
    then have "s = \<lparr> rest = rest s, cell = State_cell st' \<rparr>" by (cases s) simp
    then have "drive (poll_seq T) n \<lparr> rest = rest s, cell = State_cell st' \<rparr> = Some w"
      using Suc.prems(1) q Pending by simp
    from Suc.IH [OF this s(1)] show ?thesis using s(3) by simp
  qed
qed simp

section \<open>Sequences of computations\<close>

text \<open>\<open>g v w\<close> is the value of the promise made from \<open>v\<close> and \<open>w\<close>; the sequence folds it, up to the first early end.\<close>

fun seq_fold :: "('w \<Rightarrow> 'w + 'w) \<Rightarrow> ('v \<Rightarrow> 'w \<Rightarrow> 'w) \<Rightarrow> 'v list \<Rightarrow> 'w \<Rightarrow> 'w" where
  "seq_fold chk g [] w = w"
| "seq_fold chk g (v # vs) w = (case chk (g v w) of Inl r \<Rightarrow> r | Inr r \<Rightarrow> seq_fold chk g vs r)"

lemma seq_value_fold:
  assumes "\<And>v w. val (sq_next T v w) = Some (g v w)"
  shows "val st = Some r \<Longrightarrow> seq_value T val (v # vs) st =
    Some (case sq_check T r of Inl w \<Rightarrow> w | Inr w \<Rightarrow> seq_fold (sq_check T) g vs w)"
proof (induction vs arbitrary: v st r)
  case (Cons v' vs)
  then show ?case
    using Cons.IH [OF assms] by (simp split: sum.splits)
qed (simp split: sum.splits)

section \<open>Properties\<close>

text \<open>
  C40: A sequence of promises is the fold of its steps: if every promise made by the traits gets ready after
  finitely many polls, then polling the sequence often enough gives the initial argument carried through the
  elements in order, each promise finished before the next is made, up to the first result at which the
  traits end the sequence, and it never gives anything else.
\<close>

theorem seq_is_fold:
  assumes "resolves (sq_run T) val" and "\<And>v w. val (sq_next T v w) = Some (g v w)"
    and "\<And>v a. val (sq_first T v a) = Some (g v (sq_wrap T a))"
  shows "(\<exists>n. drive (poll_seq T) n (BasicSeqIter T vs arg) = Some w) \<longleftrightarrow> w = seq_fold (sq_check T) g vs (sq_wrap T arg)"
proof (cases vs)
  case Nil
  have "(\<exists>n. drive (poll_seq T) n (BasicSeqIter T [] arg) = Some w) \<longleftrightarrow> w = sq_wrap T arg"
  proof
    assume "\<exists>n. drive (poll_seq T) n (BasicSeqIter T [] arg) = Some w"
    then obtain n where "drive (poll_seq T) n (BasicSeqIter T [] arg) = Some w" ..
    then show "w = sq_wrap T arg" by (cases n) (simp_all add: BasicSeqIter_def)
  next
    assume "w = sq_wrap T arg"
    then show "\<exists>n. drive (poll_seq T) n (BasicSeqIter T [] arg) = Some w"
      by (intro exI [of _ "Suc 0"]) (simp add: BasicSeqIter_def)
  qed
  then show ?thesis by (simp add: Nil)
next
  case (Cons v vs')
  have s: "BasicSeqIter T vs arg = \<lparr> rest = vs, cell = State_cell (sq_first T v arg) \<rparr>" by (simp add: BasicSeqIter_def Cons)
  have "seq_value T val vs (sq_first T v arg) = Some (seq_fold (sq_check T) g vs (sq_wrap T arg))"
    unfolding Cons using seq_value_fold [of val T g, OF assms(2) assms(3)] by simp
  then show ?thesis unfolding s using seq_ready [OF assms(1)] seq_sound [OF assms(1)] Cons
    by (metis list.distinct(1) option.inject)
qed

text \<open>Promises that answer at the second poll, adding up numbers; a sum above 5 ends the sequence.\<close>

definition delayed :: "nat \<times> nat \<Rightarrow> nat poll \<times> (nat \<times> nat)" where
  "delayed st = (case st of (0, w) \<Rightarrow> (Ready w, (0, w)) | (Suc k, w) \<Rightarrow> (Pending, (k, w)))"

definition sum_traits :: "(nat, nat, nat, nat \<times> nat) seq_traits" where
  "sum_traits = \<lparr> sq_run = delayed, sq_first = (\<lambda>v a. (1, v + a)), sq_next = (\<lambda>v w. (1, v + w)), sq_wrap = id,
     sq_check = (\<lambda>w. if 5 < w then Inl w else Inr w) \<rparr>"

lemma delayed_resolves: "resolves delayed (\<lambda>st. Some (snd st))"
proof -
  have "drive delayed (Suc k) (k, w) = Some w" for k w
    by (induction k) (simp_all add: delayed_def)
  then show ?thesis unfolding resolves_def by (metis option.distinct(1) prod.collapse)
qed

theorem seq_is_fold_witness: "\<exists>n. drive (poll_seq sum_traits) n (BasicSeqIter sum_traits [1, 2, 3, 4] 0) = Some 6"
proof -
  have "(\<exists>n. drive (poll_seq sum_traits) n (BasicSeqIter sum_traits [1, 2, 3, 4] 0) = Some 6) \<longleftrightarrow>
      6 = seq_fold (sq_check sum_traits) (+) [1, 2, 3, 4] (sq_wrap sum_traits 0)"
    by (rule seq_is_fold [where val = "\<lambda>st. Some (snd st)"]) (simp_all add: sum_traits_def delayed_resolves)
  then show ?thesis by (simp add: sum_traits_def)
qed

end
