(* ===== verification/Lf_Ring.thy ===== *)
theory Lf_Ring
  imports Prelude
begin

text \<open>
  What the ring buffers under src/lockfree-waitfree/lfqueue share: the ring size, the permutation
  \<open>__lfring_map\<close> that spreads consecutive positions over cache lines, and the split of a 64 bit position
  into its cycle and its index. The constants are those of \<open>lf/config.h\<close> for a 64 bit machine:
  \<open>LF_CACHE_SHIFT\<close> is 7, so \<open>LFRING_MIN\<close> is 4. For an order below 4 the C code shifts by a negative
  amount, which it leaves undefined; the lemmas therefore ask for \<open>4 \<le> order\<close>.
\<close>

unbundle bit_operations_syntax

definition LFRING_MIN :: nat where
  "LFRING_MIN = 7 - 3"

definition lfring_pow2 :: "nat \<Rightarrow> u64" where
  "lfring_pow2 order = push_bit order 1"

definition lfring_map :: "u64 \<Rightarrow> nat \<Rightarrow> u64 \<Rightarrow> u64" where
  "lfring_map idx order n =
     drop_bit (order - LFRING_MIN) (idx AND (n - 1)) OR (push_bit LFRING_MIN idx AND (n - 1))"

definition LFRING_EMPTY :: u64 where
  "LFRING_EMPTY = NOT 0"

section \<open>The permutation\<close>

text \<open>The same permutation with \<open>m\<close> bits moved up; the rings differ in how many entries share a cache line.\<close>

definition spread_map :: "nat \<Rightarrow> u64 \<Rightarrow> nat \<Rightarrow> u64 \<Rightarrow> u64" where
  "spread_map m idx order n = drop_bit (order - m) (idx AND (n - 1)) OR (push_bit m idx AND (n - 1))"

lemma lfring_map_spread: "lfring_map idx order n = spread_map 4 idx order n"
  by (simp add: lfring_map_def spread_map_def LFRING_MIN_def)

lemma pow2_split: "m \<le> order \<Longrightarrow> (2 :: nat) ^ order = 2 ^ m * 2 ^ (order - m)"
  using power_add [of "2 :: nat" m "order - m"] by simp

lemma pow2_unat: "order < 64 \<Longrightarrow> unat (lfring_pow2 order) = 2 ^ order"
  unfolding lfring_pow2_def unsigned_push_bit_eq by (simp add: push_bit_eq_mult take_bit_nat_eq_self)

lemma scaled_less: "x < M \<Longrightarrow> y < N \<Longrightarrow> x + M * y < M * (N :: nat)"
  using mult_le_mono2 [of "Suc y" N M] by simp

lemma pow2_minus_one: "lfring_pow2 order - 1 = mask order"
  by (simp add: lfring_pow2_def mask_eq_exp_minus_1)

lemma spread_map_unat:
  assumes "m \<le> order" and "order < 64"
  shows "unat (spread_map m idx order (lfring_pow2 order)) =
    unat idx mod 2 ^ order div 2 ^ (order - m) + 2 ^ m * (unat idx mod 2 ^ (order - m))"
proof -
  let ?hi = "drop_bit (order - m) (idx AND mask order)" and ?lo = "idx AND mask (order - m)"
  have p: "(2 :: nat) ^ order = 2 ^ m * 2 ^ (order - m)" by (rule pow2_split [OF assms(1)])
  have shift: "push_bit m idx AND mask order = push_bit m ?lo"
    using assms(1) by (intro bit_word_eqI) (auto simp: bit_simps possible_bit_word)
  have hi: "unat ?hi = unat idx mod 2 ^ order div 2 ^ (order - m)"
    by (simp only: unat_drop_bit_div unat_and_mask_mod)
  have "unat idx mod 2 ^ order < 2 ^ m * 2 ^ (order - m)" unfolding p [symmetric] by simp
  then have small: "unat ?hi < 2 ^ m" unfolding hi by (simp add: less_mult_imp_div_less)
  have lo: "unat ?lo = unat idx mod 2 ^ (order - m)" by (simp add: unat_and_mask_mod)
  then have "unat ?lo < 2 ^ (order - m)" by simp
  then have "unat ?hi + 2 ^ m * unat ?lo < 2 ^ order" unfolding p by (rule scaled_less [OF small])
  then have "unat ?lo * 2 ^ m + unat ?hi < 2 ^ order" by (metis add.commute mult.commute)
  also have "(2 :: nat) ^ order \<le> 2 ^ 64" using assms(2) by (intro power_increasing) simp_all
  finally have "unat ?lo * 2 ^ m + unat ?hi < 2 ^ LENGTH(64)" by simp
  note sum = unat_push_or_low [OF small this]
  have "spread_map m idx order (lfring_pow2 order) = push_bit m ?lo OR ?hi"
    unfolding spread_map_def pow2_minus_one by (simp only: shift or.commute)
  then show ?thesis using sum lo unfolding hi by simp
qed

lemma split_index:
  fixes a b q :: nat
  assumes "a div q + 2 ^ m * (a mod q) = b div q + 2 ^ m * (b mod q)" and "a div q < 2 ^ m" and "b div q < 2 ^ m"
  shows "a = b"
proof -
  have "a div q = (a div q + 2 ^ m * (a mod q)) mod 2 ^ m" "b div q = (b div q + 2 ^ m * (b mod q)) mod 2 ^ m"
    using assms(2,3) by simp_all
  then have "a div q = b div q" using assms(1) by simp
  moreover from this have "a mod q = b mod q" using assms(1) by simp
  ultimately show "a = b" by (metis div_mult_mod_eq)
qed

lemma spread_map_eq_iff:
  assumes "m \<le> order" and "order < 64"
  shows "spread_map m a order (lfring_pow2 order) = spread_map m b order (lfring_pow2 order) \<longleftrightarrow>
    unat a mod 2 ^ order = unat b mod 2 ^ order"
proof -
  let ?q = "2 ^ (order - m) :: nat"
  have p: "(2 :: nat) ^ order = 2 ^ m * ?q" by (rule pow2_split [OF assms(1)])
  have m: "unat idx mod ?q = unat idx mod 2 ^ order mod ?q" for idx :: u64
    unfolding p by (simp add: mod_mult2_eq mult.commute [of "2 ^ m"])
  have d: "unat idx mod 2 ^ order div ?q < 2 ^ m" for idx :: u64
    by (rule less_mult_imp_div_less) (simp add: p)
  have "spread_map m a order (lfring_pow2 order) = spread_map m b order (lfring_pow2 order) \<longleftrightarrow>
      unat a mod 2 ^ order div ?q + 2 ^ m * (unat a mod 2 ^ order mod ?q) =
      unat b mod 2 ^ order div ?q + 2 ^ m * (unat b mod 2 ^ order mod ?q)"
    unfolding word_unat_eq_iff spread_map_unat [OF assms] m ..
  then show ?thesis using split_index d by metis
qed

lemma spread_map_less:
  assumes "m \<le> order" and "order < 64"
  shows "unat (spread_map m a order (lfring_pow2 order)) < 2 ^ order"
proof -
  let ?q = "2 ^ (order - m) :: nat"
  have p: "(2 :: nat) ^ order = 2 ^ m * ?q" by (rule pow2_split [OF assms(1)])
  have "unat a mod 2 ^ order div ?q < 2 ^ m" by (rule less_mult_imp_div_less) (simp add: p)
  moreover have "unat a mod ?q < ?q" by simp
  ultimately show ?thesis unfolding spread_map_unat [OF assms] p by (rule scaled_less)
qed

lemma lfring_map_eq_iff:
  assumes "4 \<le> order" and "order < 64"
  shows "lfring_map a order (lfring_pow2 order) = lfring_map b order (lfring_pow2 order) \<longleftrightarrow>
    unat a mod 2 ^ order = unat b mod 2 ^ order"
  unfolding lfring_map_spread by (rule spread_map_eq_iff [OF assms])

lemma lfring_map_less:
  assumes "4 \<le> order" and "order < 64"
  shows "unat (lfring_map a order (lfring_pow2 order)) < 2 ^ order"
  unfolding lfring_map_spread by (rule spread_map_less [OF assms])

section \<open>Positions and cycles\<close>

text \<open>A position is the 64 bit image of an integer; its cycle is the multiple of the ring size below it.\<close>

lemma mod_power_mod: "k \<le> l \<Longrightarrow> (t :: int) mod 2 ^ l mod 2 ^ k = t mod 2 ^ k"
  by (simp add: mod_mod_cancel le_imp_power_dvd)

lemma position_mod:
  assumes "order < 64"
  shows "unat (word_of_int t :: u64) mod 2 ^ order = nat (t mod 2 ^ order)"
proof -
  have "unat (word_of_int t :: u64) mod 2 ^ order = nat (t mod 2 ^ 64 mod 2 ^ order)"
    by (simp add: unsigned_of_int take_bit_eq_mod nat_mod_distrib nat_power_eq)
  then show ?thesis using assms mod_power_mod [of order 64 t] by simp
qed

lemma position_low: "order < 64 \<Longrightarrow> (word_of_int t :: u64) AND (lfring_pow2 order - 1) = word_of_int (t mod 2 ^ order)"
  unfolding pow2_minus_one
  by (rule bit_word_eqI) (auto simp: bit_simps simp flip: take_bit_eq_mod)

lemma position_cycle:
  "order < 64 \<Longrightarrow> (word_of_int t :: u64) AND NOT (lfring_pow2 order - 1) = word_of_int (2 ^ order * (t div 2 ^ order))"
proof -
  have "2 ^ order * (t div 2 ^ order) = push_bit order (drop_bit order t)"
    by (simp add: push_bit_eq_mult drop_bit_eq_div)
  then show ?thesis unfolding pow2_minus_one
    by (intro bit_word_eqI) (auto simp: bit_simps)
qed

lemma slot_eq_iff:
  assumes "4 \<le> order" and "order < 64"
  shows "lfring_map (word_of_int p) order (lfring_pow2 order) = lfring_map (word_of_int p') order (lfring_pow2 order) \<longleftrightarrow>
    p mod 2 ^ order = p' mod 2 ^ order"
  unfolding lfring_map_eq_iff [OF assms] position_mod [OF assms(2)]
  by (simp add: nat_eq_iff)

lemma word_of_int_close:
  fixes a b :: int
  assumes "word_of_int a = (word_of_int b :: u64)" and "\<bar>a - b\<bar> < 2 ^ 64"
  shows "a = b"
proof -
  have "(2 ^ 64) dvd (a - b)" using assms(1) by (simp add: word_of_int_eq_iff take_bit_eq_mod mod_eq_dvd_iff)
  then show ?thesis using assms(2) by (metis abs_of_nonneg dvd_imp_le_int eq_iff_diff_eq_0 leD zero_le_numeral zero_le_power)
qed

section \<open>Initialisation loops\<close>

text \<open>The loop that writes \<open>val k\<close> into the slot of \<open>k\<close> for \<open>k\<close> from \<open>i\<close> up to \<open>j\<close>.\<close>

definition store_range :: "(nat \<Rightarrow> nat) \<Rightarrow> (nat \<Rightarrow> 'a) \<Rightarrow> nat \<Rightarrow> nat \<Rightarrow> 'a list \<Rightarrow> 'a list" where
  "store_range slot val i j a = fold (\<lambda>k a. a[slot k := val k]) [i..<j] a"

lemma store_range_Suc:
  "store_range slot val i (Suc j) a = (if i \<le> j then (store_range slot val i j a)[slot j := val j] else a)"
  "store_range slot val i 0 a = a"
  by (simp_all add: store_range_def)

lemma store_range_length [simp]: "length (store_range slot val i j a) = length a"
  by (induction j) (simp_all add: store_range_Suc)

lemma store_range_other:
  "(\<And>k. i \<le> k \<Longrightarrow> k < j \<Longrightarrow> slot k \<noteq> x) \<Longrightarrow> store_range slot val i j a ! x = a ! x"
  by (induction j) (simp_all add: store_range_Suc)

lemma store_range_at:
  assumes "i \<le> k" "k < j" and "inj_on slot {i..<j}" and "slot k < length a"
  shows "store_range slot val i j a ! slot k = val k"
  using assms
proof (induction j)
  case (Suc j)
  show ?case
  proof (cases "k = j")
    case True
    then show ?thesis using Suc.prems by (simp add: store_range_Suc)
  next
    case False
    then have "slot j \<noteq> slot k" using Suc.prems unfolding inj_on_def by (metis atLeastLessThan_iff less_Suc_eq order_less_imp_le le_less_trans)
    moreover have "inj_on slot {i..<j}" using Suc.prems(3) by (rule inj_on_subset) auto
    ultimately show ?thesis using False Suc by (simp add: store_range_Suc)
  qed
qed simp


lemma store_three:
  assumes inj: "inj_on slot {..<n}" and less: "\<And>i. i < n \<Longrightarrow> slot i < length mem" and se: "s \<le> e" "e \<le> n" and i: "i < n"
  shows "store_range slot v3 e n (store_range slot v2 s e (store_range slot v1 0 s mem)) ! slot i =
    (if i < s then v1 i else if i < e then v2 i else v3 i)"
proof -
  define a1 where "a1 = store_range slot v1 0 s mem"
  define a2 where "a2 = store_range slot v2 s e a1"
  have len: "length a1 = length mem" "length a2 = length mem" by (simp_all add: a1_def a2_def)
  have injs: "inj_on slot {k..<l}" if "l \<le> n" for k l using that by (intro inj_on_subset [OF inj]) auto
  have ne: "slot k \<noteq> slot i" if "k < n" "k \<noteq> i" for k using inj that i unfolding inj_on_def by blast
  consider "i < s" | "s \<le> i" "i < e" | "e \<le> i" by linarith
  then show ?thesis
  proof cases
    case 1
    have "store_range slot v3 e n a2 ! slot i = a2 ! slot i" by (rule store_range_other, rule ne) (use 1 se in simp_all)
    also have "\<dots> = a1 ! slot i" unfolding a2_def by (rule store_range_other, rule ne) (use 1 se in simp_all)
    also have "\<dots> = v1 i" unfolding a1_def by (rule store_range_at) (use 1 se i less injs in simp_all)
    finally show ?thesis using 1 unfolding a1_def a2_def by simp
  next
    case 2
    have "store_range slot v3 e n a2 ! slot i = a2 ! slot i" by (rule store_range_other, rule ne) (use 2 se in simp_all)
    also have "\<dots> = v2 i" unfolding a2_def by (rule store_range_at) (use 2 se i less injs len in simp_all)
    finally show ?thesis using 2 unfolding a1_def a2_def by simp
  next
    case 3
    have "store_range slot v3 e n a2 ! slot i = v3 i" by (rule store_range_at) (use 3 i less injs len in simp_all)
    then show ?thesis using 3 se unfolding a1_def a2_def by simp
  qed
qed

end
