(* ===== verification/Ncq_Ring.thy ===== *)
theory Ncq_Ring
  imports Lf_Ring
begin

text \<open>
  The naive ring (NCQ) of lfring_naive.h under src/lockfree-waitfree: any number of threads enqueue and
  dequeue indices below the ring size. Every access to \<open>head\<close>, \<open>tail\<close> or an array entry is one step of
  \<open>ncq_step\<close>, with the local computation up to the next access; steps of different threads interleave
  freely (sequentially consistent memory), and a weak compare-and-exchange may fail spuriously.
  \<open>enq_log\<close>, \<open>deq_log\<close> and \<open>reserved\<close> only record what happened. The one assumption on the callers is
  the one the data structure is built for: an index is enqueued only while fewer indices than the ring
  size are in the ring or on their way into it (the indices circulate between two rings).
\<close>

unbundle bit_operations_syntax

section \<open>The ring\<close>

record ncq_ring =
  rg_head :: u64
  rg_tail :: u64
  rg_array :: "u64 list"

text \<open>\<open>__LFMERGE\<close> on x86.\<close>

definition LFMERGE :: "u64 \<Rightarrow> u64 \<Rightarrow> u64" where
  "LFMERGE x y = x + y"

definition cycle_part :: "nat \<Rightarrow> u64 \<Rightarrow> u64" where
  "cycle_part order w = w AND NOT (lfring_pow2 order - 1)"

definition index_part :: "nat \<Rightarrow> u64 \<Rightarrow> u64" where
  "index_part order w = w AND (lfring_pow2 order - 1)"

definition ring_slot :: "nat \<Rightarrow> u64 \<Rightarrow> nat" where
  "ring_slot order w = unat (lfring_map w order (lfring_pow2 order))"

definition ncq_init_empty :: "nat \<Rightarrow> u64 list \<Rightarrow> ncq_ring" where
  "ncq_init_empty order mem =
     (let n = lfring_pow2 order
      in \<lparr> rg_head = n, rg_tail = n, rg_array = store_range (\<lambda>i. i) (\<lambda>i. 0) 0 (unat n) mem \<rparr>)"

definition ncq_init_full :: "nat \<Rightarrow> u64 list \<Rightarrow> ncq_ring" where
  "ncq_init_full order mem =
     (let n = lfring_pow2 order
      in \<lparr> rg_head = 0, rg_tail = n, rg_array = store_range (\<lambda>i. i) word_of_nat 0 (unat n) mem \<rparr>)"

definition ncq_init_fill :: "nat \<Rightarrow> nat \<Rightarrow> nat \<Rightarrow> u64 list \<Rightarrow> ncq_ring" where
  "ncq_init_fill order s e mem =
     (let n = lfring_pow2 order;
          slot = (\<lambda>i. ring_slot order (word_of_nat i));
          a1 = store_range slot (\<lambda>i. 0) 0 s mem;
          a2 = store_range slot word_of_nat s e a1;
          a3 = store_range slot (\<lambda>i. - n) e (unat n) a2
      in \<lparr> rg_head = word_of_nat s, rg_tail = word_of_nat e, rg_array = a3 \<rparr>)"

section \<open>Threads\<close>

datatype ncq_pc =
    Idle
  | Enq_load_tail u64
  | Enq_load_entry u64 u64
  | Enq_cas_tail u64 u64
  | Enq_cas_entry u64 u64 u64
  | Enq_bump u64 u64
  | Enq_done u64
  | Deq_load_head bool
  | Deq_load_entry bool u64
  | Deq_cas_head bool u64 u64
  | Deq_done u64

text \<open>What \<open>lfring_enqueue\<close> does with an entry it has read, up to its next access.\<close>

definition enq_decide :: "nat \<Rightarrow> u64 \<Rightarrow> u64 \<Rightarrow> u64 \<Rightarrow> ncq_pc" where
  "enq_decide order eidx tail entry =
     (let tcycle = cycle_part order tail; ecycle = cycle_part order entry
      in if ecycle = tcycle then Enq_cas_tail eidx tail
         else if ecycle + lfring_pow2 order \<noteq> tcycle then Enq_load_tail eidx
         else Enq_cas_entry eidx tail entry)"

definition deq_decide :: "nat \<Rightarrow> bool \<Rightarrow> u64 \<Rightarrow> u64 \<Rightarrow> ncq_pc" where
  "deq_decide order nonempty head entry =
     (let hcycle = cycle_part order head; ecycle = cycle_part order entry
      in if ecycle \<noteq> hcycle
         then if \<not> nonempty \<and> ecycle + lfring_pow2 order = hcycle then Deq_done LFRING_EMPTY
              else Deq_load_head nonempty
         else Deq_cas_head nonempty head entry)"

record ncq_state =
  ring :: ncq_ring
  pcs :: "nat \<Rightarrow> ncq_pc"
  enq_log :: "u64 list"
  deq_log :: "u64 list"
  reserved :: "nat set"

definition ncq_entry :: "nat \<Rightarrow> ncq_state \<Rightarrow> u64 \<Rightarrow> u64" where
  "ncq_entry order s pos = rg_array (ring s) ! ring_slot order pos"

definition set_pc :: "nat \<Rightarrow> ncq_pc \<Rightarrow> ncq_state \<Rightarrow> ncq_state" where
  "set_pc t pc s = s\<lparr> pcs := (pcs s)(t := pc) \<rparr>"

text \<open>A call of \<open>lfring_enqueue\<close>; \<open>reserved\<close> collects the callers whose index is not yet in the ring.\<close>

definition enq_call :: "nat \<Rightarrow> u64 \<Rightarrow> ncq_state \<Rightarrow> ncq_state" where
  "enq_call t eidx s = set_pc t (Enq_load_tail eidx) (s\<lparr> reserved := insert t (reserved s) \<rparr>)"

definition enq_load_tail :: "nat \<Rightarrow> u64 \<Rightarrow> ncq_state \<Rightarrow> ncq_state" where
  "enq_load_tail t eidx s = set_pc t (Enq_load_entry eidx (rg_tail (ring s))) s"

definition enq_load_entry :: "nat \<Rightarrow> nat \<Rightarrow> u64 \<Rightarrow> u64 \<Rightarrow> ncq_state \<Rightarrow> ncq_state" where
  "enq_load_entry order t eidx tail s = set_pc t (enq_decide order eidx tail (ncq_entry order s tail)) s"

text \<open>The strong exchange that helps a lagging tail, then \<open>break\<close> to the outer loop.\<close>

definition enq_cas_tail :: "nat \<Rightarrow> u64 \<Rightarrow> u64 \<Rightarrow> ncq_state \<Rightarrow> ncq_state" where
  "enq_cas_tail t eidx tail s =
     (if rg_tail (ring s) = tail
      then set_pc t (Enq_load_entry eidx (tail + 1)) (s\<lparr> ring := (ring s)\<lparr> rg_tail := tail + 1 \<rparr> \<rparr>)
      else set_pc t (Enq_load_entry eidx (rg_tail (ring s))) s)"

definition enq_cas_entry :: "nat \<Rightarrow> nat \<Rightarrow> u64 \<Rightarrow> u64 \<Rightarrow> u64 \<Rightarrow> ncq_state \<Rightarrow> ncq_state" where
  "enq_cas_entry order t eidx tail entry s =
     (if ncq_entry order s tail = entry
      then set_pc t (Enq_bump tail (index_part order entry))
        (s\<lparr> ring := (ring s)\<lparr> rg_array := (rg_array (ring s))
              [ring_slot order tail := LFMERGE (cycle_part order tail) eidx] \<rparr>,
            enq_log := enq_log s @ [eidx], reserved := reserved s - {t} \<rparr>)
      else set_pc t (enq_decide order eidx tail (ncq_entry order s tail)) s)"

definition enq_bump :: "nat \<Rightarrow> bool \<Rightarrow> u64 \<Rightarrow> u64 \<Rightarrow> ncq_state \<Rightarrow> ncq_state" where
  "enq_bump t spurious tail res s =
     (if rg_tail (ring s) = tail \<and> \<not> spurious
      then set_pc t (Enq_done res) (s\<lparr> ring := (ring s)\<lparr> rg_tail := tail + 1 \<rparr> \<rparr>)
      else set_pc t (Enq_done res) s)"

definition deq_call :: "nat \<Rightarrow> bool \<Rightarrow> ncq_state \<Rightarrow> ncq_state" where
  "deq_call t nonempty s = set_pc t (Deq_load_head nonempty) s"

definition deq_load_head :: "nat \<Rightarrow> bool \<Rightarrow> ncq_state \<Rightarrow> ncq_state" where
  "deq_load_head t nonempty s = set_pc t (Deq_load_entry nonempty (rg_head (ring s))) s"

definition deq_load_entry :: "nat \<Rightarrow> nat \<Rightarrow> bool \<Rightarrow> u64 \<Rightarrow> ncq_state \<Rightarrow> ncq_state" where
  "deq_load_entry order t nonempty head s = set_pc t (deq_decide order nonempty head (ncq_entry order s head)) s"

definition deq_cas_head :: "nat \<Rightarrow> nat \<Rightarrow> bool \<Rightarrow> bool \<Rightarrow> u64 \<Rightarrow> u64 \<Rightarrow> ncq_state \<Rightarrow> ncq_state" where
  "deq_cas_head order t spurious nonempty head entry s =
     (if rg_head (ring s) = head \<and> \<not> spurious
      then set_pc t (Deq_done (index_part order entry))
        (s\<lparr> ring := (ring s)\<lparr> rg_head := head + 1 \<rparr>, deq_log := deq_log s @ [index_part order entry] \<rparr>)
      else set_pc t (Deq_load_entry nonempty (rg_head (ring s))) s)"

definition in_ring :: "ncq_state \<Rightarrow> nat" where
  "in_ring s = length (enq_log s) - length (deq_log s)"

inductive ncq_step :: "nat \<Rightarrow> ncq_state \<Rightarrow> ncq_state \<Rightarrow> bool" for order where
  enq_call: "pcs s t = Idle \<Longrightarrow> unat eidx < 2 ^ order \<Longrightarrow> finite (reserved s) \<Longrightarrow>
    in_ring s + card (reserved s) < 2 ^ order \<Longrightarrow> ncq_step order s (enq_call t eidx s)"
| enq_tail: "pcs s t = Enq_load_tail eidx \<Longrightarrow> ncq_step order s (enq_load_tail t eidx s)"
| enq_entry: "pcs s t = Enq_load_entry eidx tail \<Longrightarrow> ncq_step order s (enq_load_entry order t eidx tail s)"
| enq_help: "pcs s t = Enq_cas_tail eidx tail \<Longrightarrow> ncq_step order s (enq_cas_tail t eidx tail s)"
| enq_fill: "pcs s t = Enq_cas_entry eidx tail entry \<Longrightarrow> ncq_step order s (enq_cas_entry order t eidx tail entry s)"
| enq_bump: "pcs s t = Enq_bump tail res \<Longrightarrow> ncq_step order s (enq_bump t spurious tail res s)"
| enq_return: "pcs s t = Enq_done res \<Longrightarrow> ncq_step order s (set_pc t Idle s)"
| deq_call: "pcs s t = Idle \<Longrightarrow> ncq_step order s (deq_call t nonempty s)"
| deq_head: "pcs s t = Deq_load_head nonempty \<Longrightarrow> ncq_step order s (deq_load_head t nonempty s)"
| deq_entry: "pcs s t = Deq_load_entry nonempty head \<Longrightarrow> ncq_step order s (deq_load_entry order t nonempty head s)"
| deq_take: "pcs s t = Deq_cas_head nonempty head entry \<Longrightarrow>
    ncq_step order s (deq_cas_head order t spurious nonempty head entry s)"
| deq_return: "pcs s t = Deq_done res \<Longrightarrow> ncq_step order s (set_pc t Idle s)"

text \<open>An initialised ring: no thread is active; \<open>contents\<close> are the indices the initialisation put in.\<close>

definition ncq_start :: "ncq_ring \<Rightarrow> u64 list \<Rightarrow> ncq_state" where
  "ncq_start r contents =
     \<lparr> ring = r, pcs = (\<lambda>_. Idle), enq_log = contents, deq_log = [], reserved = {} \<rparr>"

inductive ncq_reachable :: "nat \<Rightarrow> ncq_state \<Rightarrow> bool" for order where
  empty: "length mem = 2 ^ order \<Longrightarrow> ncq_reachable order (ncq_start (ncq_init_empty order mem) [])"
| full: "length mem = 2 ^ order \<Longrightarrow>
    ncq_reachable order (ncq_start (ncq_init_full order mem)
      (map (\<lambda>i. word_of_nat (ring_slot order (word_of_nat i))) [0..<2 ^ order]))"
| fill: "length mem = 2 ^ order \<Longrightarrow> s \<le> e \<Longrightarrow> e \<le> 2 ^ order \<Longrightarrow>
    ncq_reachable order (ncq_start (ncq_init_fill order s e mem) (map word_of_nat [s..<e]))"
| step: "ncq_reachable order st \<Longrightarrow> ncq_step order st st' \<Longrightarrow> ncq_reachable order st'"

section \<open>Entries as cycles and indices\<close>

text \<open>An entry that carries cycle \<open>c\<close> and index \<open>j\<close>; the entries below stay far from a wrap of 64 bits.\<close>

definition entry_word :: "nat \<Rightarrow> int \<Rightarrow> u64 \<Rightarrow> u64" where
  "entry_word order c j = word_of_int (2 ^ order * c) + j"

lemma entry_word_int:
  assumes "unat j < 2 ^ order"
  shows "entry_word order c j = word_of_int (2 ^ order * c + uint j)"
    and "(2 ^ order * c + uint j) mod 2 ^ order = uint j" and "(2 ^ order * c + uint j) div 2 ^ order = c"
proof -
  have "int (unat j) < int (2 ^ order)" using assms by (simp only: of_nat_less_iff)
  then have j: "uint j < 2 ^ order" by simp
  show "entry_word order c j = word_of_int (2 ^ order * c + uint j)" by (simp add: entry_word_def)
  have nn: "0 \<le> uint j" by simp
  show "(2 ^ order * c + uint j) mod 2 ^ order = uint j" "(2 ^ order * c + uint j) div 2 ^ order = c"
    using j nn by (simp_all only: mod_mult_self4 mod_pos_pos_trivial div_mult_self4 div_pos_pos_trivial power_eq_0_iff) simp_all
qed

lemma entry_word_parts:
  assumes "order < 64" and "unat j < 2 ^ order"
  shows "cycle_part order (entry_word order c j) = word_of_int (2 ^ order * c)"
    and "index_part order (entry_word order c j) = j"
  unfolding cycle_part_def index_part_def entry_word_int(1) [OF assms(2)] position_cycle [OF assms(1)]
    position_low [OF assms(1)] entry_word_int(2,3) [OF assms(2)]
  by simp_all

lemma cycle_part_position: "order < 64 \<Longrightarrow> cycle_part order (word_of_int t) = word_of_int (2 ^ order * (t div 2 ^ order))"
  by (simp add: cycle_part_def position_cycle)

lemma pow2_word: "lfring_pow2 order = word_of_int (2 ^ order)"
  by (simp add: lfring_pow2_def push_bit_eq_mult)

lemma cycle_eq_iff:
  assumes "order < 64" and "\<bar>2 ^ order * c - 2 ^ order * d\<bar> < (2 ^ 64 :: int)"
  shows "(word_of_int (2 ^ order * c) :: u64) = word_of_int (2 ^ order * d) \<longleftrightarrow> c = d"
  using word_of_int_close [OF _ assms(2)] by auto

section \<open>The ring as a queue\<close>

text \<open>
  With \<open>H\<close> dequeues behind it, the ring holds \<open>xs\<close> at the positions from \<open>H\<close> on, each with the cycle of its
  position; the positions after them, up to a full turn, hold entries of the cycle before.
\<close>

definition ring_holds :: "nat \<Rightarrow> u64 list \<Rightarrow> int \<Rightarrow> u64 list \<Rightarrow> bool" where
  "ring_holds order a H xs \<longleftrightarrow> length a = 2 ^ order \<and> length xs \<le> 2 ^ order \<and> (\<forall>x \<in> set xs. unat x < 2 ^ order) \<and>
     (\<forall>k < 2 ^ order. let p = H + int k; w = a ! ring_slot order (word_of_int p) in
        if k < length xs then w = entry_word order (p div 2 ^ order) (xs ! k)
        else \<exists>j. unat j < 2 ^ order \<and> w = entry_word order (p div 2 ^ order - 1) j)"

lemma ring_holdsI:
  assumes "length a = 2 ^ order" "length xs \<le> 2 ^ order" "\<And>x. x \<in> set xs \<Longrightarrow> unat x < 2 ^ order"
    and "\<And>k. k < 2 ^ order \<Longrightarrow> if k < length xs
      then a ! ring_slot order (word_of_int (H + int k)) = entry_word order ((H + int k) div 2 ^ order) (xs ! k)
      else \<exists>j. unat j < 2 ^ order \<and>
        a ! ring_slot order (word_of_int (H + int k)) = entry_word order ((H + int k) div 2 ^ order - 1) j"
  shows "ring_holds order a H xs"
  using assms unfolding ring_holds_def Let_def by blast

lemma ring_slot_less: "4 \<le> order \<Longrightarrow> order < 64 \<Longrightarrow> ring_slot order w < 2 ^ order"
  by (simp add: ring_slot_def lfring_map_less)

lemma ring_slot_eq_iff:
  "4 \<le> order \<Longrightarrow> order < 64 \<Longrightarrow>
    ring_slot order (word_of_int p) = ring_slot order (word_of_int p') \<longleftrightarrow> p mod 2 ^ order = p' mod 2 ^ order"
  unfolding ring_slot_def word_unat_eq_iff [symmetric] by (rule slot_eq_iff)

lemma turn_position:
  fixes n H t :: int
  assumes "0 < n"
  obtains k where "k < nat n" "(H + int k) mod n = t mod n"
    "n * ((H + int k) div n) \<le> H + n" "H - n < n * ((H + int k) div n)"
    "H \<le> t \<Longrightarrow> t < H + n \<Longrightarrow> int k = t - H"
    "t < H \<Longrightarrow> t div n + 1 \<le> (H + int k) div n"
    "t < H \<Longrightarrow> H \<le> t + n \<Longrightarrow> int k = t + n - H"
    "t = H + n \<Longrightarrow> k = 0 \<and> (H + int k) div n = t div n - 1"
proof -
  define k where "k = nat ((t - H) mod n)"
  have k: "int k = (t - H) mod n" unfolding k_def using assms by simp
  have kn: "0 \<le> int k" "int k < n" unfolding k using assms by simp_all
  have m: "(H + int k) mod n = t mod n" unfolding k by (simp add: mod_simps)
  have e: "H + int k = n * ((H + int k) div n) + (H + int k) mod n" "t = n * (t div n) + t mod n"
    by (simp_all only: mult_div_mod_eq)
  have b: "0 \<le> (H + int k) mod n" "(H + int k) mod n < n" using assms by simp_all
  show thesis
  proof (rule that [of k])
    show "k < nat n" using kn by (simp add: zless_nat_eq_int_zless)
    show "(H + int k) mod n = t mod n" by (rule m)
    show "n * ((H + int k) div n) \<le> H + n" "H - n < n * ((H + int k) div n)" using e(1) b kn by linarith+
    show "H \<le> t \<Longrightarrow> t < H + n \<Longrightarrow> int k = t - H" unfolding k by simp
    show "int k = t + n - H" if "t < H" "H \<le> t + n"
    proof -
      have "(t - H) mod n = (t + n - H) mod n" using mod_add_self2 [of "t - H" n] by (simp add: algebra_simps)
      then show ?thesis unfolding k using that by simp
    qed
    show "t div n + 1 \<le> (H + int k) div n" if "t < H"
    proof -
      have "n * (t div n) < n * ((H + int k) div n)" using that e m kn by linarith
      then show ?thesis using assms by simp
    qed
    show "k = 0 \<and> (H + int k) div n = t div n - 1" if "t = H + n"
    proof -
      have "k = 0" unfolding k_def that by simp
      moreover have "(H + n) div n = H div n + 1" using assms by (intro div_add_self2) simp
      ultimately show ?thesis unfolding that by simp
    qed
  qed
qed

lemma ring_holds_at:
  assumes "ring_holds order a H xs" and "k < nat (2 ^ order)"
  obtains j where "unat j < 2 ^ order" "k < length xs \<Longrightarrow> j = xs ! k"
    "a ! ring_slot order (word_of_int (H + int k)) =
       entry_word order ((H + int k) div 2 ^ order - (if k < length xs then 0 else 1)) j"
proof -
  have "k < 2 ^ order" using assms(2) by (simp add: nat_power_eq)
  then have w: "if k < length xs then a ! ring_slot order (word_of_int (H + int k)) = entry_word order ((H + int k) div 2 ^ order) (xs ! k)
      else \<exists>j. unat j < 2 ^ order \<and> a ! ring_slot order (word_of_int (H + int k)) = entry_word order ((H + int k) div 2 ^ order - 1) j"
    and u: "\<forall>x \<in> set xs. unat x < 2 ^ order"
    using assms(1) unfolding ring_holds_def Let_def by blast+
  show thesis
  proof (cases "k < length xs")
    case True
    then show thesis using w u by (intro that [of "xs ! k"]) simp_all
  next
    case False
    then obtain j where "unat j < 2 ^ order"
      "a ! ring_slot order (word_of_int (H + int k)) = entry_word order ((H + int k) div 2 ^ order - 1) j" using w by auto
    then show thesis using False by (intro that [of j]) simp_all
  qed
qed

lemma ring_entry:
  assumes "ring_holds order a H xs" and "4 \<le> order" "order < 64"
  obtains c j where "a ! ring_slot order (word_of_int t) = entry_word order c j" "unat j < 2 ^ order"
    "2 ^ order * c \<le> H + 2 ^ order" "H - 2 * 2 ^ order < 2 ^ order * c"
    "t < H \<longrightarrow> t div 2 ^ order \<le> c"
    "t < H \<longrightarrow> H + int (length xs) \<le> t + 2 ^ order \<longrightarrow> c = t div 2 ^ order"
    "H \<le> t \<longrightarrow> t < H + int (length xs) \<longrightarrow> c = t div 2 ^ order \<and> j = xs ! nat (t - H)"
    "t = H + int (length xs) \<longrightarrow> c = t div 2 ^ order - 1"
proof -
  define n :: int where "n = 2 ^ order"
  have n: "0 < n" unfolding n_def by simp
  have "int (length xs) \<le> int (2 ^ order)" using assms(1) unfolding ring_holds_def by (simp only: of_nat_le_iff)
  then have len: "int (length xs) \<le> n" unfolding n_def by simp
  from turn_position [OF n, of H t] obtain k where k: "k < nat n" and m: "(H + int k) mod n = t mod n"
    and lo: "n * ((H + int k) div n) \<le> H + n" and hi: "H - n < n * ((H + int k) div n)"
    and here: "H \<le> t \<Longrightarrow> t < H + n \<Longrightarrow> int k = t - H"
    and before: "t < H \<Longrightarrow> t div n + 1 \<le> (H + int k) div n"
    and turn: "t < H \<Longrightarrow> H \<le> t + n \<Longrightarrow> int k = t + n - H"
    and wrap: "t = H + n \<Longrightarrow> k = 0 \<and> (H + int k) div n = t div n - 1" by blast
  have slot: "ring_slot order (word_of_int t) = ring_slot order (word_of_int (H + int k))"
    unfolding ring_slot_eq_iff [OF assms(2,3)] using m unfolding n_def by (rule sym)
  define i :: int where "i = (if k < length xs then 0 else 1)"
  from ring_holds_at [OF assms(1), of k] k obtain j where j: "unat j < 2 ^ order" "k < length xs \<Longrightarrow> j = xs ! k"
    and w: "a ! ring_slot order (word_of_int (H + int k)) = entry_word order ((H + int k) div 2 ^ order - i) j"
    unfolding n_def i_def by blast
  have i: "0 \<le> i" "i \<le> 1" unfolding i_def by auto
  then have "0 \<le> n * i" "n * i \<le> n" using n by simp_all
  then have b: "n * ((H + int k) div n - i) \<le> H + n" "H - 2 * n < n * ((H + int k) div n - i)"
    unfolding right_diff_distrib using lo hi by linarith+
  have filled: "(H + int k) div n - i = t div n \<and> j = xs ! nat (t - H)" if "H \<le> t" "t < H + int (length xs)"
  proof -
    have "int k = t - H" using here that len by linarith
    then have "nat (t - H) = k" "k < length xs" "H + int k = t" using that by simp_all
    then show ?thesis using j(2) unfolding i_def by simp
  qed
  have last: "(H + int k) div n - i = t div n - 1" if t: "t = H + int (length xs)"
  proof (cases "int (length xs) = n")
    case True
    then show ?thesis using wrap t n unfolding i_def by auto
  next
    case False
    then have "int k = t - H" using here t len by simp
    then show ?thesis using t unfolding i_def by auto
  qed
  have later: "t div n \<le> (H + int k) div n - i" if "t < H" using before [OF that] i by linarith
  have behind: "(H + int k) div n - i = t div n" if "t < H" "H + int (length xs) \<le> t + n"
  proof -
    have "int k = t + n - H" using turn that by simp
    then have "H + int k = t + n" "\<not> k < length xs" using that by simp_all
    moreover have "(t + n) div n = t div n + 1" using n by (intro div_add_self2) simp
    ultimately show ?thesis unfolding i_def by simp
  qed
  show thesis
    by (rule that [of "(H + int k) div n - i" j])
      (use slot w j(1) b later filled last behind in \<open>simp_all add: n_def\<close>)
qed


section \<open>The two decisions\<close>

lemma decide_cycles:
  assumes "order \<le> 60" and "unat j < 2 ^ order"
    and "- (2 ^ 62) \<le> (2 :: int) ^ order * c" "2 ^ order * c \<le> 2 ^ 63" and "0 \<le> t" "t \<le> (2 :: int) ^ 63"
  shows "cycle_part order (entry_word order c j) = cycle_part order (word_of_int t) \<longleftrightarrow> c = t div 2 ^ order"
    and "cycle_part order (entry_word order c j) + lfring_pow2 order = cycle_part order (word_of_int t) \<longleftrightarrow>
      c + 1 = t div 2 ^ order"
proof -
  have o: "order < 64" using assms(1) by simp
  have n: "(2 :: int) ^ order \<le> 2 ^ 60" using assms(1) by (intro power_increasing) simp_all
  have "2 ^ order * (t div 2 ^ order) = t - t mod 2 ^ order" by (simp add: minus_mod_eq_mult_div)
  moreover have "0 \<le> t mod 2 ^ order" "t mod 2 ^ order < (2 :: int) ^ order" by simp_all
  ultimately have t: "- (2 ^ 60) \<le> (2 :: int) ^ order * (t div 2 ^ order)" "(2 :: int) ^ order * (t div 2 ^ order) \<le> 2 ^ 63"
    using assms(5,6) n by linarith+
  show "cycle_part order (entry_word order c j) = cycle_part order (word_of_int t) \<longleftrightarrow> c = t div 2 ^ order"
    unfolding entry_word_parts(1) [OF o assms(2)] cycle_part_position [OF o]
    by (rule cycle_eq_iff [OF o], unfold abs_less_iff) (use assms(3,4) t in \<open>simp; linarith\<close>)
  have s: "cycle_part order (entry_word order c j) + lfring_pow2 order = word_of_int (2 ^ order * (c + 1))"
    unfolding entry_word_parts(1) [OF o assms(2)] pow2_word by (simp add: algebra_simps)
  have "\<bar>2 ^ order * (c + 1) - 2 ^ order * (t div 2 ^ order)\<bar> < (2 ^ 64 :: int)"
    unfolding abs_less_iff distrib_left mult_1_right using assms(3,4) t n zero_less_power [of "2 :: int" order]
    by (intro conjI; simp; linarith)
  note eq = cycle_eq_iff [OF o this]
  show "cycle_part order (entry_word order c j) + lfring_pow2 order = cycle_part order (word_of_int t) \<longleftrightarrow>
      c + 1 = t div 2 ^ order"
    unfolding s cycle_part_position [OF o] by (rule eq)
qed

text \<open>What a thread learns from the entry at the position \<open>t\<close> it read earlier.\<close>

lemma entry_tells:
  assumes "ring_holds order a H xs" and "4 \<le> order" "order \<le> 60"
    and "0 \<le> t" "t \<le> H + int (length xs)" and "0 \<le> H" "H \<le> 2 ^ 62 + 2 ^ 60"
  defines "w \<equiv> a ! ring_slot order (word_of_int t)"
  shows "cycle_part order w = cycle_part order (word_of_int t) \<Longrightarrow>
      t < H + int (length xs) \<and> (t = H \<longrightarrow> xs \<noteq> [] \<and> index_part order w = hd xs)"
    and "cycle_part order w + lfring_pow2 order = cycle_part order (word_of_int t) \<Longrightarrow> t = H + int (length xs)"
    and "t + 1 = H + int (length xs) \<or> t = H \<and> xs \<noteq> [] \<Longrightarrow> cycle_part order w = cycle_part order (word_of_int t)"
    and "t = H + int (length xs) \<Longrightarrow> cycle_part order w + lfring_pow2 order = cycle_part order (word_of_int t) \<and>
      cycle_part order w \<noteq> cycle_part order (word_of_int t)"
proof -
  define n :: int where "n = 2 ^ order"
  have o: "order < 64" using assms(3) by simp
  have n: "0 < n" "n \<le> 2 ^ 60" unfolding n_def using assms(3) by (simp, intro power_increasing) simp_all
  have "int (length xs) \<le> int (2 ^ order)" using assms(1) unfolding ring_holds_def by (simp only: of_nat_le_iff)
  then have len: "int (length xs) \<le> n" unfolding n_def by simp
  obtain c j where e: "w = entry_word order c j" and j: "unat j < 2 ^ order"
    and c: "n * c \<le> H + n" "H - 2 * n < n * c"
    and bef: "t < H \<longrightarrow> t div n \<le> c"
    and beh: "t < H \<longrightarrow> H + int (length xs) \<le> t + n \<longrightarrow> c = t div n"
    and wit: "H \<le> t \<longrightarrow> t < H + int (length xs) \<longrightarrow> c = t div n \<and> j = xs ! nat (t - H)"
    and aft: "t = H + int (length xs) \<longrightarrow> c = t div n - 1"
    using ring_entry [OF assms(1,2) o, of t, folded w_def n_def] by blast
  note before = bef [rule_format] and behind = beh [rule_format] and within = wit [rule_format] and after = aft [rule_format]
  have "- (2 ^ 62) \<le> n * c" "n * c \<le> 2 ^ 63" "t \<le> 2 ^ 63" using c n len assms(5-7) by simp_all
  note d = decide_cycles [OF assms(3) j this(1,2) [unfolded n_def] assms(4) this(3), folded n_def, folded e]
  have idx: "index_part order w = j" unfolding e by (rule entry_word_parts(2) [OF o j])
  { assume "cycle_part order w = cycle_part order (word_of_int t)"
    then have c': "c = t div n" using d by simp
    then have "t < H + int (length xs)" using after assms(5) by fastforce
    then show "t < H + int (length xs) \<and> (t = H \<longrightarrow> xs \<noteq> [] \<and> index_part order w = hd xs)"
      using within idx by (auto simp: hd_conv_nth)
  }
  { assume "cycle_part order w + lfring_pow2 order = cycle_part order (word_of_int t)"
    then have c': "c + 1 = t div n" using d by simp
    show "t = H + int (length xs)"
      using c' before within assms(5) by linarith
  }
  { assume t: "t + 1 = H + int (length xs) \<or> t = H \<and> xs \<noteq> []"
    have "c = t div n"
    proof (cases "t < H")
      case True
      then show ?thesis using behind t n by linarith
    next
      case False
      have "0 < int (length xs)" if "xs \<noteq> []" using that by simp
      then have "t < H + int (length xs)" using t by linarith
      then show ?thesis using within False by linarith
    qed
    then show "cycle_part order w = cycle_part order (word_of_int t)" using d by simp }
  { assume "t = H + int (length xs)"
    then show "cycle_part order w + lfring_pow2 order = cycle_part order (word_of_int t) \<and>
        cycle_part order w \<noteq> cycle_part order (word_of_int t)" using after d by simp }
qed


section \<open>Queue operations on the ring\<close>

lemma merge_cycle: "order < 64 \<Longrightarrow> LFMERGE (cycle_part order (word_of_int t)) e = entry_word order (t div 2 ^ order) e"
  by (simp add: LFMERGE_def entry_word_def cycle_part_position)

lemma ring_holds_put:
  assumes r: "ring_holds order a H xs" and o: "4 \<le> order" "order < 64" and space: "length xs < 2 ^ order"
    and e: "unat e < 2 ^ order" and t: "t = H + int (length xs)"
  shows "ring_holds order (a[ring_slot order (word_of_int t) := entry_word order (t div 2 ^ order) e]) H (xs @ [e])"
    (is "ring_holds _ ?a _ _")
proof -
  have len: "length a = 2 ^ order" using r unfolding ring_holds_def by blast
  have other: "?a ! ring_slot order (word_of_int (H + int k)) = a ! ring_slot order (word_of_int (H + int k))"
    if "k < 2 ^ order" "k \<noteq> length xs" for k
  proof -
    have "(H + int k) mod 2 ^ order \<noteq> t mod 2 ^ order"
    proof
      assume "(H + int k) mod 2 ^ order = t mod 2 ^ order"
      then have "2 ^ order dvd int k - int (length xs)" unfolding t mod_eq_dvd_iff by simp
      then have "int k mod int (2 ^ order) = int (length xs) mod int (2 ^ order)" by (simp add: mod_eq_dvd_iff)
      then show False using that space unfolding of_nat_mod [symmetric] by simp
    qed
    then have "ring_slot order (word_of_int (H + int k)) \<noteq> ring_slot order (word_of_int t)"
      unfolding ring_slot_eq_iff [OF o] .
    then show ?thesis by simp
  qed
  have here: "?a ! ring_slot order (word_of_int t) = entry_word order (t div 2 ^ order) e"
    using ring_slot_less [OF o] len by simp
  have "if k < length (xs @ [e])
        then ?a ! ring_slot order (word_of_int (H + int k)) = entry_word order ((H + int k) div 2 ^ order) ((xs @ [e]) ! k)
        else \<exists>j. unat j < 2 ^ order \<and>
          ?a ! ring_slot order (word_of_int (H + int k)) = entry_word order ((H + int k) div 2 ^ order - 1) j"
    if k: "k < 2 ^ order" for k
  proof (cases "k = length xs")
    case True
    then show ?thesis using here unfolding t by simp
  next
    case False
    then show ?thesis using r k other [OF k False] unfolding ring_holds_def Let_def
      by (auto simp: nth_append simp del: of_int_add)
  qed
  then show ?thesis using r space e unfolding ring_holds_def Let_def by (auto simp del: of_int_add)
qed

lemma ring_holds_take:
  assumes r: "ring_holds order a H (x # xs)" and o: "4 \<le> order" "order < 64"
  shows "ring_holds order a (H + 1) xs"
proof -
  have w: "if k < length (x # xs)
        then a ! ring_slot order (word_of_int (H + int k)) = entry_word order ((H + int k) div 2 ^ order) ((x # xs) ! k)
        else \<exists>j. unat j < 2 ^ order \<and>
          a ! ring_slot order (word_of_int (H + int k)) = entry_word order ((H + int k) div 2 ^ order - 1) j"
    if "k < 2 ^ order" for k
    using r that unfolding ring_holds_def Let_def by blast
  have "if k < length xs
        then a ! ring_slot order (word_of_int (H + 1 + int k)) = entry_word order ((H + 1 + int k) div 2 ^ order) (xs ! k)
        else \<exists>j. unat j < 2 ^ order \<and>
          a ! ring_slot order (word_of_int (H + 1 + int k)) = entry_word order ((H + 1 + int k) div 2 ^ order - 1) j"
    if k: "k < 2 ^ order" for k
  proof (cases "k + 1 < 2 ^ order")
    case True
    have e: "H + 1 + int k = H + int (k + 1)" by simp
    show ?thesis unfolding e using w [OF True] by (cases "k < length xs") simp_all
  next
    case False
    then have "k + 1 = 2 ^ order" using k by simp
    then have "int (k + 1) = int (2 ^ order)" by simp
    then have p: "H + 1 + int k = H + 2 ^ order" by simp
    have "ring_slot order (word_of_int (H + 2 ^ order)) = ring_slot order (word_of_int H)"
      unfolding ring_slot_eq_iff [OF o] by simp
    moreover have "(H + 2 ^ order) div 2 ^ order = H div 2 ^ order + 1" by (intro div_add_self2) simp
    moreover have "a ! ring_slot order (word_of_int H) = entry_word order (H div 2 ^ order) x" using w [of 0] by simp
    moreover have "length xs \<le> k" "unat x < 2 ^ order" using r \<open>k + 1 = 2 ^ order\<close> unfolding ring_holds_def by simp_all
    ultimately show ?thesis unfolding p by (auto simp del: of_int_add)
  qed
  then show ?thesis using r unfolding ring_holds_def Let_def by (auto simp del: of_int_add)
qed


section \<open>The invariant of a run\<close>

text \<open>
  \<open>H\<close> and \<open>T\<close> are the unbounded head and tail, \<open>F\<close> the position after the last filled one, \<open>xs\<close> the indices
  in the ring. Whatever position a thread remembers, the ring has been there.
\<close>

fun pending :: "ncq_pc \<Rightarrow> bool" where
  "pending (Enq_load_tail e) = True"
| "pending (Enq_load_entry e tail) = True"
| "pending (Enq_cas_tail e tail) = True"
| "pending (Enq_cas_entry e tail entry) = True"
| "pending _ = False"

fun pc_ok :: "nat \<Rightarrow> int \<Rightarrow> int \<Rightarrow> int \<Rightarrow> u64 list \<Rightarrow> ncq_pc \<Rightarrow> bool" where
  "pc_ok order H T F xs (Enq_load_tail e) \<longleftrightarrow> unat e < 2 ^ order"
| "pc_ok order H T F xs (Enq_load_entry e w) \<longleftrightarrow> unat e < 2 ^ order \<and> (\<exists>t. 0 \<le> t \<and> t \<le> T \<and> w = word_of_int t)"
| "pc_ok order H T F xs (Enq_cas_tail e w) \<longleftrightarrow>
     unat e < 2 ^ order \<and> (\<exists>t. 0 \<le> t \<and> t \<le> T \<and> t < F \<and> w = word_of_int t)"
| "pc_ok order H T F xs (Enq_cas_entry e w entry) \<longleftrightarrow>
     unat e < 2 ^ order \<and> (\<exists>t. 0 \<le> t \<and> t \<le> T \<and> w = word_of_int t) \<and>
     cycle_part order entry + lfring_pow2 order = cycle_part order w"
| "pc_ok order H T F xs (Enq_bump w r) \<longleftrightarrow> (\<exists>t. 0 \<le> t \<and> t \<le> T \<and> t < F \<and> w = word_of_int t)"
| "pc_ok order H T F xs (Deq_load_entry b w) \<longleftrightarrow> (\<exists>h. 0 \<le> h \<and> h \<le> H \<and> w = word_of_int h)"
| "pc_ok order H T F xs (Deq_cas_head b w entry) \<longleftrightarrow>
     (\<exists>h. 0 \<le> h \<and> h \<le> H \<and> w = word_of_int h \<and> (h = H \<longrightarrow> xs \<noteq> [] \<and> index_part order entry = hd xs))"
| "pc_ok order H T F xs _ \<longleftrightarrow> True"

definition ncq_inv :: "nat \<Rightarrow> ncq_state \<Rightarrow> int \<Rightarrow> int \<Rightarrow> u64 list \<Rightarrow> bool" where
  "ncq_inv order s H T xs \<longleftrightarrow>
     ring_holds order (rg_array (ring s)) H xs \<and> enq_log s = deq_log s @ xs \<and>
     rg_head (ring s) = word_of_int H \<and> rg_tail (ring s) = word_of_int T \<and>
     0 \<le> H \<and> H \<le> 2 ^ order + int (length (deq_log s)) \<and>
     T \<le> H + int (length xs) \<and> H + int (length xs) \<le> T + 1 \<and> 0 \<le> T \<and>
     finite (reserved s) \<and> length xs + card (reserved s) \<le> 2 ^ order \<and>
     (\<forall>t. (pending (pcs s t) \<longrightarrow> t \<in> reserved s) \<and> pc_ok order H T (H + int (length xs)) xs (pcs s t))"

lemma known_position_mono:
  fixes T F :: int
  shows "\<exists>t. 0 \<le> t \<and> t \<le> T \<and> w = word_of_int t \<Longrightarrow> T \<le> T' \<Longrightarrow> \<exists>t. 0 \<le> t \<and> t \<le> T' \<and> w = (word_of_int t :: u64)"
    and "\<exists>t. 0 \<le> t \<and> t \<le> T \<and> t < F \<and> w = word_of_int t \<Longrightarrow> T \<le> T' \<Longrightarrow> F \<le> F' \<Longrightarrow>
      \<exists>t. 0 \<le> t \<and> t \<le> T' \<and> t < F' \<and> w = (word_of_int t :: u64)"
  by (elim exE conjE, rule_tac x = t in exI, simp)+

lemma pc_ok_mono:
  assumes "pc_ok order H T F xs pc" and "H \<le> H'" "T \<le> T'" "F \<le> F'" and "H' = H \<Longrightarrow> xs \<noteq> [] \<Longrightarrow> xs' \<noteq> [] \<and> hd xs' = hd xs"
  shows "pc_ok order H' T' F' xs' pc"
proof (cases pc)
  case (Deq_cas_head b w entry)
  then obtain h where "0 \<le> h" "h \<le> H" "w = word_of_int h" "h = H \<longrightarrow> xs \<noteq> [] \<and> index_part order entry = hd xs"
    using assms(1) by auto
  then show ?thesis using Deq_cas_head assms(2,5) by (auto intro!: exI [of _ h])
qed (use assms(1) known_position_mono [OF _ assms(3)] known_position_mono(1) [OF _ assms(2)]
  known_position_mono(2) [OF _ assms(3,4)] in simp_all)

lemma ncq_inv_local:
  assumes inv: "ncq_inv order s H T xs" and "pc_ok order H T (H + int (length xs)) xs pc"
    and "pending pc \<Longrightarrow> t \<in> reserved s"
  shows "ncq_inv order (set_pc t pc s) H T xs"
  using assms unfolding ncq_inv_def set_pc_def by simp

lemma position_eq:
  "word_of_int a = (word_of_int b :: u64) \<Longrightarrow> 0 \<le> a \<Longrightarrow> 0 \<le> b \<Longrightarrow> a \<le> 2 ^ 63 \<Longrightarrow> b \<le> 2 ^ 63 \<Longrightarrow> a = b"
  by (rule word_of_int_close) (simp_all add: abs_less_iff)


lemma ncq_inv_bounds:
  assumes "ncq_inv order s H T xs" and "order \<le> 60" and "length (enq_log s) \<le> 2 ^ 62"
  shows "0 \<le> H" "H \<le> 2 ^ 62 + 2 ^ 60" "0 \<le> T" "T \<le> H + int (length xs)" "H + int (length xs) \<le> T + 1"
    "H + int (length xs) \<le> 2 ^ 62 + 2 ^ 60"
proof -
  have "int (length (enq_log s)) \<le> int (2 ^ 62)" using assms(3) by (simp only: of_nat_le_iff)
  moreover have "(2 :: int) ^ order \<le> 2 ^ 60" using assms(2) by (intro power_increasing) simp_all
  moreover note assms(1) [unfolded ncq_inv_def]
  ultimately show "0 \<le> H" "H \<le> 2 ^ 62 + 2 ^ 60" "0 \<le> T" "T \<le> H + int (length xs)" "H + int (length xs) \<le> T + 1"
    "H + int (length xs) \<le> 2 ^ 62 + 2 ^ 60"
    by simp_all
qed

definition ncq_ok :: "nat \<Rightarrow> ncq_state \<Rightarrow> int \<Rightarrow> int \<Rightarrow> u64 list \<Rightarrow> bool" where
  "ncq_ok order s H T xs \<longleftrightarrow> ncq_inv order s H T xs \<and> 4 \<le> order \<and> order \<le> 60 \<and> length (enq_log s) \<le> 2 ^ 62"

lemma ncq_okD:
  assumes "ncq_ok order s H T xs"
  shows "ncq_inv order s H T xs" "4 \<le> order" "order \<le> 60" "length (enq_log s) \<le> 2 ^ 62"
  using assms unfolding ncq_ok_def by blast+

lemma ncq_invD:
  assumes "ncq_inv order s H T xs"
  shows "pc_ok order H T (H + int (length xs)) xs (pcs s t)"
    and "pending (pcs s t) \<Longrightarrow> t \<in> reserved s"
    and "ring_holds order (rg_array (ring s)) H xs"
  using assms unfolding ncq_inv_def by blast+

lemma ncq_ok_bounds:
  assumes "ncq_ok order s H T xs"
  shows "0 \<le> H" "H \<le> 2 ^ 62 + 2 ^ 60" "0 \<le> T" "T \<le> H + int (length xs)" "H + int (length xs) \<le> T + 1"
    "H + int (length xs) \<le> 2 ^ 62 + 2 ^ 60"
  by (fact ncq_inv_bounds [OF ncq_okD(1,3,4) [OF assms]])+

lemma tells:
  assumes ok: "ncq_ok order s H T xs"
    and "0 \<le> t" "t \<le> H + int (length xs)"
  shows "cycle_part order (ncq_entry order s (word_of_int t)) = cycle_part order (word_of_int t) \<Longrightarrow>
      t < H + int (length xs) \<and> (t = H \<longrightarrow> xs \<noteq> [] \<and> index_part order (ncq_entry order s (word_of_int t)) = hd xs)"
    and "cycle_part order (ncq_entry order s (word_of_int t)) + lfring_pow2 order = cycle_part order (word_of_int t) \<Longrightarrow>
      t = H + int (length xs)"
    and "t + 1 = H + int (length xs) \<or> t = H \<and> xs \<noteq> [] \<Longrightarrow>
      cycle_part order (ncq_entry order s (word_of_int t)) = cycle_part order (word_of_int t)"
    and "t = H + int (length xs) \<Longrightarrow>
      cycle_part order (ncq_entry order s (word_of_int t)) + lfring_pow2 order = cycle_part order (word_of_int t) \<and>
      cycle_part order (ncq_entry order s (word_of_int t)) \<noteq> cycle_part order (word_of_int t)"
  unfolding ncq_entry_def
  by (rule entry_tells [OF ncq_invD(3) [OF ncq_okD(1) [OF ok]] ncq_okD(2) [OF ok] ncq_okD(3) [OF ok] assms(2,3) ncq_ok_bounds(1) [OF ok] ncq_ok_bounds(2) [OF ok]]; assumption)+

lemma enq_decide_ok:
  assumes ok: "ncq_ok order s H T xs"
    and "unat e < 2 ^ order" and "\<exists>t. 0 \<le> t \<and> t \<le> T \<and> w = word_of_int t"
  shows "pc_ok order H T (H + int (length xs)) xs (enq_decide order e w (ncq_entry order s w))"
proof -
  obtain t where t: "0 \<le> t" "t \<le> T" "w = word_of_int t" using assms(3) by blast
  then have "t \<le> H + int (length xs)" using ncq_ok_bounds [OF ok] by simp
  from tells(1) [OF ok t(1) this] show ?thesis
    using assms t unfolding enq_decide_def Let_def by auto
qed

lemma deq_decide_ok:
  assumes ok: "ncq_ok order s H T xs"
    and "\<exists>h. 0 \<le> h \<and> h \<le> H \<and> w = word_of_int h"
  shows "pc_ok order H T (H + int (length xs)) xs (deq_decide order b w (ncq_entry order s w))"
proof -
  obtain h where h: "0 \<le> h" "h \<le> H" "w = word_of_int h" using assms by blast
  then have "h \<le> H + int (length xs)" by simp
  from tells(1) [OF ok h(1) this] show ?thesis
    using h unfolding deq_decide_def Let_def by auto
qed

lemma deq_decide_empty:
  assumes ok: "ncq_ok order s H T xs"
    and "\<exists>h. 0 \<le> h \<and> h \<le> H \<and> w = word_of_int h"
    and "deq_decide order b w (ncq_entry order s w) = Deq_done r"
  shows "xs = []" and "r = LFRING_EMPTY" and "\<not> b"
proof -
  obtain h where h: "0 \<le> h" "h \<le> H" "w = word_of_int h" using assms by blast
  then have "h \<le> H + int (length xs)" by simp
  from tells(2) [OF ok h(1) this] show "xs = []" "r = LFRING_EMPTY" "\<not> b"
    using h assms(3) unfolding deq_decide_def Let_def by (auto split: if_splits)
qed

lemma tail_advance:
  assumes ok: "ncq_ok order s H T xs"
    and "\<exists>t. 0 \<le> t \<and> t \<le> T \<and> t < H + int (length xs) \<and> w = word_of_int t" and "rg_tail (ring s) = w"
  shows "ncq_inv order (s\<lparr> ring := (ring s)\<lparr> rg_tail := w + 1 \<rparr> \<rparr>) H (T + 1) xs"
proof -
  obtain t where t: "0 \<le> t" "t \<le> T" "t < H + int (length xs)" "w = word_of_int t" using assms(2) by blast
  note b = ncq_ok_bounds [OF ok]
  have "word_of_int T = (word_of_int t :: u64)" using ncq_okD(1) [OF ok] assms(3) t(4) unfolding ncq_inv_def by simp
  then have "T = t" by (rule position_eq) (use b t in simp_all)
  moreover have "w + 1 = word_of_int (T + 1)" using t(4) \<open>T = t\<close> by simp
  moreover have "pc_ok order H (T + 1) (H + int (length xs)) xs (pcs s i)" for i
    by (rule pc_ok_mono [OF ncq_invD(1) [OF ncq_okD(1) [OF ok]]]) simp_all
  ultimately show ?thesis using ncq_okD(1) [OF ok] t(3) unfolding ncq_inv_def by simp
qed


section \<open>Every step keeps the invariant\<close>

lemma inv_enq_call:
  assumes inv: "ncq_inv order s H T xs" and "unat e < 2 ^ order" and "in_ring s + card (reserved s) < 2 ^ order"
  shows "ncq_inv order (enq_call t e s) H T xs"
proof -
  have "in_ring s = length xs" using inv unfolding ncq_inv_def in_ring_def by simp
  moreover have "card (insert t (reserved s)) \<le> card (reserved s) + 1" by (simp add: card_insert_le_m1)
  ultimately have "length xs + card (insert t (reserved s)) \<le> 2 ^ order" using assms(3) by simp
  then show ?thesis using inv assms(2) unfolding ncq_inv_def enq_call_def set_pc_def by simp
qed

lemma inv_enq_cas_tail:
  assumes ok: "ncq_ok order s H T xs" and pc: "pcs s t = Enq_cas_tail e w"
  shows "\<exists>T'. ncq_inv order (enq_cas_tail t e w s) H T' xs"
proof -
  note inv = ncq_okD(1) [OF ok]
  have k: "unat e < 2 ^ order" "\<exists>t. 0 \<le> t \<and> t \<le> T \<and> t < H + int (length xs) \<and> w = word_of_int t"
    and r: "t \<in> reserved s" using ncq_invD(1,2) [OF inv, of t] pc by simp_all
  note b = ncq_ok_bounds [OF ok]
  show ?thesis
  proof (cases "rg_tail (ring s) = w")
    case True
    note adv = tail_advance [OF ok k(2) True]
    have "w = word_of_int T" using inv True unfolding ncq_inv_def by simp
    then have "w + 1 = word_of_int (T + 1)" by simp
    then have "pc_ok order H (T + 1) (H + int (length xs)) xs (Enq_load_entry e (w + 1))"
      using k(1) b(3) by (auto intro!: exI [of _ "T + 1"])
    from ncq_inv_local [OF adv this, of t] show ?thesis
      using r True unfolding enq_cas_tail_def by auto
  next
    case False
    have "rg_tail (ring s) = word_of_int T" using inv unfolding ncq_inv_def by simp
    then have "pc_ok order H T (H + int (length xs)) xs (Enq_load_entry e (rg_tail (ring s)))" using k(1) b(3) by auto
    from ncq_inv_local [OF inv this, of t] show ?thesis
      using r False unfolding enq_cas_tail_def by auto
  qed
qed

lemma inv_enq_bump:
  assumes ok: "ncq_ok order s H T xs" and pc: "pcs s t = Enq_bump w r"
  shows "\<exists>T'. ncq_inv order (enq_bump t spurious w r s) H T' xs"
proof -
  note inv = ncq_okD(1) [OF ok]
  have k: "\<exists>t. 0 \<le> t \<and> t \<le> T \<and> t < H + int (length xs) \<and> w = word_of_int t"
    using ncq_invD(1) [OF inv, of t] pc by simp
  show ?thesis
  proof (cases "rg_tail (ring s) = w \<and> \<not> spurious")
    case True
    then have "ncq_inv order (s\<lparr> ring := (ring s)\<lparr> rg_tail := w + 1 \<rparr> \<rparr>) H (T + 1) xs" using tail_advance [OF ok k] by simp
    from ncq_inv_local [OF this, of "Enq_done r" t] show ?thesis
      using True unfolding enq_bump_def by auto
  next
    case False
    then show ?thesis using ncq_inv_local [OF inv, of "Enq_done r" t] unfolding enq_bump_def by auto
  qed
qed

lemma enq_put:
  assumes ok: "ncq_ok order s H T xs" and pc: "pcs s t = Enq_cas_entry e w entry" and cur: "ncq_entry order s w = entry"
  shows "ncq_inv order (enq_cas_entry order t e w entry s) H T (xs @ [e])"
proof -
  note inv = ncq_okD(1) [OF ok] and o = ncq_okD(2,3) [OF ok] and b = ncq_ok_bounds [OF ok]
  have o': "order < 64" using o by simp
  obtain p where e: "unat e < 2 ^ order" and p: "0 \<le> p" "p \<le> T" "w = word_of_int p"
    and cyc: "cycle_part order entry + lfring_pow2 order = cycle_part order w"
    using ncq_invD(1) [OF inv, of t] pc by auto
  have r: "t \<in> reserved s" using ncq_invD(2) [OF inv, of t] pc by simp
  have fin: "finite (reserved s)" and room: "length xs + card (reserved s) \<le> 2 ^ order"
    using inv unfolding ncq_inv_def by simp_all
  have card: "card (reserved s) = Suc (card (reserved s - {t}))" by (rule card.remove [OF fin r])
  have "p \<le> H + int (length xs)" using p b by simp
  from tells(2) [OF ok p(1) this] have at: "p = H + int (length xs)" using cyc cur p(3) by simp
  then have T: "T = p" using p b by simp
  have "ring_holds order ((rg_array (ring s))[ring_slot order w := LFMERGE (cycle_part order w) e]) H (xs @ [e])"
    unfolding p(3) merge_cycle [OF o']
    by (rule ring_holds_put [OF ncq_invD(3) [OF inv] o(1) o' _ e at]) (use room card in simp)
  moreover have "pc_ok order H T (H + int (length (xs @ [e]))) (xs @ [e]) (pcs s i)" for i
    by (rule pc_ok_mono [OF ncq_invD(1) [OF inv]]) simp_all
  moreover have "pc_ok order H T (H + int (length (xs @ [e]))) (xs @ [e]) (Enq_bump w (index_part order entry))"
    using p at by (auto intro!: exI [of _ p])
  moreover have "length (xs @ [e]) + card (reserved s - {t}) \<le> 2 ^ order" using room card by simp
  moreover have "pending (pcs s i) \<longrightarrow> i \<in> reserved s" for i using ncq_invD(2) [OF inv] by blast
  moreover have "enq_log s = deq_log s @ xs" "rg_head (ring s) = word_of_int H" "rg_tail (ring s) = word_of_int T"
    "H \<le> 2 ^ order + int (length (deq_log s))" using inv unfolding ncq_inv_def by simp_all
  ultimately show ?thesis using b at T fin
    unfolding ncq_inv_def enq_cas_entry_def set_pc_def if_P [OF cur] by simp
qed

lemma inv_deq_cas_head:
  assumes ok: "ncq_ok order s H T xs" and pc: "pcs s t = Deq_cas_head b w entry"
    and cur: "rg_head (ring s) = w"
  shows "xs \<noteq> []" and "index_part order entry = hd xs"
    and "\<not> spurious \<Longrightarrow> ncq_inv order (deq_cas_head order t spurious b w entry s) (H + 1) T (tl xs)"
proof -
  note inv = ncq_okD(1) [OF ok] and o = ncq_okD(2,3) [OF ok] and bd = ncq_ok_bounds [OF ok]
  have o': "order < 64" using o by simp
  obtain h where h: "0 \<le> h" "h \<le> H" "w = word_of_int h"
    and hit: "h = H \<Longrightarrow> xs \<noteq> [] \<and> index_part order entry = hd xs"
    using ncq_invD(1) [OF inv, of t] pc by auto
  have "word_of_int H = (word_of_int h :: u64)" using inv cur h(3) unfolding ncq_inv_def by simp
  then have hH: "H = h" by (rule position_eq) (use bd h in simp_all)
  then show ne: "xs \<noteq> []" and idx: "index_part order entry = hd xs" using hit by simp_all
  then obtain x ys where xs: "xs = x # ys" by (cases xs) auto
  assume sp: "\<not> spurious"
  have "ring_holds order (rg_array (ring s)) (H + 1) ys"
    using ring_holds_take [OF _ o(1) o'] ncq_invD(3) [OF inv] unfolding xs by blast
  moreover have "pc_ok order (H + 1) T (H + 1 + int (length ys)) ys (pcs s i)" for i
    by (rule pc_ok_mono [OF ncq_invD(1) [OF inv]]) (simp_all add: xs)
  moreover have "w + 1 = word_of_int (H + 1)" using h(3) hH by simp
  ultimately show "ncq_inv order (deq_cas_head order t spurious b w entry s) (H + 1) T (tl xs)"
    using inv cur sp idx bd unfolding ncq_inv_def deq_cas_head_def set_pc_def xs by simp
qed


lemma enqueued_mono: "ncq_step order s s' \<Longrightarrow> length (enq_log s) \<le> length (enq_log s')"
  by (cases rule: ncq_step.cases)
    (auto simp: enq_call_def enq_load_tail_def enq_load_entry_def enq_cas_tail_def enq_cas_entry_def enq_bump_def
      deq_call_def deq_load_head_def deq_load_entry_def deq_cas_head_def set_pc_def)

lemma step_keeps_inv:
  assumes ok: "ncq_ok order s H T xs" and step: "ncq_step order s s'"
  shows "\<exists>H' T' xs'. ncq_inv order s' H' T' xs'"
proof -
  note inv = ncq_okD(1) [OF ok] and b = ncq_ok_bounds [OF ok]
  have head: "rg_head (ring s) = word_of_int H" and tail: "rg_tail (ring s) = word_of_int T"
    using inv unfolding ncq_inv_def by simp_all
  note known = ncq_invD(1) [OF inv] and pend = ncq_invD(2) [OF inv]
  from step show ?thesis
  proof cases
    case (enq_call t e)
    then show ?thesis using inv_enq_call [OF inv] by blast
  next
    case (enq_tail t e)
    then have "pc_ok order H T (H + int (length xs)) xs (Enq_load_entry e (rg_tail (ring s)))" and "t \<in> reserved s"
      using known [of t] pend [of t] tail b by auto
    then show ?thesis using ncq_inv_local [OF inv] enq_tail(1) unfolding enq_load_tail_def by blast
  next
    case (enq_entry t e w)
    then have "pc_ok order H T (H + int (length xs)) xs (enq_decide order e w (ncq_entry order s w))" and "t \<in> reserved s"
      using known [of t] pend [of t] enq_decide_ok [OF ok] by auto
    then show ?thesis using ncq_inv_local [OF inv] enq_entry(1) unfolding enq_load_entry_def by blast
  next
    case (enq_help t e w)
    then show ?thesis using inv_enq_cas_tail [OF ok] by blast
  next
    case (enq_fill t e w entry)
    show ?thesis
    proof (cases "ncq_entry order s w = entry")
      case True
      then show ?thesis using enq_put [OF ok enq_fill(2)] enq_fill(1) by blast
    next
      case False
      have "pc_ok order H T (H + int (length xs)) xs (enq_decide order e w (ncq_entry order s w))" and "t \<in> reserved s"
        using known [of t] pend [of t] enq_decide_ok [OF ok] enq_fill(2) by auto
      then show ?thesis using ncq_inv_local [OF inv] False enq_fill(1) unfolding enq_cas_entry_def if_not_P [OF False] by blast
    qed
  next
    case (enq_bump t w r spurious)
    then show ?thesis using inv_enq_bump [OF ok] by blast
  next
    case (enq_return t r)
    then show ?thesis using ncq_inv_local [OF inv, of Idle t] by auto
  next
    case (deq_call t nonempty)
    then show ?thesis using ncq_inv_local [OF inv, of "Deq_load_head nonempty" t] unfolding deq_call_def by auto
  next
    case (deq_head t nonempty)
    have "pc_ok order H T (H + int (length xs)) xs (Deq_load_entry nonempty (rg_head (ring s)))" using head b by auto
    from ncq_inv_local [OF inv this, of t] show ?thesis using deq_head(1) unfolding deq_load_head_def by auto
  next
    case (deq_entry t nonempty w)
    then have "pc_ok order H T (H + int (length xs)) xs (deq_decide order nonempty w (ncq_entry order s w))"
      using known [of t] deq_decide_ok [OF ok] by auto
    moreover have "\<not> pending (deq_decide order nonempty w (ncq_entry order s w))" by (simp add: deq_decide_def Let_def)
    ultimately show ?thesis using ncq_inv_local [OF inv, of _ t] deq_entry(1) unfolding deq_load_entry_def by blast
  next
    case (deq_take t nonempty w entry spurious)
    show ?thesis
    proof (cases "rg_head (ring s) = w \<and> \<not> spurious")
      case True
      then show ?thesis using inv_deq_cas_head(3) [OF ok deq_take(2)] deq_take(1) by blast
    next
      case False
      have "pc_ok order H T (H + int (length xs)) xs (Deq_load_entry nonempty (rg_head (ring s)))" using head b by auto
      from ncq_inv_local [OF inv this, of t] show ?thesis using deq_take(1) unfolding deq_cas_head_def if_not_P [OF False] by auto
    qed
  next
    case (deq_return t r)
    then show ?thesis using ncq_inv_local [OF inv, of Idle t] by auto
  qed
qed

section \<open>The three initial rings\<close>

lemma slots_inj:
  assumes "4 \<le> order" "order < 64"
  shows "inj_on (\<lambda>i. ring_slot order (word_of_nat i)) {..<2 ^ order}"
proof (rule inj_onI)
  fix i j :: nat assume ij: "i \<in> {..<2 ^ order}" "j \<in> {..<2 ^ order}"
    and eq: "ring_slot order (word_of_nat i) = ring_slot order (word_of_nat j)"
  have "int i mod 2 ^ order = int j mod 2 ^ order"
    using ring_slot_eq_iff [OF assms, of "int i" "int j"] eq by simp
  then have "int (i mod 2 ^ order) = int (j mod 2 ^ order)" by (simp add: of_nat_mod)
  then show "i = j" using ij by simp
qed

lemma ncq_start_inv:
  assumes "ring_holds order (rg_array r) H xs" and "rg_head r = word_of_int H" "rg_tail r = word_of_int T"
    and "0 \<le> H" "H \<le> 2 ^ order" "0 \<le> T" "T = H + int (length xs)"
  shows "ncq_inv order (ncq_start r xs) H T xs"
proof -
  have "length xs \<le> 2 ^ order" using assms(1) unfolding ring_holds_def by blast
  then show ?thesis using assms unfolding ncq_inv_def ncq_start_def by simp
qed

lemma empty_ring:
  assumes "4 \<le> order" "order < 64" and "length mem = 2 ^ order"
  shows "ring_holds order (rg_array (ncq_init_empty order mem)) (2 ^ order) []"
proof -
  define n :: nat where "n = 2 ^ order"
  have "store_range (\<lambda>i. i) (\<lambda>i. 0) 0 n mem ! k = 0" if "k < n" for k
    using store_range_at [of 0 k n "\<lambda>i. i" mem "\<lambda>i. 0"] that assms(3) unfolding n_def by simp
  then have z: "store_range (\<lambda>i. i) (\<lambda>i. 0) 0 n mem ! ring_slot order w = 0" for w
    using ring_slot_less [OF assms(1,2)] unfolding n_def by simp
  have "\<exists>j. unat j < 2 ^ order \<and> 0 = entry_word order ((2 ^ order + int k) div 2 ^ order - 1) j" if "k < 2 ^ order" for k
  proof -
    have "int k < int (2 ^ order)" using that by (simp only: of_nat_less_iff)
    then have "(2 ^ order + int k) div 2 ^ order = 1" by (simp add: div_add_self1)
    then show ?thesis by (intro exI [of _ 0]) (simp add: entry_word_def)
  qed
  then show ?thesis using z assms(3) unfolding ring_holds_def ncq_init_empty_def Let_def pow2_unat [OF assms(2)]
    by (simp add: n_def)
qed

lemma full_ring:
  assumes "4 \<le> order" "order < 64" and "length mem = 2 ^ order"
  shows "ring_holds order (rg_array (ncq_init_full order mem)) 0
    (map (\<lambda>i. word_of_nat (ring_slot order (word_of_nat i))) [0..<2 ^ order])"
proof -
  define n :: nat where "n = 2 ^ order"
  have n: "n < 2 ^ 64" unfolding n_def using assms(2) by (intro power_strict_increasing) simp_all
  have "store_range (\<lambda>i. i) word_of_nat 0 n mem ! k = word_of_nat k" if "k < n" for k
    using store_range_at [of 0 k n "\<lambda>i. i" mem word_of_nat] that assms(3) unfolding n_def by simp
  then have z: "store_range (\<lambda>i. i) word_of_nat 0 n mem ! ring_slot order w = word_of_nat (ring_slot order w)" for w
    using ring_slot_less [OF assms(1,2)] unfolding n_def by simp
  have small: "unat (word_of_nat (ring_slot order w) :: u64) < n" for w
  proof -
    have "ring_slot order w < n" using ring_slot_less [OF assms(1,2)] unfolding n_def .
    then show ?thesis using n by (simp add: unsigned_of_nat take_bit_nat_eq_self)
  qed
  have "int k div 2 ^ order = 0" if "k < n" for k
  proof -
    have "int k < int (2 ^ order)" using that unfolding n_def by (simp only: of_nat_less_iff)
    then show ?thesis by simp
  qed
  then show ?thesis
    using z assms(3) small unfolding ring_holds_def ncq_init_full_def Let_def pow2_unat [OF assms(2)]
    by (auto simp: n_def [symmetric] entry_word_def)
qed


lemma fill_ring:
  assumes "4 \<le> order" "order < 64" and "length mem = 2 ^ order" and "s \<le> e" "e \<le> 2 ^ order"
  shows "ring_holds order (rg_array (ncq_init_fill order s e mem)) (int s) (map word_of_nat [s..<e])"
proof -
  define n :: nat where "n = 2 ^ order"
  define slot where "slot = (\<lambda>i. ring_slot order (word_of_nat i))"
  define a1 where "a1 = store_range slot (\<lambda>i. 0) 0 s mem"
  define a2 where "a2 = store_range slot word_of_nat s e a1"
  define a3 where "a3 = store_range slot (\<lambda>i. - lfring_pow2 order) e n a2"
  have n: "n < 2 ^ 64" unfolding n_def using assms(2) by (intro power_strict_increasing) simp_all
  have sn: "s \<le> n" "e \<le> n" using assms(4,5) unfolding n_def by simp_all
  have len: "length a3 = n" "length a2 = n" "length a1 = n" "length mem = n" using assms(3) by (simp_all add: a1_def a2_def a3_def n_def)
  have less: "slot i < n" for i using ring_slot_less [OF assms(1,2)] unfolding slot_def n_def .
  have inj: "inj_on slot {..<n}" unfolding slot_def n_def by (rule slots_inj [OF assms(1,2)])
  have v3: "a3 ! slot i = (if i < s then 0 else if i < e then word_of_nat i else - lfring_pow2 order)" if "i < n" for i
    unfolding a3_def a2_def a1_def using store_three [where mem = mem, OF inj _ assms(4) sn(2) that] less len(4) by simp
  have "if k < e - s then a3 ! ring_slot order (word_of_int (int s + int k)) = entry_word order ((int s + int k) div 2 ^ order) (word_of_nat (s + k))
      else \<exists>j. unat j < 2 ^ order \<and> a3 ! ring_slot order (word_of_int (int s + int k)) = entry_word order ((int s + int k) div 2 ^ order - 1) j"
    if k: "k < n" for k
  proof (cases "s + k < n")
    case True
    then have "int (s + k) < int (2 ^ order)" unfolding n_def by (simp only: of_nat_less_iff)
    then have d: "(int s + int k) div 2 ^ order = 0" by simp
    have at: "a3 ! ring_slot order (word_of_int (int s + int k)) = (if s + k < e then word_of_nat (s + k) else - lfring_pow2 order)"
      using v3 [OF True] unfolding slot_def by simp
    show ?thesis unfolding at d using pow2_word [of order]
      by (auto simp: entry_word_def less_diff_conv intro!: exI [of _ 0])
  next
    case False
    then have wrap: "int s + int k = int (s + k - n) + 2 ^ order" and r: "s + k - n < s" using k sn unfolding n_def
      by (simp_all add: of_nat_diff)
    have "ring_slot order (word_of_int (int s + int k)) = slot (s + k - n)"
      unfolding slot_def wrap using ring_slot_eq_iff [OF assms(1,2), of "int (s + k - n) + 2 ^ order" "int (s + k - n)"] by simp
    then have at: "a3 ! ring_slot order (word_of_int (int s + int k)) = 0" using v3 [of "s + k - n"] r sn by simp
    have "int (s + k - n) < int (2 ^ order)" using r sn unfolding n_def by (simp only: of_nat_less_iff)
    then have d: "(int s + int k) div 2 ^ order = 1" unfolding wrap by (subst div_add_self2) simp_all
    have "\<not> k < e - s" using False sn by simp
    then show ?thesis unfolding at d by (auto simp: entry_word_def intro!: exI [of _ 0])
  qed
  note v4 = this
  have v5: "if k < length (map word_of_nat [s..<e] :: u64 list) then a3 ! ring_slot order (word_of_int (int s + int k)) =
        entry_word order ((int s + int k) div 2 ^ order) (map word_of_nat [s..<e] ! k)
      else \<exists>j. unat j < 2 ^ order \<and> a3 ! ring_slot order (word_of_int (int s + int k)) = entry_word order ((int s + int k) div 2 ^ order - 1) j"
    if "k < 2 ^ order" for k
    using v4 [of k] that unfolding n_def by (cases "k < e - s") simp_all
  have eq: "rg_array (ncq_init_fill order s e mem) = a3"
    unfolding ncq_init_fill_def Let_def pow2_unat [OF assms(2)] a3_def a2_def a1_def slot_def n_def by simp
  have small: "unat (word_of_nat i :: u64) < 2 ^ order" if "i < e" for i
    using that sn n by (simp add: n_def [symmetric] unsigned_of_nat take_bit_nat_eq_self)
  show ?thesis unfolding eq
    by (rule ring_holdsI [OF _ _ _ v5]) (use len(1) sn small in \<open>auto simp: n_def\<close>)
qed

lemma ncq_start_invariant:
  assumes "4 \<le> order" "order \<le> 60" and "length mem = 2 ^ order"
  shows "\<exists>H T. ncq_inv order (ncq_start (ncq_init_empty order mem) []) H T []"
    and "\<exists>H T. ncq_inv order (ncq_start (ncq_init_full order mem)
        (map (\<lambda>i. word_of_nat (ring_slot order (word_of_nat i))) [0..<2 ^ order])) H T
        (map (\<lambda>i. word_of_nat (ring_slot order (word_of_nat i))) [0..<2 ^ order])"
    and "s \<le> e \<Longrightarrow> e \<le> 2 ^ order \<Longrightarrow>
      \<exists>H T. ncq_inv order (ncq_start (ncq_init_fill order s e mem) (map word_of_nat [s..<e])) H T (map word_of_nat [s..<e])"
proof -
  have o: "order < 64" using assms(2) by simp
  show "\<exists>H T. ncq_inv order (ncq_start (ncq_init_empty order mem) []) H T []"
    by (intro exI [of _ "2 ^ order"] ncq_start_inv [OF empty_ring [OF assms(1) o assms(3)]])
      (simp_all add: ncq_init_empty_def Let_def pow2_word)
  show "\<exists>H T. ncq_inv order (ncq_start (ncq_init_full order mem)
        (map (\<lambda>i. word_of_nat (ring_slot order (word_of_nat i))) [0..<2 ^ order])) H T
        (map (\<lambda>i. word_of_nat (ring_slot order (word_of_nat i))) [0..<2 ^ order])"
    by (intro exI [of _ "0"] exI [of _ "2 ^ order"] ncq_start_inv [OF full_ring [OF assms(1) o assms(3)]])
      (simp_all add: ncq_init_full_def Let_def pow2_word)
  assume "s \<le> e" "e \<le> 2 ^ order"
  moreover from \<open>e \<le> 2 ^ order\<close> have "int e \<le> int (2 ^ order)" by (simp only: of_nat_le_iff)
  ultimately show "\<exists>H T. ncq_inv order (ncq_start (ncq_init_fill order s e mem) (map word_of_nat [s..<e])) H T (map word_of_nat [s..<e])"
    by (intro exI [of _ "int s"] exI [of _ "int e"] ncq_start_inv [OF fill_ring [OF assms(1) o assms(3)]])
      (simp_all add: ncq_init_fill_def Let_def of_nat_diff)
qed

lemma ncq_reachable_inv:
  assumes "ncq_reachable order s" and "4 \<le> order" "order \<le> 60"
  shows "length (enq_log s) \<le> 2 ^ 62 \<Longrightarrow> \<exists>H T xs. ncq_inv order s H T xs"
  using assms(1)
proof induction
  case (empty mem)
  then show ?case using ncq_start_invariant(1) [OF assms(2,3)] by blast
next
  case (full mem)
  then show ?case using ncq_start_invariant(2) [OF assms(2,3)] by blast
next
  case (fill mem s e)
  then show ?case using ncq_start_invariant(3) [OF assms(2,3)] by blast
next
  case (step st st')
  then have "length (enq_log st) \<le> 2 ^ 62" using enqueued_mono by (meson order_trans)
  moreover with step.IH obtain H T xs where "ncq_inv order st H T xs" by blast
  ultimately have "ncq_ok order st H T xs" using assms(2,3) unfolding ncq_ok_def by blast
  from step_keeps_inv [OF this step.hyps(2)] show ?case .
qed


lemma next_at_head:
  assumes ok: "ncq_ok order s H T xs" and "k < length xs"
  shows "index_part order (ncq_entry order s (rg_head (ring s) + word_of_nat k)) = xs ! k"
proof -
  note inv = ncq_okD(1) [OF ok] and o = ncq_okD(2,3) [OF ok]
  have o': "order < 64" using o by simp
  have r: "ring_holds order (rg_array (ring s)) H xs" by (rule ncq_invD(3) [OF inv])
  then have "k < nat (2 ^ order)" using assms(2) unfolding ring_holds_def by (simp add: nat_power_eq)
  from ring_holds_at [OF r this] obtain j where j: "unat j < 2 ^ order" "k < length xs \<Longrightarrow> j = xs ! k"
    and w: "rg_array (ring s) ! ring_slot order (word_of_int (H + int k)) =
      entry_word order ((H + int k) div 2 ^ order - (if k < length xs then 0 else 1)) j" by blast
  have "rg_head (ring s) + word_of_nat k = word_of_int (H + int k)" using inv unfolding ncq_inv_def by simp
  then show ?thesis using entry_word_parts(2) [OF o' j(1)] j(2) [OF assms(2)] w unfolding ncq_entry_def by simp
qed

lemma ncq_reachable_ok:
  assumes "ncq_reachable order s" and "4 \<le> order" "order \<le> 60" and "length (enq_log s) \<le> 2 ^ 62"
  obtains H T xs where "ncq_ok order s H T xs" "enq_log s = deq_log s @ xs" "length xs \<le> 2 ^ order"
    "in_ring s = length xs"
proof -
  from ncq_reachable_inv [OF assms] obtain H T xs where inv: "ncq_inv order s H T xs" by blast
  then have "enq_log s = deq_log s @ xs" "length xs \<le> 2 ^ order" unfolding ncq_inv_def by simp_all
  then show thesis using inv that assms unfolding ncq_ok_def in_ring_def by auto
qed

text \<open>One step of a thread that is inside an operation, as a function.\<close>

definition ncq_thread_step :: "nat \<Rightarrow> nat \<Rightarrow> bool \<Rightarrow> ncq_state \<Rightarrow> ncq_state" where
  "ncq_thread_step order t spurious s =
     (case pcs s t of
        Idle \<Rightarrow> s
      | Enq_load_tail e \<Rightarrow> enq_load_tail t e s
      | Enq_load_entry e tail \<Rightarrow> enq_load_entry order t e tail s
      | Enq_cas_tail e tail \<Rightarrow> enq_cas_tail t e tail s
      | Enq_cas_entry e tail entry \<Rightarrow> enq_cas_entry order t e tail entry s
      | Enq_bump tail res \<Rightarrow> enq_bump t spurious tail res s
      | Enq_done res \<Rightarrow> set_pc t Idle s
      | Deq_load_head b \<Rightarrow> deq_load_head t b s
      | Deq_load_entry b head \<Rightarrow> deq_load_entry order t b head s
      | Deq_cas_head b head entry \<Rightarrow> deq_cas_head order t spurious b head entry s
      | Deq_done res \<Rightarrow> set_pc t Idle s)"

lemma thread_step_is_step: "pcs s t \<noteq> Idle \<Longrightarrow> ncq_step order s (ncq_thread_step order t spurious s)"
  unfolding ncq_thread_step_def
  by (cases "pcs s t") (auto intro: ncq_step.intros)

lemma thread_step_reachable: "ncq_reachable order s \<Longrightarrow> ncq_reachable order (ncq_thread_step order t spurious s)"
proof (cases "pcs s t = Idle")
  case True
  then show "ncq_reachable order s \<Longrightarrow> ?thesis" by (simp add: ncq_thread_step_def)
next
  case False
  then show "ncq_reachable order s \<Longrightarrow> ?thesis" using ncq_reachable.step thread_step_is_step by blast
qed

fun ncq_run :: "nat \<Rightarrow> nat list \<Rightarrow> ncq_state \<Rightarrow> ncq_state" where
  "ncq_run order [] s = s"
| "ncq_run order (t # ts) s = ncq_run order ts (ncq_thread_step order t False s)"

lemma run_reachable: "ncq_reachable order s \<Longrightarrow> ncq_reachable order (ncq_run order ts s)"
  by (induction ts arbitrary: s) (simp_all add: thread_step_reachable)

section \<open>A thread running alone\<close>

lemma solo_fill:
  assumes ok: "ncq_ok order s H T xs" and pc: "pcs s t = Enq_load_entry e (word_of_int T)" and T: "T = H + int (length xs)"
  shows "\<exists>r. pcs (ncq_run order [t, t, t] s) t = Enq_done r \<and> enq_log (ncq_run order [t, t, t] s) = enq_log s @ [e]"
proof -
  define w where "w = (word_of_int T :: u64)"
  define en where "en = ncq_entry order s w"
  have "cycle_part order en + lfring_pow2 order = cycle_part order w" "cycle_part order en \<noteq> cycle_part order w"
    using tells(4) [OF ok ncq_ok_bounds(3,4) [OF ok] T] unfolding w_def en_def by simp_all
  then have d: "enq_decide order e w en = Enq_cas_entry e w en" by (simp add: enq_decide_def Let_def)
  have 1: "ncq_thread_step order t False s = set_pc t (Enq_cas_entry e w en) s"
    using pc d by (simp add: ncq_thread_step_def enq_load_entry_def w_def en_def)
  define s1 where "s1 = set_pc t (Enq_cas_entry e w en) s"
  have "pcs s1 t = Enq_cas_entry e w en" "ncq_entry order s1 w = en" "enq_log s1 = enq_log s"
    by (simp_all add: s1_def set_pc_def ncq_entry_def en_def)
  then obtain r where "pcs (ncq_thread_step order t False s1) t = Enq_bump w r"
    and e: "enq_log (ncq_thread_step order t False s1) = enq_log s @ [e]"
    by (simp add: ncq_thread_step_def enq_cas_entry_def set_pc_def)
  then have "pcs (ncq_thread_step order t False (ncq_thread_step order t False s1)) t = Enq_done r"
    "enq_log (ncq_thread_step order t False (ncq_thread_step order t False s1)) = enq_log s @ [e]"
    by (simp_all add: ncq_thread_step_def [of order t False "ncq_thread_step order t False s1"] enq_bump_def set_pc_def)
  then show ?thesis unfolding ncq_run.simps 1 s1_def [symmetric] by blast
qed

lemma solo_help:
  assumes ok: "ncq_ok order s H T xs" and pc: "pcs s t = Enq_load_entry e (word_of_int T)" and T: "T + 1 = H + int (length xs)"
  shows "\<exists>s'. ncq_run order [t, t] s = s' \<and> ncq_ok order s' H (T + 1) xs \<and>
    pcs s' t = Enq_load_entry e (word_of_int (T + 1)) \<and> enq_log s' = enq_log s"
proof -
  note inv = ncq_okD(1) [OF ok] and b = ncq_ok_bounds [OF ok]
  define w where "w = (word_of_int T :: u64)"
  have tail: "rg_tail (ring s) = w" using inv unfolding ncq_inv_def w_def by simp
  have e: "unat e < 2 ^ order" and r: "t \<in> reserved s" using ncq_invD(1,2) [OF inv, of t] pc by simp_all
  have "cycle_part order (ncq_entry order s w) = cycle_part order w"
    using tells(3) [OF ok b(3,4)] T unfolding w_def by simp
  then have d: "enq_decide order e w (ncq_entry order s w) = Enq_cas_tail e w" by (simp add: enq_decide_def)
  have 1: "ncq_thread_step order t False s = set_pc t (Enq_cas_tail e w) s"
    using pc d by (simp add: ncq_thread_step_def enq_load_entry_def w_def)
  define s1 where "s1 = set_pc t (Enq_cas_tail e w) s"
  have k: "\<exists>t. 0 \<le> t \<and> t \<le> T \<and> t < H + int (length xs) \<and> w = word_of_int t"
    using b T by (intro exI [of _ T]) (simp add: w_def)
  have "ncq_inv order s1 H T xs" unfolding s1_def by (rule ncq_inv_local [OF inv]) (use e k r in simp_all)
  moreover have "enq_log s1 = enq_log s" by (simp add: s1_def set_pc_def)
  ultimately have ok1: "ncq_ok order s1 H T xs" using ncq_okD(2-4) [OF ok] unfolding ncq_ok_def by simp
  have tail1: "rg_tail (ring s1) = w" using tail by (simp add: s1_def set_pc_def)
  define s2 where "s2 = ncq_thread_step order t False s1"
  have w1: "w + 1 = word_of_int (T + 1)" by (simp add: w_def)
  have s2: "s2 = set_pc t (Enq_load_entry e (w + 1)) (s1\<lparr> ring := (ring s1)\<lparr> rg_tail := w + 1 \<rparr> \<rparr>)"
    using tail1 by (simp add: s2_def ncq_thread_step_def s1_def set_pc_def enq_cas_tail_def)
  have "ncq_inv order s2 H (T + 1) xs"
    unfolding s2 by (rule ncq_inv_local [OF tail_advance [OF ok1 k tail1]])
      (use e b r w1 in \<open>auto simp: s1_def set_pc_def intro!: exI [of _ "T + 1"]\<close>)
  moreover have "enq_log s2 = enq_log s" "pcs s2 t = Enq_load_entry e (word_of_int (T + 1))"
    unfolding s2 w1 [symmetric] by (simp_all add: s1_def set_pc_def)
  ultimately show ?thesis
    using ncq_okD(2-4) [OF ok] unfolding ncq_ok_def ncq_run.simps 1 s1_def [symmetric] s2_def [symmetric] by auto
qed

lemma run_append: "ncq_run order (xs @ ys) s = ncq_run order ys (ncq_run order xs s)"
  by (induction xs arbitrary: s) simp_all

lemma solo_enqueue:
  assumes ok: "ncq_ok order s H T xs" and pc: "pcs s t = Enq_load_tail e"
  shows "\<exists>k \<le> 6. \<exists>r. pcs (ncq_run order (replicate k t) s) t = Enq_done r \<and>
    enq_log (ncq_run order (replicate k t) s) = enq_log s @ [e]"
proof -
  note inv = ncq_okD(1) [OF ok] and b = ncq_ok_bounds [OF ok]
  have e: "unat e < 2 ^ order" and r: "t \<in> reserved s" using ncq_invD(1,2) [OF inv, of t] pc by simp_all
  define s1 where "s1 = set_pc t (Enq_load_entry e (word_of_int T)) s"
  have "rg_tail (ring s) = word_of_int T" using inv unfolding ncq_inv_def by simp
  then have 1: "ncq_run order [t] s = s1" using pc by (simp add: ncq_thread_step_def enq_load_tail_def s1_def)
  have "ncq_inv order s1 H T xs" unfolding s1_def by (rule ncq_inv_local [OF inv]) (use e b r in auto)
  moreover have pc1: "pcs s1 t = Enq_load_entry e (word_of_int T)" "enq_log s1 = enq_log s"
    by (simp_all add: s1_def set_pc_def)
  ultimately have ok1: "ncq_ok order s1 H T xs" using ncq_okD(2-4) [OF ok] unfolding ncq_ok_def by simp
  consider "T = H + int (length xs)" | "T + 1 = H + int (length xs)" using b by linarith
  then show ?thesis
  proof cases
    case 1
    then show ?thesis using solo_fill [OF ok1 pc1(1)] pc1(2) \<open>ncq_run order [t] s = s1\<close>
      by (intro exI [of _ 4]) (auto simp: numeral_eq_Suc)
  next
    case 2
    from solo_help [OF ok1 pc1(1) 2] obtain s' where s': "ncq_run order [t, t] s1 = s'"
      "ncq_ok order s' H (T + 1) xs" "pcs s' t = Enq_load_entry e (word_of_int (T + 1))" "enq_log s' = enq_log s1" by blast
    have "ncq_run order (replicate 6 t) s = ncq_run order [t, t, t] s'"
      using s'(1) 1 by (simp add: numeral_eq_Suc)
    then show ?thesis using solo_fill [OF s'(2,3) 2] s'(4) pc1(2) by (intro exI [of _ 6]) auto
  qed
qed

lemma solo_dequeue:
  assumes ok: "ncq_ok order s H T xs" and pc: "pcs s t = Deq_load_head b" and "xs \<noteq> [] \<or> \<not> b"
  shows "\<exists>k \<le> 3. \<exists>r. pcs (ncq_run order (replicate k t) s) t = Deq_done r"
proof -
  note inv = ncq_okD(1) [OF ok] and bd = ncq_ok_bounds [OF ok]
  define w where "w = (word_of_int H :: u64)"
  have head: "rg_head (ring s) = w" using inv unfolding ncq_inv_def w_def by simp
  define s1 where "s1 = set_pc t (Deq_load_entry b w) s"
  have 1: "ncq_thread_step order t False s = s1" using pc head by (simp add: ncq_thread_step_def deq_load_head_def s1_def)
  have en: "ncq_entry order s1 w = ncq_entry order s w" by (simp add: s1_def set_pc_def ncq_entry_def)
  have 2: "ncq_thread_step order t False s1 = set_pc t (deq_decide order b w (ncq_entry order s w)) s1"
    using en by (simp add: ncq_thread_step_def s1_def set_pc_def deq_load_entry_def)
  have bound: "H \<le> H + int (length xs)" by simp
  show ?thesis
  proof (cases "xs = []")
    case True
    then have "deq_decide order b w (ncq_entry order s w) = Deq_done LFRING_EMPTY"
      using tells(4) [OF ok bd(1) bound] assms(3) by (simp add: deq_decide_def Let_def w_def)
    then show ?thesis using 1 2 by (intro exI [of _ 2]) (simp add: numeral_eq_Suc set_pc_def)
  next
    case False
    then have "deq_decide order b w (ncq_entry order s w) = Deq_cas_head b w (ncq_entry order s w)"
      using tells(3) [OF ok bd(1) bound] by (simp add: deq_decide_def Let_def w_def)
    then show ?thesis using 1 2 head
      by (intro exI [of _ 3]) (simp add: numeral_eq_Suc, simp add: ncq_thread_step_def set_pc_def deq_cas_head_def s1_def)
  qed
qed

section \<open>Properties\<close>

text \<open>
  C10: The naive ring is a first in first out queue of bounded size under every interleaving of any number
  of threads: the dequeued indices are the first of the enqueued ones, in their order and without loss or
  duplication; the rest, never more than the ring size, lies in the array from the head on. This holds
  while the ring has seen at most 2 ^ 62 enqueues, far below the wrap of its 64 bit positions.
\<close>

theorem ncq_fifo:
  assumes "ncq_reachable order s" and "4 \<le> order" "order \<le> 60" and "length (enq_log s) \<le> 2 ^ 62"
  shows "deq_log s = take (length (deq_log s)) (enq_log s) \<and> in_ring s \<le> 2 ^ order \<and>
    map (\<lambda>k. index_part order (ncq_entry order s (rg_head (ring s) + word_of_nat k))) [0..<in_ring s] =
      drop (length (deq_log s)) (enq_log s)"
proof -
  from ncq_reachable_ok [OF assms] obtain H T xs where ok: "ncq_ok order s H T xs" and e: "enq_log s = deq_log s @ xs"
    and l: "length xs \<le> 2 ^ order" "in_ring s = length xs" by blast
  moreover have "map (\<lambda>k. index_part order (ncq_entry order s (rg_head (ring s) + word_of_nat k))) [0..<in_ring s] =
      drop (length (deq_log s)) (enq_log s)"
    unfolding l(2) using e by (intro nth_equalityI) (simp_all add: next_at_head [OF ok])
  ultimately show ?thesis by simp
qed

definition demo_start :: ncq_state where
  "demo_start = enq_call 1 7 (enq_call 0 5 (ncq_start (ncq_init_empty 4 (replicate 16 3)) []))"

lemma demo_start_reachable: "ncq_reachable 4 demo_start"
proof -
  let ?s = "ncq_start (ncq_init_empty 4 (replicate 16 3)) []"
  have "ncq_step 4 ?s (enq_call 0 5 ?s)" by (rule ncq_step.intros) (simp_all add: ncq_start_def in_ring_def)
  moreover have "ncq_step 4 (enq_call 0 5 ?s) (enq_call 1 7 (enq_call 0 5 ?s))"
    by (rule ncq_step.intros) (simp_all add: ncq_start_def in_ring_def enq_call_def set_pc_def)
  moreover have "ncq_reachable 4 ?s" by (rule ncq_reachable.empty) simp
  ultimately show ?thesis unfolding demo_start_def by (meson ncq_reachable.step)
qed

definition demo_filled :: ncq_state where
  "demo_filled = ncq_run 4 [0, 1, 0, 1, 0, 1, 1, 1, 1, 1, 1, 0] demo_start"

lemma demo_filled_values:
  "enq_log demo_filled = [5, 7]" "deq_log demo_filled = []" "pcs demo_filled 2 = Idle"
  "rg_head (ring demo_filled) = 16"
  by code_simp+

lemma demo_filled_reachable: "ncq_reachable 4 demo_filled"
  unfolding demo_filled_def by (rule run_reachable [OF demo_start_reachable])

theorem ncq_fifo_witness:
  "index_part 4 (ncq_entry 4 demo_filled 16) = 5 \<and> index_part 4 (ncq_entry 4 demo_filled 17) = 7"
  using ncq_fifo [OF demo_filled_reachable] by (simp add: demo_filled_values in_ring_def)

text \<open>
  A dequeue returns the oldest index in the ring and removes exactly that one, by one atomic step; it
  returns LFRING_EMPTY only from the step at which the ring is empty, and never when the caller has
  declared the ring non-empty.
\<close>

theorem ncq_dequeue_result:
  assumes "ncq_reachable order s" and "4 \<le> order" "order \<le> 60" and "length (enq_log s) \<le> 2 ^ 62"
    and "pcs (ncq_thread_step order t spurious s) t = Deq_done r" and "pcs s t \<noteq> Deq_done r"
  shows "if in_ring s = 0
    then r = LFRING_EMPTY \<and> (\<exists>head. pcs s t = Deq_load_entry False head) \<and>
      ncq_thread_step order t spurious s = set_pc t (Deq_done LFRING_EMPTY) s
    else r = enq_log s ! length (deq_log s) \<and> unat r < 2 ^ order \<and>
      enq_log (ncq_thread_step order t spurious s) = enq_log s \<and>
      deq_log (ncq_thread_step order t spurious s) = deq_log s @ [r]"
proof -
  from ncq_reachable_ok [OF assms(1-4)] obtain H T xs where ok: "ncq_ok order s H T xs" and e: "enq_log s = deq_log s @ xs"
    and l: "length xs \<le> 2 ^ order" "in_ring s = length xs" by blast
  note inv = ncq_okD(1) [OF ok]
  consider (miss) b w where "pcs s t = Deq_load_entry b w" "deq_decide order b w (ncq_entry order s w) = Deq_done r"
    | (hit) b w entry where "pcs s t = Deq_cas_head b w entry" "rg_head (ring s) = w" "\<not> spurious"
        "r = index_part order entry"
    using assms(5,6) unfolding ncq_thread_step_def
    by (cases "pcs s t")
      (auto simp: set_pc_def enq_load_tail_def enq_load_entry_def enq_cas_tail_def enq_cas_entry_def enq_bump_def
        deq_load_head_def deq_load_entry_def deq_cas_head_def enq_decide_def Let_def split: if_splits)
  then show ?thesis
  proof cases
    case miss
    have "\<exists>h. 0 \<le> h \<and> h \<le> H \<and> w = word_of_int h" using ncq_invD(1) [OF inv, of t] miss(1) by simp
    from deq_decide_empty [OF ok this miss(2)] miss show ?thesis
      unfolding l(2) by (auto simp: ncq_thread_step_def deq_load_entry_def)
  next
    case hit
    have ne: "xs \<noteq> []" and r: "r = hd xs" using inv_deq_cas_head(1,2) [OF ok hit(1,2)] hit(4) by simp_all
    have "unat (hd xs) < 2 ^ order" using ncq_invD(3) [OF inv] ne unfolding ring_holds_def by simp
    then show ?thesis using ne r hit e unfolding l(2)
      by (simp add: ncq_thread_step_def deq_cas_head_def set_pc_def nth_append hd_conv_nth)
  qed
qed

theorem ncq_dequeue_result_witness:
  "\<exists>s t r. pcs (ncq_thread_step 4 t False s) t = Deq_done r \<and> r = 5 \<and> deq_log (ncq_thread_step 4 t False s) = [5]"
proof -
  define s where "s = ncq_run 4 [2, 2] (deq_call 2 True demo_filled)"
  have "ncq_step 4 demo_filled (deq_call 2 True demo_filled)"
    by (rule ncq_step.deq_call) (rule demo_filled_values(3))
  then have reach: "ncq_reachable 4 s"
    unfolding s_def using run_reachable ncq_reachable.step demo_filled_reachable by blast
  have s: "enq_log s = [5, 7]" "deq_log s = []" "pcs s 2 \<noteq> Deq_done 5"
    "pcs (ncq_thread_step 4 2 False s) 2 = Deq_done 5"
    unfolding s_def by code_simp+
  have "in_ring s \<noteq> 0" using s by (simp add: in_ring_def)
  then show ?thesis using ncq_dequeue_result [OF reach _ _ _ s(4,3)] s by (intro exI [of _ s] exI [of _ 2] exI [of _ 5]) simp
qed

text \<open>
  C38: No thread waits for another: from any reachable state, whatever the other threads have left undone,
  an enqueue that runs alone ends within six of its accesses with its index appended, and a dequeue that
  runs alone ends within three, unless the caller insists on a non-empty ring that is empty.
\<close>

theorem ncq_solo_completes:
  assumes "ncq_reachable order s" and "4 \<le> order" "order \<le> 60" and "length (enq_log s) \<le> 2 ^ 62"
  shows "(pcs s t = Enq_load_tail e \<longrightarrow>
      (\<exists>k \<le> 6. \<exists>r. pcs (ncq_run order (replicate k t) s) t = Enq_done r \<and>
        enq_log (ncq_run order (replicate k t) s) = enq_log s @ [e])) \<and>
    (pcs s t = Deq_load_head b \<longrightarrow> in_ring s \<noteq> 0 \<or> \<not> b \<longrightarrow>
      (\<exists>k \<le> 3. \<exists>r. pcs (ncq_run order (replicate k t) s) t = Deq_done r))"
proof -
  from ncq_reachable_ok [OF assms] obtain H T xs where ok: "ncq_ok order s H T xs" and "in_ring s = length xs" by blast
  then show ?thesis using solo_enqueue [OF ok] solo_dequeue [OF ok] by auto
qed

theorem ncq_solo_completes_witness:
  "\<exists>k \<le> 6. \<exists>r. pcs (ncq_run 4 (replicate k 0) demo_start) 0 = Enq_done r \<and>
     enq_log (ncq_run 4 (replicate k 0) demo_start) = [5]"
proof -
  have "pcs demo_start 0 = Enq_load_tail 5" "enq_log demo_start = []"
    by (simp_all add: demo_start_def ncq_start_def enq_call_def set_pc_def)
  then show ?thesis using ncq_solo_completes [OF demo_start_reachable, of 0 5 False] by simp
qed

end
