(* ===== verification/Ring_Words.thy ===== *)
theory Ring_Words
  imports Lf_Ring
begin

text \<open>
  Positions and comparisons of the scalable rings under src/lockfree-waitfree as 64 bit words: the signed
  comparison of the code, and the range of positions in which it agrees with the order of numbers.
\<close>

unbundle bit_operations_syntax

section \<open>Comparisons\<close>

text \<open>\<open>__lfring_cmp\<close> reads the difference as a signed number.\<close>

definition cmp_less :: "u64 \<Rightarrow> u64 \<Rightarrow> bool" where
  "cmp_less x y \<longleftrightarrow> sint (x - y) < 0"

definition cmp_le :: "u64 \<Rightarrow> u64 \<Rightarrow> bool" where
  "cmp_le x y \<longleftrightarrow> sint (x - y) \<le> 0"

definition cmp_ge :: "u64 \<Rightarrow> u64 \<Rightarrow> bool" where
  "cmp_ge x y \<longleftrightarrow> 0 \<le> sint (x - y)"

definition ring_n :: "nat \<Rightarrow> u64" where
  "ring_n order = lfring_pow2 order * 2"

lemma ring_n_pow: "ring_n order = lfring_pow2 (order + 1)"
  by (simp add: ring_n_def lfring_pow2_def push_bit_eq_mult)

lemma ring_n_unat: "order \<le> 60 \<Longrightarrow> unat (ring_n order) = 2 ^ (order + 1)"
  unfolding ring_n_pow by (rule pow2_unat) simp

lemma ring_n_bits: "ring_n order = push_bit (order + 1) 1" "ring_n order - 1 = mask (order + 1)"
  "2 * ring_n order - 1 = mask (order + 2)"
proof -
  show "ring_n order = push_bit (order + 1) 1" unfolding ring_n_pow lfring_pow2_def ..
  show "ring_n order - 1 = mask (order + 1)" unfolding ring_n_pow by (rule pow2_minus_one)
  have "2 * ring_n order = lfring_pow2 (order + 2)"
    by (simp add: ring_n_def lfring_pow2_def push_bit_eq_mult)
  then show "2 * ring_n order - 1 = mask (order + 2)" by (simp add: pow2_minus_one)
qed

section \<open>Bits of words\<close>

lemma bit_or_mask: "bit (w OR mask k) i \<longleftrightarrow> bit w i \<or> i < k \<and> i < 64" for w :: u64
  by (auto simp: bit_simps)

lemma bit_and_mask: "bit (w AND mask k) i \<longleftrightarrow> bit w i \<and> i < k" for w :: u64
  by (auto simp: bit_simps dest: bit_imp_le_length)

lemma bit_low_eq: "w AND mask k = mask k \<longleftrightarrow> (\<forall>i < k. i < 64 \<longrightarrow> bit w i)" for w :: u64
  unfolding bit_eq_iff bit_and_mask by (auto simp: bit_simps dest: bit_imp_le_length)

lemma bit_one_at: "bit (push_bit k 1 :: u64) i \<longleftrightarrow> i = k \<and> i < 64"
  by (auto simp: bit_simps)

lemma bit_high: "bit (drop_bit k (sint w)) i \<longleftrightarrow> bit w (min (k + i) 63)" for w :: u64
  unfolding bit_drop_bit_eq o_def bit_sint_iff
  by (auto simp: min_def dest: bit_imp_le_length)

lemma high_eq_iff:
  fixes w w' :: u64
  assumes "k < 64"
  shows "drop_bit k (sint w) = drop_bit k (sint w') \<longleftrightarrow> (\<forall>i. k \<le> i \<longrightarrow> i < 64 \<longrightarrow> bit w i = bit w' i)"
proof
  assume e: "drop_bit k (sint w) = drop_bit k (sint w')"
  { fix i assume i: "k \<le> i" "i < 64"
    have "bit (drop_bit k (sint w)) (i - k) = bit (drop_bit k (sint w')) (i - k)" using e by simp
    moreover have "min (k + (i - k)) 63 = i" using i by simp
    ultimately have "bit w i = bit w' i" unfolding bit_high by simp }
  then show "\<forall>i. k \<le> i \<longrightarrow> i < 64 \<longrightarrow> bit w i = bit w' i" by blast
next
  assume a: "\<forall>i. k \<le> i \<longrightarrow> i < 64 \<longrightarrow> bit w i = bit w' i"
  have "bit (drop_bit k (sint w)) i = bit (drop_bit k (sint w')) i" for i
    unfolding bit_high using a [rule_format, of "min (k + i) 63"] assms by simp
  then show "drop_bit k (sint w) = drop_bit k (sint w')" by (intro bit_eqI) simp
qed

lemma or_mask_eq_iff:
  fixes w w' :: u64
  assumes "k < 64"
  shows "w OR mask k = w' OR mask k \<longleftrightarrow> drop_bit k (sint w) = drop_bit k (sint w')"
proof -
  have "w OR mask k = w' OR mask k \<longleftrightarrow> (\<forall>i. k \<le> i \<longrightarrow> i < 64 \<longrightarrow> bit w i = bit w' i)"
    unfolding bit_eq_iff [of "w OR mask k"] bit_or_mask possible_bit_word by auto
  then show ?thesis unfolding high_eq_iff [OF assms] .
qed

lemma sint_or_mask:
  fixes w :: u64
  assumes "k < 64"
  shows "sint (w OR mask k) = 2 ^ k * drop_bit k (sint w) + (2 ^ k - 1)"
proof -
  have "drop_bit k (sint (w OR mask k)) = drop_bit k (sint w)"
    unfolding high_eq_iff [OF assms] bit_or_mask by auto
  moreover have "sint (w OR mask k) mod 2 ^ k = 2 ^ k - 1"
  proof -
    have "take_bit k (sint (w OR mask k)) = mask k"
      using assms by (intro bit_eqI) (auto simp: bit_simps bit_sint_iff dest: bit_imp_le_length)
    then show ?thesis by (simp add: take_bit_eq_mod mask_eq_exp_minus_1)
  qed
  ultimately show ?thesis
    using mult_div_mod_eq [of "2 ^ k" "sint (w OR mask k)"] by (simp add: drop_bit_eq_div)
qed


section \<open>Small positions\<close>

text \<open>The positions of the theorems stay below \<open>2 ^ 61\<close>.\<close>

definition small_pos :: "u64 \<Rightarrow> bool" where
  "small_pos p \<longleftrightarrow> unat p < 2 ^ 61"

lemma small_uint: "small_pos p \<Longrightarrow> uint p < 2 ^ 61"
proof -
  assume "small_pos p"
  then have "int (unat p) < int (2 ^ 61)" unfolding small_pos_def by (simp only: of_nat_less_iff)
  then show ?thesis by simp
qed

lemma small_posI: "unat w < X \<Longrightarrow> X \<le> 2 ^ 61 \<Longrightarrow> small_pos w"
  by (simp add: small_pos_def)

lemma unat_word_mod: "order \<le> 60 \<Longrightarrow> unat (word_of_nat p :: u64) mod 2 ^ (order + 1) = p mod 2 ^ (order + 1)"
proof -
  assume "order \<le> 60"
  then have "(2 :: nat) ^ (order + 1) dvd 2 ^ 64" by (intro le_imp_power_dvd) simp
  then have "p mod 2 ^ 64 mod 2 ^ (order + 1) = p mod 2 ^ (order + 1)" by (rule mod_mod_cancel)
  then show ?thesis by (simp add: unsigned_of_nat take_bit_eq_mod)
qed

lemma unat_Suc: "unat (w :: u64) \<le> B \<Longrightarrow> B < 2 ^ 61 \<Longrightarrow> unat (w + 1) = unat w + 1"
  using unat_plus_no_wrap [of w 1] by simp

lemma signed_diff:
  assumes "unat (x :: u64) \<le> 2 ^ 61" "unat (y :: u64) \<le> 2 ^ 61"
  shows "sint (x - y) = int (unat x) - int (unat y)"
proof -
  have "int (unat x) \<le> int (2 ^ 61)" "int (unat y) \<le> int (2 ^ 61)" using assms by (simp_all only: of_nat_le_iff)
  then have b: "uint x \<le> 2 ^ 61" "uint y \<le> 2 ^ 61" by simp_all
  have s: "sint x = uint x" "sint y = uint y" using b by (simp_all add: sint_eq_uint_small)
  have r: "- (2 ^ (LENGTH(64) - 1)) \<le> uint x - uint y" "uint x - uint y < 2 ^ (LENGTH(64) - 1)"
    using b uint_ge_0 [of x] uint_ge_0 [of y] by (simp, linarith)+
  have "sint (x - y) = sint x - sint y"
    by (rule sint_minus_no_wrap) (use r in \<open>simp_all only: s\<close>)
  then show ?thesis unfolding s by simp
qed

lemma cmp_le_pos: "unat x \<le> 2 ^ 61 \<Longrightarrow> unat y \<le> 2 ^ 61 \<Longrightarrow> cmp_le x y \<longleftrightarrow> unat x \<le> unat y"
  and cmp_ge_pos: "unat x \<le> 2 ^ 61 \<Longrightarrow> unat y \<le> 2 ^ 61 \<Longrightarrow> cmp_ge x y \<longleftrightarrow> unat y \<le> unat x"
  unfolding cmp_le_def cmp_ge_def by (simp_all add: signed_diff del: of_nat_unat)

end
