(* ===== verification/Ticket_Slots.thy ===== *)
theory Ticket_Slots
  imports Prelude
begin

text \<open>
  The slots of a ring whose threads work with tickets, as numbers and values instead of words: what a slot
  may hold, measured against the record of what was put in and taken out, and the five ways in which a step
  of a thread changes a slot or the record. Both scalable rings (lfring_cas1.h and lfring_cas2.h under
  src/lockfree-waitfree) are read as such slots.
\<close>

section \<open>Slots\<close>

text \<open>
  A slot carries the cycle of the last ticket that changed it, a flag that a late enqueue may still use it,
  and its value, if there is one. A slot goes through its contents in the order of \<open>s_rank\<close>.
\<close>

record 'v slot =
  s_cycle :: int
  s_safe :: bool
  s_held :: "'v option"

definition s_rank :: "'v slot \<Rightarrow> int" where
  "s_rank e = 4 * s_cycle e + (if s_safe e then 0 else 2) + (if s_held e = None then 1 else 0)"

lemma s_rank_less_cycle: "s_cycle e < s_cycle e' \<Longrightarrow> s_rank e < s_rank e'"
  by (simp add: s_rank_def)

text \<open>
  \<open>A p\<close> is the slot of position \<open>p\<close>, \<open>P\<close> what was put in, \<open>Q\<close> what was taken out and \<open>G\<close> the tickets given
  up. A value in a slot is one that was put in and not taken; every value not yet taken is in its slot; a
  ticket given up was not used and will not be.
\<close>

definition slots_ok :: "nat \<Rightarrow> (nat \<Rightarrow> 'v slot) \<Rightarrow> (nat \<times> 'v) set \<Rightarrow> (nat \<times> 'v) set \<Rightarrow> nat set \<Rightarrow> bool" where
  "slots_ok order A P Q G \<longleftrightarrow>
     (\<forall>p. A p = A (p mod 2 ^ (order + 1))) \<and>
     (\<forall>r < 2 ^ (order + 1). - 1 \<le> s_cycle (A r)) \<and>
     (\<forall>r < 2 ^ (order + 1). \<forall>v. s_held (A r) = Some v \<longrightarrow>
        (\<exists>c. s_cycle (A r) = int c \<and> (2 ^ (order + 1) * c + r, v) \<in> P - Q)) \<and>
     (\<forall>r < 2 ^ (order + 1). s_held (A r) = None \<longrightarrow>
        s_cycle (A r) = - 1 \<or> (\<exists>c. s_cycle (A r) = int c \<and> 2 ^ (order + 1) * c + r \<in> G \<union> fst ` Q)) \<and>
     (\<forall>(p, v) \<in> P - Q. s_cycle (A p) = int (p div 2 ^ (order + 1)) \<and> s_held (A p) = Some v) \<and>
     (\<forall>p \<in> G. p \<notin> fst ` P \<and> (int (p div 2 ^ (order + 1)) \<le> s_cycle (A p) \<or> \<not> s_safe (A p)))"

definition upd_slot :: "nat \<Rightarrow> (nat \<Rightarrow> 'v slot) \<Rightarrow> nat \<Rightarrow> 'v slot \<Rightarrow> nat \<Rightarrow> 'v slot" where
  "upd_slot order A t e p = (if p mod 2 ^ (order + 1) = t mod 2 ^ (order + 1) then e else A p)"

lemma upd_at: "upd_slot order A t e p = (if p mod 2 ^ (order + 1) = t mod 2 ^ (order + 1) then e else A p)"
  by (simp add: upd_slot_def)

lemma slots_okD:
  assumes "slots_ok order A P Q G"
  shows "p mod 2 ^ (order + 1) = q mod 2 ^ (order + 1) \<Longrightarrow> A p = A q"
    and "- 1 \<le> s_cycle (A p)"
    and "s_held (A p) = Some v \<Longrightarrow> \<exists>c. s_cycle (A p) = int c \<and> (2 ^ (order + 1) * c + p mod 2 ^ (order + 1), v) \<in> P - Q"
    and "s_held (A p) = None \<Longrightarrow> s_cycle (A p) = - 1 \<or>
      (\<exists>c. s_cycle (A p) = int c \<and> 2 ^ (order + 1) * c + p mod 2 ^ (order + 1) \<in> G \<union> fst ` Q)"
    and "(p, v) \<in> P - Q \<Longrightarrow> s_cycle (A p) = int (p div 2 ^ (order + 1)) \<and> s_held (A p) = Some v"
    and "p \<in> G \<Longrightarrow> p \<notin> fst ` P"
    and "p \<in> G \<Longrightarrow> int (p div 2 ^ (order + 1)) \<le> s_cycle (A p) \<or> \<not> s_safe (A p)"
proof -
  have per: "\<forall>p. A p = A (p mod 2 ^ (order + 1))"
    using assms unfolding slots_ok_def by (elim conjE)
  have low: "\<forall>r < 2 ^ (order + 1). - 1 \<le> s_cycle (A r)"
    using assms unfolding slots_ok_def by (elim conjE)
  have full: "\<forall>r < 2 ^ (order + 1). \<forall>v. s_held (A r) = Some v \<longrightarrow>
        (\<exists>c. s_cycle (A r) = int c \<and> (2 ^ (order + 1) * c + r, v) \<in> P - Q)"
    using assms unfolding slots_ok_def by (elim conjE)
  have empt: "\<forall>r < 2 ^ (order + 1). s_held (A r) = None \<longrightarrow>
        s_cycle (A r) = - 1 \<or> (\<exists>c. s_cycle (A r) = int c \<and> 2 ^ (order + 1) * c + r \<in> G \<union> fst ` Q)"
    using assms unfolding slots_ok_def by (elim conjE)
  have keep: "\<forall>(p, v) \<in> P - Q. s_cycle (A p) = int (p div 2 ^ (order + 1)) \<and> s_held (A p) = Some v"
    using assms unfolding slots_ok_def by (elim conjE)
  have gone: "\<forall>p \<in> G. p \<notin> fst ` P \<and> (int (p div 2 ^ (order + 1)) \<le> s_cycle (A p) \<or> \<not> s_safe (A p))"
    using assms unfolding slots_ok_def by (elim conjE)
  have eq: "A p = A (p mod 2 ^ (order + 1))" for p using per by (rule spec)
  have r: "p mod 2 ^ (order + 1) < 2 ^ (order + 1)" by simp
  show "p mod 2 ^ (order + 1) = q mod 2 ^ (order + 1) \<Longrightarrow> A p = A q" using eq [of p] eq [of q] by simp
  show "- 1 \<le> s_cycle (A p)" unfolding eq [of p] using low r by blast
  show "s_held (A p) = Some v \<Longrightarrow> \<exists>c. s_cycle (A p) = int c \<and> (2 ^ (order + 1) * c + p mod 2 ^ (order + 1), v) \<in> P - Q"
    unfolding eq [of p] using full r by blast
  show "s_held (A p) = None \<Longrightarrow> s_cycle (A p) = - 1 \<or>
      (\<exists>c. s_cycle (A p) = int c \<and> 2 ^ (order + 1) * c + p mod 2 ^ (order + 1) \<in> G \<union> fst ` Q)"
    unfolding eq [of p] using empt r by blast
  show "(p, v) \<in> P - Q \<Longrightarrow> s_cycle (A p) = int (p div 2 ^ (order + 1)) \<and> s_held (A p) = Some v"
    using bspec [OF keep, of "(p, v)"] by simp
  show "p \<in> G \<Longrightarrow> p \<notin> fst ` P" "p \<in> G \<Longrightarrow> int (p div 2 ^ (order + 1)) \<le> s_cycle (A p) \<or> \<not> s_safe (A p)"
    using gone by blast+
qed

lemma slots_okI:
  assumes "\<And>p. A p = A (p mod 2 ^ (order + 1))" and "\<And>r. r < 2 ^ (order + 1) \<Longrightarrow> - 1 \<le> s_cycle (A r)"
    and "\<And>r v. r < 2 ^ (order + 1) \<Longrightarrow> s_held (A r) = Some v \<Longrightarrow>
      \<exists>c. s_cycle (A r) = int c \<and> (2 ^ (order + 1) * c + r, v) \<in> P - Q"
    and "\<And>r. r < 2 ^ (order + 1) \<Longrightarrow> s_held (A r) = None \<Longrightarrow>
      s_cycle (A r) = - 1 \<or> (\<exists>c. s_cycle (A r) = int c \<and> 2 ^ (order + 1) * c + r \<in> G \<union> fst ` Q)"
    and "\<And>p v. (p, v) \<in> P - Q \<Longrightarrow> s_cycle (A p) = int (p div 2 ^ (order + 1)) \<and> s_held (A p) = Some v"
    and "\<And>p. p \<in> G \<Longrightarrow> p \<notin> fst ` P"
    and "\<And>p. p \<in> G \<Longrightarrow> int (p div 2 ^ (order + 1)) \<le> s_cycle (A p) \<or> \<not> s_safe (A p)"
  shows "slots_ok order A P Q G"
  unfolding slots_ok_def using assms by (intro conjI allI ballI impI) auto

lemma upd_period: "slots_ok order A P Q G \<Longrightarrow> upd_slot order A t e p = upd_slot order A t e (p mod 2 ^ (order + 1))"
  unfolding upd_slot_def using slots_okD(1) [of order A P Q G p "p mod 2 ^ (order + 1)"] by simp

lemma pos_unique: "p mod m = q mod m \<Longrightarrow> p div m = q div m \<Longrightarrow> p = (q :: nat)"
  by (metis div_mult_mod_eq)

lemma slot_of_pos: "2 ^ (order + 1) * (p div 2 ^ (order + 1)) + p mod 2 ^ (order + 1) = (p :: nat)"
  by (rule mult_div_mod_eq)

lemma slot_of_root: "r < 2 ^ (order + 1) \<Longrightarrow> r mod 2 ^ (order + 1) = t mod 2 ^ (order + 1) \<Longrightarrow>
    2 ^ (order + 1) * (t div 2 ^ (order + 1)) + r = (t :: nat)"
  using slot_of_pos [of order t] by simp

section \<open>The five changes\<close>

text \<open>A value is put in with its ticket.\<close>

lemma slots_put:
  assumes ok: "slots_ok order A P Q G" and "s_held (A t) = None" and "s_cycle (A t) < int (t div 2 ^ (order + 1))"
    and new: "t \<notin> fst ` P" "Q \<subseteq> P" and lower: "\<And>p. p \<in> G \<Longrightarrow> p mod 2 ^ (order + 1) = t mod 2 ^ (order + 1) \<Longrightarrow> p < t"
    and e: "s_cycle e = int (t div 2 ^ (order + 1))" "s_safe e" "s_held e = Some v"
  shows "slots_ok order (upd_slot order A t e) (insert (t, v) P) Q G"
proof -
  note D = slots_okD [OF ok]
  have tQ: "(t, v) \<notin> Q" using new by force
  show ?thesis
  proof (rule slots_okI)
    fix p show "upd_slot order A t e p = upd_slot order A t e (p mod 2 ^ (order + 1))" by (rule upd_period [OF ok])
  next
    fix r show "- 1 \<le> s_cycle (upd_slot order A t e r)" using D(2) e(1) by (simp add: upd_at)
  next
    fix r :: nat and w assume r: "r < 2 ^ (order + 1)" "s_held (upd_slot order A t e r) = Some w"
    show "\<exists>c. s_cycle (upd_slot order A t e r) = int c \<and> (2 ^ (order + 1) * c + r, w) \<in> insert (t, v) P - Q"
    proof (cases "r mod 2 ^ (order + 1) = t mod 2 ^ (order + 1)")
      case True
      then show ?thesis using r slot_of_root [OF r(1) True] e tQ
        by (intro exI [of _ "t div 2 ^ (order + 1)"]) (simp add: upd_at)
    next
      case False
      then show ?thesis using D(3) [of r w] r by (auto simp: upd_at)
    qed
  next
    fix r :: nat assume "r < 2 ^ (order + 1)" "s_held (upd_slot order A t e r) = None"
    then show "s_cycle (upd_slot order A t e r) = - 1 \<or>
      (\<exists>c. s_cycle (upd_slot order A t e r) = int c \<and> 2 ^ (order + 1) * c + r \<in> G \<union> fst ` Q)"
      using D(4) [of r] e(3) by (auto simp: upd_at split: if_splits)
  next
    fix p w assume p: "(p, w) \<in> insert (t, v) P - Q"
    show "s_cycle (upd_slot order A t e p) = int (p div 2 ^ (order + 1)) \<and> s_held (upd_slot order A t e p) = Some w"
    proof (cases "(p, w) = (t, v)")
      case True
      then show ?thesis using e by (simp add: upd_at)
    next
      case False
      then have pw: "(p, w) \<in> P - Q" using p by blast
      have "p mod 2 ^ (order + 1) \<noteq> t mod 2 ^ (order + 1)" using D(1) [of p t] D(5) [OF pw] assms(2) by auto
      then show ?thesis using D(5) [OF pw] by (simp add: upd_at)
    qed
  next
    fix p assume p: "p \<in> G"
    have "p \<noteq> t" using lower [OF p] by blast
    then show "p \<notin> fst ` insert (t, v) P" using D(6) [OF p] by simp
    show "int (p div 2 ^ (order + 1)) \<le> s_cycle (upd_slot order A t e p) \<or> \<not> s_safe (upd_slot order A t e p)"
      using D(7) [OF p] lower [OF p] e(1) by (auto simp: upd_at intro: div_le_mono less_imp_le)
  qed
qed

text \<open>A ticket is given up: nothing was put in with it, and its slot shows that nothing will be.\<close>

lemma not_put:
  assumes ok: "slots_ok order A P Q G" and "h \<notin> fst ` Q" and "s_cycle (A h) \<noteq> int (h div 2 ^ (order + 1))"
  shows "h \<notin> fst ` P"
proof
  assume "h \<in> fst ` P"
  then obtain v where "(h, v) \<in> P" by auto
  moreover have "(h, v) \<notin> Q" using assms(2) by force
  ultimately show False using slots_okD(5) [OF ok, of h v] assms(3) by simp
qed

lemma slots_give_up:
  assumes ok: "slots_ok order A P Q G" and "h \<notin> fst ` Q" and "s_cycle (A h) \<noteq> int (h div 2 ^ (order + 1))"
    and "int (h div 2 ^ (order + 1)) \<le> s_cycle (A h) \<or> \<not> s_safe (A h)"
  shows "slots_ok order A P Q (insert h G)"
proof -
  note D = slots_okD [OF ok] and n = not_put [OF assms(1-3)]
  show ?thesis
  proof (rule slots_okI)
    fix p show "A p = A (p mod 2 ^ (order + 1))" by (rule D(1)) simp
  next
    fix r show "- 1 \<le> s_cycle (A r)" by (rule D(2))
  next
    fix r :: nat and v assume "r < 2 ^ (order + 1)" "s_held (A r) = Some v"
    then show "\<exists>c. s_cycle (A r) = int c \<and> (2 ^ (order + 1) * c + r, v) \<in> P - Q" using D(3) [of r v] by simp
  next
    fix r :: nat assume "r < 2 ^ (order + 1)" "s_held (A r) = None"
    then show "s_cycle (A r) = - 1 \<or> (\<exists>c. s_cycle (A r) = int c \<and> 2 ^ (order + 1) * c + r \<in> insert h G \<union> fst ` Q)"
      using D(4) [of r] by auto
  next
    fix p v assume "(p, v) \<in> P - Q" then show "s_cycle (A p) = int (p div 2 ^ (order + 1)) \<and> s_held (A p) = Some v"
      by (rule D(5))
  next
    fix p assume "p \<in> insert h G"
    then show "p \<notin> fst ` P" "int (p div 2 ^ (order + 1)) \<le> s_cycle (A p) \<or> \<not> s_safe (A p)"
      using D(6,7) n assms(4) by auto
  qed
qed

text \<open>A slot that holds a value of an earlier cycle is marked unsafe.\<close>

lemma slots_spoil:
  assumes ok: "slots_ok order A P Q G" and e: "s_cycle e = s_cycle (A h)" "s_held e = s_held (A h)" "\<not> s_safe e"
  shows "slots_ok order (upd_slot order A h e) P Q G"
proof -
  note D = slots_okD [OF ok]
  have same: "s_cycle (upd_slot order A h e p) = s_cycle (A p)" "s_held (upd_slot order A h e p) = s_held (A p)"
    "s_safe (upd_slot order A h e p) \<Longrightarrow> s_safe (A p)" for p
    using D(1) [of p h] e by (auto simp: upd_at split: if_splits)
  show ?thesis
  proof (rule slots_okI; (unfold same(1,2))?)
    fix p show "upd_slot order A h e p = upd_slot order A h e (p mod 2 ^ (order + 1))" by (rule upd_period [OF ok])
  next
    fix r show "- 1 \<le> s_cycle (A r)" by (rule D(2))
  next
    fix r :: nat and v assume "r < 2 ^ (order + 1)" "s_held (A r) = Some v"
    then show "\<exists>c. s_cycle (A r) = int c \<and> (2 ^ (order + 1) * c + r, v) \<in> P - Q" using D(3) [of r v] by simp
  next
    fix r :: nat assume "r < 2 ^ (order + 1)" "s_held (A r) = None"
    then show "s_cycle (A r) = - 1 \<or> (\<exists>c. s_cycle (A r) = int c \<and> 2 ^ (order + 1) * c + r \<in> G \<union> fst ` Q)"
      using D(4) [of r] by simp
  next
    fix p v assume "(p, v) \<in> P - Q"
    then show "s_cycle (A p) = int (p div 2 ^ (order + 1)) \<and> s_held (A p) = Some v" by (rule D(5))
  next
    fix p assume p: "p \<in> G"
    show "p \<notin> fst ` P" by (rule D(6) [OF p])
    show "int (p div 2 ^ (order + 1)) \<le> s_cycle (A p) \<or> \<not> s_safe (upd_slot order A h e p)"
      using D(7) [OF p] same(3) by blast
  qed
qed

text \<open>An empty slot of an earlier cycle is moved to the cycle of a ticket, which is given up.\<close>

lemma slots_advance:
  assumes ok: "slots_ok order A P Q G" and "h \<notin> fst ` Q"
    and "s_held (A h) = None" "s_cycle (A h) < int (h div 2 ^ (order + 1))"
    and e: "s_cycle e = int (h div 2 ^ (order + 1))" "s_held e = None" "s_safe e = s_safe (A h)"
  shows "slots_ok order (upd_slot order A h e) P Q (insert h G)"
proof -
  note D = slots_okD [OF ok]
  have n: "h \<notin> fst ` P" using not_put [OF ok assms(2)] assms(4) by simp
  show ?thesis
  proof (rule slots_okI)
    fix p show "upd_slot order A h e p = upd_slot order A h e (p mod 2 ^ (order + 1))" by (rule upd_period [OF ok])
  next
    fix r show "- 1 \<le> s_cycle (upd_slot order A h e r)" using e(1) D(2) by (simp add: upd_at)
  next
    fix r :: nat and v assume "r < 2 ^ (order + 1)" "s_held (upd_slot order A h e r) = Some v"
    then show "\<exists>c. s_cycle (upd_slot order A h e r) = int c \<and> (2 ^ (order + 1) * c + r, v) \<in> P - Q"
      using D(3) [of r v] e(2) by (auto simp: upd_at split: if_splits)
  next
    fix r :: nat assume r: "r < 2 ^ (order + 1)" "s_held (upd_slot order A h e r) = None"
    show "s_cycle (upd_slot order A h e r) = - 1 \<or>
        (\<exists>c. s_cycle (upd_slot order A h e r) = int c \<and> 2 ^ (order + 1) * c + r \<in> insert h G \<union> fst ` Q)"
    proof (cases "r mod 2 ^ (order + 1) = h mod 2 ^ (order + 1)")
      case True
      then show ?thesis using slot_of_root [OF r(1) True] e
        by (intro disjI2 exI [of _ "h div 2 ^ (order + 1)"]) (simp add: upd_at)
    next
      case False
      then show ?thesis using D(4) [of r] r by (auto simp: upd_at)
    qed
  next
    fix p v assume pv: "(p, v) \<in> P - Q"
    have "p mod 2 ^ (order + 1) \<noteq> h mod 2 ^ (order + 1)" using D(1) [of p h] D(5) [OF pv] assms(3) by auto
    then show "s_cycle (upd_slot order A h e p) = int (p div 2 ^ (order + 1)) \<and> s_held (upd_slot order A h e p) = Some v"
      using D(5) [OF pv] by (simp add: upd_at)
  next
    fix p assume p: "p \<in> insert h G"
    then show "p \<notin> fst ` P" using D(6) n by auto
    show "int (p div 2 ^ (order + 1)) \<le> s_cycle (upd_slot order A h e p) \<or> \<not> s_safe (upd_slot order A h e p)"
    proof (cases "p mod 2 ^ (order + 1) = h mod 2 ^ (order + 1)")
      case True
      then have "A p = A h" by (rule D(1))
      then show ?thesis using p D(7) [of p] True e assms(4) by (auto simp: upd_at)
    next
      case False
      then show ?thesis using p D(7) [of p] by (auto simp: upd_at)
    qed
  qed
qed

text \<open>The value of a ticket is taken.\<close>

lemma slots_take:
  assumes ok: "slots_ok order A P Q G" and h: "(h, v) \<in> P" "h \<notin> fst ` Q"
    and e: "s_cycle e = s_cycle (A h)" "s_held e = None" "s_safe e = s_safe (A h)"
  shows "slots_ok order (upd_slot order A h e) P (insert (h, v) Q) G"
proof -
  note D = slots_okD [OF ok]
  have hv: "(h, v) \<in> P - Q" using h by force
  have c: "s_cycle (A h) = int (h div 2 ^ (order + 1))" "s_held (A h) = Some v" using D(5) [OF hv] by simp_all
  show ?thesis
  proof (rule slots_okI)
    fix p show "upd_slot order A h e p = upd_slot order A h e (p mod 2 ^ (order + 1))" by (rule upd_period [OF ok])
  next
    fix r show "- 1 \<le> s_cycle (upd_slot order A h e r)" using e(1) D(2) by (simp add: upd_at)
  next
    fix r :: nat and w assume r: "r < 2 ^ (order + 1)" "s_held (upd_slot order A h e r) = Some w"
    then have ne: "r mod 2 ^ (order + 1) \<noteq> h mod 2 ^ (order + 1)" using e(2) by (auto simp: upd_at)
    then have A: "upd_slot order A h e r = A r" by (simp add: upd_at)
    then obtain c where c: "s_cycle (A r) = int c" "(2 ^ (order + 1) * c + r, w) \<in> P - Q"
      using D(3) [of r w] r by auto
    have "2 ^ (order + 1) * c + r \<noteq> h" using ne by auto
    then show "\<exists>c. s_cycle (upd_slot order A h e r) = int c \<and> (2 ^ (order + 1) * c + r, w) \<in> P - insert (h, v) Q"
      unfolding A using c by (intro exI [of _ c]) simp
  next
    fix r :: nat assume r: "r < 2 ^ (order + 1)" "s_held (upd_slot order A h e r) = None"
    show "s_cycle (upd_slot order A h e r) = - 1 \<or>
        (\<exists>c. s_cycle (upd_slot order A h e r) = int c \<and> 2 ^ (order + 1) * c + r \<in> G \<union> fst ` insert (h, v) Q)"
    proof (cases "r mod 2 ^ (order + 1) = h mod 2 ^ (order + 1)")
      case True
      then show ?thesis using slot_of_root [OF r(1) True] e c
        by (intro disjI2 exI [of _ "h div 2 ^ (order + 1)"]) (simp add: upd_at)
    next
      case False
      then show ?thesis using D(4) [of r] r by (auto simp: upd_at)
    qed
  next
    fix p w assume pw: "(p, w) \<in> P - insert (h, v) Q"
    have "p mod 2 ^ (order + 1) \<noteq> h mod 2 ^ (order + 1)"
    proof
      assume m: "p mod 2 ^ (order + 1) = h mod 2 ^ (order + 1)"
      then have "A p = A h" by (rule D(1))
      then have "int (p div 2 ^ (order + 1)) = int (h div 2 ^ (order + 1))" "w = v" using D(5) [of p w] pw c by auto
      then show False using pos_unique [OF m] pw by simp
    qed
    then show "s_cycle (upd_slot order A h e p) = int (p div 2 ^ (order + 1)) \<and> s_held (upd_slot order A h e p) = Some w"
      using D(5) [of p w] pw by (simp add: upd_at)
  next
    fix p assume p: "p \<in> G"
    show "p \<notin> fst ` P" by (rule D(6) [OF p])
    show "int (p div 2 ^ (order + 1)) \<le> s_cycle (upd_slot order A h e p) \<or> \<not> s_safe (upd_slot order A h e p)"
      using D(7) [OF p] D(1) [of p h] e by (auto simp: upd_at)
  qed
qed

end
