(* ===== verification/Scq_Entry.thy ===== *)
theory Scq_Entry
  imports Ring_Words Ticket_Slots
begin

text \<open>
  The entries of the scalable ring of lfring_cas1.h under src/lockfree-waitfree. An entry holds, from the top, a signed cycle, one bit that says whether the slot is safe, and an index of
  \<open>order + 1\<close> bits, all ones when there is none. The lemmas give the three
  fields of every word the code builds with bit operations, and \<open>scq_view\<close> reads an entry as a slot.
\<close>

unbundle bit_operations_syntax

section \<open>Cycles\<close>

text \<open>The cycle of a position, with all the lower bits set, and the entry with its cycle alone.\<close>

definition pos_cycle :: "nat \<Rightarrow> u64 \<Rightarrow> u64" where
  "pos_cycle order pos = (push_bit 1 pos OR (2 * ring_n order - 1))"

definition entry_cycle :: "nat \<Rightarrow> u64 \<Rightarrow> u64" where
  "entry_cycle order entry = entry OR (2 * ring_n order - 1)"

section \<open>Entries\<close>

text \<open>The three fields of an entry.\<close>

definition e_cycle :: "nat \<Rightarrow> u64 \<Rightarrow> int" where
  "e_cycle order w = drop_bit (order + 2) (sint w)"

definition e_safe :: "nat \<Rightarrow> u64 \<Rightarrow> bool" where
  "e_safe order w \<longleftrightarrow> bit w (order + 1)"

definition e_index :: "nat \<Rightarrow> u64 \<Rightarrow> u64" where
  "e_index order w = w AND mask (order + 1)"

definition e_empty :: "nat \<Rightarrow> u64 \<Rightarrow> bool" where
  "e_empty order w \<longleftrightarrow> e_index order w = mask (order + 1)"

text \<open>An entry as a slot of the abstract machine.\<close>

definition scq_view :: "nat \<Rightarrow> u64 \<Rightarrow> u64 slot" where
  "scq_view order w = \<lparr> s_cycle = e_cycle order w, s_safe = e_safe order w,
     s_held = (if e_empty order w then None else Some (e_index order w)) \<rparr>"

lemma scq_view_sel [simp]:
  "s_cycle (scq_view order w) = e_cycle order w" "s_safe (scq_view order w) = e_safe order w"
  "s_held (scq_view order w) = None \<longleftrightarrow> e_empty order w"
  "s_held (scq_view order w) = Some v \<longleftrightarrow> \<not> e_empty order w \<and> e_index order w = v"
  by (simp_all add: scq_view_def)

lemma e_cycle_eqI:
  "order \<le> 60 \<Longrightarrow> (\<And>i. order + 2 \<le> i \<Longrightarrow> i < 64 \<Longrightarrow> bit w i = bit w' i) \<Longrightarrow> e_cycle order w = e_cycle order w'"
  unfolding e_cycle_def using high_eq_iff [of "order + 2" w w'] by simp

lemma e_index_eqI: "(\<And>i. i < order + 1 \<Longrightarrow> bit w i = bit w' i) \<Longrightarrow> e_index order w = e_index order w'"
  unfolding e_index_def bit_eq_iff [of "w AND mask (order + 1)"] bit_and_mask by auto

lemma e_emptyI: "order \<le> 60 \<Longrightarrow> e_empty order w \<longleftrightarrow> (\<forall>i < order + 1. bit w i)"
  unfolding e_empty_def e_index_def bit_low_eq by auto

lemma fields_eq_iff:
  assumes "order \<le> 60"
  shows "w = w' \<longleftrightarrow> e_cycle order w = e_cycle order w' \<and> e_safe order w = e_safe order w' \<and> e_index order w = e_index order w'"
    (is "_ \<longleftrightarrow> ?r")
proof
  assume r: ?r
  have "bit w i = bit w' i" if "i < 64" for i
  proof -
    consider "i < order + 1" | "i = order + 1" | "order + 2 \<le> i" by linarith
    then show ?thesis
    proof cases
      case 1
      have "bit (e_index order w) i = bit (e_index order w') i" using r by simp
      then show ?thesis using 1 unfolding e_index_def bit_and_mask by simp
    next
      case 2
      then show ?thesis using r unfolding e_safe_def by simp
    next
      case 3
      then show ?thesis using r high_eq_iff [of "order + 2" w w'] assms that unfolding e_cycle_def by simp
    qed
  qed
  then show "w = w'" by (intro bit_word_eqI) simp
qed simp

lemma full_bit: "bit (entry_cycle order w) i \<longleftrightarrow> bit w i \<or> i < order + 2 \<and> i < 64"
  unfolding entry_cycle_def ring_n_bits(3) by (rule bit_or_mask)

lemma full_fields:
  assumes "order \<le> 60"
  shows "e_cycle order (entry_cycle order w) = e_cycle order w" "e_safe order (entry_cycle order w)"
    "e_index order (entry_cycle order w) = mask (order + 1)"
proof -
  show "e_cycle order (entry_cycle order w) = e_cycle order w"
    by (rule e_cycle_eqI [OF assms]) (auto simp: full_bit)
  show "e_safe order (entry_cycle order w)" using assms by (simp add: e_safe_def full_bit)
  have "e_empty order (entry_cycle order w)" using assms by (simp add: e_emptyI full_bit)
  then show "e_index order (entry_cycle order w) = mask (order + 1)" by (simp add: e_empty_def)
qed

lemma flip_fields:
  assumes "order \<le> 60"
  shows "e_cycle order (w XOR ring_n order) = e_cycle order w" "e_safe order (w XOR ring_n order) \<longleftrightarrow> \<not> e_safe order w"
    "e_index order (w XOR ring_n order) = e_index order w"
proof -
  have b: "bit (w XOR ring_n order) i \<longleftrightarrow> bit w i \<noteq> (i = order + 1 \<and> i < 64)" for i
    unfolding bit_xor_iff ring_n_bits(1) bit_one_at ..
  show "e_cycle order (w XOR ring_n order) = e_cycle order w" by (rule e_cycle_eqI [OF assms]) (auto simp: b)
  show "e_safe order (w XOR ring_n order) \<longleftrightarrow> \<not> e_safe order w" using assms by (simp add: e_safe_def b)
  show "e_index order (w XOR ring_n order) = e_index order w" by (rule e_index_eqI) (simp add: b)
qed

lemma set_safe_fields:
  assumes "order \<le> 60"
  shows "e_cycle order (w OR ring_n order) = e_cycle order w" "e_safe order (w OR ring_n order)"
    "e_index order (w OR ring_n order) = e_index order w"
proof -
  have b: "bit (w OR ring_n order) i \<longleftrightarrow> bit w i \<or> (i = order + 1 \<and> i < 64)" for i
    unfolding bit_or_iff ring_n_bits(1) bit_one_at ..
  show "e_cycle order (w OR ring_n order) = e_cycle order w" by (rule e_cycle_eqI [OF assms]) (auto simp: b)
  show "e_safe order (w OR ring_n order)" using assms by (simp add: e_safe_def b)
  show "e_index order (w OR ring_n order) = e_index order w" by (rule e_index_eqI) (simp add: b)
qed

lemma clear_safe_fields:
  assumes "order \<le> 60"
  shows "e_cycle order (w AND NOT (ring_n order)) = e_cycle order w" "\<not> e_safe order (w AND NOT (ring_n order))"
    "e_index order (w AND NOT (ring_n order)) = e_index order w"
proof -
  have b: "bit (w AND NOT (ring_n order)) i \<longleftrightarrow> bit w i \<and> i \<noteq> order + 1" for i
    unfolding bit_and_iff bit_not_iff ring_n_bits(1) bit_one_at by (auto dest: bit_imp_le_length simp: possible_bit_word)
  show "e_cycle order (w AND NOT (ring_n order)) = e_cycle order w" by (rule e_cycle_eqI [OF assms]) (auto simp: b)
  show "\<not> e_safe order (w AND NOT (ring_n order))" using assms by (simp add: e_safe_def b)
  show "e_index order (w AND NOT (ring_n order)) = e_index order w" by (rule e_index_eqI) (simp add: b)
qed

lemma consume_fields:
  assumes "order \<le> 60"
  shows "e_cycle order (w OR (ring_n order - 1)) = e_cycle order w"
    "e_safe order (w OR (ring_n order - 1)) \<longleftrightarrow> e_safe order w" "e_empty order (w OR (ring_n order - 1))"
proof -
  have b: "bit (w OR (ring_n order - 1)) i \<longleftrightarrow> bit w i \<or> i < order + 1 \<and> i < 64" for i
    unfolding ring_n_bits(2) by (rule bit_or_mask)
  show "e_cycle order (w OR (ring_n order - 1)) = e_cycle order w" by (rule e_cycle_eqI [OF assms]) (auto simp: b)
  show "e_safe order (w OR (ring_n order - 1)) \<longleftrightarrow> e_safe order w" using assms by (simp add: e_safe_def b)
  show "e_empty order (w OR (ring_n order - 1))" using assms by (simp add: e_emptyI b)
qed


lemma pos_full: "pos_cycle order p = push_bit 1 p OR mask (order + 2)"
  unfolding pos_cycle_def ring_n_bits(3) ..

lemma pos_bit_low: "i < order + 2 \<Longrightarrow> i < 64 \<Longrightarrow> bit (pos_cycle order p) i"
  unfolding pos_full bit_or_mask by simp

lemma pos_fields:
  assumes "order \<le> 60" and "small_pos p"
  shows "e_cycle order (pos_cycle order p) = int (unat p) div 2 ^ (order + 1)" "e_safe order (pos_cycle order p)"
    "e_index order (pos_cycle order p) = mask (order + 1)"
proof -
  have "e_cycle order (pos_cycle order p) = drop_bit (order + 2) (sint (push_bit 1 p))"
    unfolding e_cycle_def pos_full by (subst high_eq_iff) (use assms(1) in \<open>auto simp: bit_or_mask\<close>)
  also have "sint (push_bit 1 p) = 2 * int (unat p)"
  proof -
    have "unat (push_bit 1 p) = 2 * unat p"
      using assms(2) unfolding small_pos_def unsigned_push_bit_eq by (simp add: take_bit_nat_eq_self)
    then have "uint (push_bit 1 p) = 2 * int (unat p)" by (metis of_nat_mult of_nat_numeral of_nat_unat)
    then show ?thesis using small_uint [OF assms(2)]
      by (subst sint_eq_uint_small) simp_all
  qed
  also have "drop_bit (order + 2) (2 * int (unat p)) = int (unat p) div 2 ^ (order + 1)"
    by (simp add: drop_bit_eq_div)
  finally show "e_cycle order (pos_cycle order p) = int (unat p) div 2 ^ (order + 1)" .
  show "e_safe order (pos_cycle order p)" unfolding e_safe_def by (rule pos_bit_low) (use assms in simp_all)
  have "e_empty order (pos_cycle order p)" using assms(1) by (auto simp: e_emptyI intro!: pos_bit_low)
  then show "e_index order (pos_cycle order p) = mask (order + 1)" by (simp add: e_empty_def)
qed

lemma full_eq_pos:
  assumes "order \<le> 60"
  shows "entry_cycle order w = pos_cycle order p \<longleftrightarrow> e_cycle order w = e_cycle order (pos_cycle order p)"
proof -
  have "pos_cycle order p OR mask (order + 2) = pos_cycle order p"
    unfolding pos_full by (simp add: or.assoc)
  then show ?thesis
    using or_mask_eq_iff [of "order + 2" w "pos_cycle order p"] assms
    unfolding entry_cycle_def ring_n_bits(3) e_cycle_def by simp
qed

lemma full_less_pos:
  assumes "order \<le> 60" and "- 1 \<le> e_cycle order w" "2 ^ (order + 1) * e_cycle order w \<le> 2 ^ 61" and "small_pos p"
  shows "cmp_less (entry_cycle order w) (pos_cycle order p) \<longleftrightarrow> e_cycle order w < e_cycle order (pos_cycle order p)"
proof -
  define K :: int where "K = 2 ^ (order + 2)"
  have K: "0 < K" "K \<le> 2 ^ 62" unfolding K_def using assms(1) by (simp, intro power_increasing) simp_all
  have x: "sint (entry_cycle order w) = K * e_cycle order w + (K - 1)"
    unfolding entry_cycle_def ring_n_bits(3) K_def e_cycle_def by (rule sint_or_mask) (use assms(1) in simp)
  have "pos_cycle order p OR mask (order + 2) = pos_cycle order p" unfolding pos_full by (simp add: or.assoc)
  then have y: "sint (pos_cycle order p) = K * e_cycle order (pos_cycle order p) + (K - 1)"
    using sint_or_mask [of "order + 2" "pos_cycle order p"] assms(1) unfolding K_def e_cycle_def by simp
  have b: "K * e_cycle order w \<le> 2 ^ 62" "- K \<le> K * e_cycle order w"
  proof -
    show "K * e_cycle order w \<le> 2 ^ 62" using assms(3) unfolding K_def by simp
    have "0 \<le> K * (e_cycle order w + 1)" using K(1) assms(2) by simp
    then show "- K \<le> K * e_cycle order w" by (simp add: distrib_left)
  qed
  have "0 \<le> e_cycle order (pos_cycle order p)" unfolding pos_fields(1) [OF assms(1,4)]
    by (rule pos_imp_zdiv_nonneg_iff [THEN iffD2]) simp_all
  then have c1: "0 \<le> K * e_cycle order (pos_cycle order p)" using K(1) by simp
  have "2 ^ (order + 1) * (int (unat p) div 2 ^ (order + 1)) \<le> int (unat p)"
  proof -
    have "0 \<le> int (unat p) mod 2 ^ (order + 1)" by (intro pos_mod_sign) simp
    then show ?thesis using mult_div_mod_eq [of "2 ^ (order + 1)" "int (unat p)"] by linarith
  qed
  moreover have "int (unat p) < 2 ^ 61" using small_uint [OF assms(4)] by simp
  ultimately have c2: "K * e_cycle order (pos_cycle order p) \<le> 2 ^ 62"
    unfolding pos_fields(1) [OF assms(1,4)] K_def by simp
  have "sint (entry_cycle order w - pos_cycle order p) = sint (entry_cycle order w) - sint (pos_cycle order p)"
    by (rule sint_minus_no_wrap) (unfold x y, use b c1 c2 K in simp_all)
  then have "cmp_less (entry_cycle order w) (pos_cycle order p) \<longleftrightarrow> K * e_cycle order w < K * e_cycle order (pos_cycle order p)"
    unfolding cmp_less_def x y by simp
  then show ?thesis using K(1) by simp
qed

lemma is_full_iff: "order \<le> 60 \<Longrightarrow> w = entry_cycle order w \<longleftrightarrow> e_safe order w \<and> e_empty order w"
  using fields_eq_iff [of order w "entry_cycle order w"] by (simp add: full_fields e_empty_def)

lemma is_flipped_iff: "order \<le> 60 \<Longrightarrow> w = entry_cycle order w XOR ring_n order \<longleftrightarrow> \<not> e_safe order w \<and> e_empty order w"
  using fields_eq_iff [of order w "entry_cycle order w XOR ring_n order"] by (simp add: full_fields flip_fields e_empty_def)

lemma is_empty_iff: "order \<le> 60 \<Longrightarrow> (w OR ring_n order) = entry_cycle order w \<longleftrightarrow> e_empty order w"
  using fields_eq_iff [of order "w OR ring_n order" "entry_cycle order w"] by (simp add: full_fields set_safe_fields e_empty_def)

lemma is_unsafe_iff: "order \<le> 60 \<Longrightarrow> w = w AND NOT (ring_n order) \<longleftrightarrow> \<not> e_safe order w"
  using fields_eq_iff [of order w "w AND NOT (ring_n order)"] by (auto simp: clear_safe_fields)

lemma e_empty_index: "e_index order w = e_index order w' \<Longrightarrow> e_empty order w = e_empty order w'"
  by (simp add: e_empty_def)

lemma advance_fields:
  assumes "order \<le> 60"
  shows "e_cycle order (pos_cycle order p XOR (NOT w AND ring_n order)) = e_cycle order (pos_cycle order p)"
    "e_safe order (pos_cycle order p XOR (NOT w AND ring_n order)) \<longleftrightarrow> e_safe order w"
    "e_empty order (pos_cycle order p XOR (NOT w AND ring_n order))"
proof -
  have b: "bit (pos_cycle order p XOR (NOT w AND ring_n order)) i \<longleftrightarrow>
      bit (pos_cycle order p) i \<noteq> (\<not> bit w i \<and> i = order + 1 \<and> i < 64)" for i
    unfolding bit_xor_iff bit_and_iff bit_not_iff ring_n_bits(1) bit_one_at by (auto simp: possible_bit_word)
  show "e_cycle order (pos_cycle order p XOR (NOT w AND ring_n order)) = e_cycle order (pos_cycle order p)"
    by (rule e_cycle_eqI [OF assms]) (auto simp: b)
  show "e_safe order (pos_cycle order p XOR (NOT w AND ring_n order)) \<longleftrightarrow> e_safe order w"
    using assms pos_bit_low [of "order + 1" order p] by (simp add: e_safe_def b)
  show "e_empty order (pos_cycle order p XOR (NOT w AND ring_n order))"
    using assms by (auto simp: e_emptyI b intro!: pos_bit_low)
qed

text \<open>The entry an enqueue writes: \<open>x\<close> is its index with all the bits flipped.\<close>

lemma placed_fields:
  assumes "order \<le> 60" and "unat e < 2 ^ (order + 1)"
  shows "e_cycle order (pos_cycle order p XOR (e XOR (ring_n order - 1))) = e_cycle order (pos_cycle order p)"
    "e_safe order (pos_cycle order p XOR (e XOR (ring_n order - 1)))"
    "e_index order (pos_cycle order p XOR (e XOR (ring_n order - 1))) = e"
proof -
  have e: "e = e AND mask (order + 1)"
    using assms(2) by (simp add: word_unat_eq_iff unat_and_mask_mod)
  have hi: "\<not> bit e i" if "order + 1 \<le> i" for i
    using bit_and_mask [of e "order + 1" i] that unfolding e [symmetric] by simp
  have b: "bit (pos_cycle order p XOR (e XOR (ring_n order - 1))) i \<longleftrightarrow>
      bit (pos_cycle order p) i \<noteq> (bit e i \<noteq> (i < order + 1 \<and> i < 64))" for i
    unfolding bit_xor_iff ring_n_bits(2) bit_mask_iff possible_bit_word by auto
  show "e_cycle order (pos_cycle order p XOR (e XOR (ring_n order - 1))) = e_cycle order (pos_cycle order p)"
    by (rule e_cycle_eqI [OF assms(1)]) (auto simp: b hi)
  show "e_safe order (pos_cycle order p XOR (e XOR (ring_n order - 1)))"
    using assms(1) pos_bit_low [of "order + 1" order p] by (simp add: e_safe_def b hi)
  have "e_index order (pos_cycle order p XOR (e XOR (ring_n order - 1))) = e_index order e"
    by (rule e_index_eqI) (use assms(1) pos_bit_low [of _ order p] in \<open>auto simp: b\<close>)
  then show "e_index order (pos_cycle order p XOR (e XOR (ring_n order - 1))) = e"
    using e unfolding e_index_def by simp
qed

lemma not_empty_index: "order \<le> 60 \<Longrightarrow> unat v < 2 ^ order \<Longrightarrow> (v :: u64) \<noteq> mask (order + 1)"
proof
  assume o: "order \<le> 60" and v: "unat v < 2 ^ order" "v = mask (order + 1)"
  have "bit v order" using o v(2) by (simp add: bit_mask_iff possible_bit_word)
  then have "bit (unat v) order" using o by (simp add: bit_unsigned_iff possible_bit_def)
  then have "odd (unat v div 2 ^ order)" by (simp add: bit_iff_odd)
  then show False using v(1) by simp
qed

section \<open>Entries of an initialised ring\<close>

lemma minus_one_fields: "e_cycle order (- 1) = - 1" "order \<le> 60 \<Longrightarrow> e_safe order (- 1)" "order \<le> 60 \<Longrightarrow> e_empty order (- 1)"
  by (simp_all add: e_cycle_def e_safe_def e_emptyI)

lemma spent_fields:
  assumes "order \<le> 60"
  shows "e_cycle order (2 * ring_n order - 1) = 0" "e_safe order (2 * ring_n order - 1)" "e_empty order (2 * ring_n order - 1)"
proof -
  have "small_pos 0" by (simp add: small_pos_def)
  moreover have "pos_cycle order 0 = 2 * ring_n order - 1" by (simp add: pos_cycle_def)
  ultimately show "e_cycle order (2 * ring_n order - 1) = 0" "e_safe order (2 * ring_n order - 1)"
      "e_empty order (2 * ring_n order - 1)"
    using pos_fields [OF assms, of 0] by (simp_all add: e_empty_def)
qed

lemma filled_fields:
  assumes "order \<le> 60" and v: "unat v < 2 ^ (order + 1)"
  shows "e_cycle order (ring_n order + v) = 0" "e_safe order (ring_n order + v)" "e_index order (ring_n order + v) = v"
proof -
  have "v = v AND mask (order + 1)" using v by (simp add: word_unat_eq_iff unat_and_mask_mod)
  then have hi: "\<not> bit v i" if "order + 1 \<le> i" for i using bit_and_mask [of v "order + 1" i] that by simp
  have "ring_n order AND v = 0"
  proof (rule bit_word_eqI)
    fix i
    show "bit (ring_n order AND v) i = bit 0 i"
      unfolding bit_and_iff ring_n_bits(1) bit_one_at using hi [of i] by auto
  qed
  then have sum: "ring_n order + v = ring_n order OR v" by (simp add: disjunctive_add_eq_or)
  have "ring_n order OR v = pos_cycle order 0 XOR (v XOR (ring_n order - 1))"
  proof (rule bit_word_eqI)
    fix i assume "i < LENGTH(64)"
    then show "bit (ring_n order OR v) i = bit (pos_cycle order 0 XOR (v XOR (ring_n order - 1))) i"
      unfolding pos_cycle_def ring_n_bits(2,3) push_bit_of_0
      unfolding bit_or_iff bit_xor_iff bit_mask_iff possible_bit_word ring_n_bits(1) bit_one_at
      using hi [of i] by (cases "i < order + 1"; cases "i = order + 1") auto
  qed
  then have e: "ring_n order + v = pos_cycle order 0 XOR (v XOR (ring_n order - 1))" using sum by simp
  have "small_pos 0" by (simp add: small_pos_def)
  then show "e_cycle order (ring_n order + v) = 0" "e_safe order (ring_n order + v)" "e_index order (ring_n order + v) = v"
    unfolding e using placed_fields [OF assms(1) v, of 0] pos_fields(1) [OF assms(1), of 0] by simp_all
qed

end
