(* ===== verification/Scq_Ring.thy ===== *)
theory Scq_Ring
  imports Scq_Entry
begin

text \<open>
  The scalable ring (SCQ) of lfring_cas1.h under src/lockfree-waitfree. A fetch-and-add on \<open>tail\<close> or
  \<open>head\<close> gives a thread its ticket; an enqueue puts its index into the slot of its ticket, a dequeue takes
  the index of its ticket or spoils the slot for it. Every access to a shared word is one step of
  \<open>scq_thread\<close>, with the local computation up to the next access; the threads interleave freely
  (sequentially consistent memory) and a weak compare-and-exchange may fail spuriously. \<open>enq_log\<close>,
  \<open>deq_log\<close> and \<open>gave_up\<close> only record what happened, by ticket.
\<close>

unbundle bit_operations_syntax

section \<open>The ring\<close>

record scq_ring =
  rg_head :: u64
  rg_threshold :: u64
  rg_tail :: u64
  rg_array :: "u64 list"

definition scq_map :: "u64 \<Rightarrow> nat \<Rightarrow> u64 \<Rightarrow> u64" where
  "scq_map idx order n = lfring_map idx (order + 1) n"

definition threshold3 :: "u64 \<Rightarrow> u64 \<Rightarrow> u64" where
  "threshold3 half n = half + n - 1"

definition scq_slot :: "nat \<Rightarrow> u64 \<Rightarrow> nat" where
  "scq_slot order pos = unat (scq_map pos order (ring_n order))"

definition scq_init_empty :: "nat \<Rightarrow> u64 list \<Rightarrow> scq_ring" where
  "scq_init_empty order mem =
     (let n = lfring_pow2 (order + 1)
      in \<lparr> rg_head = 0, rg_threshold = - 1, rg_tail = 0, rg_array = store_range (\<lambda>i. i) (\<lambda>i. - 1) 0 (unat n) mem \<rparr>)"

definition scq_init_full :: "nat \<Rightarrow> u64 list \<Rightarrow> scq_ring" where
  "scq_init_full order mem =
     (let half = lfring_pow2 order; n = half * 2;
          slot = (\<lambda>i. unat (scq_map (word_of_nat i) order n));
          a1 = store_range slot (\<lambda>i. n + lfring_map (word_of_nat i) order half) 0 (unat half) mem;
          a2 = store_range slot (\<lambda>i. - 1) (unat half) (unat n) a1
      in \<lparr> rg_head = 0, rg_threshold = threshold3 half n, rg_tail = half, rg_array = a2 \<rparr>)"

definition scq_init_fill :: "nat \<Rightarrow> nat \<Rightarrow> nat \<Rightarrow> u64 list \<Rightarrow> scq_ring" where
  "scq_init_fill order s e mem =
     (let half = lfring_pow2 order; n = half * 2;
          slot = (\<lambda>i. unat (scq_map (word_of_nat i) order n));
          a1 = store_range slot (\<lambda>i. 2 * n - 1) 0 s mem;
          a2 = store_range slot (\<lambda>i. n + word_of_nat i) s e a1;
          a3 = store_range slot (\<lambda>i. - 1) e (unat n) a2
      in \<lparr> rg_head = word_of_nat s, rg_threshold = threshold3 half n, rg_tail = word_of_nat e, rg_array = a3 \<rparr>)"

section \<open>Threads\<close>

datatype scq_pc =
    S_idle
  | E_ticket bool u64
  | E_entry bool u64 u64
  | E_head bool u64 u64 u64
  | E_cas bool u64 u64 u64
  | E_threshold
  | E_reset
  | E_done
  | D_threshold
  | D_ticket bool
  | D_entry bool u64 nat
  | D_cas bool u64 nat u64 u64
  | D_take u64 u64
  | D_tail u64
  | D_catch u64 u64
  | D_catch_head
  | D_catch_tail u64
  | D_sub_empty
  | D_sub
  | D_done u64

record scq_state =
  ring :: scq_ring
  pcs :: "nat \<Rightarrow> scq_pc"
  enq_log :: "(nat \<times> u64) list"
  deq_log :: "(nat \<times> u64) list"
  gave_up :: "nat set"

text \<open>What \<open>lfring_enqueue\<close> does with an entry it has read: the condition of its \<open>if\<close> up to the load of the head.\<close>

definition enq_check :: "nat \<Rightarrow> bool \<Rightarrow> u64 \<Rightarrow> u64 \<Rightarrow> u64 \<Rightarrow> scq_pc" where
  "enq_check order nonempty x tail entry =
     (let tcycle = pos_cycle order tail; ecycle = entry_cycle order entry
      in if \<not> cmp_less ecycle tcycle then E_ticket nonempty x
         else if entry = ecycle then E_cas nonempty x tail entry
         else if entry = ecycle XOR ring_n order then E_head nonempty x tail entry
         else E_ticket nonempty x)"

text \<open>What \<open>lfring_dequeue\<close> does once the slot holds nothing for it, and with an entry it has read.\<close>

definition deq_missed :: "bool \<Rightarrow> u64 \<Rightarrow> scq_pc" where
  "deq_missed nonempty head = (if nonempty then D_ticket nonempty else D_tail head)"

definition deq_check :: "nat \<Rightarrow> bool \<Rightarrow> u64 \<Rightarrow> nat \<Rightarrow> u64 \<Rightarrow> scq_pc" where
  "deq_check order nonempty head attempt entry =
     (let n = ring_n order; ecycle = entry_cycle order entry; hcycle = pos_cycle order head
      in if ecycle = hcycle then D_take head entry
         else if (entry OR n) \<noteq> ecycle
           then (let entry_new = entry AND NOT n
                 in if entry = entry_new then deq_missed nonempty head
                    else if cmp_less ecycle hcycle then D_cas nonempty head attempt entry entry_new
                    else deq_missed nonempty head)
         else if attempt + 1 \<le> 10000 then D_entry nonempty head (attempt + 1)
         else (let entry_new = hcycle XOR (NOT entry AND n)
               in if cmp_less ecycle hcycle then D_cas nonempty head (attempt + 1) entry entry_new
                  else deq_missed nonempty head))"

text \<open>The ticket of a dequeue that has neither taken an index nor found out that it has to go on.\<close>

fun deq_ticket :: "scq_pc \<Rightarrow> nat option" where
  "deq_ticket (D_entry b head a) = Some (unat head)"
| "deq_ticket (D_cas b head a e e') = Some (unat head)"
| "deq_ticket (D_take head e) = Some (unat head)"
| "deq_ticket _ = None"

fun enq_ticket :: "scq_pc \<Rightarrow> nat option" where
  "enq_ticket (E_entry b x tail) = Some (unat tail)"
| "enq_ticket (E_head b x tail e) = Some (unat tail)"
| "enq_ticket (E_cas b x tail e) = Some (unat tail)"
| "enq_ticket _ = None"

definition scq_entry :: "nat \<Rightarrow> scq_state \<Rightarrow> u64 \<Rightarrow> u64" where
  "scq_entry order s pos = rg_array (ring s) ! scq_slot order pos"

definition put_entry :: "nat \<Rightarrow> u64 \<Rightarrow> u64 \<Rightarrow> scq_state \<Rightarrow> scq_state" where
  "put_entry order pos e s = s\<lparr> ring := (ring s)\<lparr> rg_array := (rg_array (ring s))[scq_slot order pos := e] \<rparr> \<rparr>"

definition goto :: "nat \<Rightarrow> scq_pc \<Rightarrow> scq_state \<Rightarrow> scq_state" where
  "goto t pc s = s\<lparr> pcs := (pcs s)(t := pc) \<rparr>"

text \<open>Going to \<open>pc\<close> with the ticket of \<open>head\<close>; the ticket is given up when \<open>pc\<close> does not keep it.\<close>

definition keep_or_give_up :: "nat \<Rightarrow> u64 \<Rightarrow> scq_pc \<Rightarrow> scq_state \<Rightarrow> scq_state" where
  "keep_or_give_up t head pc s =
     goto t pc (if deq_ticket pc = None then s\<lparr> gave_up := insert (unat head) (gave_up s) \<rparr> else s)"

definition set_threshold :: "u64 \<Rightarrow> scq_state \<Rightarrow> scq_state" where
  "set_threshold v s = s\<lparr> ring := (ring s)\<lparr> rg_threshold := v \<rparr> \<rparr>"

section \<open>Steps\<close>

definition scq_enq_call :: "nat \<Rightarrow> nat \<Rightarrow> u64 \<Rightarrow> bool \<Rightarrow> scq_state \<Rightarrow> scq_state" where
  "scq_enq_call order t eidx nonempty s = goto t (E_ticket nonempty (eidx XOR (ring_n order - 1))) s"

definition scq_take_tail :: "nat \<Rightarrow> bool \<Rightarrow> u64 \<Rightarrow> scq_state \<Rightarrow> scq_state" where
  "scq_take_tail t nonempty x s =
     goto t (E_entry nonempty x (rg_tail (ring s))) (s\<lparr> ring := (ring s)\<lparr> rg_tail := rg_tail (ring s) + 1 \<rparr> \<rparr>)"

definition scq_enq_entry :: "nat \<Rightarrow> nat \<Rightarrow> bool \<Rightarrow> u64 \<Rightarrow> u64 \<Rightarrow> scq_state \<Rightarrow> scq_state" where
  "scq_enq_entry order t nonempty x tail s = goto t (enq_check order nonempty x tail (scq_entry order s tail)) s"

definition scq_enq_head :: "nat \<Rightarrow> bool \<Rightarrow> u64 \<Rightarrow> u64 \<Rightarrow> u64 \<Rightarrow> scq_state \<Rightarrow> scq_state" where
  "scq_enq_head t nonempty x tail entry s =
     goto t (if cmp_le (rg_head (ring s)) tail then E_cas nonempty x tail entry else E_ticket nonempty x) s"

definition scq_enq_cas :: "nat \<Rightarrow> nat \<Rightarrow> bool \<Rightarrow> bool \<Rightarrow> u64 \<Rightarrow> u64 \<Rightarrow> u64 \<Rightarrow> scq_state \<Rightarrow> scq_state" where
  "scq_enq_cas order t spurious nonempty x tail entry s =
     (if scq_entry order s tail = entry \<and> \<not> spurious
      then goto t (if nonempty then E_done else E_threshold)
        ((put_entry order tail (pos_cycle order tail XOR x) s)
           \<lparr> enq_log := enq_log s @ [(unat tail, x XOR (ring_n order - 1))] \<rparr>)
      else goto t (enq_check order nonempty x tail (scq_entry order s tail)) s)"

definition scq_enq_threshold :: "nat \<Rightarrow> nat \<Rightarrow> scq_state \<Rightarrow> scq_state" where
  "scq_enq_threshold order t s =
     goto t (if rg_threshold (ring s) \<noteq> threshold3 (lfring_pow2 order) (ring_n order) then E_reset else E_done) s"

definition scq_enq_reset :: "nat \<Rightarrow> nat \<Rightarrow> scq_state \<Rightarrow> scq_state" where
  "scq_enq_reset order t s = goto t E_done (set_threshold (threshold3 (lfring_pow2 order) (ring_n order)) s)"

definition scq_deq_call :: "nat \<Rightarrow> bool \<Rightarrow> scq_state \<Rightarrow> scq_state" where
  "scq_deq_call t nonempty s = goto t (if nonempty then D_ticket True else D_threshold) s"

definition scq_deq_threshold :: "nat \<Rightarrow> scq_state \<Rightarrow> scq_state" where
  "scq_deq_threshold t s =
     goto t (if sint (rg_threshold (ring s)) < 0 then D_done LFRING_EMPTY else D_ticket False) s"

definition scq_take_head :: "nat \<Rightarrow> bool \<Rightarrow> scq_state \<Rightarrow> scq_state" where
  "scq_take_head t nonempty s =
     goto t (D_entry nonempty (rg_head (ring s)) 0) (s\<lparr> ring := (ring s)\<lparr> rg_head := rg_head (ring s) + 1 \<rparr> \<rparr>)"

definition scq_deq_entry :: "nat \<Rightarrow> nat \<Rightarrow> bool \<Rightarrow> u64 \<Rightarrow> nat \<Rightarrow> scq_state \<Rightarrow> scq_state" where
  "scq_deq_entry order t nonempty head attempt s =
     keep_or_give_up t head (deq_check order nonempty head attempt (scq_entry order s head)) s"

definition scq_deq_cas :: "nat \<Rightarrow> nat \<Rightarrow> bool \<Rightarrow> bool \<Rightarrow> u64 \<Rightarrow> nat \<Rightarrow> u64 \<Rightarrow> u64 \<Rightarrow> scq_state \<Rightarrow> scq_state" where
  "scq_deq_cas order t spurious nonempty head attempt entry entry_new s =
     (if scq_entry order s head = entry \<and> \<not> spurious
      then keep_or_give_up t head (deq_missed nonempty head) (put_entry order head entry_new s)
      else keep_or_give_up t head (deq_check order nonempty head attempt (scq_entry order s head)) s)"

definition scq_deq_take :: "nat \<Rightarrow> nat \<Rightarrow> u64 \<Rightarrow> u64 \<Rightarrow> scq_state \<Rightarrow> scq_state" where
  "scq_deq_take order t head entry s =
     goto t (D_done (entry AND (ring_n order - 1)))
       ((put_entry order head (scq_entry order s head OR (ring_n order - 1)) s)
          \<lparr> deq_log := deq_log s @ [(unat head, entry AND (ring_n order - 1))] \<rparr>)"

definition scq_deq_tail :: "nat \<Rightarrow> u64 \<Rightarrow> scq_state \<Rightarrow> scq_state" where
  "scq_deq_tail t head s =
     goto t (if cmp_le (rg_tail (ring s)) (head + 1) then D_catch (rg_tail (ring s)) (head + 1) else D_sub) s"

text \<open>\<open>__lfring_catchup\<close>.\<close>

definition scq_catch :: "nat \<Rightarrow> bool \<Rightarrow> u64 \<Rightarrow> u64 \<Rightarrow> scq_state \<Rightarrow> scq_state" where
  "scq_catch t spurious tail target s =
     (if rg_tail (ring s) = tail \<and> \<not> spurious
      then goto t D_sub_empty (s\<lparr> ring := (ring s)\<lparr> rg_tail := target \<rparr> \<rparr>)
      else goto t D_catch_head s)"

definition scq_catch_head :: "nat \<Rightarrow> scq_state \<Rightarrow> scq_state" where
  "scq_catch_head t s = goto t (D_catch_tail (rg_head (ring s))) s"

definition scq_catch_tail :: "nat \<Rightarrow> u64 \<Rightarrow> scq_state \<Rightarrow> scq_state" where
  "scq_catch_tail t target s =
     goto t (if cmp_ge (rg_tail (ring s)) target then D_sub_empty else D_catch (rg_tail (ring s)) target) s"

definition scq_sub_empty :: "nat \<Rightarrow> scq_state \<Rightarrow> scq_state" where
  "scq_sub_empty t s = goto t (D_done LFRING_EMPTY) (set_threshold (rg_threshold (ring s) - 1) s)"

definition scq_sub :: "nat \<Rightarrow> scq_state \<Rightarrow> scq_state" where
  "scq_sub t s =
     goto t (if sint (rg_threshold (ring s)) \<le> 0 then D_done LFRING_EMPTY else D_ticket False)
       (set_threshold (rg_threshold (ring s) - 1) s)"

text \<open>One step of a thread inside an operation.\<close>

definition scq_thread :: "nat \<Rightarrow> nat \<Rightarrow> bool \<Rightarrow> scq_state \<Rightarrow> scq_state" where
  "scq_thread order t spurious s =
     (case pcs s t of
        S_idle \<Rightarrow> s
      | E_ticket b x \<Rightarrow> scq_take_tail t b x s
      | E_entry b x tail \<Rightarrow> scq_enq_entry order t b x tail s
      | E_head b x tail entry \<Rightarrow> scq_enq_head t b x tail entry s
      | E_cas b x tail entry \<Rightarrow> scq_enq_cas order t spurious b x tail entry s
      | E_threshold \<Rightarrow> scq_enq_threshold order t s
      | E_reset \<Rightarrow> scq_enq_reset order t s
      | E_done \<Rightarrow> goto t S_idle s
      | D_threshold \<Rightarrow> scq_deq_threshold t s
      | D_ticket b \<Rightarrow> scq_take_head t b s
      | D_entry b head a \<Rightarrow> scq_deq_entry order t b head a s
      | D_cas b head a entry entry_new \<Rightarrow> scq_deq_cas order t spurious b head a entry entry_new s
      | D_take head entry \<Rightarrow> scq_deq_take order t head entry s
      | D_tail head \<Rightarrow> scq_deq_tail t head s
      | D_catch tail target \<Rightarrow> scq_catch t spurious tail target s
      | D_catch_head \<Rightarrow> scq_catch_head t s
      | D_catch_tail target \<Rightarrow> scq_catch_tail t target s
      | D_sub_empty \<Rightarrow> scq_sub_empty t s
      | D_sub \<Rightarrow> scq_sub t s
      | D_done r \<Rightarrow> goto t S_idle s)"

inductive scq_step :: "nat \<Rightarrow> scq_state \<Rightarrow> scq_state \<Rightarrow> bool" for order where
  enq_call: "pcs s t = S_idle \<Longrightarrow> unat eidx < 2 ^ order \<Longrightarrow> scq_step order s (scq_enq_call order t eidx nonempty s)"
| deq_call: "pcs s t = S_idle \<Longrightarrow> scq_step order s (scq_deq_call t nonempty s)"
| thread: "scq_step order s (scq_thread order t spurious s)"

text \<open>
  An initialised ring with its first \<open>k\<close> tickets filled by \<open>content\<close> from ticket \<open>s\<close> on; the tickets below
  \<open>s\<close> are never handed out.
\<close>

definition scq_start :: "scq_ring \<Rightarrow> nat \<Rightarrow> (nat \<times> u64) list \<Rightarrow> scq_state" where
  "scq_start r s content = \<lparr> ring = r, pcs = (\<lambda>_. S_idle), enq_log = content, deq_log = [], gave_up = {..<s} \<rparr>"

text \<open>\<open>scq_reachable order k s\<close>: \<open>s\<close> is reached within \<open>k\<close> steps.\<close>

inductive scq_reachable :: "nat \<Rightarrow> nat \<Rightarrow> scq_state \<Rightarrow> bool" for order where
  empty: "length mem = 2 ^ (order + 1) \<Longrightarrow> scq_reachable order 0 (scq_start (scq_init_empty order mem) 0 [])"
| full: "length mem = 2 ^ (order + 1) \<Longrightarrow>
    scq_reachable order 0 (scq_start (scq_init_full order mem) 0
      (map (\<lambda>i. (i, lfring_map (word_of_nat i) order (lfring_pow2 order))) [0..<2 ^ order]))"
| fill: "length mem = 2 ^ (order + 1) \<Longrightarrow> s \<le> e \<Longrightarrow> e \<le> 2 ^ order \<Longrightarrow>
    scq_reachable order 0 (scq_start (scq_init_fill order s e mem) s (map (\<lambda>i. (i, word_of_nat i)) [s..<e]))"
| step: "scq_reachable order k st \<Longrightarrow> scq_step order st st' \<Longrightarrow> scq_reachable order (k + 1) st'"

end
