(* ===== verification/Ticket_Ring.thy ===== *)
theory Ticket_Ring
  imports Ticket_Slots
begin

text \<open>
  The abstract machine that both scalable rings implement (lfring_cas1.h and lfring_cas2.h under
  src/lockfree-waitfree): threads draw tickets from two counters, put a value into the slot of a ticket,
  take the value of a ticket or spoil its slot, and may move the counter of the puts forward. The
  invariant is proved here once; each ring shows that its word-level steps are steps of this machine.
\<close>

section \<open>Threads and the ring\<close>

text \<open>
  What a thread is doing with its ticket. An entry stored in a stage is one that the thread has read;
  \<open>Bound k\<close> remembers that \<open>k\<close> tickets had been drawn for taking, \<open>Catch a b\<close> is about to move the counter
  of the puts from \<open>a\<close> to \<open>b\<close>.
\<close>

datatype 'v stage =
    Free
  | Bound nat
  | Catch nat nat
  | Put_ticket nat
  | Put_checked nat "'v slot"
  | Put_ready nat "'v slot"
  | Take_ticket nat
  | Take_swap nat "int \<times> bool \<times> bool" int bool
  | Take_found nat "'v option"

fun put_ticket :: "'v stage \<Rightarrow> nat option" where
  "put_ticket (Put_ticket t) = Some t"
| "put_ticket (Put_checked t e) = Some t"
| "put_ticket (Put_ready t e) = Some t"
| "put_ticket _ = None"

fun take_ticket :: "'v stage \<Rightarrow> nat option" where
  "take_ticket (Take_ticket h) = Some h"
| "take_ticket (Take_swap h sh c' sf') = Some h"
| "take_ticket (Take_found h w) = Some h"
| "take_ticket _ = None"

record 'v tring =
  t_slots :: "nat \<Rightarrow> 'v slot"
  t_head :: nat
  t_tail :: nat
  t_put :: "(nat \<times> 'v) list"
  t_taken :: "(nat \<times> 'v) list"
  t_given :: "nat set"
  t_stages :: "nat \<Rightarrow> 'v stage"

definition enter :: "nat \<Rightarrow> 'v stage \<Rightarrow> 'v tring \<Rightarrow> 'v tring" where
  "enter i st r = r\<lparr> t_stages := (t_stages r)(i := st) \<rparr>"

text \<open>
  What a take that gives its slot up changes: an empty slot moves to the cycle of its ticket, a full one
  becomes unsafe; the value stays. It depends on the shape of the slot only, which is all that
  lfring_cas2.h reads.
\<close>

definition s_shape :: "'v slot \<Rightarrow> int \<times> bool \<times> bool" where
  "s_shape e = (s_cycle e, s_safe e, s_held e = None)"

fun swap_ok :: "nat \<Rightarrow> nat \<Rightarrow> int \<times> bool \<times> bool \<Rightarrow> int \<Rightarrow> bool \<Rightarrow> bool" where
  "swap_ok order h (c, sf, em) c' sf' \<longleftrightarrow> c < int (h div 2 ^ (order + 1)) \<and>
     (if em then c' = int (h div 2 ^ (order + 1)) \<and> sf' = sf else c' = c \<and> \<not> sf' \<and> sf)"

definition missed :: "nat \<Rightarrow> 'v stage \<Rightarrow> bool" where
  "missed h st \<longleftrightarrow> st = Free \<or> st = Bound (Suc h)"

inductive ring_step :: "nat \<Rightarrow> 'v tring \<Rightarrow> 'v tring \<Rightarrow> bool" for order where
  stay: "ring_step order r r"
| relax: "take_ticket (t_stages r i) = None \<Longrightarrow> ring_step order r (enter i Free r)"
| draw_put: "take_ticket (t_stages r i) = None \<Longrightarrow>
    ring_step order r (enter i (Put_ticket (t_tail r)) (r\<lparr> t_tail := Suc (t_tail r) \<rparr>))"
| look: "put_ticket (t_stages r i) = Some t \<Longrightarrow> s_held (t_slots r t) = None \<Longrightarrow>
    s_cycle (t_slots r t) < int (t div 2 ^ (order + 1)) \<Longrightarrow>
    st = (if s_safe (t_slots r t) then Put_ready t (t_slots r t) else Put_checked t (t_slots r t)) \<Longrightarrow>
    ring_step order r (enter i st r)"
| look_head: "t_stages r i = Put_checked t e \<Longrightarrow> t_head r \<le> t \<Longrightarrow> ring_step order r (enter i (Put_ready t e) r)"
| store: "t_stages r i = Put_ready t (t_slots r t) \<Longrightarrow>
    ring_step order r (enter i Free (r\<lparr>
      t_slots := upd_slot order (t_slots r) t \<lparr> s_cycle = int (t div 2 ^ (order + 1)), s_safe = True, s_held = Some v \<rparr>,
      t_put := t_put r @ [(t, v)] \<rparr>))"
| draw_take: "put_ticket (t_stages r i) = None \<Longrightarrow> take_ticket (t_stages r i) = None \<Longrightarrow>
    ring_step order r (enter i (Take_ticket (t_head r)) (r\<lparr> t_head := Suc (t_head r) \<rparr>))"
| look_again: "take_ticket (t_stages r i) = Some h \<Longrightarrow> ring_step order r (enter i (Take_ticket h) r)"
| miss: "take_ticket (t_stages r i) = Some h \<Longrightarrow> s_cycle (t_slots r h) \<noteq> int (h div 2 ^ (order + 1)) \<Longrightarrow>
    int (h div 2 ^ (order + 1)) \<le> s_cycle (t_slots r h) \<or> \<not> s_safe (t_slots r h) \<and> s_held (t_slots r h) \<noteq> None \<Longrightarrow>
    missed h st \<Longrightarrow> ring_step order r (enter i st (r\<lparr> t_given := insert h (t_given r) \<rparr>))"
| aim: "take_ticket (t_stages r i) = Some h \<Longrightarrow> swap_ok order h (s_shape (t_slots r h)) c' sf' \<Longrightarrow>
    ring_step order r (enter i (Take_swap h (s_shape (t_slots r h)) c' sf') r)"
| swap: "t_stages r i = Take_swap h (s_shape (t_slots r h)) c' sf' \<Longrightarrow> missed h st \<Longrightarrow>
    ring_step order r (enter i st (r\<lparr>
      t_slots := upd_slot order (t_slots r) h ((t_slots r h)\<lparr> s_cycle := c', s_safe := sf' \<rparr>), t_given := insert h (t_given r) \<rparr>))"
| found: "take_ticket (t_stages r i) = Some h \<Longrightarrow> s_cycle (t_slots r h) = int (h div 2 ^ (order + 1)) \<Longrightarrow>
    w = None \<or> w = s_held (t_slots r h) \<Longrightarrow> ring_step order r (enter i (Take_found h w) r)"
| fetch: "t_stages r i = Take_found h w \<Longrightarrow> s_held (t_slots r h) = Some v \<Longrightarrow>
    ring_step order r (enter i Free (r\<lparr> t_slots := upd_slot order (t_slots r) h ((t_slots r h)\<lparr> s_held := None \<rparr>),
      t_taken := t_taken r @ [(h, v)] \<rparr>))"
| look_bound: "put_ticket (t_stages r i) = None \<Longrightarrow> take_ticket (t_stages r i) = None \<Longrightarrow>
    ring_step order r (enter i (Bound (t_head r)) r)"
| aim_catch: "t_stages r i = Bound k \<Longrightarrow> t_tail r \<le> k \<Longrightarrow> ring_step order r (enter i (Catch (t_tail r) k) r)"
| catch: "t_stages r i = Catch (t_tail r) k \<Longrightarrow> ring_step order r (enter i Free (r\<lparr> t_tail := k \<rparr>))"

section \<open>The invariant\<close>

text \<open>An entry a thread has read from the slot of its ticket \<open>t\<close>: empty, of an earlier cycle, perhaps overtaken.\<close>

definition stale_entry :: "nat \<Rightarrow> (nat \<Rightarrow> 'v slot) \<Rightarrow> nat \<Rightarrow> 'v slot \<Rightarrow> bool" where
  "stale_entry order A t e \<longleftrightarrow> s_held e = None \<and> s_cycle e < int (t div 2 ^ (order + 1)) \<and> s_rank e \<le> s_rank (A t)"

definition unused_above :: "nat \<Rightarrow> nat set \<Rightarrow> nat \<Rightarrow> bool" where
  "unused_above order G t \<longleftrightarrow> (\<forall>p \<in> G. p mod 2 ^ (order + 1) = t mod 2 ^ (order + 1) \<longrightarrow> p < t)"

fun stage_ok :: "nat \<Rightarrow> (nat \<Rightarrow> 'v slot) \<Rightarrow> nat \<Rightarrow> (nat \<times> 'v) set \<Rightarrow> nat set \<Rightarrow> 'v stage \<Rightarrow> bool" where
  "stage_ok order A H P G (Bound k) \<longleftrightarrow> k \<le> H"
| "stage_ok order A H P G (Catch a b) \<longleftrightarrow> a \<le> b \<and> b \<le> H"
| "stage_ok order A H P G (Put_checked t e) \<longleftrightarrow> stale_entry order A t e"
| "stage_ok order A H P G (Put_ready t e) \<longleftrightarrow> stale_entry order A t e \<and> (A t = e \<longrightarrow> unused_above order G t)"
| "stage_ok order A H P G (Take_swap h sh c' sf') \<longleftrightarrow> swap_ok order h sh c' sf'"
| "stage_ok order A H P G (Take_found h w) \<longleftrightarrow> (case w of None \<Rightarrow> h \<in> fst ` P | Some v \<Rightarrow> (h, v) \<in> P)"
| "stage_ok order A H P G _ \<longleftrightarrow> True"

text \<open>Who holds which ticket.\<close>

definition tickets_ok ::
  "nat \<Rightarrow> nat \<Rightarrow> (nat \<times> 'v) list \<Rightarrow> (nat \<times> 'v) list \<Rightarrow> nat set \<Rightarrow> (nat \<Rightarrow> 'v stage) \<Rightarrow> bool" where
  "tickets_ok H T P Q G st \<longleftrightarrow>
     distinct (map fst P) \<and> distinct (map fst Q) \<and> set Q \<subseteq> set P \<and> (\<forall>p \<in> fst ` set P. p < T) \<and> (\<forall>p \<in> G. p < H) \<and>
     (\<forall>p \<in> fst ` set Q. p < H) \<and>
     (\<forall>p < H. p \<in> G \<or> p \<in> fst ` set Q \<or> (\<exists>i. take_ticket (st i) = Some p)) \<and>
     (\<forall>i p. take_ticket (st i) = Some p \<longrightarrow> p < H \<and> p \<notin> G \<and> p \<notin> fst ` set Q) \<and>
     (\<forall>i j p. take_ticket (st i) = Some p \<longrightarrow> take_ticket (st j) = Some p \<longrightarrow> i = j) \<and>
     (\<forall>i p. put_ticket (st i) = Some p \<longrightarrow> p < T \<and> p \<notin> fst ` set P) \<and>
     (\<forall>i j p. put_ticket (st i) = Some p \<longrightarrow> put_ticket (st j) = Some p \<longrightarrow> i = j)"

definition all_ok ::
  "nat \<Rightarrow> (nat \<Rightarrow> 'v slot) \<Rightarrow> nat \<Rightarrow> nat \<Rightarrow> (nat \<times> 'v) list \<Rightarrow> (nat \<times> 'v) list \<Rightarrow> nat set \<Rightarrow> (nat \<Rightarrow> 'v stage) \<Rightarrow> bool" where
  "all_ok order A H T P Q G st \<longleftrightarrow>
     slots_ok order A (set P) (set Q) G \<and> tickets_ok H T P Q G st \<and> (\<forall>i. stage_ok order A H (set P) G (st i))"

definition ring_ok :: "nat \<Rightarrow> 'v tring \<Rightarrow> bool" where
  "ring_ok order r \<longleftrightarrow>
     all_ok order (t_slots r) (t_head r) (t_tail r) (t_put r) (t_taken r) (t_given r) (t_stages r)"

lemma tickets_okI:
  assumes "distinct (map fst P)" "distinct (map fst Q)" "set Q \<subseteq> set P" "\<And>p. p \<in> fst ` set P \<Longrightarrow> p < T" "\<And>p. p \<in> G \<Longrightarrow> p < H"
    and "\<And>p. p \<in> fst ` set Q \<Longrightarrow> p < H"
    and "\<And>p. p < H \<Longrightarrow> p \<in> G \<or> p \<in> fst ` set Q \<or> (\<exists>i. take_ticket (st i) = Some p)"
    and "\<And>i p. take_ticket (st i) = Some p \<Longrightarrow> p < H \<and> p \<notin> G \<and> p \<notin> fst ` set Q"
    and "\<And>i j p. take_ticket (st i) = Some p \<Longrightarrow> take_ticket (st j) = Some p \<Longrightarrow> i = j"
    and "\<And>i p. put_ticket (st i) = Some p \<Longrightarrow> p < T \<and> p \<notin> fst ` set P"
    and "\<And>i j p. put_ticket (st i) = Some p \<Longrightarrow> put_ticket (st j) = Some p \<Longrightarrow> i = j"
  shows "tickets_ok H T P Q G st"
  unfolding tickets_ok_def by (intro conjI ballI allI impI; (rule assms; assumption)?) (use assms(8,10) in blast)+

lemma tickets_okD:
  assumes "tickets_ok H T P Q G st"
  shows "distinct (map fst P)" "distinct (map fst Q)" "set Q \<subseteq> set P" "p \<in> fst ` set P \<Longrightarrow> p < T" "p \<in> G \<Longrightarrow> p < H"
    and "p \<in> fst ` set Q \<Longrightarrow> p < H"
    and "p < H \<Longrightarrow> p \<in> G \<or> p \<in> fst ` set Q \<or> (\<exists>i. take_ticket (st i) = Some p)"
    and "take_ticket (st i) = Some p \<Longrightarrow> p < H \<and> p \<notin> G \<and> p \<notin> fst ` set Q"
    and "take_ticket (st i) = Some p \<Longrightarrow> take_ticket (st j) = Some p \<Longrightarrow> i = j"
    and "put_ticket (st i) = Some p \<Longrightarrow> p < T \<and> p \<notin> fst ` set P"
    and "put_ticket (st i) = Some p \<Longrightarrow> put_ticket (st j) = Some p \<Longrightarrow> i = j"
  using assms unfolding tickets_ok_def by (elim conjE, blast)+

lemma stage_ok_mono:
  assumes "stage_ok order A H P G st" and A: "\<And>p. A' p = A p \<or> s_rank (A p) < s_rank (A' p)"
    and "P \<subseteq> P'" "H \<le> H'"
    and G: "\<And>t. A' t = A t \<Longrightarrow> s_held (A t) = None \<Longrightarrow> s_cycle (A t) < int (t div 2 ^ (order + 1)) \<Longrightarrow>
      unused_above order G t \<Longrightarrow> unused_above order G' t"
  shows "stage_ok order A' H' P' G' st"
proof -
  have st: "stale_entry order A' t en" if "stale_entry order A t en" for t en
    using that A [of t] unfolding stale_entry_def by auto
  show ?thesis
  proof (cases st)
    case (Put_ready t en)
    have "unused_above order G' t" if e: "A' t = en"
    proof -
      have s: "stale_entry order A t en" and u: "A t = en \<longrightarrow> unused_above order G t"
        using assms(1) Put_ready by simp_all
      have same: "A' t = A t" using A [of t] s e unfolding stale_entry_def by auto
      then show ?thesis using G [of t] s u e unfolding stale_entry_def by simp
    qed
    then show ?thesis using assms(1) Put_ready st by simp
  next
    case (Take_found h w)
    then show ?thesis using assms(1,3) by (cases w) auto
  qed (use assms(1,4) st in auto)
qed

lemma tickets_goto:
  assumes "tickets_ok H T P Q G st" and "put_ticket new = put_ticket (st t) \<or> put_ticket new = None"
    and "take_ticket new = take_ticket (st t)"
  shows "tickets_ok H T P Q G (st(t := new))"
proof -
  have d: "take_ticket ((st(t := new)) i) = take_ticket (st i)" for i using assms(3) by simp
  have e: "put_ticket ((st(t := new)) i) = Some p \<Longrightarrow> put_ticket (st i) = Some p" for i p
    using assms(2) by (auto split: if_splits)
  show ?thesis using assms(1) e unfolding tickets_ok_def d by meson
qed

lemma all_goto:
  assumes "all_ok order A H T P Q G st" and "put_ticket new = put_ticket (st t) \<or> put_ticket new = None"
    and "take_ticket new = take_ticket (st t)" and "stage_ok order A H (set P) G new"
  shows "all_ok order A H T P Q G (st(t := new))"
  using assms tickets_goto [of H T P Q G st new t] unfolding all_ok_def by simp

lemma all_more:
  assumes "all_ok order A H T P Q G st" and "T \<le> T'"
  shows "all_ok order A H T' P Q G st"
proof -
  note D = tickets_okD [of H T P Q G st]
  have k: "tickets_ok H T P Q G st" using assms unfolding all_ok_def by blast
  have "tickets_ok H T' P Q G st"
  proof (rule tickets_okI)
    show "p < T'" if "p \<in> fst ` set P" for p using D(4) [OF k that] assms(2) by simp
    show "p < T' \<and> p \<notin> fst ` set P" if "put_ticket (st i) = Some p" for i p using D(10) [OF k that] assms(2) by simp
  qed (rule D [OF k]; assumption)+
  then show ?thesis using assms unfolding all_ok_def by blast
qed

lemma all_take_tail:
  assumes ok: "all_ok order A H T P Q G st" and old: "take_ticket (st t) = None"
  shows "all_ok order A H (T + 1) P Q G (st(t := Put_ticket T))"
proof -
  have e: "put_ticket ((st(t := Put_ticket T)) i) = (if i = t then Some T else put_ticket (st i))" for i by simp
  have d: "take_ticket ((st(t := Put_ticket T)) i) = take_ticket (st i)" for i using old by simp
  have k: "tickets_ok H T P Q G st" using ok unfolding all_ok_def by blast
  note D = tickets_okD [OF this]
  have fresh: "put_ticket (st i) \<noteq> Some T" "T \<notin> fst ` set P" for i using D(10) [of i T] D(4) [of T] by blast+
  have "tickets_ok H (T + 1) P Q G (st(t := Put_ticket T))"
  proof (rule tickets_okI, unfold d e)
    show "p < T + 1" if "p \<in> fst ` set P" for p using D(4) [OF that] by simp
    show "p < T + 1 \<and> p \<notin> fst ` set P" if "(if i = t then Some T else put_ticket (st i)) = Some p" for i p
      using that fresh(2) D(10) [of i p] by (auto split: if_splits)
    show "i = j" if "(if i = t then Some T else put_ticket (st i)) = Some p" "(if j = t then Some T else put_ticket (st j)) = Some p" for i j p
      using that fresh(1) D(11) [of i p j] by (auto split: if_splits)
  qed (rule D; assumption)+
  then show ?thesis using ok unfolding all_ok_def by simp
qed

lemma all_take_head:
  assumes ok: "all_ok order A H T P Q G st" and old: "put_ticket (st t) = None" "take_ticket (st t) = None"
  shows "all_ok order A (H + 1) T P Q G (st(t := Take_ticket H))"
proof -
  have e: "put_ticket ((st(t := Take_ticket H)) i) = put_ticket (st i)" for i using old by simp
  have d: "take_ticket ((st(t := Take_ticket H)) i) = (if i = t then Some H else take_ticket (st i))" for i by simp
  have "tickets_ok H T P Q G st" using ok unfolding all_ok_def by blast
  note D = tickets_okD [OF this]
  have fresh: "take_ticket (st i) \<noteq> Some H" "H \<notin> G" "H \<notin> fst ` set Q" for i
    using D(8) [of i H] D(5) [of H] D(6) [of H] by blast+
  have "tickets_ok (H + 1) T P Q G (st(t := Take_ticket H))"
  proof (rule tickets_okI, unfold d e)
    show "p < H + 1" if "p \<in> G" for p using D(5) [OF that] by simp
    show "p < H + 1" if "p \<in> fst ` set Q" for p using D(6) [OF that] by simp
    show "p \<in> G \<or> p \<in> fst ` set Q \<or> (\<exists>i. (if i = t then Some H else take_ticket (st i)) = Some p)" if p: "p < H + 1" for p
    proof (cases "p = H")
      case False
      then have "p < H" using p by simp
      from D(7) [OF this] show ?thesis using old by (metis option.distinct(1))
    qed (auto intro!: exI [of _ t])
    show "p < H + 1 \<and> p \<notin> G \<and> p \<notin> fst ` set Q" if "(if i = t then Some H else take_ticket (st i)) = Some p" for i p
      using that fresh D(8) [of i p] by (auto split: if_splits)
    show "i = j" if "(if i = t then Some H else take_ticket (st i)) = Some p" "(if j = t then Some H else take_ticket (st j)) = Some p" for i j p
      using that fresh D(9) [of i p j] by (auto split: if_splits)
  qed (rule D; assumption)+
  moreover have "stage_ok order A (H + 1) (set P) G (st i)" for i
  proof (rule stage_ok_mono)
    show "stage_ok order A H (set P) G (st i)" using ok unfolding all_ok_def by blast
  qed simp_all
  ultimately show ?thesis using ok unfolding all_ok_def by simp
qed

text \<open>A dequeue that finds nothing for its ticket \<open>h\<close>, with or without changing the slot.\<close>

lemma all_give_up:
  assumes ok: "all_ok order A H T P Q G st" and h: "take_ticket (st t) = Some h"
    and new: "take_ticket new = None" "put_ticket new = None" "stage_ok order A' H (set P) (insert h G) new"
    and slots: "slots_ok order A' (set P) (set Q) (insert h G)"
    and A: "\<And>p. A' p = A p \<or> s_rank (A p) < s_rank (A' p)"
    and G: "\<And>p. p mod 2 ^ (order + 1) = h mod 2 ^ (order + 1) \<Longrightarrow> A' p = A p \<Longrightarrow> s_held (A p) = None \<Longrightarrow>
      s_cycle (A p) < int (p div 2 ^ (order + 1)) \<Longrightarrow> h < p"
  shows "all_ok order A' H T P Q (insert h G) (st(t := new))"
proof -
  have k: "tickets_ok H T P Q G st" using ok unfolding all_ok_def by blast
  have e: "put_ticket ((st(t := new)) i) = Some p \<Longrightarrow> put_ticket (st i) = Some p" for i p
    using new(2) by (auto split: if_splits)
  have d: "take_ticket ((st(t := new)) i) = (if i = t then None else take_ticket (st i))" for i using new(1) by simp
  note D = tickets_okD [OF k]
  have hp: "h < H" "h \<notin> fst ` set Q" and uniq: "\<And>i. take_ticket (st i) = Some h \<Longrightarrow> i = t"
    using D(8) [OF h] D(9) [OF _ h] by blast+
  have "tickets_ok H T P Q (insert h G) (st(t := new))"
  proof (rule tickets_okI, unfold d)
    show "p < H" if "p \<in> insert h G" for p using D(5) hp that by blast
    show "p \<in> insert h G \<or> p \<in> fst ` set Q \<or> (\<exists>i. (if i = t then None else take_ticket (st i)) = Some p)" if p: "p < H" for p
    proof (cases "p = h")
      case False
      then show ?thesis using D(7) [OF p] h by (metis insertCI option.inject)
    qed simp
    show "p < H \<and> p \<notin> insert h G \<and> p \<notin> fst ` set Q" if "(if i = t then None else take_ticket (st i)) = Some p" for i p
      using that uniq [of i] D(8) [of i p] by (auto split: if_splits)
    show "i = j" if "(if i = t then None else take_ticket (st i)) = Some p" "(if j = t then None else take_ticket (st j)) = Some p" for i j p
      using that D(9) [of i p j] by (auto split: if_splits)
    show "p < T \<and> p \<notin> fst ` set P" if "put_ticket ((st(t := new)) i) = Some p" for i p using D(10) [OF e [OF that]] .
    show "i = j" if "put_ticket ((st(t := new)) i) = Some p" "put_ticket ((st(t := new)) j) = Some p" for i j p
      using D(11) [OF e [OF that(1)] e [OF that(2)]] .
  qed (rule D; assumption)+
  moreover have "stage_ok order A' H (set P) (insert h G) (st i)" for i
  proof (rule stage_ok_mono [of order A H "set P" G])
    show "stage_ok order A H (set P) G (st i)" using ok unfolding all_ok_def by blast
    show "unused_above order (insert h G) p"
      if "A' p = A p" "s_held (A p) = None" "s_cycle (A p) < int (p div 2 ^ (order + 1))" "unused_above order G p" for p
      using that G [of p] unfolding unused_above_def by auto
  qed (use A in auto)
  ultimately show ?thesis using slots new(3) unfolding all_ok_def by simp
qed


lemma all_put:
  assumes ok: "all_ok order A H T P Q G st" and h: "put_ticket (st t) = Some p"
    and new: "take_ticket new = None" "put_ticket new = None" "take_ticket (st t) = None"
      "stage_ok order A' H (set (P @ [(p, v)])) G new"
    and slots: "slots_ok order A' (set (P @ [(p, v)])) (set Q) G"
    and A: "\<And>p. A' p = A p \<or> s_rank (A p) < s_rank (A' p)"
  shows "all_ok order A' H T (P @ [(p, v)]) Q G (st(t := new))"
proof -
  have "tickets_ok H T P Q G st" using ok unfolding all_ok_def by blast
  note D = tickets_okD [OF this]
  have e: "put_ticket ((st(t := new)) i) = (if i = t then None else put_ticket (st i))" for i using new(2) by simp
  have d: "take_ticket ((st(t := new)) i) = take_ticket (st i)" for i using new(1,3) by simp
  have fresh: "p < T" "p \<notin> fst ` set P" and uniq: "\<And>i. put_ticket (st i) = Some p \<Longrightarrow> i = t"
    using D(10) [OF h] D(11) [OF _ h] by blast+
  have "tickets_ok H T (P @ [(p, v)]) Q G (st(t := new))"
  proof (rule tickets_okI, unfold d e)
    show "distinct (map fst (P @ [(p, v)]))" using D(1) fresh(2) by simp
    show "set Q \<subseteq> set (P @ [(p, v)])" using D(3) by auto
    show "q < T" if "q \<in> fst ` set (P @ [(p, v)])" for q using that D(4) [of q] fresh(1) by auto
    show "q < T \<and> q \<notin> fst ` set (P @ [(p, v)])" if "(if i = t then None else put_ticket (st i)) = Some q" for i q
      using that D(10) [of i q] uniq [of i] by (auto split: if_splits)
    show "i = j" if "(if i = t then None else put_ticket (st i)) = Some q" "(if j = t then None else put_ticket (st j)) = Some q" for i j q
      using that D(11) [of i q j] by (auto split: if_splits)
  qed (rule D; assumption)+
  moreover have "stage_ok order A' H (set (P @ [(p, v)])) G (st i)" for i
  proof (rule stage_ok_mono)
    show "stage_ok order A H (set P) G (st i)" using ok unfolding all_ok_def by blast
  qed (use A in auto)
  ultimately show ?thesis using slots new(4) unfolding all_ok_def by simp
qed

lemma all_take:
  assumes ok: "all_ok order A H T P Q G st" and h: "take_ticket (st t) = Some h" and hv: "(h, v) \<in> set P"
    and new: "take_ticket new = None" "put_ticket new = None" "stage_ok order A' H (set P) G new"
    and slots: "slots_ok order A' (set P) (set (Q @ [(h, v)])) G"
    and A: "\<And>p. A' p = A p \<or> s_rank (A p) < s_rank (A' p)"
  shows "all_ok order A' H T P (Q @ [(h, v)]) G (st(t := new))"
proof -
  have "tickets_ok H T P Q G st" using ok unfolding all_ok_def by blast
  note D = tickets_okD [OF this]
  have e: "put_ticket ((st(t := new)) i) = Some p \<Longrightarrow> put_ticket (st i) = Some p" for i p
    using new(2) by (auto split: if_splits)
  have d: "take_ticket ((st(t := new)) i) = (if i = t then None else take_ticket (st i))" for i using new(1) by simp
  have fresh: "h < H" "h \<notin> fst ` set Q" "h \<notin> G" and uniq: "\<And>i. take_ticket (st i) = Some h \<Longrightarrow> i = t"
    using D(8) [OF h] D(9) [OF _ h] by blast+
  have "tickets_ok H T P (Q @ [(h, v)]) G (st(t := new))"
  proof (rule tickets_okI, unfold d)
    show "distinct (map fst (Q @ [(h, v)]))" using D(2) fresh(2) by simp
    show "set (Q @ [(h, v)]) \<subseteq> set P" using D(3) hv by auto
    show "p < H" if "p \<in> fst ` set (Q @ [(h, v)])" for p using that D(6) [of p] fresh(1) by auto
    show "p \<in> G \<or> p \<in> fst ` set (Q @ [(h, v)]) \<or> (\<exists>i. (if i = t then None else take_ticket (st i)) = Some p)" if p: "p < H" for p
    proof (cases "p = h")
      case False
      consider "p \<in> G" | "p \<in> fst ` set Q" | i where "take_ticket (st i) = Some p" using D(7) [OF p] by blast
      then show ?thesis
      proof cases
        case (3 i)
        then have "i \<noteq> t" using h False by auto
        then show ?thesis using 3 by (intro disjI2 exI [of _ i]) simp
      qed simp_all
    qed simp
    show "p < H \<and> p \<notin> G \<and> p \<notin> fst ` set (Q @ [(h, v)])" if "(if i = t then None else take_ticket (st i)) = Some p" for i p
      using that uniq [of i] D(8) [of i p] by (auto split: if_splits)
    show "i = j" if "(if i = t then None else take_ticket (st i)) = Some p" "(if j = t then None else take_ticket (st j)) = Some p" for i j p
      using that D(9) [of i p j] by (auto split: if_splits)
    show "p < T \<and> p \<notin> fst ` set P" if "put_ticket ((st(t := new)) i) = Some p" for i p using D(10) [OF e [OF that]] .
    show "i = j" if "put_ticket ((st(t := new)) i) = Some p" "put_ticket ((st(t := new)) j) = Some p" for i j p
      using D(11) [OF e [OF that(1)] e [OF that(2)]] .
  qed (rule D; assumption)+
  moreover have "stage_ok order A' H (set P) G (st i)" for i
  proof (rule stage_ok_mono)
    show "stage_ok order A H (set P) G (st i)" using ok unfolding all_ok_def by blast
  qed (use A in auto)
  ultimately show ?thesis using slots new(3) unfolding all_ok_def by simp
qed



lemma all_okD:
  assumes "all_ok order A H T P Q G st"
  shows "slots_ok order A (set P) (set Q) G" "tickets_ok H T P Q G st" "stage_ok order A H (set P) G (st i)"
  using assms unfolding all_ok_def by blast+

text \<open>The slots of an initialised ring: spent below \<open>s\<close>, filled from \<open>s\<close> to \<open>e\<close>, unused from \<open>e\<close> on.\<close>

lemma initial_slots:
  assumes se: "s \<le> e" "e \<le> 2 ^ order" and per: "\<And>p. A p = A (p mod 2 ^ (order + 1))"
    and cyc: "\<And>r. r < 2 ^ (order + 1) \<Longrightarrow> s_cycle (A r) = (if r < s \<or> r < e then 0 else - 1)"
    and held: "\<And>r. r < 2 ^ (order + 1) \<Longrightarrow> s_held (A r) = (if s \<le> r \<and> r < e then Some (val r) else None)"
  shows "slots_ok order A (set (map (\<lambda>i. (i, val i)) [s..<e])) {} {..<s}"
proof -
  have big: "e < 2 ^ (order + 1)" using se(2) by (simp add: le_less_trans)
  show ?thesis
  proof (rule slots_okI)
    fix p show "A p = A (p mod 2 ^ (order + 1))" by (rule per)
  next
    fix r :: nat assume r: "r < 2 ^ (order + 1)"
    show "- 1 \<le> s_cycle (A r)" unfolding cyc [OF r] by simp
    show "\<exists>c. s_cycle (A r) = int c \<and> (2 ^ (order + 1) * c + r, w) \<in> set (map (\<lambda>i. (i, val i)) [s..<e]) - {}"
      if "s_held (A r) = Some w" for w
      using that unfolding cyc [OF r] held [OF r] by (intro exI [of _ 0]) (auto split: if_splits)
    show "s_cycle (A r) = - 1 \<or> (\<exists>c. s_cycle (A r) = int c \<and> 2 ^ (order + 1) * c + r \<in> {..<s} \<union> fst ` {})"
      if "s_held (A r) = None"
      using that unfolding cyc [OF r] held [OF r] by (cases "r < s") (auto split: if_splits intro!: exI [of _ 0])
  next
    fix p w assume "(p, w) \<in> set (map (\<lambda>i. (i, val i)) [s..<e]) - {}"
    then have p: "s \<le> p" "p < e" "w = val p" by auto
    then have "p < 2 ^ (order + 1)" using big by simp
    then show "s_cycle (A p) = int (p div 2 ^ (order + 1)) \<and> s_held (A p) = Some w"
      using p by (simp add: cyc held)
  next
    fix p assume "p \<in> {..<s}"
    then have p: "p < s" "p < 2 ^ (order + 1)" using se big by simp_all
    then show "p \<notin> fst ` set (map (\<lambda>i. (i, val i)) [s..<e])" by auto
    show "int (p div 2 ^ (order + 1)) \<le> s_cycle (A p) \<or> \<not> s_safe (A p)" using p by (simp add: cyc)
  qed
qed

lemma initial_tickets: "s \<le> e \<Longrightarrow> tickets_ok s e (map (\<lambda>i. (i, val i)) [s..<e]) [] {..<s} (\<lambda>_. Free)"
  by (rule tickets_okI) (auto simp: comp_def)

text \<open>The cycles in the slots are those of tickets that have been drawn.\<close>

lemma cycle_bound:
  assumes ok: "all_ok order A H T P Q G st" and "H \<le> B" "T \<le> B"
  shows "- 1 \<le> s_cycle (A p)" and "2 ^ (order + 1) * s_cycle (A p) \<le> int B"
proof -
  note S = slots_okD [OF all_okD(1) [OF ok]] and D = tickets_okD [OF all_okD(2) [OF ok]]
  show "- 1 \<le> s_cycle (A p)" by (rule S(2))
  have near: "q < B" if "q \<in> G \<union> fst ` set P" for q
    using that
  proof
    assume "q \<in> G" from D(5) [OF this] show ?thesis using assms(2) by simp
  next
    assume "q \<in> fst ` set P" from D(4) [OF this] show ?thesis using assms(3) by simp
  qed
  have QP: "fst ` set Q \<subseteq> fst ` set P" using D(3) by blast
  consider "s_cycle (A p) = - 1"
    | c where "s_cycle (A p) = int c" "2 ^ (order + 1) * c + p mod 2 ^ (order + 1) \<in> G \<union> fst ` set P"
  proof (cases "s_held (A p)")
    case None
    then show ?thesis using S(4) [OF None] QP that by blast
  next
    case (Some v)
    then obtain c where c: "s_cycle (A p) = int c" "(2 ^ (order + 1) * c + p mod 2 ^ (order + 1), v) \<in> set P"
      using S(3) by blast
    then have "2 ^ (order + 1) * c + p mod 2 ^ (order + 1) \<in> fst ` set P" by (intro image_eqI [OF _ c(2)]) simp
    then show ?thesis using c(1) that by blast
  qed
  then show "2 ^ (order + 1) * s_cycle (A p) \<le> int B"
  proof cases
    case 1
    have p: "0 \<le> X \<Longrightarrow> X * - 1 \<le> int B" for X :: int by simp
    show ?thesis unfolding 1 by (rule p) simp
  next
    case (2 c)
    have "2 ^ (order + 1) * c < B" by (rule le_less_trans [OF le_add1 near [OF 2(2)]])
    then have "int (2 ^ (order + 1) * c) < int B" by (simp only: of_nat_less_iff)
    then show ?thesis using 2(1) by simp
  qed
qed

text \<open>A take whose slot has the cycle of its ticket finds its value there.\<close>

lemma found_value:
  assumes ok: "all_ok order A H T P Q G st" and t: "take_ticket (st i) = Some h"
    and c: "s_cycle (A h) = int (h div 2 ^ (order + 1))"
  shows "\<exists>v. s_held (A h) = Some v \<and> (h, v) \<in> set P"
proof -
  note S = slots_okD [OF all_okD(1) [OF ok]] and D = tickets_okD [OF all_okD(2) [OF ok]]
  have hp: "h \<notin> G" "h \<notin> fst ` set Q" using D(8) [OF t] by blast+
  show ?thesis
  proof (cases "s_held (A h)")
    case None
    then show ?thesis using S(4) [OF None] c hp slot_of_pos [of order h] by auto
  next
    case (Some v)
    then obtain c' where "s_cycle (A h) = int c'" "(2 ^ (order + 1) * c' + h mod 2 ^ (order + 1), v) \<in> set P"
      using S(3) [OF Some] by blast
    then show ?thesis using Some c slot_of_pos [of order h] by auto
  qed
qed

lemma swap_rank: "swap_ok order h (s_shape e) c' sf' \<Longrightarrow> s_rank e < s_rank (e\<lparr> s_cycle := c', s_safe := sf' \<rparr>)"
  by (auto simp: s_shape_def s_rank_def split: if_splits)

lemma look_ok:
  assumes ok: "all_ok order A H T P Q G st" and t: "put_ticket (st i) = Some t"
    and e: "s_held (A t) = None" "s_cycle (A t) < int (t div 2 ^ (order + 1))" "s_safe (A t)"
  shows "unused_above order G t"
  unfolding unused_above_def
proof (intro ballI impI)
  note S = slots_okD [OF all_okD(1) [OF ok]]
  fix p assume p: "p \<in> G" "p mod 2 ^ (order + 1) = t mod 2 ^ (order + 1)"
  have "A p = A t" by (rule S(1) [OF p(2)])
  then have "int (p div 2 ^ (order + 1)) < int (t div 2 ^ (order + 1))" using S(7) [OF p(1)] e by auto
  then show "p < t" by (metis div_le_mono leI not_le of_nat_less_iff)
qed

lemma missed_tickets: "missed h st \<Longrightarrow> put_ticket st = None \<and> take_ticket st = None"
  by (auto simp: missed_def)

lemma missed_stage: "missed h st \<Longrightarrow> h < H \<Longrightarrow> stage_ok order A H P G st"
  by (auto simp: missed_def)

section \<open>Every step keeps the invariant\<close>

lemma ring_ok_enter:
  assumes "ring_ok order r" and "put_ticket st = put_ticket (t_stages r i) \<or> put_ticket st = None"
    and "take_ticket st = take_ticket (t_stages r i)"
    and "stage_ok order (t_slots r) (t_head r) (set (t_put r)) (t_given r) st"
  shows "ring_ok order (enter i st r)"
  using all_goto [OF assms(1) [unfolded ring_ok_def] assms(2-4)] by (simp add: ring_ok_def enter_def)

lemma ring_ok_miss:
  assumes ok: "ring_ok order r" and t: "take_ticket (t_stages r i) = Some h" and st: "missed h st"
    and c: "s_cycle (t_slots r h) \<noteq> int (h div 2 ^ (order + 1))"
      "int (h div 2 ^ (order + 1)) \<le> s_cycle (t_slots r h) \<or> \<not> s_safe (t_slots r h) \<and> s_held (t_slots r h) \<noteq> None"
  shows "ring_ok order (enter i st (r\<lparr> t_given := insert h (t_given r) \<rparr>))"
proof -
  note ok' = ok [unfolded ring_ok_def]
  note S = slots_okD [OF all_okD(1) [OF ok']] and D = tickets_okD [OF all_okD(2) [OF ok']]
  have hp: "h < t_head r" "h \<notin> fst ` set (t_taken r)" using D(8) [OF t] by blast+
  have "all_ok order (t_slots r) (t_head r) (t_tail r) (t_put r) (t_taken r) (insert h (t_given r)) ((t_stages r)(i := st))"
  proof (rule all_give_up [OF ok' t])
    show "slots_ok order (t_slots r) (set (t_put r)) (set (t_taken r)) (insert h (t_given r))"
      by (rule slots_give_up [OF all_okD(1) [OF ok'] hp(2) c(1)]) (use c(2) in blast)
    fix p assume p: "p mod 2 ^ (order + 1) = h mod 2 ^ (order + 1)" "s_held (t_slots r p) = None"
      "s_cycle (t_slots r p) < int (p div 2 ^ (order + 1))"
    have "t_slots r p = t_slots r h" by (rule S(1) [OF p(1)])
    then have "h div 2 ^ (order + 1) < p div 2 ^ (order + 1)" using c p(2,3) by auto
    then show "h < p" by (metis div_le_mono leI not_le)
  qed (use missed_tickets [OF st] missed_stage [OF st hp(1)] in auto)
  then show ?thesis by (simp add: ring_ok_def enter_def)
qed

lemma ring_ok_swap:
  assumes ok: "ring_ok order r" and t: "t_stages r i = Take_swap h (s_shape (t_slots r h)) c' sf'" and st: "missed h st"
  shows "ring_ok order (enter i st (r\<lparr> t_slots := upd_slot order (t_slots r) h ((t_slots r h)\<lparr> s_cycle := c', s_safe := sf' \<rparr>),
    t_given := insert h (t_given r) \<rparr>))"
proof -
  define e' where "e' = (t_slots r h)\<lparr> s_cycle := c', s_safe := sf' \<rparr>"
  note ok' = ok [unfolded ring_ok_def]
  note S = slots_okD [OF all_okD(1) [OF ok']] and D = tickets_okD [OF all_okD(2) [OF ok']]
  have tk: "take_ticket (t_stages r i) = Some h" using t by simp
  have hp: "h < t_head r" "h \<notin> fst ` set (t_taken r)" using D(8) [OF tk] by blast+
  have sw: "swap_ok order h (s_shape (t_slots r h)) c' sf'" using all_okD(3) [OF ok', of i] t by simp
  note rank = swap_rank [OF sw, folded e'_def]
  have A: "upd_slot order (t_slots r) h e' p = t_slots r p \<or> s_rank (t_slots r p) < s_rank (upd_slot order (t_slots r) h e' p)" for p
    using S(1) [of p h] rank by (auto simp: upd_at)
  have slots: "slots_ok order (upd_slot order (t_slots r) h e') (set (t_put r)) (set (t_taken r)) (insert h (t_given r))"
  proof (cases "s_held (t_slots r h) = None")
    case True
    then show ?thesis using sw by (intro slots_advance [OF all_okD(1) [OF ok'] hp(2)]) (simp_all add: e'_def s_shape_def)
  next
    case False
    then have e: "s_cycle e' = s_cycle (t_slots r h)" "s_held e' = s_held (t_slots r h)" "\<not> s_safe e'"
      "s_cycle (t_slots r h) < int (h div 2 ^ (order + 1))"
      using sw by (simp_all add: e'_def s_shape_def)
    have "slots_ok order (upd_slot order (t_slots r) h e') (set (t_put r)) (set (t_taken r)) (t_given r)"
      by (rule slots_spoil [OF all_okD(1) [OF ok'] e(1-3)])
    then show ?thesis using e by (intro slots_give_up hp(2)) (simp_all add: upd_at)
  qed
  have "all_ok order (upd_slot order (t_slots r) h e') (t_head r) (t_tail r) (t_put r) (t_taken r) (insert h (t_given r))
      ((t_stages r)(i := st))"
  proof (rule all_give_up [OF ok' tk _ _ _ slots A])
    fix p assume p: "p mod 2 ^ (order + 1) = h mod 2 ^ (order + 1)" "upd_slot order (t_slots r) h e' p = t_slots r p"
    then have "e' = t_slots r h" using S(1) [OF p(1)] by (simp add: upd_at)
    then show "h < p" using rank by simp
  qed (use missed_tickets [OF st] missed_stage [OF st hp(1)] in auto)
  then show ?thesis by (simp add: ring_ok_def enter_def e'_def)
qed

lemma ring_ok_store:
  assumes ok: "ring_ok order r" and t: "t_stages r i = Put_ready t (t_slots r t)"
    and e: "s_cycle e = int (t div 2 ^ (order + 1))" "s_safe e" "s_held e = Some v"
  shows "ring_ok order (enter i Free (r\<lparr> t_slots := upd_slot order (t_slots r) t e, t_put := t_put r @ [(t, v)] \<rparr>))"
proof -
  note ok' = ok [unfolded ring_ok_def]
  note S = slots_okD [OF all_okD(1) [OF ok']] and D = tickets_okD [OF all_okD(2) [OF ok']]
  have tk: "put_ticket (t_stages r i) = Some t" using t by simp
  have k: "stale_entry order (t_slots r) t (t_slots r t)" "unused_above order (t_given r) t"
    using all_okD(3) [OF ok', of i] t by simp_all
  then have st: "s_held (t_slots r t) = None" "s_cycle (t_slots r t) < int (t div 2 ^ (order + 1))"
    unfolding stale_entry_def by blast+
  have fresh: "t \<notin> fst ` set (t_put r)" using D(10) [OF tk] by blast
  have "slots_ok order (upd_slot order (t_slots r) t e) (insert (t, v) (set (t_put r))) (set (t_taken r)) (t_given r)"
    by (rule slots_put [OF all_okD(1) [OF ok'] st fresh D(3) _ e]) (use k(2) in \<open>auto simp: unused_above_def\<close>)
  then have "all_ok order (upd_slot order (t_slots r) t e) (t_head r) (t_tail r) (t_put r @ [(t, v)]) (t_taken r) (t_given r)
      ((t_stages r)(i := Free))"
  proof (intro all_put [OF ok' tk])
    fix p
    show "upd_slot order (t_slots r) t e p = t_slots r p \<or> s_rank (t_slots r p) < s_rank (upd_slot order (t_slots r) t e p)"
      using S(1) [of p t] e(1) st(2) by (auto simp: upd_at intro: s_rank_less_cycle)
  qed (use t in simp_all)
  then show ?thesis by (simp add: ring_ok_def enter_def)
qed

lemma ring_ok_fetch:
  assumes ok: "ring_ok order r" and t: "t_stages r i = Take_found h w" and v: "s_held (t_slots r h) = Some v"
  shows "ring_ok order (enter i Free (r\<lparr> t_slots := upd_slot order (t_slots r) h ((t_slots r h)\<lparr> s_held := None \<rparr>),
      t_taken := t_taken r @ [(h, v)] \<rparr>))" and "w = None \<or> w = Some v" and "(h, v) \<in> set (t_put r)"
proof -
  note ok' = ok [unfolded ring_ok_def]
  note S = slots_okD [OF all_okD(1) [OF ok']] and D = tickets_okD [OF all_okD(2) [OF ok']]
  have tk: "take_ticket (t_stages r i) = Some h" using t by simp
  have hp: "h \<notin> fst ` set (t_taken r)" using D(8) [OF tk] by blast
  have "stage_ok order (t_slots r) (t_head r) (set (t_put r)) (t_given r) (Take_found h w)"
    using all_okD(3) [OF ok', of i] t by simp
  then obtain v' where v': "(h, v') \<in> set (t_put r)" "w = None \<or> w = Some v'" by (cases w) auto
  then have "(h, v') \<in> set (t_put r) - set (t_taken r)" using hp by force
  then have "s_held (t_slots r h) = Some v'" using S(5) by blast
  then have e: "v' = v" using v by simp
  then show "w = None \<or> w = Some v" and hv: "(h, v) \<in> set (t_put r)" using v' by simp_all
  let ?e = "(t_slots r h)\<lparr> s_held := None \<rparr>"
  have slots: "slots_ok order (upd_slot order (t_slots r) h ?e) (set (t_put r)) (set (t_taken r @ [(h, v)])) (t_given r)"
    using slots_take [OF all_okD(1) [OF ok'] hv hp, of ?e] by simp
  have "all_ok order (upd_slot order (t_slots r) h ?e) (t_head r) (t_tail r) (t_put r) (t_taken r @ [(h, v)]) (t_given r)
      ((t_stages r)(i := Free))"
  proof (rule all_take [OF ok' tk hv _ _ _ slots])
    fix p
    show "upd_slot order (t_slots r) h ?e p = t_slots r p \<or> s_rank (t_slots r p) < s_rank (upd_slot order (t_slots r) h ?e p)"
      using S(1) [of p h] v by (auto simp: upd_at s_rank_def)
  qed simp_all
  then show "ring_ok order (enter i Free (r\<lparr> t_slots := upd_slot order (t_slots r) h ?e, t_taken := t_taken r @ [(h, v)] \<rparr>))"
    by (simp add: ring_ok_def enter_def)
qed

theorem ring_step_ok:
  assumes "ring_step order r r'" and ok: "ring_ok order r"
  shows "ring_ok order r'"
  using assms(1)
proof cases
  case stay
  then show ?thesis using ok by simp
next
  case (relax i)
  then show ?thesis by (auto intro: ring_ok_enter [OF ok])
next
  case (draw_put i)
  then show ?thesis using all_take_tail [OF ok [unfolded ring_ok_def], of i] by (simp add: ring_ok_def enter_def)
next
  case (look i t st)
  have "stage_ok order (t_slots r) (t_head r) (set (t_put r)) (t_given r) st"
    using look look_ok [OF ok [unfolded ring_ok_def] look(2)] by (simp add: stale_entry_def)
  moreover have "put_ticket st = put_ticket (t_stages r i)" "take_ticket st = take_ticket (t_stages r i)"
    using look(2,5) by (cases "t_stages r i"; simp)+
  ultimately show ?thesis unfolding look(1) by (intro ring_ok_enter [OF ok]) auto
next
  case (look_head i t e)
  note I = all_okD(3) [OF ok [unfolded ring_ok_def], of i] and D = tickets_okD(5) [OF all_okD(2) [OF ok [unfolded ring_ok_def]]]
  have "unused_above order (t_given r) t" using D look_head(3) by (auto simp: unused_above_def intro: less_le_trans)
  then show ?thesis unfolding look_head(1) using look_head(2) I by (intro ring_ok_enter [OF ok]) auto
next
  case (store i t v)
  then show ?thesis by (auto intro!: ring_ok_store [OF ok])
next
  case (draw_take i)
  then show ?thesis using all_take_head [OF ok [unfolded ring_ok_def], of i] by (simp add: ring_ok_def enter_def)
next
  case (look_again i h)
  then show ?thesis by (cases "t_stages r i") (auto intro!: ring_ok_enter [OF ok])
next
  case (miss i h st)
  then show ?thesis using ring_ok_miss [OF ok miss(2) miss(5) miss(3,4)] by simp
next
  case (aim i h c' sf')
  then show ?thesis by (cases "t_stages r i") (auto intro!: ring_ok_enter [OF ok])
next
  case (swap i h c' sf' st)
  then show ?thesis using ring_ok_swap [OF ok swap(2,3)] by simp
next
  case (found i h w)
  obtain v where "s_held (t_slots r h) = Some v" "(h, v) \<in> set (t_put r)"
    using found_value [OF ok [unfolded ring_ok_def] found(2,3)] by blast
  then have "h \<in> fst ` set (t_put r)" by force
  note v = \<open>s_held (t_slots r h) = Some v\<close> \<open>(h, v) \<in> set (t_put r)\<close>
  have "stage_ok order (t_slots r) (t_head r) (set (t_put r)) (t_given r) (Take_found h w)"
    using found(4) v \<open>h \<in> fst ` set (t_put r)\<close>
    by (elim disjE) (simp_all only: stage_ok.simps option.case)
  then show ?thesis unfolding found(1) using found(2) by (cases "t_stages r i") (auto intro!: ring_ok_enter [OF ok])
next
  case (fetch i h w v)
  then show ?thesis using ring_ok_fetch(1) [OF ok fetch(2,3)] by simp
next
  case (look_bound i)
  then show ?thesis by (auto intro: ring_ok_enter [OF ok])
next
  case (aim_catch i k)
  then show ?thesis using all_okD(3) [OF ok [unfolded ring_ok_def], of i] by (auto intro: ring_ok_enter [OF ok])
next
  case (catch i k)
  have le: "t_tail r \<le> k" using all_okD(3) [OF ok [unfolded ring_ok_def], of i] catch(2) by simp
  have "all_ok order (t_slots r) (t_head r) k (t_put r) (t_taken r) (t_given r) ((t_stages r)(i := Free))"
    by (rule all_goto [OF all_more [OF ok [unfolded ring_ok_def] le]]) (simp_all add: catch(2))
  then show ?thesis unfolding catch(1) by (simp add: ring_ok_def enter_def)
qed

section \<open>What the invariant gives\<close>

lemma ring_no_loss:
  assumes "ring_ok order r"
  shows "distinct (map fst (t_put r)) \<and> distinct (map fst (t_taken r)) \<and> set (t_taken r) \<subseteq> set (t_put r) \<and>
    (\<forall>(p, v) \<in> set (t_put r) - set (t_taken r).
       s_held (t_slots r p) = Some v \<and> (t_head r \<le> p \<or> (\<exists>i. take_ticket (t_stages r i) = Some p)))"
proof -
  note ok = assms [unfolded ring_ok_def]
  note S = slots_okD [OF all_okD(1) [OF ok]] and D = tickets_okD [OF all_okD(2) [OF ok]]
  have "s_held (t_slots r p) = Some v \<and> (t_head r \<le> p \<or> (\<exists>i. take_ticket (t_stages r i) = Some p))"
    if pv: "(p, v) \<in> set (t_put r) - set (t_taken r)" for p v
  proof
    show "s_held (t_slots r p) = Some v" using S(5) [OF pv] by blast
    have "p \<in> fst ` set (t_put r)" using pv by force
    then have "p \<notin> t_given r" using S(6) by blast
    moreover have "p \<notin> fst ` set (t_taken r)"
    proof
      assume "p \<in> fst ` set (t_taken r)"
      then obtain v' where "(p, v') \<in> set (t_taken r)" by auto
      then have "(p, v') \<in> set (t_put r)" using D(3) by blast
      then have "v' = v" using D(1) pv by (auto simp: eq_key_imp_eq_value)
      then show False using \<open>(p, v') \<in> set (t_taken r)\<close> pv by simp
    qed
    ultimately show "t_head r \<le> p \<or> (\<exists>i. take_ticket (t_stages r i) = Some p)" using D(7) [of p] by fastforce
  qed
  then show ?thesis using D(1-3) by blast
qed

lemma ring_quiescent:
  assumes "ring_ok order r" and none: "\<And>i. take_ticket (t_stages r i) = None"
  shows "set (t_taken r) = {x \<in> set (t_put r). fst x < t_head r} \<and> (\<forall>p v. (p, v) \<in> set (t_put r) \<longrightarrow> p < t_tail r)"
proof -
  note ok = assms(1) [unfolded ring_ok_def]
  note S = slots_okD [OF all_okD(1) [OF ok]] and D = tickets_okD [OF all_okD(2) [OF ok]]
  have taken: "(p, v) \<in> set (t_taken r)" if pv: "(p, v) \<in> set (t_put r)" and p: "p < t_head r" for p v
  proof -
    have "p \<in> fst ` set (t_put r)" using pv by force
    then have "p \<notin> t_given r" using S(6) by blast
    then obtain v' where v': "(p, v') \<in> set (t_taken r)" using D(7) [OF p] none by auto
    then have "v' = v" using D(1,3) pv by (auto simp: eq_key_imp_eq_value)
    then show ?thesis using v' by simp
  qed
  show ?thesis using taken D(3,4,6) by fastforce
qed

lemma ring_capacity:
  assumes "ring_ok order r"
  shows "card (set (t_put r) - set (t_taken r)) \<le> 2 ^ (order + 1)"
proof -
  note ok = assms [unfolded ring_ok_def]
  note S = slots_okD [OF all_okD(1) [OF ok]]
  let ?X = "set (t_put r) - set (t_taken r)"
  have "inj_on (\<lambda>x. fst x mod 2 ^ (order + 1)) ?X"
  proof (rule inj_onI)
    fix x y assume xy: "x \<in> ?X" "y \<in> ?X" "fst x mod 2 ^ (order + 1) = fst y mod 2 ^ (order + 1)"
    obtain p v q w where e: "x = (p, v)" "y = (q, w)" by (cases x, cases y) blast
    have a: "t_slots r p = t_slots r q" by (rule S(1)) (use xy(3) e in simp)
    note hx = S(5) [OF xy(1) [unfolded e]] and hy = S(5) [OF xy(2) [unfolded e]]
    have "int (p div 2 ^ (order + 1)) = int (q div 2 ^ (order + 1))" using hx hy a by metis
    then have "p = q" using pos_unique [of p "2 ^ (order + 1)" q] xy(3) e by (simp only: of_nat_eq_iff fst_conv)
    then show "x = y" using hx hy a e by simp
  qed
  then have "card ?X \<le> card {..<2 ^ (order + 1) :: nat}" by (rule card_inj_on_le) auto
  then show ?thesis by simp
qed

section \<open>For the implementations\<close>

lemma ticket_drawn:
  assumes "ring_ok order r"
  shows "put_ticket (t_stages r i) = Some t \<Longrightarrow> t < t_tail r" and "take_ticket (t_stages r i) = Some h \<Longrightarrow> h < t_head r"
  using tickets_okD(8,10) [OF all_okD(2) [OF assms [unfolded ring_ok_def]]] by blast+

lemma put_not_take: "put_ticket st = Some t \<Longrightarrow> take_ticket st = None"
  by (cases st) simp_all

text \<open>The dequeue's case distinction; a ticket that its new point does not hold is given up.\<close>

definition leave_or_keep :: "nat \<Rightarrow> nat \<Rightarrow> 'v stage \<Rightarrow> 'v tring \<Rightarrow> 'v tring" where
  "leave_or_keep i h st r = enter i st (if take_ticket st = None then r\<lparr> t_given := insert h (t_given r) \<rparr> else r)"

end
