(* ===== verification/Scq_Safety.thy ===== *)
theory Scq_Safety
  imports Scq_Ring Ticket_Ring
begin

text \<open>
  The scalable ring of lfring_cas1.h as an implementation of the ticket machine: reading its words as
  numbers, every step of a thread is a step of the machine. What the machine guarantees holds of the ring
  under every interleaving: no index is lost, taken twice or made up, and each is taken with the ticket it
  was put in with.
\<close>

unbundle bit_operations_syntax

section \<open>The abstraction\<close>

fun scq_stage :: "nat \<Rightarrow> scq_pc \<Rightarrow> u64 stage" where
  "scq_stage order (E_entry b x tail) = Put_ticket (unat tail)"
| "scq_stage order (E_head b x tail en) = Put_checked (unat tail) (scq_view order en)"
| "scq_stage order (E_cas b x tail en) = Put_ready (unat tail) (scq_view order en)"
| "scq_stage order (D_entry b head a) = Take_ticket (unat head)"
| "scq_stage order (D_cas b head a en en') = Take_swap (unat head) (s_shape (scq_view order en)) (e_cycle order en') (e_safe order en')"
| "scq_stage order (D_take head en) = Take_found (unat head) (Some (e_index order en))"
| "scq_stage order (D_tail head) = Bound (Suc (unat head))"
| "scq_stage order (D_catch tail target) = Catch (unat tail) (unat target)"
| "scq_stage order (D_catch_tail target) = Bound (unat target)"
| "scq_stage order _ = Free"

definition scq_at :: "nat \<Rightarrow> scq_state \<Rightarrow> nat \<Rightarrow> u64 slot" where
  "scq_at order s p = scq_view order (scq_entry order s (word_of_nat p))"

definition scq_abs :: "nat \<Rightarrow> scq_state \<Rightarrow> u64 tring" where
  "scq_abs order s = \<lparr> t_slots = scq_at order s, t_head = unat (rg_head (ring s)), t_tail = unat (rg_tail (ring s)),
     t_put = enq_log s, t_taken = deq_log s, t_given = gave_up s, t_stages = (\<lambda>i. scq_stage order (pcs s i)) \<rparr>"

text \<open>The word that an enqueue writes is that of an index below the capacity; a dequeue's keeps the index.\<close>

definition input_ok :: "nat \<Rightarrow> u64 \<Rightarrow> bool" where
  "input_ok order x \<longleftrightarrow> unat (x XOR (ring_n order - 1)) < 2 ^ order"

fun pc_input_ok :: "nat \<Rightarrow> scq_pc \<Rightarrow> bool" where
  "pc_input_ok order (E_ticket b x) \<longleftrightarrow> input_ok order x"
| "pc_input_ok order (E_entry b x tail) \<longleftrightarrow> input_ok order x"
| "pc_input_ok order (E_head b x tail en) \<longleftrightarrow> input_ok order x"
| "pc_input_ok order (E_cas b x tail en) \<longleftrightarrow> input_ok order x"
| "pc_input_ok order (D_cas b head a en en') \<longleftrightarrow> s_held (scq_view order en') = s_held (scq_view order en)"
| "pc_input_ok order _ \<longleftrightarrow> True"

definition scq_words_ok :: "nat \<Rightarrow> nat \<Rightarrow> scq_state \<Rightarrow> bool" where
  "scq_words_ok order B s \<longleftrightarrow> length (rg_array (ring s)) = 2 ^ (order + 1) \<and>
     unat (rg_head (ring s)) \<le> B \<and> unat (rg_tail (ring s)) \<le> B \<and> (\<forall>t. pc_input_ok order (pcs s t))"

definition scq_inv :: "nat \<Rightarrow> nat \<Rightarrow> scq_state \<Rightarrow> bool" where
  "scq_inv order B s \<longleftrightarrow> scq_words_ok order B s \<and> ring_ok order (scq_abs order s)"

section \<open>Slots and words\<close>

lemma scq_slot_eq: "scq_slot order w = unat (lfring_map w (order + 1) (lfring_pow2 (order + 1)))"
  by (simp only: scq_slot_def scq_map_def ring_n_pow)

lemma scq_slot_less: "4 \<le> order \<Longrightarrow> order \<le> 60 \<Longrightarrow> scq_slot order w < 2 ^ (order + 1)"
  unfolding scq_slot_eq by (rule lfring_map_less) simp_all

lemma scq_slot_eq_iff:
  "4 \<le> order \<Longrightarrow> order \<le> 60 \<Longrightarrow>
    scq_slot order w = scq_slot order w' \<longleftrightarrow> unat w mod 2 ^ (order + 1) = unat w' mod 2 ^ (order + 1)"
  unfolding scq_slot_eq word_unat_eq_iff [symmetric] by (rule lfring_map_eq_iff) simp_all

lemma scq_at_unat [simp]: "scq_at order s (unat w) = scq_view order (scq_entry order s w)"
  by (simp add: scq_at_def)

lemma scq_at_put:
  assumes "4 \<le> order" "order \<le> 60" and "length (rg_array (ring s)) = 2 ^ (order + 1)"
  shows "scq_at order (put_entry order w e s) = upd_slot order (scq_at order s) (unat w) (scq_view order e)"
proof
  fix p
  show "scq_at order (put_entry order w e s) p = upd_slot order (scq_at order s) (unat w) (scq_view order e) p"
    using scq_slot_eq_iff [OF assms(1,2), of w "word_of_nat p"] scq_slot_less [OF assms(1,2)] assms(3)
    unfolding upd_at scq_at_def scq_entry_def put_entry_def unat_word_mod [OF assms(2)]
    by (auto simp: nth_list_update)
qed

lemma scq_at_cong: "rg_array (ring s') = rg_array (ring s) \<Longrightarrow> scq_at order s' = scq_at order s"
  by (simp add: scq_at_def [abs_def] scq_entry_def)

text \<open>How the abstraction follows the parts of a step.\<close>

lemma abs_sel [simp]:
  "t_slots (scq_abs order s) = scq_at order s" "t_head (scq_abs order s) = unat (rg_head (ring s))"
  "t_tail (scq_abs order s) = unat (rg_tail (ring s))" "t_put (scq_abs order s) = enq_log s"
  "t_taken (scq_abs order s) = deq_log s" "t_given (scq_abs order s) = gave_up s"
  "t_stages (scq_abs order s) i = scq_stage order (pcs s i)"
  by (simp_all add: scq_abs_def)

lemma abs_goto: "scq_abs order (goto t pc s) = enter t (scq_stage order pc) (scq_abs order s)"
  by (simp add: scq_abs_def enter_def goto_def scq_at_cong [of "s\<lparr>pcs := x\<rparr>" s for x] fun_eq_iff)

lemma abs_threshold: "scq_abs order (set_threshold v s) = scq_abs order s"
  by (simp add: scq_abs_def set_threshold_def scq_at_cong [of "s\<lparr>ring := ring s\<lparr>rg_threshold := v\<rparr>\<rparr>" s])

lemma abs_head: "scq_abs order (s\<lparr> ring := (ring s)\<lparr> rg_head := v \<rparr> \<rparr>) = (scq_abs order s)\<lparr> t_head := unat v \<rparr>"
  by (simp add: scq_abs_def scq_at_cong [of "s\<lparr>ring := ring s\<lparr>rg_head := v\<rparr>\<rparr>" s])

lemma abs_tail: "scq_abs order (s\<lparr> ring := (ring s)\<lparr> rg_tail := v \<rparr> \<rparr>) = (scq_abs order s)\<lparr> t_tail := unat v \<rparr>"
  by (simp add: scq_abs_def scq_at_cong [of "s\<lparr>ring := ring s\<lparr>rg_tail := v\<rparr>\<rparr>" s])

lemma abs_given: "scq_abs order (s\<lparr> gave_up := g \<rparr>) = (scq_abs order s)\<lparr> t_given := g \<rparr>"
  by (simp add: scq_abs_def scq_at_cong [of "s\<lparr>gave_up := g\<rparr>" s])

lemma abs_put:
  assumes "4 \<le> order" "order \<le> 60" and "length (rg_array (ring s)) = 2 ^ (order + 1)"
  shows "scq_abs order (put_entry order w e s) =
    (scq_abs order s)\<lparr> t_slots := upd_slot order (scq_at order s) (unat w) (scq_view order e) \<rparr>"
  using scq_at_put [OF assms, of w e] by (simp add: scq_abs_def put_entry_def)

lemma abs_put_log:
  assumes "4 \<le> order" "order \<le> 60" and "length (rg_array (ring s)) = 2 ^ (order + 1)"
  shows "scq_abs order ((put_entry order w e s)\<lparr> enq_log := l \<rparr>) =
    (scq_abs order s)\<lparr> t_slots := upd_slot order (scq_at order s) (unat w) (scq_view order e), t_put := l \<rparr>"
    and "scq_abs order ((put_entry order w e s)\<lparr> deq_log := l \<rparr>) =
    (scq_abs order s)\<lparr> t_slots := upd_slot order (scq_at order s) (unat w) (scq_view order e), t_taken := l \<rparr>"
  using scq_at_put [OF assms, of w e]
  by (simp_all add: scq_abs_def put_entry_def scq_at_cong [of "s'\<lparr>enq_log := l\<rparr>" s' for s'] scq_at_cong [of "s'\<lparr>deq_log := l\<rparr>" s' for s'])

lemmas abs_simps = abs_goto abs_threshold abs_head abs_tail abs_given

section \<open>Looking at an entry\<close>

text \<open>The comparison of cycles in the code is the order of the numbers they stand for.\<close>

lemma cycle_tests:
  assumes ok: "ring_ok order r" and b: "t_head r \<le> 2 ^ 61" "t_tail r \<le> 2 ^ 61" and o: "order \<le> 60"
    and w: "t_slots r (unat pos) = scq_view order w" and pos: "unat pos < 2 ^ 61"
  shows "cmp_less (entry_cycle order w) (pos_cycle order pos) \<longleftrightarrow>
      s_cycle (t_slots r (unat pos)) < int (unat pos div 2 ^ (order + 1))"
    and "entry_cycle order w = pos_cycle order pos \<longleftrightarrow> s_cycle (t_slots r (unat pos)) = int (unat pos div 2 ^ (order + 1))"
proof -
  have sm: "small_pos pos" using pos by (simp add: small_pos_def)
  have le: "int (unat pos) div 2 ^ (order + 1) = int (unat pos div 2 ^ (order + 1))" by (simp add: zdiv_int)
  note c = cycle_bound [OF ok [unfolded ring_ok_def] b, of "unat pos", unfolded w scq_view_sel(1)]
  have c2: "2 ^ (order + 1) * e_cycle order w \<le> 2 ^ 61" using c(2) by simp
  show "cmp_less (entry_cycle order w) (pos_cycle order pos) \<longleftrightarrow>
      s_cycle (t_slots r (unat pos)) < int (unat pos div 2 ^ (order + 1))"
    using full_less_pos [OF o c(1) c2 sm] pos_fields(1) [OF o sm] le by (simp add: w)
  show "entry_cycle order w = pos_cycle order pos \<longleftrightarrow> s_cycle (t_slots r (unat pos)) = int (unat pos div 2 ^ (order + 1))"
    using full_eq_pos [OF o, of w pos] pos_fields(1) [OF o sm] le by (simp add: w)
qed

lemma enq_check_step:
  assumes ok: "ring_ok order r" and b: "t_head r \<le> 2 ^ 61" "t_tail r \<le> 2 ^ 61" and o: "order \<le> 60"
    and t: "put_ticket (t_stages r i) = Some (unat tail)" and w: "t_slots r (unat tail) = scq_view order w"
  shows "ring_step order r (enter i (scq_stage order (enq_check order nonempty x tail w)) r)"
proof -
  have "unat tail < 2 ^ 61" using ticket_drawn(1) [OF ok t] b(2) by simp
  note c = cycle_tests(1) [OF ok b o w this]
  note look = ring_step.look [OF t, of order]
  show ?thesis
  proof (cases "cmp_less (entry_cycle order w) (pos_cycle order tail) \<and> e_empty order w")
    case True
    then have "scq_stage order (enq_check order nonempty x tail w) =
        (if s_safe (t_slots r (unat tail)) then Put_ready (unat tail) (t_slots r (unat tail)) else Put_checked (unat tail) (t_slots r (unat tail)))"
      using is_full_iff [OF o, of w] is_flipped_iff [OF o, of w] unfolding enq_check_def Let_def w by auto
    then show ?thesis using True c by (intro look) (simp_all add: w)
  next
    case False
    then have "enq_check order nonempty x tail w = E_ticket nonempty x"
      using is_full_iff [OF o, of w] is_flipped_iff [OF o, of w] unfolding enq_check_def Let_def by auto
    then show ?thesis using ring_step.relax [of r i] put_not_take [OF t] by simp
  qed
qed

lemma deq_missed_stage: "missed (unat head) (scq_stage order (deq_missed nonempty head))"
  by (simp add: deq_missed_def missed_def)

lemma deq_check_step:
  assumes ok: "ring_ok order r" and b: "t_head r \<le> 2 ^ 61" "t_tail r \<le> 2 ^ 61" and o: "order \<le> 60"
    and t: "take_ticket (t_stages r i) = Some (unat head)" and w: "t_slots r (unat head) = scq_view order w"
  shows "ring_step order r (leave_or_keep i (unat head) (scq_stage order (deq_check order nonempty head attempt w)) r)"
proof -
  define new where "new = deq_check order nonempty head attempt w"
  have "unat head < 2 ^ 61" using ticket_drawn(2) [OF ok t] b(1) by simp
  note c = cycle_tests [OF ok b o w this]
  have miss: "ring_step order r (leave_or_keep i (unat head) (scq_stage order new) r)"
    if "new = deq_missed nonempty head" "s_cycle (t_slots r (unat head)) \<noteq> int (unat head div 2 ^ (order + 1))"
      "int (unat head div 2 ^ (order + 1)) \<le> s_cycle (t_slots r (unat head)) \<or> \<not> e_safe order w \<and> \<not> e_empty order w"
    unfolding leave_or_keep_def using ring_step.miss [OF t that(2) _ deq_missed_stage] that(1,3) missed_tickets [OF deq_missed_stage]
    by (simp add: w)
  have aim: "ring_step order r (leave_or_keep i (unat head) (scq_stage order new) r)"
    if "new = D_cas nonempty head a w w'"
      "swap_ok order (unat head) (s_shape (scq_view order w)) (e_cycle order w') (e_safe order w')" for a w'
    unfolding leave_or_keep_def using ring_step.aim [OF t, of order "e_cycle order w'" "e_safe order w'"] that by (simp add: w)
  show ?thesis
  proof (cases "entry_cycle order w = pos_cycle order head")
    case True
    then have n: "new = D_take head w" unfolding new_def deq_check_def Let_def by simp
    have cyc: "s_cycle (t_slots r (unat head)) = int (unat head div 2 ^ (order + 1))" using c(2) True by blast
    obtain v where "s_held (t_slots r (unat head)) = Some v" using found_value [OF ok [unfolded ring_ok_def] t cyc] by blast
    then have "s_held (t_slots r (unat head)) = Some (e_index order w)" by (simp add: w)
    then show ?thesis using ring_step.found [OF t cyc, of "Some (e_index order w)"] n
      unfolding leave_or_keep_def new_def [symmetric] by simp
  next
    case ne: False
    then have nc: "s_cycle (t_slots r (unat head)) \<noteq> int (unat head div 2 ^ (order + 1))" using c(2) by blast
    show ?thesis
    proof (cases "e_empty order w")
      case False
      then have n: "new = (if \<not> e_safe order w then deq_missed nonempty head
          else if cmp_less (entry_cycle order w) (pos_cycle order head)
          then D_cas nonempty head attempt w (w AND NOT (ring_n order)) else deq_missed nonempty head)"
        using ne is_empty_iff [OF o, of w] is_unsafe_iff [OF o, of w] unfolding new_def deq_check_def Let_def by simp
      show ?thesis
      proof (cases "e_safe order w \<and> cmp_less (entry_cycle order w) (pos_cycle order head)")
        case True
        then have "swap_ok order (unat head) (s_shape (scq_view order w)) (e_cycle order (w AND NOT (ring_n order)))
            (e_safe order (w AND NOT (ring_n order)))"
          using False c(1) clear_safe_fields [OF o, of w] by (simp add: s_shape_def w)
        then show ?thesis using aim [of attempt "w AND NOT (ring_n order)"] True n unfolding new_def [symmetric] by simp
      next
        case False2: False
        then have "new = deq_missed nonempty head" using n by auto
        then show ?thesis using miss nc False2 False c(1) unfolding new_def [symmetric] by auto
      qed
    next
      case True
      then have n: "new = (if attempt + 1 \<le> 10000 then D_entry nonempty head (attempt + 1)
          else if cmp_less (entry_cycle order w) (pos_cycle order head)
          then D_cas nonempty head (attempt + 1) w (pos_cycle order head XOR (NOT w AND ring_n order))
          else deq_missed nonempty head)"
        using ne is_empty_iff [OF o, of w] unfolding new_def deq_check_def Let_def by simp
      consider "attempt + 1 \<le> 10000" | "\<not> attempt + 1 \<le> 10000" "cmp_less (entry_cycle order w) (pos_cycle order head)"
        | "\<not> attempt + 1 \<le> 10000" "\<not> cmp_less (entry_cycle order w) (pos_cycle order head)" by blast
      then show ?thesis
      proof cases
        case 1
        then show ?thesis using ring_step.look_again [OF t, of order] n
          unfolding leave_or_keep_def new_def [symmetric] by simp
      next
        case 2
        have sm: "small_pos head" using \<open>unat head < 2 ^ 61\<close> by (simp add: small_pos_def)
        have "swap_ok order (unat head) (s_shape (scq_view order w))
            (e_cycle order (pos_cycle order head XOR (NOT w AND ring_n order)))
            (e_safe order (pos_cycle order head XOR (NOT w AND ring_n order)))"
          using True 2 c(1) advance_fields [OF o, of head w] pos_fields(1) [OF o sm]
          by (simp add: s_shape_def w zdiv_int)
        then show ?thesis using 2 n aim [of "attempt + 1" "pos_cycle order head XOR (NOT w AND ring_n order)"]
          unfolding new_def [symmetric] by simp
      next
        case 3
        then have "new = deq_missed nonempty head" using n by auto
        then show ?thesis using miss nc 3 c(1) unfolding new_def [symmetric] by auto
      qed
    qed
  qed
qed

section \<open>Every step is a step of the machine\<close>

lemma deq_ticket_stage: "deq_ticket pc = take_ticket (scq_stage order pc)"
  by (cases pc) simp_all

lemma abs_keep_or_give_up:
  "scq_abs order (keep_or_give_up t head pc s) = leave_or_keep t (unat head) (scq_stage order pc) (scq_abs order s)"
proof -
  show ?thesis by (simp add: keep_or_give_up_def leave_or_keep_def abs_goto abs_given deq_ticket_stage [of _ order])
qed

lemma scq_invD:
  assumes "scq_inv order B s"
  shows "length (rg_array (ring s)) = 2 ^ (order + 1)" "unat (rg_head (ring s)) \<le> B" "unat (rg_tail (ring s)) \<le> B"
    and "pc_input_ok order (pcs s t)" and "ring_ok order (scq_abs order s)"
    and "stage_ok order (scq_at order s) (unat (rg_head (ring s))) (set (enq_log s)) (gave_up s) (scq_stage order (pcs s t))"
proof -
  show "ring_ok order (scq_abs order s)" using assms unfolding scq_inv_def by blast
  from all_okD(3) [OF this [unfolded ring_ok_def]]
  show "stage_ok order (scq_at order s) (unat (rg_head (ring s))) (set (enq_log s)) (gave_up s) (scq_stage order (pcs s t))"
    by simp
qed (use assms in \<open>unfold scq_inv_def scq_words_ok_def, blast+\<close>)

lemma enq_cas_step:
  assumes inv: "scq_inv order B s" and B: "B < 2 ^ 61" and o: "4 \<le> order" "order \<le> 60"
    and pc: "pcs s t = E_cas b x tail entry"
  shows "ring_step order (scq_abs order s) (scq_abs order (scq_enq_cas order t spurious b x tail entry s))"
proof (cases "scq_entry order s tail = entry \<and> \<not> spurious")
  case True
  note I = scq_invD [OF inv]
  define v where "v = x XOR (ring_n order - 1)"
  have x: "x = v XOR (ring_n order - 1)" unfolding v_def by (simp add: xor.assoc)
  have v: "unat v < 2 ^ order" using I(4) [of t] pc by (simp add: v_def input_ok_def)
  have "unat tail < unat (rg_tail (ring s))" using ticket_drawn(1) [OF I(5), of t "unat tail"] pc by simp
  then have sm: "small_pos tail" using I(3) B by (simp add: small_pos_def)
  have "unat v < 2 ^ (order + 1)" using v by simp
  note f = placed_fields [OF o(2) this, of tail, folded x, unfolded pos_fields(1) [OF o(2) sm]]
  have "e_index order (pos_cycle order tail XOR x) \<noteq> mask (order + 1)" unfolding f(3) by (rule not_empty_index [OF o(2) v])
  then have view: "scq_view order (pos_cycle order tail XOR x) =
      \<lparr> s_cycle = int (unat tail div 2 ^ (order + 1)), s_safe = True, s_held = Some v \<rparr>"
    using f by (simp add: scq_view_def e_empty_def zdiv_int)
  have st: "t_stages (scq_abs order s) t = Put_ready (unat tail) (t_slots (scq_abs order s) (unat tail))"
    using pc True by simp
  have "scq_abs order (scq_enq_cas order t spurious b x tail entry s) =
      enter t Free ((scq_abs order s)\<lparr> t_slots := upd_slot order (scq_at order s) (unat tail) (scq_view order (pos_cycle order tail XOR x)),
        t_put := enq_log s @ [(unat tail, v)] \<rparr>)"
    using True by (simp add: scq_enq_cas_def abs_goto abs_put_log [OF o I(1)] v_def)
  then show ?thesis using ring_step.store [OF st, of order v] by (simp add: view)
next
  case False
  note I = scq_invD [OF inv]
  have "scq_enq_cas order t spurious b x tail entry s = goto t (enq_check order b x tail (scq_entry order s tail)) s"
    unfolding scq_enq_cas_def if_not_P [OF False] ..
  then show ?thesis using enq_check_step [OF I(5) _ _ o(2), of t tail "scq_entry order s tail" b x] pc I(2,3) B
    by (simp add: abs_goto)
qed

lemma deq_step:
  assumes inv: "scq_inv order B s" and B: "B < 2 ^ 61" and o: "order \<le> 60" and t: "deq_ticket (pcs s t) = Some (unat head)"
  shows "ring_step order (scq_abs order s)
    (scq_abs order (keep_or_give_up t head (deq_check order b head a (scq_entry order s head)) s))"
proof -
  note I = scq_invD [OF inv]
  have "take_ticket (t_stages (scq_abs order s) t) = Some (unat head)" using t by (cases "pcs s t") simp_all
  then show ?thesis using deq_check_step [OF I(5) _ _ o, of t head "scq_entry order s head" b a] I(2,3) B
    by (simp add: abs_keep_or_give_up)
qed

lemma deq_cas_step:
  assumes inv: "scq_inv order B s" and B: "B < 2 ^ 61" and o: "4 \<le> order" "order \<le> 60"
    and pc: "pcs s t = D_cas b head a entry entry'"
  shows "ring_step order (scq_abs order s) (scq_abs order (scq_deq_cas order t spurious b head a entry entry' s))"
proof (cases "scq_entry order s head = entry \<and> \<not> spurious")
  case True
  note I = scq_invD [OF inv]
  have st: "t_stages (scq_abs order s) t =
      Take_swap (unat head) (s_shape (t_slots (scq_abs order s) (unat head))) (e_cycle order entry') (e_safe order entry')"
    using pc True by simp
  have "s_held (scq_view order entry') = s_held (scq_view order entry)" using I(4) [of t] pc by simp
  then have view: "scq_view order entry' =
      (scq_view order entry)\<lparr> s_cycle := e_cycle order entry', s_safe := e_safe order entry' \<rparr>"
    by (simp add: scq_view_def)
  have "scq_abs order (scq_deq_cas order t spurious b head a entry entry' s) =
      enter t (scq_stage order (deq_missed b head)) ((scq_abs order s)\<lparr>
        t_slots := upd_slot order (scq_at order s) (unat head) (scq_view order entry'), t_given := insert (unat head) (gave_up s) \<rparr>)"
    using True missed_tickets [OF deq_missed_stage [where head = head and order = order and nonempty = b]]
    by (simp add: scq_deq_cas_def abs_keep_or_give_up leave_or_keep_def abs_put [OF o I(1)])
  then show ?thesis using ring_step.swap [OF st deq_missed_stage [where order = order and nonempty = b], of order] True
    by (simp add: view)
next
  case False
  have "scq_deq_cas order t spurious b head a entry entry' s =
      keep_or_give_up t head (deq_check order b head a (scq_entry order s head)) s"
    unfolding scq_deq_cas_def if_not_P [OF False] ..
  then show ?thesis using deq_step [OF inv B o(2)] pc by simp
qed

lemma deq_take_step:
  assumes inv: "scq_inv order B s" and o: "4 \<le> order" "order \<le> 60" and pc: "pcs s t = D_take head entry"
  shows "ring_step order (scq_abs order s) (scq_abs order (scq_deq_take order t head entry s))"
proof -
  note I = scq_invD [OF inv]
  define v where "v = e_index order entry"
  have st: "t_stages (scq_abs order s) t = Take_found (unat head) (Some v)" using pc by (simp add: v_def)
  have "(unat head, v) \<in> set (enq_log s)" using I(6) [of t] pc by (simp add: v_def)
  moreover have "unat head \<notin> fst ` set (deq_log s)"
    using tickets_okD(8) [OF all_okD(2) [OF I(5) [unfolded ring_ok_def]], of t "unat head"] st by simp
  ultimately have "(unat head, v) \<in> set (enq_log s) - set (deq_log s)" by force
  then have held: "s_held (t_slots (scq_abs order s) (unat head)) = Some v"
    using slots_okD(5) [OF all_okD(1) [OF I(5) [unfolded ring_ok_def]], of "unat head" v] by simp
  note f = consume_fields [OF o(2), of "scq_entry order s head"]
  have view: "scq_view order (scq_entry order s head OR (ring_n order - 1)) =
      (scq_view order (scq_entry order s head))\<lparr> s_held := None \<rparr>"
    using f by (simp add: scq_view_def)
  have v': "entry AND (ring_n order - 1) = v" by (simp add: v_def e_index_def ring_n_bits(2))
  have "scq_abs order (scq_deq_take order t head entry s) =
      enter t Free ((scq_abs order s)\<lparr> t_slots := upd_slot order (scq_at order s) (unat head)
        ((scq_view order (scq_entry order s head))\<lparr> s_held := None \<rparr>), t_taken := deq_log s @ [(unat head, v)] \<rparr>)"
    by (simp add: scq_deq_take_def abs_goto v' abs_put_log [OF o I(1)] view)
  then show ?thesis using ring_step.fetch [OF st held, of order] by simp
qed

lemma scq_thread_step:
  assumes inv: "scq_inv order B s" and B: "B < 2 ^ 61" and o: "4 \<le> order" "order \<le> 60"
  shows "ring_step order (scq_abs order s) (scq_abs order (scq_thread order t spurious s))"
proof -
  note I = scq_invD [OF inv]
  have b: "unat (rg_head (ring s)) \<le> 2 ^ 61" "unat (rg_tail (ring s)) \<le> 2 ^ 61" using I(2,3) B by simp_all
  have free: "ring_step order (scq_abs order s) (enter t Free (scq_abs order s))"
    if "take_ticket (scq_stage order (pcs s t)) = None"
    using ring_step.relax [of "scq_abs order s" t order] that by simp
  show ?thesis
  proof (cases "pcs s t")
    case S_idle
    then show ?thesis using ring_step.stay by (simp add: scq_thread_def)
  next
    case (E_ticket b x)
    then show ?thesis using ring_step.draw_put [of "scq_abs order s" t order] unat_Suc [OF I(3) B]
      by (simp add: scq_thread_def scq_take_tail_def abs_simps)
  next
    case (E_entry b x tail)
    then show ?thesis using enq_check_step [OF I(5) _ _ o(2), of t tail "scq_entry order s tail" b x] b
      by (simp add: scq_thread_def scq_enq_entry_def abs_goto)
  next
    case (E_head b x tail en)
    have "unat tail < unat (rg_tail (ring s))" using ticket_drawn(1) [OF I(5), of t "unat tail"] E_head by simp
    then have c: "cmp_le (rg_head (ring s)) tail \<longleftrightarrow> unat (rg_head (ring s)) \<le> unat tail"
      using b by (intro cmp_le_pos) simp_all
    have st: "t_stages (scq_abs order s) t = Put_checked (unat tail) (scq_view order en)" using E_head by simp
    show ?thesis using ring_step.look_head [OF st, of order] free E_head c
      by (simp add: scq_thread_def scq_enq_head_def abs_goto)
  next
    case (E_cas b x tail en)
    then show ?thesis using enq_cas_step [OF inv B o E_cas] by (simp add: scq_thread_def)
  next
    case (D_ticket b)
    then show ?thesis using ring_step.draw_take [of "scq_abs order s" t order] unat_Suc [OF I(2) B]
      by (simp add: scq_thread_def scq_take_head_def abs_simps)
  next
    case (D_entry b head a)
    then show ?thesis using deq_step [OF inv B o(2), of t head b a] by (simp add: scq_thread_def scq_deq_entry_def)
  next
    case (D_cas b head a en en')
    then show ?thesis using deq_cas_step [OF inv B o D_cas] by (simp add: scq_thread_def)
  next
    case (D_take head en)
    then show ?thesis using deq_take_step [OF inv o D_take] by (simp add: scq_thread_def)
  next
    case (D_tail head)
    have h: "unat head < unat (rg_head (ring s))" using I(6) [of t] D_tail by simp
    have s: "unat (head + 1) = Suc (unat head)" using unat_Suc [of head B] h I(2) B by simp
    have c: "cmp_le (rg_tail (ring s)) (head + 1) \<longleftrightarrow> unat (rg_tail (ring s)) \<le> unat (head + 1)"
      by (rule cmp_le_pos) (use b h s in simp_all)
    have st: "t_stages (scq_abs order s) t = Bound (Suc (unat head))" using D_tail by simp
    show ?thesis using ring_step.aim_catch [OF st, of order] free D_tail c s
      by (simp add: scq_thread_def scq_deq_tail_def abs_goto)
  next
    case (D_catch tail target)
    have st: "t_stages (scq_abs order s) t = Catch (unat tail) (unat target)" using D_catch by simp
    show ?thesis using ring_step.catch [of "scq_abs order s" t "unat target" order] free D_catch st
      by (simp add: scq_thread_def scq_catch_def abs_simps)
  next
    case D_catch_head
    then show ?thesis using ring_step.look_bound [of "scq_abs order s" t order]
      by (simp add: scq_thread_def scq_catch_head_def abs_goto)
  next
    case (D_catch_tail target)
    have h: "unat target \<le> unat (rg_head (ring s))" using I(6) [of t] D_catch_tail by simp
    have c: "cmp_ge (rg_tail (ring s)) target \<longleftrightarrow> unat target \<le> unat (rg_tail (ring s))"
      by (rule cmp_ge_pos) (use b h in simp_all)
    have st: "t_stages (scq_abs order s) t = Bound (unat target)" using D_catch_tail by simp
    show ?thesis using ring_step.aim_catch [OF st, of order] free D_catch_tail c
      by (simp add: scq_thread_def scq_catch_tail_def abs_goto)
  qed (use free in \<open>simp_all add: scq_thread_def scq_enq_threshold_def scq_enq_reset_def scq_deq_threshold_def
      scq_sub_empty_def scq_sub_def abs_simps\<close>)
qed

lemma scq_step_refines:
  assumes inv: "scq_inv order B s" and B: "B < 2 ^ 61" and o: "4 \<le> order" "order \<le> 60" and "scq_step order s s'"
  shows "ring_step order (scq_abs order s) (scq_abs order s')"
  using assms(5)
proof cases
  case (enq_call t eidx b)
  then show ?thesis using ring_step.relax [of "scq_abs order s" t order] by (simp add: scq_enq_call_def abs_goto)
next
  case (deq_call t b)
  then show ?thesis using ring_step.relax [of "scq_abs order s" t order] by (simp add: scq_deq_call_def abs_goto)
next
  case (thread t spurious)
  then show ?thesis using scq_thread_step [OF inv B o] by simp
qed

section \<open>The words stay in range\<close>

lemma words_goto: "scq_words_ok order B s \<Longrightarrow> pc_input_ok order pc \<Longrightarrow> scq_words_ok order B (goto t pc s)"
  by (simp add: scq_words_ok_def goto_def)

lemma words_mono: "scq_words_ok order B s \<Longrightarrow> B \<le> B' \<Longrightarrow> scq_words_ok order B' s"
  unfolding scq_words_ok_def by auto

lemma enq_check_input: "input_ok order x \<Longrightarrow> pc_input_ok order (enq_check order b x tail en)"
  by (simp add: enq_check_def Let_def)

lemma deq_missed_input: "pc_input_ok order (deq_missed b head)"
  by (simp add: deq_missed_def)

lemma deq_check_input:
  assumes o: "order \<le> 60"
  shows "pc_input_ok order (deq_check order b head a en)"
  using deq_missed_input [of order b head] clear_safe_fields(3) [OF o, of en] e_empty_index [OF clear_safe_fields(3) [OF o, of en]]
    advance_fields(3) [OF o, of head en] is_empty_iff [OF o, of en]
  by (simp add: deq_check_def Let_def scq_view_def)

lemma scq_thread_words:
  assumes inv: "scq_inv order B s" and B: "B < 2 ^ 61" and o: "order \<le> 60"
  shows "scq_words_ok order (B + 1) (scq_thread order t spurious s)"
proof -
  note I = scq_invD [OF inv]
  have w: "scq_words_ok order B s" using inv unfolding scq_inv_def by blast
  have w1: "scq_words_ok order (B + 1) s" using words_mono [OF w] by simp
  have all: "pc_input_ok order (pcs s i)" for i by (rule I(4))
  show ?thesis
  proof (cases "pcs s t")
    case (D_catch tail target)
    have "unat target \<le> unat (rg_head (ring s))" using I(6) [of t] D_catch by simp
    then show ?thesis using w1 I(2) D_catch by (simp add: scq_thread_def scq_catch_def goto_def scq_words_ok_def)
  next
    case (E_cas b x tail en)
    then show ?thesis using w1 all [of t] enq_check_input [of order x _ tail]
      by (simp add: scq_thread_def scq_enq_cas_def goto_def scq_words_ok_def put_entry_def)
  qed (use w1 all [of t] enq_check_input deq_check_input [OF o] deq_missed_input unat_Suc [OF I(3) B] unat_Suc [OF I(2) B] I(2,3) in
      \<open>simp_all add: scq_thread_def scq_take_tail_def scq_enq_entry_def scq_enq_head_def scq_enq_threshold_def scq_enq_reset_def
        scq_deq_threshold_def scq_take_head_def scq_deq_entry_def scq_deq_cas_def scq_deq_take_def scq_deq_tail_def
        scq_catch_head_def scq_catch_tail_def scq_sub_empty_def scq_sub_def goto_def scq_words_ok_def
        put_entry_def keep_or_give_up_def set_threshold_def\<close>)
qed

lemma scq_step_inv:
  assumes inv: "scq_inv order B s" and B: "B < 2 ^ 61" and o: "4 \<le> order" "order \<le> 60" and st: "scq_step order s s'"
  shows "scq_inv order (B + 1) s'"
proof -
  have "ring_ok order (scq_abs order s')"
    by (rule ring_step_ok [OF scq_step_refines [OF inv B o st] scq_invD(5) [OF inv]])
  moreover have w: "scq_words_ok order B s" using inv unfolding scq_inv_def by blast
  from st have "scq_words_ok order (B + 1) s'"
  proof cases
    case (enq_call t eidx b)
    have "input_ok order (eidx XOR (ring_n order - 1))" using enq_call(3) by (simp add: input_ok_def xor.assoc)
    then show ?thesis using words_mono [OF w, of "B + 1"] unfolding enq_call(1) scq_enq_call_def by (intro words_goto) simp_all
  next
    case (deq_call t b)
    then show ?thesis using words_mono [OF w, of "B + 1"] unfolding deq_call(1) scq_deq_call_def by (intro words_goto) simp_all
  next
    case (thread t spurious)
    then show ?thesis using scq_thread_words [OF inv B o(2)] by simp
  qed
  ultimately show ?thesis unfolding scq_inv_def by blast
qed

section \<open>Initial rings\<close>

text \<open>The slots of an initialised ring: spent below \<open>s\<close>, filled from \<open>s\<close> to \<open>e\<close>, unused from \<open>e\<close> on.\<close>

definition initial_word :: "nat \<Rightarrow> nat \<Rightarrow> nat \<Rightarrow> (nat \<Rightarrow> u64) \<Rightarrow> nat \<Rightarrow> u64" where
  "initial_word order s e val r = (if r < s then 2 * ring_n order - 1 else if r < e then ring_n order + val r else - 1)"

lemma initial_view:
  assumes o: "order \<le> 60" and v: "r < e \<Longrightarrow> unat (val r) < 2 ^ order"
  shows "s_cycle (scq_view order (initial_word order s e val r)) = (if r < s \<or> r < e then 0 else - 1)"
    and "s_held (scq_view order (initial_word order s e val r)) = (if s \<le> r \<and> r < e then Some (val r) else None)"
  using spent_fields [OF o] minus_one_fields [of order] filled_fields [OF o, of "val r"] v not_empty_index [OF o v] o
  by (auto simp: initial_word_def scq_view_def e_empty_def)

lemma initial_inv:
  assumes o: "4 \<le> order" "order \<le> 60" and se: "s \<le> e" "e \<le> 2 ^ order" and v: "\<And>i. i < e \<Longrightarrow> unat (val i :: u64) < 2 ^ order"
    and r: "rg_head r = word_of_nat s" "rg_tail r = word_of_nat e" "length (rg_array r) = 2 ^ (order + 1)"
    and A: "\<And>i. i < 2 ^ (order + 1) \<Longrightarrow> rg_array r ! scq_slot order (word_of_nat i) = initial_word order s e val i"
  shows "scq_inv order (2 ^ order) (scq_start r s (map (\<lambda>i. (i, val i)) [s..<e]))"
proof -
  let ?st = "scq_start r s (map (\<lambda>i. (i, val i)) [s..<e])"
  have "(2 :: nat) ^ order \<le> 2 ^ 60" using o(2) by (intro power_increasing) simp_all
  then have u: "unat (word_of_nat s :: u64) = s" "unat (word_of_nat e :: u64) = e"
    using se by (simp_all add: unsigned_of_nat take_bit_nat_eq_self)
  have per: "scq_at order ?st p = scq_at order ?st (p mod 2 ^ (order + 1))" for p
    using scq_slot_eq_iff [OF o, of "word_of_nat p" "word_of_nat (p mod 2 ^ (order + 1))"]
    unfolding scq_at_def scq_entry_def unat_word_mod [OF o(2)] by simp
  have "slots_ok order (scq_at order ?st) (set (map (\<lambda>i. (i, val i)) [s..<e])) {} {..<s}"
  proof (rule initial_slots [OF se])
    show "scq_at order ?st p = scq_at order ?st (p mod 2 ^ (order + 1))" for p by (rule per)
    fix r :: nat assume "r < 2 ^ (order + 1)"
    then have "scq_at order ?st r = scq_view order (initial_word order s e val r)"
      unfolding scq_at_def scq_entry_def using A by (simp add: scq_start_def)
    then show "s_cycle (scq_at order ?st r) = (if r < s \<or> r < e then 0 else - 1)"
      "s_held (scq_at order ?st r) = (if s \<le> r \<and> r < e then Some (val r) else None)"
      using initial_view [where s = s and e = e and val = val and r = r, OF o(2) v] by simp_all
  qed
  moreover note initial_tickets [OF se(1), of val]
  ultimately show ?thesis using r u se
    unfolding scq_inv_def scq_words_ok_def ring_ok_def all_ok_def by (simp add: scq_start_def scq_abs_def)
qed


lemma scq_slots_inj: "4 \<le> order \<Longrightarrow> order \<le> 60 \<Longrightarrow> inj_on (\<lambda>i. scq_slot order (word_of_nat i)) {..<2 ^ (order + 1)}"
  by (rule inj_onI) (simp add: scq_slot_eq_iff unat_word_mod del: power_Suc One_nat_def)

lemma scq_empty_inv:
  assumes o: "4 \<le> order" "order \<le> 60" and mem: "length mem = 2 ^ (order + 1)"
  shows "scq_inv order (2 ^ order) (scq_start (scq_init_empty order mem) 0 [])"
proof -
  have n: "unat (lfring_pow2 (order + 1)) = 2 ^ (order + 1)" by (rule pow2_unat) (use o in simp)
  have all: "store_range (\<lambda>i. i) (\<lambda>i. - 1) 0 (2 ^ (order + 1)) mem ! k = - 1" if "k < 2 ^ (order + 1)" for k
    using store_range_at [of 0 k "2 ^ (order + 1)" "\<lambda>i. i" mem "\<lambda>i. - 1"] that mem by simp
  have "scq_inv order (2 ^ order) (scq_start (scq_init_empty order mem) 0 (map (\<lambda>i. (i, 0)) [0..<0]))"
  proof (rule initial_inv [OF o])
    fix i :: nat assume "i < 2 ^ (order + 1)"
    show "rg_array (scq_init_empty order mem) ! scq_slot order (word_of_nat i) =
        initial_word order 0 0 (\<lambda>i. 0) i"
      unfolding scq_init_empty_def Let_def n initial_word_def using all [OF scq_slot_less [OF o]] by simp
  qed (simp_all add: scq_init_empty_def Let_def mem)
  then show ?thesis by simp
qed

lemma scq_fill_inv:
  assumes o: "4 \<le> order" "order \<le> 60" and mem: "length mem = 2 ^ (order + 1)" and se: "s \<le> e" "e \<le> 2 ^ order"
  shows "scq_inv order (2 ^ order) (scq_start (scq_init_fill order s e mem) s (map (\<lambda>i. (i, word_of_nat i)) [s..<e]))"
proof (rule initial_inv [OF o se])
  have en: "e \<le> 2 ^ (order + 1)" using se(2) by simp
  fix i :: nat assume i: "i < 2 ^ (order + 1)"
  show "rg_array (scq_init_fill order s e mem) ! scq_slot order (word_of_nat i) =
      initial_word order s e word_of_nat i"
    using store_three [OF scq_slots_inj [OF o] _ se(1) en i, of mem "\<lambda>i. - 1" "\<lambda>i. ring_n order + word_of_nat i" "\<lambda>i. 2 * ring_n order - 1"]
      scq_slot_less [OF o] mem
    unfolding scq_init_fill_def Let_def initial_word_def ring_n_def [symmetric] scq_slot_def [symmetric] ring_n_unat [OF o(2)] by simp
next
  fix i assume "i < e"
  moreover have "(2 :: nat) ^ order \<le> 2 ^ 60" using o(2) by (intro power_increasing) simp_all
  ultimately show "unat (word_of_nat i :: u64) < 2 ^ order" using se(2) by (simp add: unsigned_of_nat take_bit_nat_eq_self)
qed (simp_all add: scq_init_fill_def Let_def mem)

lemma scq_full_inv:
  assumes o: "4 \<le> order" "order \<le> 60" and mem: "length mem = 2 ^ (order + 1)"
  shows "scq_inv order (2 ^ order) (scq_start (scq_init_full order mem) 0
    (map (\<lambda>i. (i, lfring_map (word_of_nat i) order (lfring_pow2 order))) [0..<2 ^ order]))"
proof (rule initial_inv [OF o])
  have half: "unat (lfring_pow2 order) = 2 ^ order" by (rule pow2_unat) (use o in simp)
  fix i :: nat assume i: "i < 2 ^ (order + 1)"
  show "rg_array (scq_init_full order mem) ! scq_slot order (word_of_nat i) =
      initial_word order 0 (2 ^ order) (\<lambda>i. lfring_map (word_of_nat i) order (lfring_pow2 order)) i"
    using store_three [OF scq_slots_inj [OF o] _ _ _ i, of mem 0 "2 ^ order" "\<lambda>i. - 1"
        "\<lambda>i. ring_n order + lfring_map (word_of_nat i) order (lfring_pow2 order)" "\<lambda>i. 0"]
      scq_slot_less [OF o] mem
    unfolding scq_init_full_def Let_def initial_word_def ring_n_def [symmetric] scq_slot_def [symmetric] ring_n_unat [OF o(2)] half
    by (simp add: store_range_Suc)
next
  fix i show "unat (lfring_map (word_of_nat i) order (lfring_pow2 order)) < 2 ^ order"
    by (rule lfring_map_less) (use o in simp_all)
qed (simp_all add: scq_init_full_def Let_def mem lfring_pow2_def push_bit_eq_mult)

lemma scq_reachable_inv:
  assumes "scq_reachable order k s" and o: "4 \<le> order" "order \<le> 60"
  shows "k \<le> 2 ^ 60 \<Longrightarrow> scq_inv order (2 ^ order + k) s"
  using assms(1)
proof induction
  case (empty mem)
  then show ?case using scq_empty_inv [OF o] by simp
next
  case (full mem)
  then show ?case using scq_full_inv [OF o] by simp
next
  case (fill mem s e)
  then show ?case using scq_fill_inv [OF o] by simp
next
  case (step k st st')
  have "(2 :: nat) ^ order \<le> 2 ^ 60" using o(2) by (intro power_increasing) simp_all
  then have "2 ^ order + k < 2 ^ 61" using step.prems by simp
  then show ?case using scq_step_inv [OF step.IH _ o step.hyps(2)] step.prems by (simp add: add.assoc)
qed


fun scq_run :: "nat \<Rightarrow> nat list \<Rightarrow> scq_state \<Rightarrow> scq_state" where
  "scq_run order [] s = s"
| "scq_run order (t # ts) s = scq_run order ts (scq_thread order t False s)"

lemma scq_run_reachable: "scq_reachable order k s \<Longrightarrow> scq_reachable order (k + length ts) (scq_run order ts s)"
proof (induction ts arbitrary: s k)
  case (Cons t ts)
  have "scq_reachable order (k + 1) (scq_thread order t False s)"
    by (rule scq_reachable.step [OF Cons.prems scq_step.thread])
  from Cons.IH [OF this] show ?case by simp
qed simp

lemma scq_thread_other: "i \<noteq> t \<Longrightarrow> pcs (scq_thread order t spurious s) i = pcs s i"
  unfolding scq_thread_def
  by (cases "pcs s t")
    (simp_all add: scq_take_tail_def scq_enq_entry_def scq_enq_head_def scq_enq_cas_def scq_enq_threshold_def
      scq_enq_reset_def scq_deq_threshold_def scq_take_head_def scq_deq_entry_def scq_deq_cas_def scq_deq_take_def
      scq_deq_tail_def scq_catch_def scq_catch_head_def scq_catch_tail_def scq_sub_empty_def scq_sub_def goto_def
      put_entry_def keep_or_give_up_def set_threshold_def)

lemma scq_run_other: "i \<notin> set ts \<Longrightarrow> pcs (scq_run order ts s) i = pcs s i"
  by (induction ts arbitrary: s) (simp_all add: scq_thread_other)

section \<open>Properties\<close>

text \<open>
  C13: Under every interleaving of any number of threads the scalable ring loses nothing, duplicates nothing
  and makes nothing up: an index is taken at most once, with the ticket it was put in with; an index not yet
  taken still lies in the slot of its ticket, and its ticket is either still to be handed to a dequeue or
  held by one that is about to take it. This holds for runs of up to 2 ^ 60 steps.
\<close>

theorem scq_no_loss:
  assumes "scq_reachable order k s" and "4 \<le> order" "order \<le> 60" and "k \<le> 2 ^ 60"
  shows "distinct (map fst (enq_log s)) \<and> distinct (map fst (deq_log s)) \<and> set (deq_log s) \<subseteq> set (enq_log s) \<and>
    (\<forall>(p, v) \<in> set (enq_log s) - set (deq_log s).
       scq_entry order s (word_of_nat p) AND (ring_n order - 1) = v \<and>
       (unat (rg_head (ring s)) \<le> p \<or> (\<exists>t. deq_ticket (pcs s t) = Some p)))"
proof -
  note n = ring_no_loss [OF scq_invD(5) [OF scq_reachable_inv [OF assms]], simplified abs_sel]
  have "scq_entry order s (word_of_nat p) AND (ring_n order - 1) = v \<and>
       (unat (rg_head (ring s)) \<le> p \<or> (\<exists>t. deq_ticket (pcs s t) = Some p))"
    if pv: "(p, v) \<in> set (enq_log s) - set (deq_log s)" for p v
    using bspec [OF n [THEN conjunct2, THEN conjunct2, THEN conjunct2] pv] unfolding scq_at_def ring_n_bits(2) deq_ticket_stage [of _ order] by (auto simp: e_index_def)
  then show ?thesis using n by blast
qed

definition scq_demo :: scq_state where
  "scq_demo = scq_enq_call 4 1 7 True (scq_enq_call 4 0 5 False (scq_start (scq_init_empty 4 (replicate 32 3)) 0 []))"

lemma scq_demo_reachable: "scq_reachable 4 2 scq_demo"
proof -
  let ?s = "scq_start (scq_init_empty 4 (replicate 32 3)) 0 []"
  let ?s1 = "scq_enq_call 4 0 5 False ?s"
  have "scq_reachable 4 0 ?s" by (rule scq_reachable.empty) simp
  moreover have "scq_step 4 ?s ?s1" by (rule scq_step.intros) (simp_all add: scq_start_def)
  ultimately have "scq_reachable 4 (0 + 1) ?s1" by (rule scq_reachable.step)
  moreover have "scq_step 4 ?s1 (scq_enq_call 4 1 7 True ?s1)"
    by (rule scq_step.intros) (simp_all add: scq_start_def scq_enq_call_def goto_def)
  ultimately have "scq_reachable 4 (0 + 1 + 1) (scq_enq_call 4 1 7 True ?s1)" by (rule scq_reachable.step)
  then show ?thesis unfolding scq_demo_def by (simp add: numeral_2_eq_2)
qed

definition scq_filled :: scq_state where
  "scq_filled = scq_run 4 [0, 1, 0, 1, 1, 0, 1, 0, 0, 0] scq_demo"

lemma scq_filled_values:
  "enq_log scq_filled = [(1, 7), (0, 5)]" "deq_log scq_filled = []" "rg_head (ring scq_filled) = 0"
  "pcs scq_filled 0 = S_idle" "pcs scq_filled 1 = S_idle" "pcs scq_filled 2 = S_idle"
  by code_simp+

lemma scq_filled_reachable: "scq_reachable 4 12 scq_filled"
  using scq_run_reachable [OF scq_demo_reachable, of "[0, 1, 0, 1, 1, 0, 1, 0, 0, 0]"]
  unfolding scq_filled_def by (simp del: scq_run.simps)

theorem scq_no_loss_witness: "scq_entry 4 scq_filled 1 AND 31 = 7 \<and> scq_entry 4 scq_filled 0 AND 31 = 5"
  using scq_no_loss [OF scq_filled_reachable] by (simp add: scq_filled_values ring_n_def lfring_pow2_def)

text \<open>
  Whenever no thread is inside an operation, exactly the oldest tickets have been served: the indices
  taken are those put in with a ticket below the head, and those still in the ring are the ones put in with
  a ticket from the head on.
\<close>

theorem scq_quiescent_order:
  assumes "scq_reachable order k s" and "4 \<le> order" "order \<le> 60" and "k \<le> 2 ^ 60" and "\<forall>t. pcs s t = S_idle"
  shows "set (deq_log s) = {x \<in> set (enq_log s). fst x < unat (rg_head (ring s))} \<and>
    (\<forall>p v. (p, v) \<in> set (enq_log s) \<longrightarrow> p < unat (rg_tail (ring s)))"
  using ring_quiescent [OF scq_invD(5) [OF scq_reachable_inv [OF assms(1-4)]]] assms(5) by simp

definition scq_served :: scq_state where
  "scq_served = scq_run 4 [2, 2, 2, 2] (scq_deq_call 2 True scq_filled)"

lemma scq_served_values:
  "enq_log scq_served = [(1, 7), (0, 5)]" "deq_log scq_served = [(0, 5)]" "rg_head (ring scq_served) = 1"
  "rg_tail (ring scq_served) = 2"
  by code_simp+

lemma scq_served_idle: "pcs scq_served i = S_idle"
proof -
  have "pcs scq_served 0 = S_idle" "pcs scq_served 1 = S_idle" "pcs scq_served 2 = S_idle"
    by code_simp+
  moreover have "pcs scq_served i = S_idle" if "i \<notin> {0, 1, 2}"
    using that by (simp add: scq_served_def scq_filled_def scq_run_other scq_deq_call_def scq_demo_def scq_enq_call_def
      scq_start_def goto_def del: scq_run.simps)
  ultimately show ?thesis by blast
qed

lemma scq_served_reachable: "scq_reachable 4 17 scq_served"
proof -
  have "scq_step 4 scq_filled (scq_deq_call 2 True scq_filled)"
    by (rule scq_step.deq_call) (rule scq_filled_values(6))
  from scq_run_reachable [OF scq_reachable.step [OF scq_filled_reachable this], of "[2, 2, 2, 2]"]
  show ?thesis unfolding scq_served_def by (simp del: scq_run.simps)
qed

theorem scq_quiescent_order_witness: "set (deq_log scq_served) = {(0, 5)}"
  using scq_quiescent_order [OF scq_served_reachable] scq_served_idle by (auto simp: scq_served_values)

end
