(* ===== verification/Pair_Words.thy ===== *)
theory Pair_Words
  imports Ring_Words
begin

text \<open>
  The double words of the rings under src/lockfree-waitfree: the entry is the high word, a pointer or a note
  the low word (lf/lf.h, with the accessors of lfring_cas2.h).
\<close>

unbundle bit_operations_syntax

definition lfaba_shift :: nat where
  "lfaba_shift = 64"

definition lfaptr_shift :: nat where
  "lfaptr_shift = 0"

definition lfaba_mask :: u128 where
  "lfaba_mask = push_bit 64 (NOT 0)"

definition lfring_entry :: "u128 \<Rightarrow> u64" where
  "lfring_entry x = ucast (drop_bit lfaba_shift (x AND lfaba_mask))"

definition lfring_pointer :: "u128 \<Rightarrow> u64" where
  "lfring_pointer x = ucast (drop_bit lfaptr_shift (x AND NOT lfaba_mask))"

definition lfring_pair :: "u64 \<Rightarrow> u64 \<Rightarrow> u128" where
  "lfring_pair e p = (push_bit lfaba_shift (ucast e) OR push_bit lfaptr_shift (ucast p))"

section \<open>The two words\<close>

lemma pair_bit: "bit (lfring_pair e p) i \<longleftrightarrow> (if i < 64 then bit p i else i < 128 \<and> bit e (i - 64))"
  by (auto simp: lfring_pair_def lfaba_shift_def lfaptr_shift_def bit_simps dest: bit_imp_le_length)

lemma entry_bit: "bit (lfring_entry x) i \<longleftrightarrow> i < 64 \<and> bit x (i + 64)"
  by (auto simp: lfring_entry_def lfaba_shift_def lfaba_mask_def bit_simps add.commute dest: bit_imp_le_length)

lemma pointer_bit: "bit (lfring_pointer x) i \<longleftrightarrow> i < 64 \<and> bit x i"
  by (auto simp: lfring_pointer_def lfaptr_shift_def lfaba_mask_def bit_simps dest: bit_imp_le_length)

lemma pair_words [simp]: "lfring_entry (lfring_pair e p) = e" "lfring_pointer (lfring_pair e p) = p"
  by (rule bit_word_eqI; simp add: pair_bit entry_bit pointer_bit)+

end
