(* ===== verification/Ptr_Ring.thy ===== *)
theory Ptr_Ring
  imports Pair_Words
begin

text \<open>
  The scalable ring of pointers, lfring_cas2.h under src/lockfree-waitfree. A slot is a double word: a
  pointer, and an entry with the cycle of the slot, a bit that says the slot is taken and a bit that says it
  is unsafe. An enqueue loads the two words of a slot one after the other (a split load, as on x86-64) and
  exchanges them together; a dequeue exchanges the entry alone, or clears both at once. Unlike the ring of
  indices this one can be full: the caller keeps a copy of the head, \<open>lhead\<close>, that saves it from
  reading the head again. Every access to a shared word is one step; the threads interleave freely
  (sequentially consistent memory), and a weak compare-and-exchange may fail spuriously. \<open>put_log\<close>,
  \<open>take_log\<close> and \<open>given_up\<close> only record what happened, by ticket.
\<close>

unbundle bit_operations_syntax

definition LFRING_PTR_MIN :: nat where
  "LFRING_PTR_MIN = 7 - 4"

section \<open>The ring\<close>

record ptr_ring =
  pr_head :: u64
  pr_threshold :: u64
  pr_tail :: u64
  pr_array :: "u128 list"

definition ptr_map :: "u64 \<Rightarrow> nat \<Rightarrow> u64 \<Rightarrow> u64" where
  "ptr_map idx order n =
     drop_bit (order + 1 - LFRING_PTR_MIN) (idx AND (n - 1)) OR (push_bit LFRING_PTR_MIN idx AND (n - 1))"

definition ptr_n :: "nat \<Rightarrow> u64" where
  "ptr_n order = lfring_pow2 (order + 1)"

definition threshold4 :: "u64 \<Rightarrow> u64" where
  "threshold4 n = 2 * n - 1"

definition ptr_slot :: "nat \<Rightarrow> u64 \<Rightarrow> nat" where
  "ptr_slot order pos = unat (ptr_map pos order (ptr_n order))"

definition ptr_cycle :: "nat \<Rightarrow> u64 \<Rightarrow> u64" where
  "ptr_cycle order w = w AND NOT (ptr_n order - 1)"

definition ptr_init_empty :: "nat \<Rightarrow> u128 list \<Rightarrow> ptr_ring" where
  "ptr_init_empty order mem =
     (let n = lfring_pow2 (order + 1)
      in \<lparr> pr_head = n, pr_threshold = - 1, pr_tail = n, pr_array = store_range (\<lambda>i. i) (\<lambda>i. 0) 0 (unat n) mem \<rparr>)"

definition ptr_init_lhead :: "nat \<Rightarrow> u64" where
  "ptr_init_lhead order = lfring_pow2 (order + 1)"

section \<open>Threads\<close>

text \<open>
  The points between two accesses. \<open>ne\<close> and \<open>nf\<close> are the arguments \<open>nonempty\<close> and \<open>nonfull\<close>, \<open>p\<close> is
  the pointer to put in.
\<close>

datatype ptr_pc =
    P_idle
  | P_full_tail u64 bool
  | P_full_head u64 bool u64
  | P_ticket u64 bool bool
  | P_pointer u64 bool bool u64
  | P_entry u64 bool bool u64 u64
  | P_head u64 bool bool u64 u128
  | P_cas u64 bool bool u64 u128
  | P_refull u64 bool u64
  | P_threshold
  | P_reset
  | P_done bool
  | G_threshold
  | G_ticket bool
  | G_entry bool u64
  | G_cas bool u64 u64 u64
  | G_take u64
  | G_tail u64
  | G_catch u64 u64
  | G_catch_head
  | G_catch_tail u64
  | G_sub_empty
  | G_sub
  | G_done "u64 option"

record ptr_state =
  pring :: ptr_ring
  ppcs :: "nat \<Rightarrow> ptr_pc"
  lheads :: "nat \<Rightarrow> u64"
  put_log :: "(nat \<times> u64) list"
  take_log :: "(nat \<times> u64) list"
  given_up :: "nat set"

definition ptr_at :: "nat \<Rightarrow> ptr_state \<Rightarrow> u64 \<Rightarrow> u128" where
  "ptr_at order s pos = pr_array (pring s) ! ptr_slot order pos"

definition set_pair :: "nat \<Rightarrow> u64 \<Rightarrow> u128 \<Rightarrow> ptr_state \<Rightarrow> ptr_state" where
  "set_pair order pos x s = s\<lparr> pring := (pring s)\<lparr> pr_array := (pr_array (pring s))[ptr_slot order pos := x] \<rparr> \<rparr>"

definition pgoto :: "nat \<Rightarrow> ptr_pc \<Rightarrow> ptr_state \<Rightarrow> ptr_state" where
  "pgoto t pc s = s\<lparr> ppcs := (ppcs s)(t := pc) \<rparr>"

definition pset_threshold :: "u64 \<Rightarrow> ptr_state \<Rightarrow> ptr_state" where
  "pset_threshold v s = s\<lparr> pring := (pring s)\<lparr> pr_threshold := v \<rparr> \<rparr>"

definition set_lhead :: "nat \<Rightarrow> u64 \<Rightarrow> ptr_state \<Rightarrow> ptr_state" where
  "set_lhead t v s = s\<lparr> lheads := (lheads s)(t := v) \<rparr>"

text \<open>The end of a round of \<open>lfring_ptr_enqueue\<close>, and its condition on a slot up to the load of the head.\<close>

definition ptr_again :: "nat \<Rightarrow> u64 \<Rightarrow> u64 \<Rightarrow> bool \<Rightarrow> bool \<Rightarrow> u64 \<Rightarrow> ptr_pc" where
  "ptr_again order lhead p ne nf tail =
     (if \<not> nf \<and> lhead + ptr_n order \<le> tail + 1 then P_refull p ne tail else P_ticket p ne nf)"

definition ptr_check :: "nat \<Rightarrow> u64 \<Rightarrow> u64 \<Rightarrow> bool \<Rightarrow> bool \<Rightarrow> u64 \<Rightarrow> u128 \<Rightarrow> ptr_pc" where
  "ptr_check order lhead p ne nf tail pair =
     (let tcycle = ptr_cycle order tail; entry = lfring_entry pair; ecycle = ptr_cycle order entry
      in if \<not> cmp_less ecycle tcycle then ptr_again order lhead p ne nf tail
         else if entry = ecycle then P_cas p ne nf tail pair
         else if entry = ecycle OR 2 then P_head p ne nf tail pair
         else ptr_again order lhead p ne nf tail)"

text \<open>What \<open>lfring_ptr_dequeue\<close> does once the slot holds nothing for it, and with an entry it has read.\<close>

definition ptr_missed :: "bool \<Rightarrow> u64 \<Rightarrow> ptr_pc" where
  "ptr_missed ne head = (if ne then G_ticket ne else G_tail head)"

definition ptr_deq_check :: "nat \<Rightarrow> bool \<Rightarrow> u64 \<Rightarrow> u64 \<Rightarrow> ptr_pc" where
  "ptr_deq_check order ne head entry =
     (let ecycle = ptr_cycle order entry; hcycle = ptr_cycle order head
      in if ecycle = hcycle then G_take head
         else if (entry AND NOT 2) \<noteq> ecycle
           then (let entry_new = entry OR 2
                 in if entry = entry_new then ptr_missed ne head
                    else if cmp_less ecycle hcycle then G_cas ne head entry entry_new
                    else ptr_missed ne head)
         else (let entry_new = hcycle OR (entry AND 2)
               in if cmp_less ecycle hcycle then G_cas ne head entry entry_new else ptr_missed ne head))"

fun get_ticket :: "ptr_pc \<Rightarrow> nat option" where
  "get_ticket (G_entry ne head) = Some (unat head)"
| "get_ticket (G_cas ne head e e') = Some (unat head)"
| "get_ticket (G_take head) = Some (unat head)"
| "get_ticket _ = None"

definition pkeep_or_give_up :: "nat \<Rightarrow> u64 \<Rightarrow> ptr_pc \<Rightarrow> ptr_state \<Rightarrow> ptr_state" where
  "pkeep_or_give_up t head pc s =
     pgoto t pc (if get_ticket pc = None then s\<lparr> given_up := insert (unat head) (given_up s) \<rparr> else s)"

section \<open>Steps\<close>

definition ptr_enq_call :: "nat \<Rightarrow> u64 \<Rightarrow> bool \<Rightarrow> bool \<Rightarrow> ptr_state \<Rightarrow> ptr_state" where
  "ptr_enq_call t p ne nf s = pgoto t (if nf then P_ticket p ne nf else P_full_tail p ne) s"

definition ptr_full_tail :: "nat \<Rightarrow> nat \<Rightarrow> u64 \<Rightarrow> bool \<Rightarrow> ptr_state \<Rightarrow> ptr_state" where
  "ptr_full_tail order t p ne s =
     (let tail = pr_tail (pring s)
      in pgoto t (if lheads s t + ptr_n order \<le> tail then P_full_head p ne tail else P_ticket p ne False) s)"

definition ptr_full_head :: "nat \<Rightarrow> nat \<Rightarrow> u64 \<Rightarrow> bool \<Rightarrow> u64 \<Rightarrow> ptr_state \<Rightarrow> ptr_state" where
  "ptr_full_head order t p ne tail s =
     (let lhead = pr_head (pring s)
      in pgoto t (if lhead + ptr_n order \<le> tail then P_done False else P_ticket p ne False) (set_lhead t lhead s))"

definition ptr_take_tail :: "nat \<Rightarrow> u64 \<Rightarrow> bool \<Rightarrow> bool \<Rightarrow> ptr_state \<Rightarrow> ptr_state" where
  "ptr_take_tail t p ne nf s =
     pgoto t (P_pointer p ne nf (pr_tail (pring s))) (s\<lparr> pring := (pring s)\<lparr> pr_tail := pr_tail (pring s) + 1 \<rparr> \<rparr>)"

text \<open>\<open>__lfaba_load\<close>: the low word, then the high word.\<close>

definition ptr_load_pointer :: "nat \<Rightarrow> nat \<Rightarrow> u64 \<Rightarrow> bool \<Rightarrow> bool \<Rightarrow> u64 \<Rightarrow> ptr_state \<Rightarrow> ptr_state" where
  "ptr_load_pointer order t p ne nf tail s = pgoto t (P_entry p ne nf tail (lfring_pointer (ptr_at order s tail))) s"

definition ptr_load_entry :: "nat \<Rightarrow> nat \<Rightarrow> u64 \<Rightarrow> bool \<Rightarrow> bool \<Rightarrow> u64 \<Rightarrow> u64 \<Rightarrow> ptr_state \<Rightarrow> ptr_state" where
  "ptr_load_entry order t p ne nf tail low s =
     pgoto t (ptr_check order (lheads s t) p ne nf tail (lfring_pair (lfring_entry (ptr_at order s tail)) low)) s"

definition ptr_enq_head :: "nat \<Rightarrow> nat \<Rightarrow> u64 \<Rightarrow> bool \<Rightarrow> bool \<Rightarrow> u64 \<Rightarrow> u128 \<Rightarrow> ptr_state \<Rightarrow> ptr_state" where
  "ptr_enq_head order t p ne nf tail pair s =
     pgoto t (if pr_head (pring s) \<le> tail then P_cas p ne nf tail pair else ptr_again order (lheads s t) p ne nf tail) s"

definition ptr_enq_cas :: "nat \<Rightarrow> nat \<Rightarrow> bool \<Rightarrow> u64 \<Rightarrow> bool \<Rightarrow> bool \<Rightarrow> u64 \<Rightarrow> u128 \<Rightarrow> ptr_state \<Rightarrow> ptr_state" where
  "ptr_enq_cas order t spurious p ne nf tail pair s =
     (if ptr_at order s tail = pair \<and> \<not> spurious
      then pgoto t (if ne then P_done True else P_threshold)
        ((set_pair order tail (lfring_pair (ptr_cycle order tail OR 1) p) s)\<lparr> put_log := put_log s @ [(unat tail, p)] \<rparr>)
      else pgoto t (ptr_check order (lheads s t) p ne nf tail (ptr_at order s tail)) s)"

definition ptr_refull :: "nat \<Rightarrow> nat \<Rightarrow> u64 \<Rightarrow> bool \<Rightarrow> u64 \<Rightarrow> ptr_state \<Rightarrow> ptr_state" where
  "ptr_refull order t p ne tail s =
     (let lhead = pr_head (pring s)
      in pgoto t (if lhead + ptr_n order \<le> tail + 1 then P_done False else P_ticket p ne False) (set_lhead t lhead s))"

definition ptr_enq_threshold :: "nat \<Rightarrow> nat \<Rightarrow> ptr_state \<Rightarrow> ptr_state" where
  "ptr_enq_threshold order t s =
     pgoto t (if pr_threshold (pring s) \<noteq> threshold4 (ptr_n order) then P_reset else P_done True) s"

definition ptr_enq_reset :: "nat \<Rightarrow> nat \<Rightarrow> ptr_state \<Rightarrow> ptr_state" where
  "ptr_enq_reset order t s = pgoto t (P_done True) (pset_threshold (threshold4 (ptr_n order)) s)"

definition ptr_deq_call :: "nat \<Rightarrow> bool \<Rightarrow> ptr_state \<Rightarrow> ptr_state" where
  "ptr_deq_call t ne s = pgoto t (if ne then G_ticket True else G_threshold) s"

definition ptr_deq_threshold :: "nat \<Rightarrow> ptr_state \<Rightarrow> ptr_state" where
  "ptr_deq_threshold t s = pgoto t (if sint (pr_threshold (pring s)) < 0 then G_done None else G_ticket False) s"

definition ptr_take_head :: "nat \<Rightarrow> bool \<Rightarrow> ptr_state \<Rightarrow> ptr_state" where
  "ptr_take_head t ne s =
     pgoto t (G_entry ne (pr_head (pring s))) (s\<lparr> pring := (pring s)\<lparr> pr_head := pr_head (pring s) + 1 \<rparr> \<rparr>)"

definition ptr_deq_entry :: "nat \<Rightarrow> nat \<Rightarrow> bool \<Rightarrow> u64 \<Rightarrow> ptr_state \<Rightarrow> ptr_state" where
  "ptr_deq_entry order t ne head s =
     pkeep_or_give_up t head (ptr_deq_check order ne head (lfring_entry (ptr_at order s head))) s"

text \<open>The exchange of the entry alone leaves the pointer of the slot as it is.\<close>

definition ptr_deq_cas :: "nat \<Rightarrow> nat \<Rightarrow> bool \<Rightarrow> bool \<Rightarrow> u64 \<Rightarrow> u64 \<Rightarrow> u64 \<Rightarrow> ptr_state \<Rightarrow> ptr_state" where
  "ptr_deq_cas order t spurious ne head entry entry_new s =
     (let pair = ptr_at order s head
      in if lfring_entry pair = entry \<and> \<not> spurious
         then pkeep_or_give_up t head (ptr_missed ne head)
           (set_pair order head (lfring_pair entry_new (lfring_pointer pair)) s)
         else pkeep_or_give_up t head (ptr_deq_check order ne head (lfring_entry pair)) s)"

definition ptr_deq_take :: "nat \<Rightarrow> nat \<Rightarrow> u64 \<Rightarrow> ptr_state \<Rightarrow> ptr_state" where
  "ptr_deq_take order t head s =
     (let pair = ptr_at order s head
      in pgoto t (G_done (Some (lfring_pointer pair)))
           ((set_pair order head (pair AND lfring_pair (NOT 1) 0) s)
              \<lparr> take_log := take_log s @ [(unat head, lfring_pointer pair)] \<rparr>))"

definition ptr_deq_tail :: "nat \<Rightarrow> u64 \<Rightarrow> ptr_state \<Rightarrow> ptr_state" where
  "ptr_deq_tail t head s =
     pgoto t (if cmp_le (pr_tail (pring s)) (head + 1) then G_catch (pr_tail (pring s)) (head + 1) else G_sub) s"

text \<open>\<open>__lfring_ptr_catchup\<close>.\<close>

definition ptr_catch :: "nat \<Rightarrow> bool \<Rightarrow> u64 \<Rightarrow> u64 \<Rightarrow> ptr_state \<Rightarrow> ptr_state" where
  "ptr_catch t spurious tail target s =
     (if pr_tail (pring s) = tail \<and> \<not> spurious
      then pgoto t G_sub_empty (s\<lparr> pring := (pring s)\<lparr> pr_tail := target \<rparr> \<rparr>)
      else pgoto t G_catch_head s)"

definition ptr_catch_head :: "nat \<Rightarrow> ptr_state \<Rightarrow> ptr_state" where
  "ptr_catch_head t s = pgoto t (G_catch_tail (pr_head (pring s))) s"

definition ptr_catch_tail :: "nat \<Rightarrow> u64 \<Rightarrow> ptr_state \<Rightarrow> ptr_state" where
  "ptr_catch_tail t target s =
     pgoto t (if cmp_ge (pr_tail (pring s)) target then G_sub_empty else G_catch (pr_tail (pring s)) target) s"

definition ptr_sub_empty :: "nat \<Rightarrow> ptr_state \<Rightarrow> ptr_state" where
  "ptr_sub_empty t s = pgoto t (G_done None) (pset_threshold (pr_threshold (pring s) - 1) s)"

definition ptr_sub :: "nat \<Rightarrow> ptr_state \<Rightarrow> ptr_state" where
  "ptr_sub t s =
     pgoto t (if sint (pr_threshold (pring s)) \<le> 0 then G_done None else G_ticket False)
       (pset_threshold (pr_threshold (pring s) - 1) s)"

text \<open>One step of a thread inside an operation.\<close>

definition ptr_thread :: "nat \<Rightarrow> nat \<Rightarrow> bool \<Rightarrow> ptr_state \<Rightarrow> ptr_state" where
  "ptr_thread order t spurious s =
     (case ppcs s t of
        P_idle \<Rightarrow> s
      | P_full_tail p ne \<Rightarrow> ptr_full_tail order t p ne s
      | P_full_head p ne tail \<Rightarrow> ptr_full_head order t p ne tail s
      | P_ticket p ne nf \<Rightarrow> ptr_take_tail t p ne nf s
      | P_pointer p ne nf tail \<Rightarrow> ptr_load_pointer order t p ne nf tail s
      | P_entry p ne nf tail low \<Rightarrow> ptr_load_entry order t p ne nf tail low s
      | P_head p ne nf tail pair \<Rightarrow> ptr_enq_head order t p ne nf tail pair s
      | P_cas p ne nf tail pair \<Rightarrow> ptr_enq_cas order t spurious p ne nf tail pair s
      | P_refull p ne tail \<Rightarrow> ptr_refull order t p ne tail s
      | P_threshold \<Rightarrow> ptr_enq_threshold order t s
      | P_reset \<Rightarrow> ptr_enq_reset order t s
      | P_done r \<Rightarrow> pgoto t P_idle s
      | G_threshold \<Rightarrow> ptr_deq_threshold t s
      | G_ticket ne \<Rightarrow> ptr_take_head t ne s
      | G_entry ne head \<Rightarrow> ptr_deq_entry order t ne head s
      | G_cas ne head entry entry_new \<Rightarrow> ptr_deq_cas order t spurious ne head entry entry_new s
      | G_take head \<Rightarrow> ptr_deq_take order t head s
      | G_tail head \<Rightarrow> ptr_deq_tail t head s
      | G_catch tail target \<Rightarrow> ptr_catch t spurious tail target s
      | G_catch_head \<Rightarrow> ptr_catch_head t s
      | G_catch_tail target \<Rightarrow> ptr_catch_tail t target s
      | G_sub_empty \<Rightarrow> ptr_sub_empty t s
      | G_sub \<Rightarrow> ptr_sub t s
      | G_done r \<Rightarrow> pgoto t P_idle s)"

text \<open>A call with \<open>lhead\<close> uninitialised is not among the steps: every thread has run \<open>lfring_ptr_init_lhead\<close>.\<close>

inductive ptr_step :: "nat \<Rightarrow> ptr_state \<Rightarrow> ptr_state \<Rightarrow> bool" for order where
  enq_call: "ppcs s t = P_idle \<Longrightarrow> ptr_step order s (ptr_enq_call t p ne nf s)"
| deq_call: "ppcs s t = P_idle \<Longrightarrow> ptr_step order s (ptr_deq_call t ne s)"
| thread: "ptr_step order s (ptr_thread order t spurious s)"

text \<open>The tickets below the ring size are never handed out.\<close>

definition ptr_start :: "nat \<Rightarrow> u128 list \<Rightarrow> ptr_state" where
  "ptr_start order mem = \<lparr> pring = ptr_init_empty order mem, ppcs = (\<lambda>_. P_idle), lheads = (\<lambda>_. ptr_init_lhead order),
     put_log = [], take_log = [], given_up = {..<2 ^ (order + 1)} \<rparr>"

text \<open>\<open>ptr_reachable order k s\<close>: \<open>s\<close> is reached within \<open>k\<close> steps.\<close>

inductive ptr_reachable :: "nat \<Rightarrow> nat \<Rightarrow> ptr_state \<Rightarrow> bool" for order where
  start: "length mem = 2 ^ (order + 1) \<Longrightarrow> ptr_reachable order 0 (ptr_start order mem)"
| step: "ptr_reachable order k s \<Longrightarrow> ptr_step order s s' \<Longrightarrow> ptr_reachable order (k + 1) s'"

end
