(* ===== verification/Ptr_Slots.thy ===== *)
theory Ptr_Slots
  imports Ptr_Ring Ticket_Slots
begin

text \<open>
  The double words of the ring of pointers (lfring_cas2.h under src/lockfree-waitfree) as slots of the
  ticket machine. An entry holds, from the top, a cycle, bits that are never set, the unsafe bit and the
  bit that says the slot is taken. The lemmas give the two words of a pair, and the fields of every entry
  that the code builds with bit operations.
\<close>

unbundle bit_operations_syntax

section \<open>Entries\<close>

lemma cleared_words [simp]: "lfring_entry (x AND lfring_pair (NOT 1) 0) = lfring_entry x AND NOT 1"
  by (rule bit_word_eqI) (auto simp: bit_and_iff bit_not_iff pair_bit entry_bit)

definition ptr_view :: "nat \<Rightarrow> u128 \<Rightarrow> u64 slot" where
  "ptr_view order x = \<lparr> s_cycle = int (unat (lfring_entry x) div 2 ^ (order + 1)), s_safe = (\<not> bit (lfring_entry x) 1),
     s_held = (if bit (lfring_entry x) 0 then Some (lfring_pointer x) else None) \<rparr>"

text \<open>What \<open>ptr_view\<close> and a torn pair have in common: the shape of the slot is that of its entry.\<close>

lemma ptr_view_sel [simp]:
  "s_cycle (ptr_view order x) = int (unat (lfring_entry x) div 2 ^ (order + 1))"
  "s_safe (ptr_view order x) \<longleftrightarrow> \<not> bit (lfring_entry x) 1" "s_held (ptr_view order x) = None \<longleftrightarrow> \<not> bit (lfring_entry x) 0"
  "s_held (ptr_view order x) = Some v \<longleftrightarrow> bit (lfring_entry x) 0 \<and> lfring_pointer x = v"
  by (simp_all add: ptr_view_def)

definition low_ok :: "nat \<Rightarrow> u64 \<Rightarrow> bool" where
  "low_ok order e \<longleftrightarrow> (\<forall>i. 2 \<le> i \<longrightarrow> i \<le> order \<longrightarrow> \<not> bit e i)"

lemma ptr_n_ring: "ptr_n order = ring_n order"
  by (simp add: ptr_n_def ring_n_pow)

lemma ptr_cycle_bit: "bit (ptr_cycle order w) i \<longleftrightarrow> bit w i \<and> order < i"
  by (auto simp: ptr_cycle_def ptr_n_ring ring_n_bits(2) bit_simps dest: bit_imp_le_length)

lemma ptr_cycle_unat: "unat (ptr_cycle order w) = 2 ^ (order + 1) * (unat w div 2 ^ (order + 1))"
proof -
  have "uint (ptr_cycle order w) = push_bit (order + 1) (drop_bit (order + 1) (uint w))"
    by (rule bit_eqI) (auto simp: bit_uint_iff ptr_cycle_bit bit_push_bit_iff bit_drop_bit_eq possible_bit_word simp del: push_bit_Suc)
  then show ?thesis
    by (simp add: push_bit_eq_mult drop_bit_eq_div zdiv_int flip: of_nat_eq_iff [where 'a = int])
qed

lemma num_eqI:
  assumes "\<And>i. order < i \<Longrightarrow> bit (e :: u64) i = bit (e' :: u64) i"
  shows "unat e div 2 ^ (order + 1) = unat e' div 2 ^ (order + 1)"
proof -
  have "drop_bit (order + 1) e = drop_bit (order + 1) e'"
    by (rule bit_word_eqI) (simp add: bit_drop_bit_eq assms)
  then show ?thesis by (metis unat_drop_bit_div)
qed

lemma bit_one_two: "bit (1 :: u64) i \<longleftrightarrow> i = 0" "bit (2 :: u64) i \<longleftrightarrow> i = 1"
  using bit_one_at [of 0 i] bit_one_at [of 1 i] by auto

lemmas word_bits = bit_or_iff bit_and_iff bit_not_iff bit_one_two

lemma entry_fields:
  "unat (ptr_cycle order h OR 1) div 2 ^ (order + 1) = unat h div 2 ^ (order + 1)"
  "1 \<le> order \<Longrightarrow> unat (e OR (2 :: u64)) div 2 ^ (order + 1) = unat e div 2 ^ (order + 1)"
  "1 \<le> order \<Longrightarrow> unat (ptr_cycle order h OR (e AND 2)) div 2 ^ (order + 1) = unat h div 2 ^ (order + 1)"
  "unat (e AND NOT (1 :: u64)) div 2 ^ (order + 1) = unat e div 2 ^ (order + 1)"
  by (rule num_eqI; unfold word_bits ptr_cycle_bit; auto dest: bit_imp_le_length)+

lemma entry_low_bits:
  "bit (ptr_cycle order h OR 1) 0" "1 \<le> order \<Longrightarrow> \<not> bit (ptr_cycle order h OR 1) 1"
  "bit (e OR 2) 0 = bit e 0" "bit (e OR 2) 1"
  "\<not> bit (ptr_cycle order h OR (e AND 2)) 0" "1 \<le> order \<Longrightarrow> bit (ptr_cycle order h OR (e AND 2)) 1 = bit e 1"
  "\<not> bit (e AND NOT 1) 0" "bit (e AND NOT 1) 1 = bit e 1"
  by (unfold word_bits ptr_cycle_bit; auto)+

lemma entry_low_ok:
  "low_ok order (ptr_cycle order h OR 1)" "low_ok order e \<Longrightarrow> low_ok order (e OR 2)"
  "low_ok order (ptr_cycle order h OR (e AND 2))" "low_ok order e \<Longrightarrow> low_ok order (e AND NOT 1)" "low_ok order 0"
  by (unfold low_ok_def word_bits ptr_cycle_bit; auto)+

text \<open>The tests of the code on an entry.\<close>

lemma entry_tests:
  assumes "2 \<le> order" and e: "low_ok order e"
  shows "e = ptr_cycle order e \<longleftrightarrow> \<not> bit e 0 \<and> \<not> bit e 1"
    and "e = ptr_cycle order e OR 2 \<longleftrightarrow> \<not> bit e 0 \<and> bit e 1"
    and "(e AND NOT 2) = ptr_cycle order e \<longleftrightarrow> \<not> bit e 0"
    and "e = e OR 2 \<longleftrightarrow> bit e 1"
proof -
  have bits: "u = v \<longleftrightarrow> bit u 0 = bit v 0 \<and> bit u 1 = bit v 1 \<and> (\<forall>i > order. i < 64 \<longrightarrow> bit u i = bit v i)"
    if "low_ok order u" "low_ok order v" for u v :: u64
  proof
    assume r: "bit u 0 = bit v 0 \<and> bit u 1 = bit v 1 \<and> (\<forall>i > order. i < 64 \<longrightarrow> bit u i = bit v i)"
    show "u = v"
    proof (rule bit_word_eqI)
      fix i assume "i < LENGTH(64)"
      then show "bit u i = bit v i" using r that unfolding low_ok_def
        by (cases "i = 0"; cases "i = 1"; cases "i \<le> order") auto
    qed
  qed simp
  have c: "low_ok order (ptr_cycle order e)" "low_ok order (ptr_cycle order e OR 2)" "low_ok order (e AND NOT 2)" "low_ok order (e OR 2)"
    using e by (unfold low_ok_def word_bits ptr_cycle_bit; auto)+
  show "e = ptr_cycle order e \<longleftrightarrow> \<not> bit e 0 \<and> \<not> bit e 1"
    unfolding bits [OF e c(1)] ptr_cycle_bit using assms(1) by auto
  show "e = ptr_cycle order e OR 2 \<longleftrightarrow> \<not> bit e 0 \<and> bit e 1"
    unfolding bits [OF e c(2)] word_bits ptr_cycle_bit using assms(1) by auto
  show "(e AND NOT 2) = ptr_cycle order e \<longleftrightarrow> \<not> bit e 0"
    unfolding bits [OF c(3,1)] word_bits ptr_cycle_bit using assms(1) by auto
  show "e = e OR 2 \<longleftrightarrow> bit e 1"
    unfolding bits [OF e c(4)] word_bits using assms(1) by auto
qed

text \<open>The comparison of cycles in the code is the order of the numbers they stand for.\<close>

lemma ptr_cycle_eq: "ptr_cycle order e = ptr_cycle order h \<longleftrightarrow> unat e div 2 ^ (order + 1) = unat h div 2 ^ (order + 1)"
  unfolding word_unat_eq_iff ptr_cycle_unat by simp

lemma ptr_cycle_less:
  assumes "unat (ptr_cycle order e) \<le> 2 ^ 61" "unat h < 2 ^ 61"
  shows "cmp_less (ptr_cycle order e) (ptr_cycle order h) \<longleftrightarrow> unat e div 2 ^ (order + 1) < unat h div 2 ^ (order + 1)"
proof -
  have "unat (ptr_cycle order h) \<le> 2 ^ 61"
    unfolding ptr_cycle_unat using assms(2) times_div_less_eq_dividend [of "2 ^ (order + 1)" "unat h"] by linarith
  then have "sint (ptr_cycle order e - ptr_cycle order h) = int (unat (ptr_cycle order e)) - int (unat (ptr_cycle order h))"
    by (rule signed_diff [OF assms(1)])
  then show ?thesis unfolding cmp_less_def ptr_cycle_unat by simp
qed

section \<open>Positions\<close>

lemma ptr_slot_eq: "ptr_slot order w = unat (spread_map 3 w (order + 1) (lfring_pow2 (order + 1)))"
  by (simp add: ptr_slot_def ptr_map_def spread_map_def LFRING_PTR_MIN_def ptr_n_def)

lemma ptr_slot_less: "2 \<le> order \<Longrightarrow> order \<le> 60 \<Longrightarrow> ptr_slot order w < 2 ^ (order + 1)"
  unfolding ptr_slot_eq by (rule spread_map_less) simp_all

lemma ptr_slot_eq_iff:
  "2 \<le> order \<Longrightarrow> order \<le> 60 \<Longrightarrow>
    ptr_slot order w = ptr_slot order w' \<longleftrightarrow> unat w mod 2 ^ (order + 1) = unat w' mod 2 ^ (order + 1)"
  unfolding ptr_slot_eq word_unat_eq_iff [symmetric] by (rule spread_map_eq_iff) simp_all

end
