(* ===== verification/Ptr_Safety.thy ===== *)
theory Ptr_Safety
  imports Ptr_Slots Ticket_Ring
begin

text \<open>
  The ring of pointers of lfring_cas2.h as an implementation of the ticket machine: every step of a thread
  is a step of the machine. The two words of a slot are loaded one after the other, so an enqueue may hold a
  pair that was never in the slot; its exchange then fails, and what it decides from the entry alone is a
  decision about the slot as it was when the entry was loaded.
\<close>

unbundle bit_operations_syntax

section \<open>The abstraction\<close>

definition entry_shape :: "nat \<Rightarrow> u64 \<Rightarrow> int \<times> bool \<times> bool" where
  "entry_shape order e = (int (unat e div 2 ^ (order + 1)), \<not> bit e 1, \<not> bit e 0)"

fun ptr_stage :: "nat \<Rightarrow> ptr_pc \<Rightarrow> u64 stage" where
  "ptr_stage order (P_pointer p ne nf tail) = Put_ticket (unat tail)"
| "ptr_stage order (P_entry p ne nf tail low) = Put_ticket (unat tail)"
| "ptr_stage order (P_head p ne nf tail pair) = Put_checked (unat tail) (ptr_view order pair)"
| "ptr_stage order (P_cas p ne nf tail pair) = Put_ready (unat tail) (ptr_view order pair)"
| "ptr_stage order (G_entry ne head) = Take_ticket (unat head)"
| "ptr_stage order (G_cas ne head e e') =
     Take_swap (unat head) (entry_shape order e) (int (unat e' div 2 ^ (order + 1))) (\<not> bit e' 1)"
| "ptr_stage order (G_take head) = Take_found (unat head) None"
| "ptr_stage order (G_tail head) = Bound (Suc (unat head))"
| "ptr_stage order (G_catch tail target) = Catch (unat tail) (unat target)"
| "ptr_stage order (G_catch_tail target) = Bound (unat target)"
| "ptr_stage order _ = Free"

definition ptr_slots :: "nat \<Rightarrow> ptr_state \<Rightarrow> nat \<Rightarrow> u64 slot" where
  "ptr_slots order s p = ptr_view order (ptr_at order s (word_of_nat p))"

definition ptr_abs :: "nat \<Rightarrow> ptr_state \<Rightarrow> u64 tring" where
  "ptr_abs order s = \<lparr> t_slots = ptr_slots order s, t_head = unat (pr_head (pring s)), t_tail = unat (pr_tail (pring s)),
     t_put = put_log s, t_taken = take_log s, t_given = given_up s, t_stages = (\<lambda>i. ptr_stage order (ppcs s i)) \<rparr>"

text \<open>The middle bits of every entry are zero; the exchange of a dequeue keeps the bit that says the slot is taken.\<close>

fun pc_entry_ok :: "nat \<Rightarrow> ptr_pc \<Rightarrow> bool" where
  "pc_entry_ok order (G_cas ne head e e') \<longleftrightarrow> low_ok order e' \<and> bit e' 0 = bit e 0"
| "pc_entry_ok order _ \<longleftrightarrow> True"

definition ptr_words_ok :: "nat \<Rightarrow> nat \<Rightarrow> ptr_state \<Rightarrow> bool" where
  "ptr_words_ok order B s \<longleftrightarrow> length (pr_array (pring s)) = 2 ^ (order + 1) \<and>
     unat (pr_head (pring s)) \<le> B \<and> unat (pr_tail (pring s)) \<le> B \<and>
     (\<forall>x \<in> set (pr_array (pring s)). low_ok order (lfring_entry x)) \<and> (\<forall>t. pc_entry_ok order (ppcs s t))"

definition ptr_inv :: "nat \<Rightarrow> nat \<Rightarrow> ptr_state \<Rightarrow> bool" where
  "ptr_inv order B s \<longleftrightarrow> ptr_words_ok order B s \<and> ring_ok order (ptr_abs order s)"

section \<open>How the abstraction follows the parts of a step\<close>

lemma shape_view: "s_shape (ptr_view order x) = entry_shape order (lfring_entry x)"
  by (simp add: s_shape_def entry_shape_def)

lemma ptr_slots_unat [simp]: "ptr_slots order s (unat w) = ptr_view order (ptr_at order s w)"
  by (simp add: ptr_slots_def)

lemma ptr_slots_set:
  assumes "2 \<le> order" "order \<le> 60" and "length (pr_array (pring s)) = 2 ^ (order + 1)"
  shows "ptr_slots order (set_pair order w x s) = upd_slot order (ptr_slots order s) (unat w) (ptr_view order x)"
proof
  fix p
  show "ptr_slots order (set_pair order w x s) p = upd_slot order (ptr_slots order s) (unat w) (ptr_view order x) p"
    using ptr_slot_eq_iff [OF assms(1,2), of w "word_of_nat p"] ptr_slot_less [OF assms(1,2)] assms(3)
    unfolding upd_at ptr_slots_def ptr_at_def set_pair_def unat_word_mod [OF assms(2)]
    by (auto simp: nth_list_update)
qed

lemma ptr_slots_cong: "pr_array (pring s') = pr_array (pring s) \<Longrightarrow> ptr_slots order s' = ptr_slots order s"
  by (simp add: ptr_slots_def [abs_def] ptr_at_def)

lemma pabs_sel [simp]:
  "t_slots (ptr_abs order s) = ptr_slots order s" "t_head (ptr_abs order s) = unat (pr_head (pring s))"
  "t_tail (ptr_abs order s) = unat (pr_tail (pring s))" "t_put (ptr_abs order s) = put_log s"
  "t_taken (ptr_abs order s) = take_log s" "t_given (ptr_abs order s) = given_up s"
  "t_stages (ptr_abs order s) i = ptr_stage order (ppcs s i)"
  by (simp_all add: ptr_abs_def)

lemma pabs_goto: "ptr_abs order (pgoto t pc s) = enter t (ptr_stage order pc) (ptr_abs order s)"
  by (simp add: ptr_abs_def enter_def pgoto_def ptr_slots_cong [of "s\<lparr>ppcs := x\<rparr>" s for x] fun_eq_iff)

lemma pabs_threshold: "ptr_abs order (pset_threshold v s) = ptr_abs order s"
  by (simp add: ptr_abs_def pset_threshold_def ptr_slots_cong [of "s\<lparr>pring := pring s\<lparr>pr_threshold := v\<rparr>\<rparr>" s])

lemma pabs_lhead: "ptr_abs order (set_lhead t v s) = ptr_abs order s"
  by (simp add: ptr_abs_def set_lhead_def ptr_slots_cong [of "s\<lparr>lheads := x\<rparr>" s for x])

lemma pabs_head: "ptr_abs order (s\<lparr> pring := (pring s)\<lparr> pr_head := v \<rparr> \<rparr>) = (ptr_abs order s)\<lparr> t_head := unat v \<rparr>"
  by (simp add: ptr_abs_def ptr_slots_cong [of "s\<lparr>pring := pring s\<lparr>pr_head := v\<rparr>\<rparr>" s])

lemma pabs_tail: "ptr_abs order (s\<lparr> pring := (pring s)\<lparr> pr_tail := v \<rparr> \<rparr>) = (ptr_abs order s)\<lparr> t_tail := unat v \<rparr>"
  by (simp add: ptr_abs_def ptr_slots_cong [of "s\<lparr>pring := pring s\<lparr>pr_tail := v\<rparr>\<rparr>" s])

lemma pabs_given: "ptr_abs order (s\<lparr> given_up := g \<rparr>) = (ptr_abs order s)\<lparr> t_given := g \<rparr>"
  by (simp add: ptr_abs_def ptr_slots_cong [of "s\<lparr>given_up := g\<rparr>" s])

lemma pabs_set:
  assumes "2 \<le> order" "order \<le> 60" and "length (pr_array (pring s)) = 2 ^ (order + 1)"
  shows "ptr_abs order (set_pair order w x s) =
      (ptr_abs order s)\<lparr> t_slots := upd_slot order (ptr_slots order s) (unat w) (ptr_view order x) \<rparr>"
    and "ptr_abs order ((set_pair order w x s)\<lparr> put_log := l \<rparr>) =
      (ptr_abs order s)\<lparr> t_slots := upd_slot order (ptr_slots order s) (unat w) (ptr_view order x), t_put := l \<rparr>"
    and "ptr_abs order ((set_pair order w x s)\<lparr> take_log := l \<rparr>) =
      (ptr_abs order s)\<lparr> t_slots := upd_slot order (ptr_slots order s) (unat w) (ptr_view order x), t_taken := l \<rparr>"
  using ptr_slots_set [OF assms, of w x]
  by (simp_all add: ptr_abs_def set_pair_def ptr_slots_cong [of "s'\<lparr>put_log := l\<rparr>" s' for s'] ptr_slots_cong [of "s'\<lparr>take_log := l\<rparr>" s' for s'])

lemmas pabs_simps = pabs_goto pabs_threshold pabs_lhead pabs_head pabs_tail pabs_given

lemma get_ticket_stage: "get_ticket pc = take_ticket (ptr_stage order pc)"
  by (cases pc) simp_all

lemma pabs_keep_or_give_up:
  "ptr_abs order (pkeep_or_give_up t head pc s) = leave_or_keep t (unat head) (ptr_stage order pc) (ptr_abs order s)"
  by (simp add: pkeep_or_give_up_def leave_or_keep_def pabs_goto pabs_given get_ticket_stage [of _ order])

section \<open>Looking at an entry\<close>

lemma ptr_cycle_tests:
  assumes ok: "ring_ok order r" and b: "t_head r \<le> 2 ^ 61" "t_tail r \<le> 2 ^ 61"
    and w: "t_slots r (unat pos) = ptr_view order x" and pos: "unat pos < 2 ^ 61"
  shows "cmp_less (ptr_cycle order (lfring_entry x)) (ptr_cycle order pos) \<longleftrightarrow>
      s_cycle (t_slots r (unat pos)) < int (unat pos div 2 ^ (order + 1))"
    and "ptr_cycle order (lfring_entry x) = ptr_cycle order pos \<longleftrightarrow>
      s_cycle (t_slots r (unat pos)) = int (unat pos div 2 ^ (order + 1))"
proof -
  have "2 ^ (order + 1) * int (unat (lfring_entry x) div 2 ^ (order + 1)) \<le> 2 ^ 61"
    using cycle_bound(2) [OF ok [unfolded ring_ok_def] b, of "unat pos"] unfolding w ptr_view_sel(1) by simp
  then have "int (2 ^ (order + 1) * (unat (lfring_entry x) div 2 ^ (order + 1))) \<le> int (2 ^ 61)" by simp
  then have "unat (ptr_cycle order (lfring_entry x)) \<le> 2 ^ 61" unfolding ptr_cycle_unat by (simp only: of_nat_le_iff)
  then show "cmp_less (ptr_cycle order (lfring_entry x)) (ptr_cycle order pos) \<longleftrightarrow>
      s_cycle (t_slots r (unat pos)) < int (unat pos div 2 ^ (order + 1))"
    unfolding w ptr_view_sel(1) of_nat_less_iff by (rule ptr_cycle_less [OF _ pos])
  show "ptr_cycle order (lfring_entry x) = ptr_cycle order pos \<longleftrightarrow>
      s_cycle (t_slots r (unat pos)) = int (unat pos div 2 ^ (order + 1))"
    unfolding w ptr_view_sel(1) of_nat_eq_iff by (rule ptr_cycle_eq)
qed

lemma again_stage [simp]: "ptr_stage order (ptr_again order lhead p ne nf tail) = Free"
  by (simp add: ptr_again_def)

lemma again_ticket [simp]: "get_ticket (ptr_again order lhead p ne nf tail) = None"
  by (simp add: ptr_again_def)

text \<open>The pointer of \<open>pair\<close> may be an old one: an empty slot looks the same with any pointer.\<close>

lemma ptr_check_step:
  assumes ok: "ring_ok order r" and b: "t_head r \<le> 2 ^ 61" "t_tail r \<le> 2 ^ 61" and o: "2 \<le> order"
    and t: "put_ticket (t_stages r i) = Some (unat tail)" and w: "t_slots r (unat tail) = ptr_view order x"
    and x: "low_ok order (lfring_entry x)" and pair: "lfring_entry pair = lfring_entry x"
  shows "ring_step order r (enter i (ptr_stage order (ptr_check order lhead p ne nf tail pair)) r)"
proof -
  have "unat tail < 2 ^ 61" using ticket_drawn(1) [OF ok t] b(2) by simp
  note c = ptr_cycle_tests(1) [OF ok b w this]
  note tests = entry_tests(1,2) [OF o x]
  show ?thesis
  proof (cases "cmp_less (ptr_cycle order (lfring_entry x)) (ptr_cycle order tail) \<and> \<not> bit (lfring_entry x) 0")
    case True
    then have view: "ptr_view order pair = t_slots r (unat tail)" unfolding w ptr_view_def pair by simp
    from True have "ptr_stage order (ptr_check order lhead p ne nf tail pair) =
        (if s_safe (t_slots r (unat tail)) then Put_ready (unat tail) (t_slots r (unat tail)) else Put_checked (unat tail) (t_slots r (unat tail)))"
      using tests unfolding ptr_check_def Let_def pair view [symmetric] by (simp add: pair)
    then show ?thesis using True c by (intro ring_step.look [OF t]) (simp_all add: w)
  next
    case False
    then have "ptr_check order lhead p ne nf tail pair = ptr_again order lhead p ne nf tail"
      using tests unfolding ptr_check_def Let_def pair by auto
    then show ?thesis using ring_step.relax [of r i] put_not_take [OF t] by simp
  qed
qed

lemma ptr_missed_stage: "missed (unat head) (ptr_stage order (ptr_missed ne head))"
  by (simp add: ptr_missed_def missed_def)

lemma ptr_deq_check_step:
  assumes ok: "ring_ok order r" and b: "t_head r \<le> 2 ^ 61" "t_tail r \<le> 2 ^ 61" and o: "2 \<le> order"
    and t: "take_ticket (t_stages r i) = Some (unat head)" and w: "t_slots r (unat head) = ptr_view order x"
    and x: "low_ok order (lfring_entry x)"
  shows "ring_step order r (leave_or_keep i (unat head) (ptr_stage order (ptr_deq_check order ne head (lfring_entry x))) r)"
proof -
  define e where "e = lfring_entry x"
  define new where "new = ptr_deq_check order ne head e"
  have "unat head < 2 ^ 61" using ticket_drawn(2) [OF ok t] b(1) by simp
  note c = ptr_cycle_tests [OF ok b w this, folded e_def]
  note tests = entry_tests(3,4) [OF o x [folded e_def]]
  have shape: "s_shape (t_slots r (unat head)) = entry_shape order e" by (simp add: w shape_view e_def)
  have miss: "ring_step order r (leave_or_keep i (unat head) (ptr_stage order new) r)"
    if "new = ptr_missed ne head" "s_cycle (t_slots r (unat head)) \<noteq> int (unat head div 2 ^ (order + 1))"
      "int (unat head div 2 ^ (order + 1)) \<le> s_cycle (t_slots r (unat head)) \<or> bit e 1 \<and> bit e 0"
    unfolding leave_or_keep_def using ring_step.miss [OF t that(2) _ ptr_missed_stage] that(1,3) missed_tickets [OF ptr_missed_stage]
    by (simp add: w e_def)
  have aim: "ring_step order r (leave_or_keep i (unat head) (ptr_stage order new) r)"
    if "new = G_cas ne head e e'" "swap_ok order (unat head) (entry_shape order e) (int (unat e' div 2 ^ (order + 1))) (\<not> bit e' 1)" for e'
    unfolding leave_or_keep_def using ring_step.aim [OF t, of order "int (unat e' div 2 ^ (order + 1))" "\<not> bit e' 1"] that
    by (simp add: shape)
  have low: "s_cycle (t_slots r (unat head)) = int (unat e div 2 ^ (order + 1))" by (simp add: w e_def)
  consider (found) "ptr_cycle order e = ptr_cycle order head"
    | (skip) "ptr_cycle order e \<noteq> ptr_cycle order head"
        "\<not> cmp_less (ptr_cycle order e) (ptr_cycle order head) \<or> bit e 0 \<and> bit e 1"
    | (full) "ptr_cycle order e \<noteq> ptr_cycle order head" "cmp_less (ptr_cycle order e) (ptr_cycle order head)" "bit e 0" "\<not> bit e 1"
    | (unused) "ptr_cycle order e \<noteq> ptr_cycle order head" "cmp_less (ptr_cycle order e) (ptr_cycle order head)" "\<not> bit e 0"
    by blast
  then have "ring_step order r (leave_or_keep i (unat head) (ptr_stage order new) r)"
  proof cases
    case found
    then have n: "new = G_take head" unfolding new_def ptr_deq_check_def Let_def by simp
    show ?thesis using ring_step.found [OF t, of order None] n found c(2) unfolding leave_or_keep_def by simp
  next
    case skip
    then have "new = ptr_missed ne head" using tests unfolding new_def ptr_deq_check_def Let_def by auto
    then show ?thesis using miss skip c by auto
  next
    case full
    then have n: "new = G_cas ne head e (e OR 2)" using tests unfolding new_def ptr_deq_check_def Let_def by auto
    have "swap_ok order (unat head) (entry_shape order e) (int (unat (e OR 2) div 2 ^ (order + 1))) (\<not> bit (e OR 2) 1)"
      using full c(1) low entry_fields(2) [of order e] entry_low_bits(4) [of e] o unfolding entry_shape_def swap_ok.simps by simp
    then show ?thesis by (rule aim [OF n])
  next
    case unused
    define e' where "e' = (ptr_cycle order head OR (e AND 2))"
    have n: "new = G_cas ne head e e'" using unused tests unfolding new_def ptr_deq_check_def Let_def e'_def by auto
    have "swap_ok order (unat head) (entry_shape order e) (int (unat e' div 2 ^ (order + 1))) (\<not> bit e' 1)"
      using unused c(1) low entry_fields(3) [of order head e] entry_low_bits(6) [of order head e] o
      unfolding entry_shape_def swap_ok.simps e'_def by simp
    then show ?thesis by (rule aim [OF n])
  qed
  then show ?thesis unfolding new_def e_def .
qed

section \<open>Every step is a step of the machine\<close>

lemma ptr_invD:
  assumes "ptr_inv order B s"
  shows "length (pr_array (pring s)) = 2 ^ (order + 1)" "unat (pr_head (pring s)) \<le> B" "unat (pr_tail (pring s)) \<le> B"
    and "pc_entry_ok order (ppcs s t)" and "ring_ok order (ptr_abs order s)"
    and "stage_ok order (ptr_slots order s) (unat (pr_head (pring s))) (set (put_log s)) (given_up s) (ptr_stage order (ppcs s t))"
    and "2 \<le> order \<Longrightarrow> order \<le> 60 \<Longrightarrow> low_ok order (lfring_entry (ptr_at order s pos))"
proof -
  show "ring_ok order (ptr_abs order s)" using assms unfolding ptr_inv_def by blast
  from all_okD(3) [OF this [unfolded ring_ok_def]]
  show "stage_ok order (ptr_slots order s) (unat (pr_head (pring s))) (set (put_log s)) (given_up s) (ptr_stage order (ppcs s t))"
    by simp
  have w: "ptr_words_ok order B s" using assms unfolding ptr_inv_def by blast
  show l: "length (pr_array (pring s)) = 2 ^ (order + 1)" "unat (pr_head (pring s)) \<le> B" "unat (pr_tail (pring s)) \<le> B"
    "pc_entry_ok order (ppcs s t)" using w unfolding ptr_words_ok_def by blast+
  assume o: "2 \<le> order" "order \<le> 60"
  have "ptr_at order s pos \<in> set (pr_array (pring s))"
    unfolding ptr_at_def by (rule nth_mem) (simp only: l(1) ptr_slot_less [OF o])
  then show "low_ok order (lfring_entry (ptr_at order s pos))" using w unfolding ptr_words_ok_def by blast
qed

lemma ptr_enq_step:
  assumes inv: "ptr_inv order B s" and B: "B < 2 ^ 61" and o: "2 \<le> order" "order \<le> 60"
    and t: "put_ticket (ptr_stage order (ppcs s t)) = Some (unat tail)" and pair: "lfring_entry pair = lfring_entry (ptr_at order s tail)"
  shows "ring_step order (ptr_abs order s) (ptr_abs order (pgoto t (ptr_check order lhead p ne nf tail pair) s))"
proof -
  note I = ptr_invD [OF inv]
  show ?thesis unfolding pabs_goto
    by (rule ptr_check_step [OF I(5) _ _ o(1), where x = "ptr_at order s tail"]) (use I(2,3,7) B t pair o in simp_all)
qed

lemma ptr_enq_cas_step:
  assumes inv: "ptr_inv order B s" and B: "B < 2 ^ 61" and o: "2 \<le> order" "order \<le> 60"
    and pc: "ppcs s t = P_cas p ne nf tail pair"
  shows "ring_step order (ptr_abs order s) (ptr_abs order (ptr_enq_cas order t spurious p ne nf tail pair s))"
proof (cases "ptr_at order s tail = pair \<and> \<not> spurious")
  case True
  note I = ptr_invD [OF inv]
  have st: "t_stages (ptr_abs order s) t = Put_ready (unat tail) (t_slots (ptr_abs order s) (unat tail))"
    using pc True by simp
  have view: "ptr_view order (lfring_pair (ptr_cycle order tail OR 1) p) =
      \<lparr> s_cycle = int (unat tail div 2 ^ (order + 1)), s_safe = True, s_held = Some p \<rparr>"
    using entry_fields(1) [of order tail] entry_low_bits(1,2) [of order tail] o(1) by (simp add: ptr_view_def)
  have "ptr_abs order (ptr_enq_cas order t spurious p ne nf tail pair s) =
      enter t Free ((ptr_abs order s)\<lparr> t_slots := upd_slot order (ptr_slots order s) (unat tail)
        (ptr_view order (lfring_pair (ptr_cycle order tail OR 1) p)), t_put := put_log s @ [(unat tail, p)] \<rparr>)"
    using True by (simp add: ptr_enq_cas_def pabs_goto pabs_set [OF o I(1)])
  then show ?thesis using ring_step.store [OF st, of order p] by (simp add: view)
next
  case False
  have "ptr_enq_cas order t spurious p ne nf tail pair s =
      pgoto t (ptr_check order (lheads s t) p ne nf tail (ptr_at order s tail)) s"
    unfolding ptr_enq_cas_def if_not_P [OF False] ..
  then show ?thesis using ptr_enq_step [OF inv B o, of t tail "ptr_at order s tail"] pc by simp
qed

lemma ptr_deq_step:
  assumes inv: "ptr_inv order B s" and B: "B < 2 ^ 61" and o: "2 \<le> order" "order \<le> 60"
    and t: "get_ticket (ppcs s t) = Some (unat head)"
  shows "ring_step order (ptr_abs order s)
    (ptr_abs order (pkeep_or_give_up t head (ptr_deq_check order ne head (lfring_entry (ptr_at order s head))) s))"
proof -
  note I = ptr_invD [OF inv]
  show ?thesis unfolding pabs_keep_or_give_up
    by (rule ptr_deq_check_step [OF I(5) _ _ o(1)]) (use I(2,3,7) B t o in \<open>simp_all add: get_ticket_stage [of _ order]\<close>)
qed

lemma ptr_deq_cas_step:
  assumes inv: "ptr_inv order B s" and B: "B < 2 ^ 61" and o: "2 \<le> order" "order \<le> 60"
    and pc: "ppcs s t = G_cas ne head e e'"
  shows "ring_step order (ptr_abs order s) (ptr_abs order (ptr_deq_cas order t spurious ne head e e' s))"
proof (cases "lfring_entry (ptr_at order s head) = e \<and> \<not> spurious")
  case True
  note I = ptr_invD [OF inv]
  define x where "x = ptr_at order s head"
  have st: "t_stages (ptr_abs order s) t = Take_swap (unat head) (s_shape (t_slots (ptr_abs order s) (unat head)))
      (int (unat e' div 2 ^ (order + 1))) (\<not> bit e' 1)"
    using pc True by (simp add: shape_view)
  have "bit e' 0 = bit (lfring_entry x) 0" using I(4) [of t] pc True by (simp add: x_def)
  then have view: "ptr_view order (lfring_pair e' (lfring_pointer x)) =
      (ptr_view order x)\<lparr> s_cycle := int (unat e' div 2 ^ (order + 1)), s_safe := \<not> bit e' 1 \<rparr>"
    by (simp add: ptr_view_def)
  have "ptr_abs order (ptr_deq_cas order t spurious ne head e e' s) =
      enter t (ptr_stage order (ptr_missed ne head)) ((ptr_abs order s)\<lparr>
        t_slots := upd_slot order (ptr_slots order s) (unat head) (ptr_view order (lfring_pair e' (lfring_pointer x))),
        t_given := insert (unat head) (given_up s) \<rparr>)"
    using True missed_tickets [OF ptr_missed_stage [where head = head and order = order and ne = ne]]
    by (simp add: ptr_deq_cas_def pabs_keep_or_give_up leave_or_keep_def pabs_set [OF o I(1)] x_def)
  then show ?thesis using ring_step.swap [OF st ptr_missed_stage [where order = order and ne = ne], of order]
    by (simp add: view [unfolded x_def] x_def)
next
  case False
  then have "ptr_deq_cas order t spurious ne head e e' s =
      pkeep_or_give_up t head (ptr_deq_check order ne head (lfring_entry (ptr_at order s head))) s"
    unfolding ptr_deq_cas_def Let_def by (simp only: if_False)
  then show ?thesis using ptr_deq_step [OF inv B o, of t head ne] pc by simp
qed

lemma ptr_deq_take_step:
  assumes inv: "ptr_inv order B s" and o: "2 \<le> order" "order \<le> 60" and pc: "ppcs s t = G_take head"
  shows "ring_step order (ptr_abs order s) (ptr_abs order (ptr_deq_take order t head s))"
proof -
  note I = ptr_invD [OF inv]
  define x where "x = ptr_at order s head"
  have st: "t_stages (ptr_abs order s) t = Take_found (unat head) None" using pc by simp
  have "unat head \<in> fst ` set (put_log s)" using I(6) [of t] pc by simp
  then obtain v where v: "(unat head, v) \<in> set (put_log s)" by auto
  moreover have "unat head \<notin> fst ` set (take_log s)"
    using tickets_okD(8) [OF all_okD(2) [OF I(5) [unfolded ring_ok_def]], of t "unat head"] st by simp
  ultimately have "(unat head, v) \<in> set (put_log s) - set (take_log s)" by force
  then have held: "s_held (t_slots (ptr_abs order s) (unat head)) = Some v"
    using slots_okD(5) [OF all_okD(1) [OF I(5) [unfolded ring_ok_def]], of "unat head" v] by simp
  then have v: "lfring_pointer x = v" by (simp add: x_def)
  have view: "ptr_view order (x AND lfring_pair (NOT 1) 0) = (ptr_view order x)\<lparr> s_held := None \<rparr>"
    using entry_fields(4) [of "lfring_entry x" order] entry_low_bits(7,8) [of "lfring_entry x"]
    unfolding ptr_view_def cleared_words by simp
  have "ptr_abs order (ptr_deq_take order t head s) =
      enter t Free ((ptr_abs order s)\<lparr> t_slots := upd_slot order (ptr_slots order s) (unat head)
        ((ptr_view order x)\<lparr> s_held := None \<rparr>), t_taken := take_log s @ [(unat head, v)] \<rparr>)"
    by (simp add: ptr_deq_take_def pabs_goto pabs_set [OF o I(1)] view [simplified] v flip: x_def)
  then show ?thesis using ring_step.fetch [OF st held, of order] by (simp add: x_def)
qed

lemma ptr_thread_step:
  assumes inv: "ptr_inv order B s" and B: "B < 2 ^ 61" and o: "2 \<le> order" "order \<le> 60"
  shows "ring_step order (ptr_abs order s) (ptr_abs order (ptr_thread order t spurious s))"
proof -
  note I = ptr_invD [OF inv]
  have b: "unat (pr_head (pring s)) \<le> 2 ^ 61" "unat (pr_tail (pring s)) \<le> 2 ^ 61" using I(2,3) B by simp_all
  have free: "ring_step order (ptr_abs order s) (enter t Free (ptr_abs order s))"
    if "take_ticket (ptr_stage order (ppcs s t)) = None"
    using ring_step.relax [of "ptr_abs order s" t order] that by simp
  have word_le: "v \<le> w \<longleftrightarrow> unat v \<le> unat w" for v w :: u64 by (rule word_le_nat_alt)
  show ?thesis
  proof (cases "ppcs s t")
    case P_idle
    then show ?thesis using ring_step.stay by (simp add: ptr_thread_def)
  next
    case (P_ticket p ne nf)
    then show ?thesis using ring_step.draw_put [of "ptr_abs order s" t order] unat_Suc [OF I(3) B]
      by (simp add: ptr_thread_def ptr_take_tail_def pabs_simps)
  next
    case (P_pointer p ne nf tail)
    have "enter t (Put_ticket (unat tail)) (ptr_abs order s) = ptr_abs order s"
      using P_pointer by (simp add: enter_def ptr_abs_def fun_eq_iff)
    then show ?thesis using ring_step.stay [of order "ptr_abs order s"] P_pointer
      by (simp add: ptr_thread_def ptr_load_pointer_def pabs_goto)
  next
    case (P_entry p ne nf tail low)
    then show ?thesis
      using ptr_enq_step [OF inv B o, of t tail "lfring_pair (lfring_entry (ptr_at order s tail)) low"]
      by (simp add: ptr_thread_def ptr_load_entry_def)
  next
    case (P_head p ne nf tail pair)
    have st: "t_stages (ptr_abs order s) t = Put_checked (unat tail) (ptr_view order pair)" using P_head by simp
    show ?thesis using ring_step.look_head [OF st, of order] free P_head
      by (simp add: ptr_thread_def ptr_enq_head_def pabs_goto word_le)
  next
    case (P_cas p ne nf tail pair)
    then show ?thesis using ptr_enq_cas_step [OF inv B o P_cas] by (simp add: ptr_thread_def)
  next
    case (G_ticket ne)
    then show ?thesis using ring_step.draw_take [of "ptr_abs order s" t order] unat_Suc [OF I(2) B]
      by (simp add: ptr_thread_def ptr_take_head_def pabs_simps)
  next
    case (G_entry ne head)
    then show ?thesis using ptr_deq_step [OF inv B o, of t head ne] by (simp add: ptr_thread_def ptr_deq_entry_def)
  next
    case (G_cas ne head e e')
    then show ?thesis using ptr_deq_cas_step [OF inv B o G_cas] by (simp add: ptr_thread_def)
  next
    case (G_take head)
    then show ?thesis using ptr_deq_take_step [OF inv o G_take] by (simp add: ptr_thread_def)
  next
    case (G_tail head)
    have h: "unat head < unat (pr_head (pring s))" using I(6) [of t] G_tail by simp
    have s: "unat (head + 1) = Suc (unat head)" using unat_Suc [of head B] h I(2) B by simp
    have c: "cmp_le (pr_tail (pring s)) (head + 1) \<longleftrightarrow> unat (pr_tail (pring s)) \<le> unat (head + 1)"
      by (rule cmp_le_pos) (use b h s in simp_all)
    have st: "t_stages (ptr_abs order s) t = Bound (Suc (unat head))" using G_tail by simp
    show ?thesis using ring_step.aim_catch [OF st, of order] free G_tail c s
      by (simp add: ptr_thread_def ptr_deq_tail_def pabs_goto)
  next
    case (G_catch tail target)
    have st: "t_stages (ptr_abs order s) t = Catch (unat tail) (unat target)" using G_catch by simp
    show ?thesis using ring_step.catch [of "ptr_abs order s" t "unat target" order] free G_catch st
      by (simp add: ptr_thread_def ptr_catch_def pabs_simps)
  next
    case G_catch_head
    then show ?thesis using ring_step.look_bound [of "ptr_abs order s" t order]
      by (simp add: ptr_thread_def ptr_catch_head_def pabs_goto)
  next
    case (G_catch_tail target)
    have h: "unat target \<le> unat (pr_head (pring s))" using I(6) [of t] G_catch_tail by simp
    have c: "cmp_ge (pr_tail (pring s)) target \<longleftrightarrow> unat target \<le> unat (pr_tail (pring s))"
      by (rule cmp_ge_pos) (use b h in simp_all)
    have st: "t_stages (ptr_abs order s) t = Bound (unat target)" using G_catch_tail by simp
    show ?thesis using ring_step.aim_catch [OF st, of order] free G_catch_tail c
      by (simp add: ptr_thread_def ptr_catch_tail_def pabs_goto)
  qed (use free in \<open>simp_all add: ptr_thread_def ptr_full_tail_def ptr_full_head_def ptr_refull_def ptr_enq_threshold_def
      ptr_enq_reset_def ptr_deq_threshold_def ptr_sub_empty_def ptr_sub_def Let_def pabs_simps\<close>)
qed

lemma ptr_step_refines:
  assumes inv: "ptr_inv order B s" and B: "B < 2 ^ 61" and o: "2 \<le> order" "order \<le> 60" and "ptr_step order s s'"
  shows "ring_step order (ptr_abs order s) (ptr_abs order s')"
  using assms(5)
proof cases
  case (enq_call t p ne nf)
  then show ?thesis using ring_step.relax [of "ptr_abs order s" t order] by (simp add: ptr_enq_call_def pabs_goto)
next
  case (deq_call t ne)
  then show ?thesis using ring_step.relax [of "ptr_abs order s" t order] by (simp add: ptr_deq_call_def pabs_goto)
next
  case (thread t spurious)
  then show ?thesis using ptr_thread_step [OF inv B o] by simp
qed

section \<open>The words stay in range\<close>

lemma pwords_goto: "ptr_words_ok order B s \<Longrightarrow> pc_entry_ok order pc \<Longrightarrow> ptr_words_ok order B (pgoto t pc s)"
  by (simp add: ptr_words_ok_def pgoto_def)

lemma pwords_keep:
  "ptr_words_ok order B s \<Longrightarrow> pc_entry_ok order pc \<Longrightarrow> ptr_words_ok order B (pkeep_or_give_up t head pc s)"
  by (simp add: ptr_words_ok_def pgoto_def pkeep_or_give_up_def)

lemma pwords_mono: "ptr_words_ok order B s \<Longrightarrow> B \<le> B' \<Longrightarrow> ptr_words_ok order B' s"
  unfolding ptr_words_ok_def by auto

lemma pwords_set: "ptr_words_ok order B s \<Longrightarrow> low_ok order (lfring_entry x) \<Longrightarrow> ptr_words_ok order B (set_pair order pos x s)"
  unfolding ptr_words_ok_def set_pair_def using set_update_subset_insert [of "pr_array (pring s)" "ptr_slot order pos" x] by auto

lemma check_entry_ok [simp]:
  "pc_entry_ok order (ptr_again order lhead p ne nf tail)" "pc_entry_ok order (ptr_check order lhead p ne nf tail pair)"
  "pc_entry_ok order (ptr_missed ne head)"
  by (simp_all add: ptr_again_def ptr_check_def ptr_missed_def Let_def)

lemma deq_check_entry_ok: "low_ok order e \<Longrightarrow> 2 \<le> order \<Longrightarrow> pc_entry_ok order (ptr_deq_check order ne head e)"
  using entry_low_ok(2,3) [of order] entry_low_bits(3) [of e] entry_low_bits(5) [of order head e] entry_tests(3) [of order e]
  by (simp add: ptr_deq_check_def Let_def)

lemma ptr_thread_words:
  assumes inv: "ptr_inv order B s" and B: "B < 2 ^ 61" and o: "2 \<le> order" "order \<le> 60"
  shows "ptr_words_ok order (B + 1) (ptr_thread order t spurious s)"
proof -
  note I = ptr_invD [OF inv]
  have w: "ptr_words_ok order B s" using inv unfolding ptr_inv_def by blast
  have w1: "ptr_words_ok order (B + 1) s" using pwords_mono [OF w] by simp
  have low: "low_ok order (lfring_entry (ptr_at order s pos))" for pos by (rule I(7) [OF o])
  note set = pwords_set [OF w1]
  show ?thesis
  proof (cases "ppcs s t")
    case (G_catch tail target)
    have "unat target \<le> unat (pr_head (pring s))" using I(6) [of t] G_catch by simp
    then show ?thesis using w1 I(2) G_catch by (simp add: ptr_thread_def ptr_catch_def pgoto_def ptr_words_ok_def)
  next
    case (P_cas p ne nf tail pair)
    then show ?thesis using w1 set [of "lfring_pair (ptr_cycle order tail OR 1) p" tail] entry_low_ok(1) [of order tail]
      by (simp add: ptr_thread_def ptr_enq_cas_def pgoto_def ptr_words_ok_def)
  next
    case (G_cas ne head e e')
    define x where "x = ptr_at order s head"
    have "ptr_words_ok order (B + 1) (set_pair order head (lfring_pair e' (lfring_pointer x)) s)"
      using I(4) [of t] G_cas by (intro set) simp
    then show ?thesis using w1 G_cas deq_check_entry_ok [OF low o(1), of ne head head]
      by (simp add: ptr_thread_def ptr_deq_cas_def Let_def pwords_keep flip: x_def)
  next
    case (G_take head)
    define x where "x = ptr_at order s head AND lfring_pair (NOT 1) 0"
    have "ptr_words_ok order (B + 1) (set_pair order head x s)"
      unfolding x_def by (rule set) (unfold cleared_words, rule entry_low_ok(4) [OF low])
    then show ?thesis using G_take
      by (simp add: ptr_thread_def ptr_deq_take_def pgoto_def ptr_words_ok_def Let_def x_def [simplified, symmetric])
  qed (use w1 deq_check_entry_ok [OF low o(1)] unat_Suc [OF I(3) B] unat_Suc [OF I(2) B] I(2,3) in
      \<open>simp_all add: ptr_thread_def ptr_full_tail_def ptr_full_head_def ptr_take_tail_def ptr_load_pointer_def ptr_load_entry_def
        ptr_enq_head_def ptr_refull_def ptr_enq_threshold_def ptr_enq_reset_def ptr_deq_threshold_def ptr_take_head_def
        ptr_deq_entry_def ptr_deq_tail_def ptr_catch_head_def ptr_catch_tail_def ptr_sub_empty_def ptr_sub_def pgoto_def
        ptr_words_ok_def pkeep_or_give_up_def pset_threshold_def set_lhead_def Let_def\<close>)
qed

lemma ptr_step_inv:
  assumes inv: "ptr_inv order B s" and B: "B < 2 ^ 61" and o: "2 \<le> order" "order \<le> 60" and st: "ptr_step order s s'"
  shows "ptr_inv order (B + 1) s'"
proof -
  have "ring_ok order (ptr_abs order s')"
    by (rule ring_step_ok [OF ptr_step_refines [OF inv B o st] ptr_invD(5) [OF inv]])
  moreover have w: "ptr_words_ok order B s" using inv unfolding ptr_inv_def by blast
  from st have "ptr_words_ok order (B + 1) s'"
  proof cases
    case (enq_call t p ne nf)
    show ?thesis unfolding enq_call(1) ptr_enq_call_def by (rule pwords_goto [OF pwords_mono [OF w]]) simp_all
  next
    case (deq_call t ne)
    show ?thesis unfolding deq_call(1) ptr_deq_call_def by (rule pwords_goto [OF pwords_mono [OF w]]) simp_all
  next
    case (thread t spurious)
    then show ?thesis using ptr_thread_words [OF inv B o] by simp
  qed
  ultimately show ?thesis unfolding ptr_inv_def by blast
qed

lemma bit_three: "bit (3 :: u64) i \<longleftrightarrow> i = 0 \<or> i = 1"
proof -
  have "(3 :: u64) = 1 OR 2" by simp
  then have "bit (3 :: u64) i \<longleftrightarrow> bit (1 OR 2 :: u64) i" by (rule arg_cong)
  then show ?thesis unfolding bit_or_iff bit_one_two .
qed

section \<open>Reachable states\<close>

lemma zero_view: "ptr_view order 0 = \<lparr> s_cycle = 0, s_safe = True, s_held = None \<rparr>"
proof -
  have "lfring_entry 0 = 0" by (rule bit_word_eqI) (simp add: entry_bit)
  then show ?thesis by (simp add: ptr_view_def)
qed

lemma start_array:
  assumes "2 \<le> order" "order \<le> 60" and mem: "length mem = 2 ^ (order + 1)"
  shows "pr_array (ptr_init_empty order mem) = replicate (2 ^ (order + 1)) 0"
proof -
  have n: "unat (lfring_pow2 (order + 1)) = 2 ^ (order + 1)" by (rule pow2_unat) (use assms in simp)
  have "store_range (\<lambda>i. i) (\<lambda>i. 0) 0 (2 ^ (order + 1)) mem = replicate (2 ^ (order + 1)) 0"
  proof (rule nth_equalityI)
    fix k assume "k < length (store_range (\<lambda>i. i) (\<lambda>i. 0) 0 (2 ^ (order + 1)) mem)"
    then show "store_range (\<lambda>i. i) (\<lambda>i. 0) 0 (2 ^ (order + 1)) mem ! k = replicate (2 ^ (order + 1)) 0 ! k"
      using store_range_at [of 0 k "2 ^ (order + 1)" "\<lambda>i. i" mem "\<lambda>i. 0"] mem by simp
  qed (simp add: mem)
  then show ?thesis unfolding ptr_init_empty_def Let_def n by simp
qed

lemma ptr_start_inv:
  assumes o: "2 \<le> order" "order \<le> 60" and mem: "length mem = 2 ^ (order + 1)"
  shows "ptr_inv order (2 ^ (order + 1)) (ptr_start order mem)"
proof -
  note a = start_array [OF o mem]
  have n: "unat (lfring_pow2 (order + 1)) = 2 ^ (order + 1)" by (rule pow2_unat) (use o in simp)
  have u: "unat (pr_head (ptr_init_empty order mem)) = 2 ^ (order + 1)" "unat (pr_tail (ptr_init_empty order mem)) = 2 ^ (order + 1)"
    unfolding ptr_init_empty_def Let_def using n by simp_all
  have A: "ptr_slots order (ptr_start order mem) p = \<lparr> s_cycle = 0, s_safe = True, s_held = None \<rparr>" for p
    using ptr_slot_less [OF o] unfolding ptr_slots_def ptr_at_def by (simp add: ptr_start_def a zero_view)
  have "slots_ok order (ptr_slots order (ptr_start order mem)) (set []) (set []) {..<2 ^ (order + 1)}"
    by (rule slots_okI) (simp_all add: A)
  moreover have "tickets_ok (2 ^ (order + 1)) (2 ^ (order + 1)) [] [] {..<2 ^ (order + 1)} (\<lambda>_. Free :: u64 stage)"
    by (rule tickets_okI) simp_all
  moreover have "lfring_entry 0 = 0" by (rule bit_word_eqI) (simp add: entry_bit)
  ultimately show ?thesis using u
    unfolding ptr_inv_def ptr_words_ok_def ring_ok_def all_ok_def
    by (simp add: ptr_start_def ptr_abs_def a entry_low_ok)
qed

lemma ptr_reachable_inv:
  assumes "ptr_reachable order k s" and o: "2 \<le> order" "order \<le> 59"
  shows "k \<le> 2 ^ 60 \<Longrightarrow> ptr_inv order (2 ^ (order + 1) + k) s"
  using assms(1)
proof induction
  case (start mem)
  then show ?case using ptr_start_inv [of order] o by simp
next
  case (step k s s')
  have "(2 :: nat) ^ (order + 1) \<le> 2 ^ 60" using o(2) by (intro power_increasing) simp_all
  then have "2 ^ (order + 1) + k < 2 ^ 61" using step.prems by simp
  from ptr_step_inv [OF step.IH this] step.prems step.hyps(2) o show ?case by (simp add: add.assoc)
qed

fun ptr_run :: "nat \<Rightarrow> nat list \<Rightarrow> ptr_state \<Rightarrow> ptr_state" where
  "ptr_run order [] s = s"
| "ptr_run order (t # ts) s = ptr_run order ts (ptr_thread order t False s)"

lemma ptr_run_reachable: "ptr_reachable order k s \<Longrightarrow> ptr_reachable order (k + length ts) (ptr_run order ts s)"
proof (induction ts arbitrary: s k)
  case (Cons t ts)
  have "ptr_reachable order (k + 1) (ptr_thread order t False s)"
    by (rule ptr_reachable.step [OF Cons.prems ptr_step.thread])
  from Cons.IH [OF this] show ?case by simp
qed simp

section \<open>Properties\<close>

text \<open>
  C12: The ring of pointers implements the ticket machine: whatever the interleaving, each access of a thread
  to a shared word - the loads of the two halves of a slot among them - is one step of the machine on the
  numbers and values the words stand for, or changes nothing there.
\<close>

theorem ptr_refines:
  assumes "ptr_reachable order k s" and "2 \<le> order" "order \<le> 59" and "k < 2 ^ 60" and "ptr_step order s s'"
  shows "ring_step order (ptr_abs order s) (ptr_abs order s')"
proof -
  have "(2 :: nat) ^ (order + 1) \<le> 2 ^ 60" using assms(3) by (intro power_increasing) simp_all
  then have "2 ^ (order + 1) + k < 2 ^ 61" using assms(4) by simp
  then show ?thesis using ptr_step_refines [OF ptr_reachable_inv [OF assms(1-3)] _ _ _ assms(5)] assms by simp
qed

definition ptr_demo :: ptr_state where
  "ptr_demo = ptr_enq_call 1 77 False False (ptr_enq_call 0 42 True True (ptr_start 2 (replicate 8 5)))"

lemma ptr_demo_reachable: "ptr_reachable 2 2 ptr_demo"
proof -
  let ?s = "ptr_start 2 (replicate 8 5)"
  let ?s1 = "ptr_enq_call 0 42 True True ?s"
  have "ptr_reachable 2 0 ?s" by (rule ptr_reachable.start) simp
  moreover have "ptr_step 2 ?s ?s1" by (rule ptr_step.intros) (simp_all add: ptr_start_def)
  ultimately have "ptr_reachable 2 (0 + 1) ?s1" by (rule ptr_reachable.step)
  moreover have "ptr_step 2 ?s1 (ptr_enq_call 1 77 False False ?s1)"
    by (rule ptr_step.intros) (simp_all add: ptr_start_def ptr_enq_call_def pgoto_def)
  ultimately have "ptr_reachable 2 (0 + 1 + 1) (ptr_enq_call 1 77 False False ?s1)" by (rule ptr_reachable.step)
  then show ?thesis unfolding ptr_demo_def by (simp add: numeral_2_eq_2)
qed

theorem ptr_refines_witness: "ring_step 2 (ptr_abs 2 ptr_demo) (ptr_abs 2 (ptr_thread 2 1 False ptr_demo))"
  by (rule ptr_refines [OF ptr_demo_reachable _ _ _ ptr_step.thread]) simp_all

text \<open>
  C11: Under every interleaving of any number of threads the ring of pointers loses nothing, duplicates
  nothing and makes nothing up: a pointer is taken at most once, with the ticket it was put in with; a pointer
  not yet taken still lies in the slot of its ticket, which is marked as taken, and its ticket is either still
  to be handed to a dequeue or held by one that has not finished with it. At no time does the ring hold more
  pointers than it has slots, although enqueues test for a full ring with a copy of the head that may be old.
  This holds for runs of up to 2 ^ 60 steps.
\<close>

theorem ptr_no_loss:
  assumes "ptr_reachable order k s" and "2 \<le> order" "order \<le> 59" and "k \<le> 2 ^ 60"
  shows "distinct (map fst (put_log s)) \<and> distinct (map fst (take_log s)) \<and> set (take_log s) \<subseteq> set (put_log s) \<and>
    card (set (put_log s) - set (take_log s)) \<le> 2 ^ (order + 1) \<and>
    (\<forall>(p, v) \<in> set (put_log s) - set (take_log s).
       lfring_pointer (ptr_at order s (word_of_nat p)) = v \<and> bit (lfring_entry (ptr_at order s (word_of_nat p))) 0 \<and>
       (unat (pr_head (pring s)) \<le> p \<or> (\<exists>t. get_ticket (ppcs s t) = Some p)))"
proof -
  note ok = ptr_invD(5) [OF ptr_reachable_inv [OF assms]]
  note n = ring_no_loss [OF ok, unfolded pabs_sel] and c = ring_capacity [OF ok, unfolded pabs_sel]
  have "lfring_pointer (ptr_at order s (word_of_nat p)) = v \<and> bit (lfring_entry (ptr_at order s (word_of_nat p))) 0 \<and>
       (unat (pr_head (pring s)) \<le> p \<or> (\<exists>t. get_ticket (ppcs s t) = Some p))"
    if pv: "(p, v) \<in> set (put_log s) - set (take_log s)" for p v
    using bspec [OF n [THEN conjunct2, THEN conjunct2, THEN conjunct2] pv]
    unfolding ptr_slots_def get_ticket_stage [of _ order] by auto
  then show ?thesis using n c by blast
qed

definition ptr_filled :: ptr_state where
  "ptr_filled = ptr_run 2 [0, 1, 1, 0, 0, 1, 1, 1, 0] ptr_demo"

text \<open>What the examples look at in a state.\<close>

definition ptr_seen :: "ptr_state \<Rightarrow> (nat \<times> u64) list \<times> (nat \<times> u64) list \<times> u64 \<times> ptr_pc \<times> ptr_pc" where
  "ptr_seen s = (put_log s, take_log s, pr_head (pring s), ppcs s 0, ppcs s 1)"

lemma ptr_filled_values: "ptr_seen ptr_filled = ([(9, 77), (8, 42)], [], 8, P_done True, P_threshold)"
  by code_simp

lemma ptr_filled_reachable: "ptr_reachable 2 11 ptr_filled"
  using ptr_run_reachable [OF ptr_demo_reachable, of "[0, 1, 1, 0, 0, 1, 1, 1, 0]"]
  unfolding ptr_filled_def by (simp del: ptr_run.simps)

theorem ptr_no_loss_witness: "lfring_pointer (ptr_at 2 ptr_filled 9) = 77 \<and> lfring_pointer (ptr_at 2 ptr_filled 8) = 42"
  using ptr_no_loss [OF ptr_filled_reachable] ptr_filled_values by (simp add: ptr_seen_def)

text \<open>
  C39: In every reachable state the array has its size and every entry in it consists of a cycle, the bit of a
  taken slot and the bit of an unsafe slot: all bits between these are zero. The code's tests of an entry
  against its own cycle rely on this format.
\<close>

theorem ptr_entry_format:
  assumes "ptr_reachable order k s" and "2 \<le> order" "order \<le> 59" and "k \<le> 2 ^ 60"
  shows "length (pr_array (pring s)) = 2 ^ (order + 1) \<and>
    (\<forall>x \<in> set (pr_array (pring s)). lfring_entry x AND NOT 3 = ptr_cycle order (lfring_entry x))"
proof -
  have w: "ptr_words_ok order (2 ^ (order + 1) + k) s" using ptr_reachable_inv [OF assms] unfolding ptr_inv_def by blast
  have "e AND NOT 3 = ptr_cycle order e" if "low_ok order e" for e
  proof (rule bit_word_eqI)
    fix i assume "i < LENGTH(64)"
    then show "bit (e AND NOT 3) i = bit (ptr_cycle order e) i"
      using that assms(2) unfolding low_ok_def bit_and_iff bit_not_iff ptr_cycle_bit bit_three
      by (cases "i = 0"; cases "i = 1"; cases "i \<le> order") auto
  qed
  then show ?thesis using w unfolding ptr_words_ok_def by blast
qed

theorem ptr_entry_format_witness:
  "lfring_entry (ptr_at 2 ptr_filled 9) AND NOT 3 = ptr_cycle 2 (lfring_entry (ptr_at 2 ptr_filled 9))"
proof -
  note f = ptr_entry_format [OF ptr_filled_reachable, simplified]
  have "ptr_at 2 ptr_filled 9 \<in> set (pr_array (pring ptr_filled))"
    unfolding ptr_at_def using ptr_slot_less [of 2 9] f by (intro nth_mem) simp
  then show ?thesis using f by simp
qed

text \<open>
  Whenever no thread is inside an operation, the pointers taken from the ring of pointers are exactly
  those put in with a ticket below the head, and what is left has a ticket from the head up to the tail: the
  ring is served first in, first out by ticket.
\<close>

theorem ptr_quiescent_order:
  assumes "ptr_reachable order k s" and "2 \<le> order" "order \<le> 59" and "k \<le> 2 ^ 60" and "\<forall>t. ppcs s t = P_idle"
  shows "set (take_log s) = {x \<in> set (put_log s). fst x < unat (pr_head (pring s))} \<and>
    (\<forall>p v. (p, v) \<in> set (put_log s) \<longrightarrow> p < unat (pr_tail (pring s)))"
  using ring_quiescent [OF ptr_invD(5) [OF ptr_reachable_inv [OF assms(1-4)]]] assms(5) by simp

definition ptr_calls :: ptr_state where
  "ptr_calls = ptr_deq_call 1 True (ptr_enq_call 0 42 True True (ptr_start 2 (replicate 8 5)))"

definition ptr_served :: ptr_state where
  "ptr_served = ptr_run 2 [0, 0, 0, 0, 0, 1, 1, 1, 1] ptr_calls"

lemma ptr_served_reachable: "ptr_reachable 2 11 ptr_served"
proof -
  let ?s = "ptr_start 2 (replicate 8 5)"
  let ?s1 = "ptr_enq_call 0 42 True True ?s"
  have "ptr_reachable 2 0 ?s" by (rule ptr_reachable.start) simp
  moreover have "ptr_step 2 ?s ?s1" by (rule ptr_step.intros) (simp_all add: ptr_start_def)
  ultimately have "ptr_reachable 2 (0 + 1) ?s1" by (rule ptr_reachable.step)
  moreover have "ptr_step 2 ?s1 (ptr_deq_call 1 True ?s1)"
    by (rule ptr_step.intros) (simp_all add: ptr_start_def ptr_enq_call_def pgoto_def)
  ultimately have "ptr_reachable 2 (0 + 1 + 1) ptr_calls" unfolding ptr_calls_def by (rule ptr_reachable.step)
  then have "ptr_reachable 2 2 ptr_calls" by (simp add: numeral_2_eq_2)
  from ptr_run_reachable [OF this, of "[0, 0, 0, 0, 0, 1, 1, 1, 1]"]
  show ?thesis unfolding ptr_served_def by (simp del: ptr_run.simps)
qed

lemma ptr_served_values: "ptr_seen ptr_served = ([(8, 42)], [(8, 42)], 9, P_idle, P_idle)"
  by code_simp

lemma ptr_thread_other: "i \<noteq> t \<Longrightarrow> ppcs (ptr_thread order t spurious s) i = ppcs s i"
  unfolding ptr_thread_def
  by (cases "ppcs s t")
    (simp_all add: ptr_full_tail_def ptr_full_head_def ptr_take_tail_def ptr_load_pointer_def ptr_load_entry_def
      ptr_enq_head_def ptr_enq_cas_def ptr_refull_def ptr_enq_threshold_def ptr_enq_reset_def ptr_deq_threshold_def
      ptr_take_head_def ptr_deq_entry_def ptr_deq_cas_def ptr_deq_take_def ptr_deq_tail_def ptr_catch_def ptr_catch_head_def
      ptr_catch_tail_def ptr_sub_empty_def ptr_sub_def pgoto_def set_pair_def pkeep_or_give_up_def pset_threshold_def
      set_lhead_def Let_def)

lemma ptr_run_other: "i \<notin> set ts \<Longrightarrow> ppcs (ptr_run order ts s) i = ppcs s i"
  by (induction ts arbitrary: s) (simp_all add: ptr_thread_other)

lemma ptr_served_idle: "ppcs ptr_served i = P_idle"
proof (cases "i = 0 \<or> i = 1")
  case False
  then show ?thesis
    by (simp add: ptr_served_def ptr_run_other ptr_calls_def ptr_deq_call_def ptr_enq_call_def ptr_start_def pgoto_def
        del: ptr_run.simps)
qed (use ptr_served_values in \<open>auto simp: ptr_seen_def\<close>)

theorem ptr_quiescent_order_witness: "set (take_log ptr_served) = {(8, 42)}"
  using ptr_quiescent_order [OF ptr_served_reachable] ptr_served_idle ptr_served_values
  by (auto simp: ptr_seen_def)

end
