(* ===== verification/Wf_Ring.thy ===== *)
theory Wf_Ring
  imports Pair_Words
begin

text \<open>
  The wait-free ring, wfring_cas2.h under src/lockfree-waitfree: its words, its initialisation, the state of its
  threads, and the fast paths of its two operations. A slot is a double word: an entry with the cycle, a safe
  bit, a bit that says the entry is final, and an index of \<open>order + 1\<close> bits; and a note that only the slow
  paths use. Positions count in steps of four. A thread whose patience is used up takes a slow path (theory
  Wf_Slow), where the others help it. Every access to a shared word is one step, as in the other rings.
\<close>

unbundle bit_operations_syntax

definition WFRING_MIN :: nat where
  "WFRING_MIN = 7 - 4"

definition WFRING_PATIENCE_ENQ :: nat where
  "WFRING_PATIENCE_ENQ = 16"

definition WFRING_PATIENCE_DEQ :: nat where
  "WFRING_PATIENCE_DEQ = 64"

definition WFRING_DELAY :: nat where
  "WFRING_DELAY = 16"

definition WFRING_EMPTY :: u64 where
  "WFRING_EMPTY = NOT 0"

definition WFRING_FIN :: u64 where
  "WFRING_FIN = 1"

definition WFRING_INC :: u64 where
  "WFRING_INC = 2"

definition WFRING_EIDX_TERM :: u64 where
  "WFRING_EIDX_TERM = 0"

definition WFRING_EIDX_DEQ :: u64 where
  "WFRING_EIDX_DEQ = 1"

definition wf_pow2 :: "nat \<Rightarrow> u64" where
  "wf_pow2 order = push_bit order 1"

definition wf_raw_map :: "u64 \<Rightarrow> nat \<Rightarrow> u64 \<Rightarrow> u64" where
  "wf_raw_map idx order n =
     drop_bit (order - WFRING_MIN) (idx AND (n - 1)) OR (push_bit WFRING_MIN idx AND (n - 1))"

definition wf_map :: "u64 \<Rightarrow> nat \<Rightarrow> u64 \<Rightarrow> u64" where
  "wf_map idx order n = wf_raw_map idx (order + 1) n"

definition wf_threshold3 :: "u64 \<Rightarrow> u64 \<Rightarrow> u64" where
  "wf_threshold3 half n = half + n - 1"

definition wf_entry :: "u128 \<Rightarrow> u64" where
  "wf_entry x = ucast (drop_bit lfaba_shift (x AND lfaba_mask))"

definition wf_addon :: "u128 \<Rightarrow> u64" where
  "wf_addon x = ucast (drop_bit lfaptr_shift (x AND NOT lfaba_mask))"

definition wf_pair :: "u64 \<Rightarrow> u64 \<Rightarrow> u128" where
  "wf_pair e c = (push_bit lfaba_shift (ucast e) OR push_bit lfaptr_shift (ucast c))"

text \<open>The same as arithmetic on the numbers, for evaluation.\<close>

lemma wf_entry_code [code]: "wf_entry x = word_of_int (uint x div 18446744073709551616)"
proof (rule bit_word_eqI)
  fix i assume i: "i < LENGTH(64)"
  have "uint x div 18446744073709551616 = drop_bit 64 (uint x)" by (simp add: drop_bit_eq_div)
  then show "bit (wf_entry x) i = bit (word_of_int (uint x div 18446744073709551616) :: u64) i"
    using i by (simp add: wf_entry_def lfaba_shift_def lfaba_mask_def bit_simps add.commute del: push_bit_numeral)
qed

lemma wf_addon_code [code]: "wf_addon x = word_of_int (uint x)"
proof (rule bit_word_eqI)
  fix i assume "i < LENGTH(64)"
  then show "bit (wf_addon x) i = bit (word_of_int (uint x) :: u64) i"
    by (simp add: wf_addon_def lfaptr_shift_def lfaba_mask_def bit_simps)
qed

lemma wf_pair_code [code]: "wf_pair e c = word_of_int (uint e * 18446744073709551616 + uint c)"
proof -
  have "push_bit 64 (ucast e :: u128) OR ucast c = push_bit 64 (ucast e) + ucast c"
    by (rule disjunctive_add_eq_or [symmetric]) (rule bit_word_eqI, auto simp: bit_simps dest: bit_imp_le_length)
  also have "\<dots> = word_of_int (uint e * 18446744073709551616 + uint c)"
    by (simp add: push_bit_eq_mult mult.commute)
  finally show ?thesis unfolding wf_pair_def lfaba_shift_def lfaptr_shift_def by simp
qed

text \<open>A change of the entry alone, through \<open>__wfring_pair_entry\<close>.\<close>

definition with_entry :: "u128 \<Rightarrow> u64 \<Rightarrow> u128" where
  "with_entry x e = wf_pair e (wf_addon x)"

section \<open>The ring\<close>

record wf_ring =
  wr_head :: u128
  wr_threshold :: u64
  wr_tail :: u128
  wr_array :: "u128 list"

definition wf_n :: "nat \<Rightarrow> u64" where
  "wf_n order = wf_pow2 order * 2"

definition wf_slot :: "nat \<Rightarrow> u64 \<Rightarrow> nat" where
  "wf_slot order pos = unat (wf_map (drop_bit 2 pos) order (wf_n order))"

definition wf_cycle :: "nat \<Rightarrow> u64 \<Rightarrow> u64" where
  "wf_cycle order w = (w OR (4 * wf_n order - 1))"

definition wf_init_empty :: "nat \<Rightarrow> u128 list \<Rightarrow> wf_ring" where
  "wf_init_empty order mem =
     (let n = wf_pow2 (order + 1)
      in \<lparr> wr_head = 0, wr_threshold = - 1, wr_tail = 0,
           wr_array = store_range (\<lambda>i. i) (\<lambda>i. wf_pair (- 1) (- n - 1)) 0 (unat n) mem \<rparr>)"

definition wf_init_full :: "nat \<Rightarrow> u128 list \<Rightarrow> wf_ring" where
  "wf_init_full order mem =
     (let half = wf_pow2 order; n = half * 2;
          slot = (\<lambda>i. unat (wf_map (word_of_nat i) order n));
          a1 = store_range slot (\<lambda>i. wf_pair (2 * n + n + wf_raw_map (word_of_nat i) order half) (- 1)) 0 (unat half) mem;
          a2 = store_range slot (\<lambda>i. wf_pair (- 1) (- n - 1)) (unat half) (unat n) a1
      in \<lparr> wr_head = 0, wr_threshold = wf_threshold3 half n, wr_tail = wf_pair (push_bit 2 half) 0, wr_array = a2 \<rparr>)"

definition wf_init_fill :: "nat \<Rightarrow> nat \<Rightarrow> nat \<Rightarrow> u128 list \<Rightarrow> wf_ring" where
  "wf_init_fill order s e mem =
     (let half = wf_pow2 order; n = half * 2;
          slot = (\<lambda>i. unat (wf_map (word_of_nat i) order n));
          a1 = store_range slot (\<lambda>i. wf_pair (4 * n - 1) (- 1)) 0 s mem;
          a2 = store_range slot (\<lambda>i. wf_pair (2 * n + n + word_of_nat i) (- 1)) s e a1;
          a3 = store_range slot (\<lambda>i. wf_pair (- 1) (- n - 1)) e (unat n) a2
      in \<lparr> wr_head = wf_pair (push_bit 2 (word_of_nat s)) 0, wr_threshold = wf_threshold3 half n,
           wr_tail = wf_pair (push_bit 2 (word_of_nat e)) 0, wr_array = a3 \<rparr>)"

section \<open>Threads\<close>

text \<open>
  The \<open>wfring_state\<close> of a thread. A pointer to another thread's state is the number of that thread; a pointer
  to the \<open>tail\<close> or \<open>head\<close> field of a state is the field with the number of the thread.
\<close>

datatype wf_side = Tail_side | Head_side

record wf_phase2 =
  ph_seq1 :: u64
  ph_local :: "wf_side \<times> nat"
  ph_cnt :: u64
  ph_seq2 :: u64

record wf_local =
  ws_next :: "nat option"
  ws_nextCheck :: nat
  ws_currThread :: nat
  ws_phase2 :: wf_phase2
  ws_seq1 :: u64
  ws_tail :: u64
  ws_initTail :: u64
  ws_head :: u64
  ws_initHead :: u64
  ws_eidx :: u64
  ws_seq2 :: u64

definition wf_init_state :: "nat \<Rightarrow> wf_local \<Rightarrow> wf_local" where
  "wf_init_state self st = st\<lparr> ws_next := None, ws_currThread := self, ws_nextCheck := WFRING_DELAY,
     ws_seq1 := 1, ws_eidx := WFRING_EIDX_TERM, ws_seq2 := 0,
     ws_phase2 := (ws_phase2 st)\<lparr> ph_seq1 := 1, ph_seq2 := 0 \<rparr> \<rparr>"

text \<open>The caller links the states in a circle before the threads use the ring; no thread follows a null link.\<close>

definition wf_next :: "wf_local \<Rightarrow> nat" where
  "wf_next l = (case ws_next l of Some u \<Rightarrow> u | None \<Rightarrow> 0)"

section \<open>Where a thread can be\<close>

text \<open>\<open>__wfring_catchup\<close>, and \<open>__wfring_lookup\<close> with the thread looked at.\<close>

datatype catch_pc = C_cas u64 u64 | C_head | C_tail u64

datatype look_pc = K_next nat | K_tail nat | K_cas nat

text \<open>\<open>__wfring_load_global_help_phase2\<close>, with \<open>gp\<close>, \<open>seq\<close>, \<open>local\<close> and \<open>cnt\<close>.\<close>

datatype phase2_pc =
    P2_seq2 u128
  | P2_local u128 u64
  | P2_cnt u128 u64 "wf_side \<times> nat"
  | P2_seq1 u128 u64 "wf_side \<times> nat" u64
  | P2_help u128 "wf_side \<times> nat" u64
  | P2_clear u128

text \<open>\<open>__wfring_slow_inc\<close>, with \<open>*prev\<close> and then \<open>gp\<close>, \<open>cnt\<close>, \<open>seq\<close>.\<close>

datatype inc_pc =
    I_load u64
  | I_fin u64 u128
  | I_phase2 u64 phase2_pc
  | I_swap u64 u64
  | I_seq1 u64 u64
  | I_set_seq1 u64 u64 u64
  | I_set_local u64 u64 u64
  | I_set_cnt u64 u64 u64
  | I_set_seq2 u64 u64 u64
  | I_global u64 u64
  | I_threshold u64
  | I_finish u64
  | I_release u64

text \<open>\<open>__wfring_do_enqueue_slow\<close> and \<open>__wfring_do_dequeue_slow\<close>, with the position and the pair loaded.\<close>

datatype enq_slow_pc =
    A_inc inc_pc
  | A_seq u64
  | A_addon u64
  | A_entry u64 u64
  | A_head u64 u128
  | A_cas u64 u128
  | A_skip u64 u128
  | A_claim u64
  | A_final u64
  | A_threshold
  | A_reset

datatype deq_slow_pc =
    B_inc inc_pc
  | B_addon u64
  | B_entry u64 u64
  | B_claim u64
  | B_note u64 u128
  | B_cas u64 u128 u64
  | B_tail u64
  | B_catch u64 catch_pc
  | B_threshold u64
  | B_fin u64

text \<open>The arguments of the two: the thread whose state is passed, its request, and \<open>nonempty\<close>.\<close>

record enq_job =
  ej_thread :: nat
  ej_eidx :: u64
  ej_seq :: u64
  ej_nonempty :: bool

record deq_job =
  dj_thread :: nat
  dj_nonempty :: bool

text \<open>Where a thread goes on after helping, and after a slow path.\<close>

datatype wf_resume = To_enqueue u64 bool | To_dequeue bool

datatype wf_back = Own_request u64 | Own_take u64 bool | For_other nat wf_resume

text \<open>
  \<open>x\<close> is the index with all its bits flipped, \<open>k\<close> the patience left, \<open>ne\<close> the argument \<open>nonempty\<close>. \<open>Q\<close> is the
  enqueue, \<open>R\<close> the dequeue, \<open>H\<close> the helping, \<open>S\<close> and \<open>T\<close> the slow paths of enqueue and dequeue.
\<close>

datatype wf_pc =
    Wf_idle
  | Q_ticket u64 bool nat
  | Q_entry u64 bool nat u64
  | Q_head u64 bool nat u64 u64
  | Q_cas u64 bool nat u64 u64
  | Q_threshold
  | Q_reset
  | Q_done
  | R_threshold
  | R_ticket bool nat
  | R_entry bool nat u64
  | R_cas bool nat u64 u64 u64
  | R_lookup look_pc u64 u64
  | R_take u64 u64
  | R_tail nat u64
  | R_catch catch_pc
  | R_sub_empty
  | R_sub nat u64
  | R_done u64
  | H_eidx nat wf_resume
  | H_next nat wf_resume
  | H_last nat wf_resume
  | H_enq_seq2 nat wf_resume
  | H_enq_eidx nat wf_resume u64
  | H_enq_tail nat wf_resume u64 u64
  | H_enq_seq1 nat wf_resume u64 u64 u64
  | H_deq_seq2 nat wf_resume
  | H_deq_eidx nat wf_resume u64
  | H_deq_head nat wf_resume u64 u64
  | H_deq_seq1 nat wf_resume u64 u64 u64
  | S_seq1 u64 bool u64
  | S_tail u64 bool u64 u64
  | S_init u64 bool u64 u64
  | S_eidx u64 bool u64 u64
  | S_seq2 u64 bool u64 u64
  | S_run enq_job wf_back enq_slow_pc
  | S_end u64
  | S_term
  | T_seq1 bool u64
  | T_head bool u64 u64
  | T_init bool u64 u64
  | T_eidx bool u64 u64
  | T_seq2 bool u64 u64
  | T_run deq_job wf_back deq_slow_pc
  | T_end u64 bool
  | T_term bool
  | T_result bool
  | T_entry bool u64

text \<open>
  The state of the run: \<open>w_put\<close> and \<open>w_taken\<close> record what was put into the ring and taken out of it, with the
  number of the position; \<open>w_given\<close> holds the numbers whose dequeue gave them up.
\<close>

record wf_state =
  wring :: wf_ring
  wpcs :: "nat \<Rightarrow> wf_pc"
  wlocals :: "nat \<Rightarrow> wf_local"
  w_put :: "(nat \<times> u64) list"
  w_taken :: "(nat \<times> u64) list"
  w_given :: "nat set"

definition wf_pair_at :: "nat \<Rightarrow> wf_state \<Rightarrow> u64 \<Rightarrow> u128" where
  "wf_pair_at order s pos = wr_array (wring s) ! wf_slot order pos"

definition wf_at :: "nat \<Rightarrow> wf_state \<Rightarrow> u64 \<Rightarrow> u64" where
  "wf_at order s pos = wf_entry (wf_pair_at order s pos)"

definition set_slot :: "nat \<Rightarrow> u64 \<Rightarrow> u128 \<Rightarrow> wf_state \<Rightarrow> wf_state" where
  "set_slot order pos x s = s\<lparr> wring := (wring s)\<lparr> wr_array := (wr_array (wring s))[wf_slot order pos := x] \<rparr> \<rparr>"

definition set_entry :: "nat \<Rightarrow> u64 \<Rightarrow> u64 \<Rightarrow> wf_state \<Rightarrow> wf_state" where
  "set_entry order pos e s = set_slot order pos (with_entry (wf_pair_at order s pos) e) s"

definition wgoto :: "nat \<Rightarrow> wf_pc \<Rightarrow> wf_state \<Rightarrow> wf_state" where
  "wgoto t pc s = s\<lparr> wpcs := (wpcs s)(t := pc) \<rparr>"

definition wset_threshold :: "u64 \<Rightarrow> wf_state \<Rightarrow> wf_state" where
  "wset_threshold v s = s\<lparr> wring := (wring s)\<lparr> wr_threshold := v \<rparr> \<rparr>"

definition wset_tail :: "u128 \<Rightarrow> wf_state \<Rightarrow> wf_state" where
  "wset_tail v s = s\<lparr> wring := (wring s)\<lparr> wr_tail := v \<rparr> \<rparr>"

definition wset_head :: "u128 \<Rightarrow> wf_state \<Rightarrow> wf_state" where
  "wset_head v s = s\<lparr> wring := (wring s)\<lparr> wr_head := v \<rparr> \<rparr>"

definition wset_local :: "nat \<Rightarrow> wf_local \<Rightarrow> wf_state \<Rightarrow> wf_state" where
  "wset_local t l s = s\<lparr> wlocals := (wlocals s)(t := l) \<rparr>"

text \<open>\<open>--nextCheck\<close>, and the way into \<open>__wfring_help\<close> when it gets zero.\<close>

fun resume_pc :: "wf_resume \<Rightarrow> wf_pc" where
  "resume_pc (To_enqueue x ne) = Q_ticket x ne WFRING_PATIENCE_ENQ"
| "resume_pc (To_dequeue ne) = R_ticket ne WFRING_PATIENCE_DEQ"

definition wf_count :: "nat \<Rightarrow> wf_resume \<Rightarrow> wf_state \<Rightarrow> wf_state" where
  "wf_count t r s =
     (let l = wlocals s t; l1 = l\<lparr> ws_nextCheck := ws_nextCheck l - 1 \<rparr>
      in wgoto t (if ws_nextCheck l1 = 0
                  then (if ws_currThread l \<noteq> t then H_eidx (ws_currThread l) r else H_last t r)
                  else resume_pc r) (wset_local t l1 s))"

section \<open>The fast path of the enqueue\<close>

text \<open>The end of a round, and the condition on an entry up to the load of the head.\<close>

definition wf_enq_again :: "u64 \<Rightarrow> bool \<Rightarrow> nat \<Rightarrow> u64 \<Rightarrow> wf_pc" where
  "wf_enq_again x ne k tail = (if k - 1 \<noteq> 0 then Q_ticket x ne (k - 1) else S_seq1 x ne tail)"

definition wf_enq_check :: "nat \<Rightarrow> u64 \<Rightarrow> bool \<Rightarrow> nat \<Rightarrow> u64 \<Rightarrow> u64 \<Rightarrow> wf_pc" where
  "wf_enq_check order x ne k tail entry =
     (let tcycle = wf_cycle order tail; ecycle = wf_cycle order entry
      in if \<not> cmp_less ecycle tcycle then wf_enq_again x ne k tail
         else if entry OR 1 = ecycle then Q_cas x ne k tail entry
         else if entry OR 1 = ecycle XOR 2 * wf_n order then Q_head x ne k tail entry
         else wf_enq_again x ne k tail)"

definition wf_enq_call :: "nat \<Rightarrow> nat \<Rightarrow> u64 \<Rightarrow> bool \<Rightarrow> wf_state \<Rightarrow> wf_state" where
  "wf_enq_call order t eidx ne s = wf_count t (To_enqueue (eidx XOR (wf_n order - 1)) ne) s"

definition wf_take_tail :: "nat \<Rightarrow> u64 \<Rightarrow> bool \<Rightarrow> nat \<Rightarrow> wf_state \<Rightarrow> wf_state" where
  "wf_take_tail t x ne k s =
     (let q = wr_tail (wring s) in wgoto t (Q_entry x ne k (wf_entry q)) (wset_tail (with_entry q (wf_entry q + 4)) s))"

definition wf_enq_entry :: "nat \<Rightarrow> nat \<Rightarrow> u64 \<Rightarrow> bool \<Rightarrow> nat \<Rightarrow> u64 \<Rightarrow> wf_state \<Rightarrow> wf_state" where
  "wf_enq_entry order t x ne k tail s = wgoto t (wf_enq_check order x ne k tail (wf_at order s tail)) s"

definition wf_enq_head :: "nat \<Rightarrow> u64 \<Rightarrow> bool \<Rightarrow> nat \<Rightarrow> u64 \<Rightarrow> u64 \<Rightarrow> wf_state \<Rightarrow> wf_state" where
  "wf_enq_head t x ne k tail entry s =
     wgoto t (if cmp_le (wf_entry (wr_head (wring s))) tail then Q_cas x ne k tail entry else wf_enq_again x ne k tail) s"

definition wf_enq_cas :: "nat \<Rightarrow> nat \<Rightarrow> bool \<Rightarrow> u64 \<Rightarrow> bool \<Rightarrow> nat \<Rightarrow> u64 \<Rightarrow> u64 \<Rightarrow> wf_state \<Rightarrow> wf_state" where
  "wf_enq_cas order t spurious x ne k tail entry s =
     (if wf_at order s tail = entry \<and> \<not> spurious
      then wgoto t (if ne then Q_done else Q_threshold)
        ((set_entry order tail (wf_cycle order tail XOR x) s)
           \<lparr> w_put := w_put s @ [(unat tail div 4, x XOR (wf_n order - 1))] \<rparr>)
      else wgoto t (wf_enq_check order x ne k tail (wf_at order s tail)) s)"

definition wf_enq_threshold :: "nat \<Rightarrow> nat \<Rightarrow> wf_state \<Rightarrow> wf_state" where
  "wf_enq_threshold order t s =
     wgoto t (if wr_threshold (wring s) \<noteq> wf_threshold3 (wf_pow2 order) (wf_n order) then Q_reset else Q_done) s"

definition wf_enq_reset :: "nat \<Rightarrow> nat \<Rightarrow> wf_state \<Rightarrow> wf_state" where
  "wf_enq_reset order t s = wgoto t Q_done (wset_threshold (wf_threshold3 (wf_pow2 order) (wf_n order)) s)"

section \<open>The fast path of the dequeue\<close>

text \<open>What a round decides from an entry.\<close>

definition wf_deq_again :: "bool \<Rightarrow> nat \<Rightarrow> u64 \<Rightarrow> wf_pc" where
  "wf_deq_again ne k head = (if k - 1 \<noteq> 0 then R_ticket ne (k - 1) else T_seq1 ne head)"

definition wf_missed :: "bool \<Rightarrow> nat \<Rightarrow> u64 \<Rightarrow> wf_pc" where
  "wf_missed ne k head = (if ne then wf_deq_again ne k head else R_tail k head)"

definition wf_deq_check :: "nat \<Rightarrow> nat \<Rightarrow> bool \<Rightarrow> nat \<Rightarrow> u64 \<Rightarrow> u64 \<Rightarrow> wf_pc" where
  "wf_deq_check order t ne k head entry =
     (let n = wf_n order; ecycle = wf_cycle order entry; hcycle = wf_cycle order head
      in if ecycle = hcycle then (if entry AND n = 0 then R_lookup (K_next t) head entry else R_take head entry)
         else if ((entry OR 2 * n) OR 1) \<noteq> ecycle
           then (let entry_new = entry AND NOT (2 * n)
                 in if entry = entry_new then wf_missed ne k head
                    else if cmp_less ecycle hcycle then R_cas ne k head entry entry_new
                    else wf_missed ne k head)
         else (let entry_new = hcycle XOR (NOT entry AND 2 * n) XOR 1
               in if cmp_less ecycle hcycle then R_cas ne k head entry entry_new else wf_missed ne k head))"

text \<open>The number that a running dequeue is after.\<close>

fun wf_deq_ticket :: "wf_pc \<Rightarrow> nat option" where
  "wf_deq_ticket (R_entry ne k head) = Some (unat head div 4)"
| "wf_deq_ticket (R_cas ne k head e e') = Some (unat head div 4)"
| "wf_deq_ticket (R_lookup l head e) = Some (unat head div 4)"
| "wf_deq_ticket (R_take head e) = Some (unat head div 4)"
| "wf_deq_ticket _ = None"

definition wkeep_or_give_up :: "nat \<Rightarrow> u64 \<Rightarrow> wf_pc \<Rightarrow> wf_state \<Rightarrow> wf_state" where
  "wkeep_or_give_up t head pc s =
     wgoto t pc (if wf_deq_ticket pc = None then s\<lparr> w_given := insert (unat head div 4) (w_given s) \<rparr> else s)"

definition wf_deq_call :: "nat \<Rightarrow> bool \<Rightarrow> wf_state \<Rightarrow> wf_state" where
  "wf_deq_call t ne s = (if ne then wf_count t (To_dequeue ne) s else wgoto t R_threshold s)"

definition wf_deq_threshold :: "nat \<Rightarrow> wf_state \<Rightarrow> wf_state" where
  "wf_deq_threshold t s =
     (if sint (wr_threshold (wring s)) < 0 then wgoto t (R_done WFRING_EMPTY) s else wf_count t (To_dequeue False) s)"

definition wf_take_head :: "nat \<Rightarrow> bool \<Rightarrow> nat \<Rightarrow> wf_state \<Rightarrow> wf_state" where
  "wf_take_head t ne k s =
     (let q = wr_head (wring s) in wgoto t (R_entry ne k (wf_entry q)) (wset_head (with_entry q (wf_entry q + 4)) s))"

definition wf_deq_entry :: "nat \<Rightarrow> nat \<Rightarrow> bool \<Rightarrow> nat \<Rightarrow> u64 \<Rightarrow> wf_state \<Rightarrow> wf_state" where
  "wf_deq_entry order t ne k head s = wkeep_or_give_up t head (wf_deq_check order t ne k head (wf_at order s head)) s"

definition wf_deq_cas :: "nat \<Rightarrow> nat \<Rightarrow> bool \<Rightarrow> bool \<Rightarrow> nat \<Rightarrow> u64 \<Rightarrow> u64 \<Rightarrow> u64 \<Rightarrow> wf_state \<Rightarrow> wf_state" where
  "wf_deq_cas order t spurious ne k head entry entry_new s =
     (if wf_at order s head = entry \<and> \<not> spurious
      then wkeep_or_give_up t head (wf_missed ne k head) (set_entry order head entry_new s)
      else wkeep_or_give_up t head (wf_deq_check order t ne k head (wf_at order s head)) s)"

definition wf_deq_take :: "nat \<Rightarrow> nat \<Rightarrow> u64 \<Rightarrow> u64 \<Rightarrow> wf_state \<Rightarrow> wf_state" where
  "wf_deq_take order t head entry s =
     wgoto t (R_done (entry AND (wf_n order - 1)))
       ((set_entry order head (wf_at order s head OR (2 * wf_n order - 1)) s)
          \<lparr> w_taken := w_taken s @ [(unat head div 4, entry AND (wf_n order - 1))] \<rparr>)"

definition wf_deq_tail :: "nat \<Rightarrow> nat \<Rightarrow> u64 \<Rightarrow> wf_state \<Rightarrow> wf_state" where
  "wf_deq_tail t k head s =
     (let tail = wf_entry (wr_tail (wring s))
      in wgoto t (if cmp_le tail (head + 4) then R_catch (C_cas tail (head + 4)) else R_sub k head) s)"

text \<open>\<open>__wfring_catchup\<close>: \<open>None\<close> when it returns.\<close>

fun wf_catchup :: "bool \<Rightarrow> catch_pc \<Rightarrow> wf_state \<Rightarrow> catch_pc option \<times> wf_state" where
  "wf_catchup spurious (C_cas tail target) s =
     (let q = wr_tail (wring s)
      in if wf_entry q = tail \<and> \<not> spurious then (None, wset_tail (with_entry q target) s) else (Some C_head, s))"
| "wf_catchup spurious C_head s = (Some (C_tail (wf_entry (wr_head (wring s)))), s)"
| "wf_catchup spurious (C_tail target) s =
     (let tail = wf_entry (wr_tail (wring s)) in (if cmp_ge tail target then None else Some (C_cas tail target), s))"

definition wf_deq_catch :: "nat \<Rightarrow> bool \<Rightarrow> catch_pc \<Rightarrow> wf_state \<Rightarrow> wf_state" where
  "wf_deq_catch t spurious c s =
     (case wf_catchup spurious c s of (r, s') \<Rightarrow> wgoto t (case r of None \<Rightarrow> R_sub_empty | Some c' \<Rightarrow> R_catch c') s')"

definition wf_sub_empty :: "nat \<Rightarrow> wf_state \<Rightarrow> wf_state" where
  "wf_sub_empty t s = wgoto t (R_done WFRING_EMPTY) (wset_threshold (wr_threshold (wring s) - 1) s)"

definition wf_sub :: "nat \<Rightarrow> nat \<Rightarrow> u64 \<Rightarrow> wf_state \<Rightarrow> wf_state" where
  "wf_sub t k head s =
     wgoto t (if sint (wr_threshold (wring s)) \<le> 0 then R_done WFRING_EMPTY else wf_deq_again False k head)
       (wset_threshold (wr_threshold (wring s) - 1) s)"

end
