(* ===== verification/Wf_Slow.thy ===== *)
theory Wf_Slow
  imports Wf_Ring
begin

text \<open>
  The slow paths of the wait-free ring (wfring_cas2.h) and the steps of its threads. A thread out of patience
  publishes a request in its state; whoever helps it and the thread itself then work on the same position,
  which \<open>__wfring_slow_inc\<close> advances for all of them in two phases: the global counter carries a pointer to the
  \<open>wfring_phase2\<close> of the thread while the local counter is settled.
\<close>

unbundle bit_operations_syntax

section \<open>Shared counters\<close>

fun wf_global :: "wf_side \<Rightarrow> wf_state \<Rightarrow> u128" where
  "wf_global Tail_side s = wr_tail (wring s)"
| "wf_global Head_side s = wr_head (wring s)"

fun wset_global :: "wf_side \<Rightarrow> u128 \<Rightarrow> wf_state \<Rightarrow> wf_state" where
  "wset_global Tail_side v s = wset_tail v s"
| "wset_global Head_side v s = wset_head v s"

fun wf_counter :: "wf_state \<Rightarrow> wf_side \<times> nat \<Rightarrow> u64" where
  "wf_counter s (Tail_side, u) = ws_tail (wlocals s u)"
| "wf_counter s (Head_side, u) = ws_head (wlocals s u)"

fun wset_counter :: "wf_side \<times> nat \<Rightarrow> u64 \<Rightarrow> wf_state \<Rightarrow> wf_state" where
  "wset_counter (Tail_side, u) v s = wset_local u ((wlocals s u)\<lparr> ws_tail := v \<rparr>) s"
| "wset_counter (Head_side, u) v s = wset_local u ((wlocals s u)\<lparr> ws_head := v \<rparr>) s"

text \<open>\<open>atomic_compare_exchange_strong\<close> on a counter.\<close>

definition cas_counter :: "wf_side \<times> nat \<Rightarrow> u64 \<Rightarrow> u64 \<Rightarrow> wf_state \<Rightarrow> wf_state" where
  "cas_counter l old new s = (if wf_counter s l = old then wset_counter l new s else s)"

definition wf_phase2_at :: "wf_state \<Rightarrow> nat \<Rightarrow> wf_phase2" where
  "wf_phase2_at s u = ws_phase2 (wlocals s u)"

definition wset_phase2 :: "nat \<Rightarrow> wf_phase2 \<Rightarrow> wf_state \<Rightarrow> wf_state" where
  "wset_phase2 u p s = wset_local u ((wlocals s u)\<lparr> ws_phase2 := p \<rparr>) s"

text \<open>The address of the \<open>phase2\<close> of thread \<open>u\<close> as a word: its number plus one, as zero is the null pointer.\<close>

definition phase2_addr :: "nat \<Rightarrow> u64" where
  "phase2_addr u = word_of_nat (u + 1)"

definition phase2_of :: "u128 \<Rightarrow> nat" where
  "phase2_of gp = unat (wf_addon gp) - 1"

section \<open>The two phases of an increment\<close>

text \<open>\<open>__wfring_load_global_help_phase2\<close>: \<open>Inr\<close> when it returns.\<close>

definition phase2_enter :: "u128 \<Rightarrow> phase2_pc + u64" where
  "phase2_enter gp = (if wf_addon gp = 0 then Inr (wf_entry gp) else Inl (P2_seq2 gp))"

fun wf_load_global_help_phase2 :: "wf_side \<Rightarrow> phase2_pc \<Rightarrow> wf_state \<Rightarrow> (phase2_pc + u64) \<times> wf_state" where
  "wf_load_global_help_phase2 side (P2_seq2 gp) s = (Inl (P2_local gp (ph_seq2 (wf_phase2_at s (phase2_of gp)))), s)"
| "wf_load_global_help_phase2 side (P2_local gp seq) s =
     (Inl (P2_cnt gp seq (ph_local (wf_phase2_at s (phase2_of gp)))), s)"
| "wf_load_global_help_phase2 side (P2_cnt gp seq l) s =
     (Inl (P2_seq1 gp seq l (ph_cnt (wf_phase2_at s (phase2_of gp)))), s)"
| "wf_load_global_help_phase2 side (P2_seq1 gp seq l cnt) s =
     (Inl (if ph_seq1 (wf_phase2_at s (phase2_of gp)) = seq then P2_help gp l cnt else P2_clear gp), s)"
| "wf_load_global_help_phase2 side (P2_help gp l cnt) s = (Inl (P2_clear gp), cas_counter l (cnt + WFRING_INC) cnt s)"
| "wf_load_global_help_phase2 side (P2_clear gp) s =
     (if wf_global side s = gp then (Inr (wf_entry gp), wset_global side (wf_pair (wf_entry gp) 0) s)
      else (phase2_enter (wf_global side s), s))"

text \<open>
  \<open>__wfring_slow_inc\<close> on the counters of thread \<open>u\<close>; \<open>thr\<close> says that a threshold was passed. \<open>Inr\<close> when it
  returns: with \<open>*prev\<close> for true, with \<open>None\<close> for false.
\<close>

definition inc_phase2 :: "u64 \<Rightarrow> phase2_pc + u64 \<Rightarrow> inc_pc" where
  "inc_phase2 prev r = (case r of Inl p \<Rightarrow> I_phase2 prev p | Inr cnt \<Rightarrow> I_swap prev cnt)"

fun wf_slow_inc :: "wf_side \<Rightarrow> bool \<Rightarrow> nat \<Rightarrow> inc_pc \<Rightarrow> wf_state \<Rightarrow> (inc_pc + u64 option) \<times> wf_state" where
  "wf_slow_inc side thr u (I_load prev) s = (Inl (I_fin prev (wf_global side s)), s)"
| "wf_slow_inc side thr u (I_fin prev gp) s =
     (if wf_counter s (side, u) AND WFRING_FIN \<noteq> 0 then (Inr None, s) else (Inl (inc_phase2 prev (phase2_enter gp)), s))"
| "wf_slow_inc side thr u (I_phase2 prev p) s =
     (case wf_load_global_help_phase2 side p s of (r, s') \<Rightarrow> (Inl (inc_phase2 prev r), s'))"
| "wf_slow_inc side thr u (I_swap prev cnt) s =
     (let now = wf_counter s (side, u)
      in if now = prev then (Inl (I_seq1 (cnt + WFRING_INC) cnt), wset_counter (side, u) (cnt + WFRING_INC) s)
         else if now AND WFRING_FIN \<noteq> 0 then (Inr None, s)
         else if now AND WFRING_INC = 0 then (Inr (Some now), s)
         else (Inl (I_seq1 now (now - WFRING_INC)), s))"
| "wf_slow_inc side thr u (I_seq1 prev cnt) s = (Inl (I_set_seq1 prev cnt (ph_seq1 (wf_phase2_at s u) + 1)), s)"
| "wf_slow_inc side thr u (I_set_seq1 prev cnt seq) s =
     (Inl (I_set_local prev cnt seq), wset_phase2 u ((wf_phase2_at s u)\<lparr> ph_seq1 := seq \<rparr>) s)"
| "wf_slow_inc side thr u (I_set_local prev cnt seq) s =
     (Inl (I_set_cnt prev cnt seq), wset_phase2 u ((wf_phase2_at s u)\<lparr> ph_local := (side, u) \<rparr>) s)"
| "wf_slow_inc side thr u (I_set_cnt prev cnt seq) s =
     (Inl (I_set_seq2 prev cnt seq), wset_phase2 u ((wf_phase2_at s u)\<lparr> ph_cnt := cnt \<rparr>) s)"
| "wf_slow_inc side thr u (I_set_seq2 prev cnt seq) s =
     (Inl (I_global prev cnt), wset_phase2 u ((wf_phase2_at s u)\<lparr> ph_seq2 := seq \<rparr>) s)"
| "wf_slow_inc side thr u (I_global prev cnt) s =
     (if wf_global side s = wf_pair cnt 0
      then (Inl (if thr then I_threshold cnt else I_finish cnt), wset_global side (wf_pair (cnt + 1) (phase2_addr u)) s)
      else (Inl (I_fin prev (wf_global side s)), s))"
| "wf_slow_inc side thr u (I_threshold cnt) s = (Inl (I_finish cnt), wset_threshold (wr_threshold (wring s) - 1) s)"
| "wf_slow_inc side thr u (I_finish cnt) s = (Inl (I_release cnt), cas_counter (side, u) (cnt + WFRING_INC) cnt s)"
| "wf_slow_inc side thr u (I_release cnt) s =
     (Inr (Some cnt), if wf_global side s = wf_pair (cnt + 1) (phase2_addr u)
                      then wset_global side (wf_pair (cnt + 1) 0) s else s)"

section \<open>The slow enqueue\<close>

text \<open>What the loop decides from a pair it has loaded; \<open>None\<close> when it returns.\<close>

definition enq_slow_other :: "nat \<Rightarrow> u64 \<Rightarrow> u128 \<Rightarrow> enq_slow_pc option" where
  "enq_slow_other order tail pair =
     (let n = wf_n order in if wf_entry pair OR (2 * n + n) = wf_cycle order tail then None else Some (A_skip tail pair))"

definition enq_slow_check :: "nat \<Rightarrow> u64 \<Rightarrow> u128 \<Rightarrow> enq_slow_pc option" where
  "enq_slow_check order tail pair =
     (let entry = wf_entry pair; note = wf_addon pair; tcycle = wf_cycle order tail; ecycle = wf_cycle order entry
      in if cmp_less ecycle tcycle \<and> cmp_less note tcycle
         then (if entry OR 1 = ecycle then Some (A_cas tail pair)
               else if entry OR 1 = ecycle XOR wf_n order then Some (A_head tail pair)
               else enq_slow_other order tail pair)
         else Some (A_inc (I_load tail)))"

definition enq_slow_stored :: "enq_job \<Rightarrow> enq_slow_pc option" where
  "enq_slow_stored j = (if ej_nonempty j then None else Some A_threshold)"

fun wf_do_enqueue_slow :: "nat \<Rightarrow> enq_job \<Rightarrow> bool \<Rightarrow> enq_slow_pc \<Rightarrow> wf_state \<Rightarrow> enq_slow_pc option \<times> wf_state" where
  "wf_do_enqueue_slow order j spurious (A_inc i) s =
     (case wf_slow_inc Tail_side False (ej_thread j) i s of (r, s') \<Rightarrow>
        (case r of Inl i' \<Rightarrow> Some (A_inc i') | Inr None \<Rightarrow> None | Inr (Some tail) \<Rightarrow> Some (A_seq tail), s'))"
| "wf_do_enqueue_slow order j spurious (A_seq tail) s =
     (if ws_seq1 (wlocals s (ej_thread j)) \<noteq> ej_seq j then None else Some (A_addon tail), s)"
| "wf_do_enqueue_slow order j spurious (A_addon tail) s = (Some (A_entry tail (wf_addon (wf_pair_at order s tail))), s)"
| "wf_do_enqueue_slow order j spurious (A_entry tail note) s =
     (enq_slow_check order tail (wf_pair (wf_at order s tail) note), s)"
| "wf_do_enqueue_slow order j spurious (A_head tail pair) s =
     (if cmp_le (wf_entry (wr_head (wring s))) tail then Some (A_cas tail pair) else enq_slow_other order tail pair, s)"
| "wf_do_enqueue_slow order j spurious (A_cas tail pair) s =
     (if wf_pair_at order s tail = pair \<and> \<not> spurious
      then (Some (A_claim tail),
        (set_slot order tail (wf_pair (wf_cycle order tail XOR ej_eidx j XOR wf_n order) (wf_addon pair)) s)
          \<lparr> w_put := w_put s @ [(unat tail div 4, ej_eidx j XOR (wf_n order - 1))] \<rparr>)
      else (enq_slow_check order tail (wf_pair_at order s tail), s))"
| "wf_do_enqueue_slow order j spurious (A_claim tail) s =
     (let l = (Tail_side, ej_thread j)
      in if wf_counter s l = tail then (Some (A_final tail), wset_counter l (tail + 1) s) else (enq_slow_stored j, s))"
| "wf_do_enqueue_slow order j spurious (A_final tail) s =
     (let entry = wf_cycle order tail XOR ej_eidx j
      in (enq_slow_stored j, if wf_at order s tail = entry then set_entry order tail (entry XOR wf_n order) s else s))"
| "wf_do_enqueue_slow order j spurious A_threshold s =
     (if wr_threshold (wring s) \<noteq> wf_threshold3 (wf_pow2 order) (wf_n order) then Some A_reset else None, s)"
| "wf_do_enqueue_slow order j spurious A_reset s =
     (None, wset_threshold (wf_threshold3 (wf_pow2 order) (wf_n order)) s)"
| "wf_do_enqueue_slow order j spurious (A_skip tail pair) s =
     (if wf_pair_at order s tail = pair \<and> \<not> spurious
      then (Some (A_inc (I_load tail)), set_slot order tail (wf_pair (wf_entry pair) (wf_cycle order tail)) s)
      else (enq_slow_check order tail (wf_pair_at order s tail), s))"

section \<open>The slow dequeue\<close>

text \<open>The end of a round, the change of an entry, and what a round decides from a pair.\<close>

definition deq_slow_missed :: "deq_job \<Rightarrow> u64 \<Rightarrow> deq_slow_pc" where
  "deq_slow_missed j head = (if dj_nonempty j then B_inc (I_load head) else B_tail head)"

definition deq_slow_change :: "nat \<Rightarrow> deq_job \<Rightarrow> u64 \<Rightarrow> u128 \<Rightarrow> u64 \<Rightarrow> deq_slow_pc" where
  "deq_slow_change order j head pair entry_new =
     (if cmp_less (wf_cycle order (wf_entry pair)) (wf_cycle order head) then B_cas head pair entry_new
      else deq_slow_missed j head)"

definition deq_slow_spoil :: "nat \<Rightarrow> deq_job \<Rightarrow> u64 \<Rightarrow> u128 \<Rightarrow> deq_slow_pc" where
  "deq_slow_spoil order j head pair =
     (let entry = wf_entry pair; entry_new = entry AND NOT (2 * wf_n order)
      in if entry = entry_new then deq_slow_missed j head else deq_slow_change order j head pair entry_new)"

definition deq_slow_check :: "nat \<Rightarrow> deq_job \<Rightarrow> u64 \<Rightarrow> u128 \<Rightarrow> deq_slow_pc" where
  "deq_slow_check order j head pair =
     (let n = wf_n order; entry = wf_entry pair; note = wf_addon pair;
          ecycle = wf_cycle order entry; hcycle = wf_cycle order head
      in if ecycle = hcycle \<and> entry AND (n - 1) \<noteq> n - 2 then B_claim head
         else if ((entry OR 2 * n) OR 1) \<noteq> ecycle
           then (if cmp_less ecycle hcycle \<and> cmp_less note hcycle then B_note head pair
                 else deq_slow_spoil order j head pair)
         else deq_slow_change order j head pair (hcycle XOR (NOT entry AND 2 * n) XOR 1))"

fun wf_do_dequeue_slow :: "nat \<Rightarrow> deq_job \<Rightarrow> bool \<Rightarrow> deq_slow_pc \<Rightarrow> wf_state \<Rightarrow> deq_slow_pc option \<times> wf_state" where
  "wf_do_dequeue_slow order j spurious (B_inc i) s =
     (case wf_slow_inc Head_side (\<not> dj_nonempty j) (dj_thread j) i s of (r, s') \<Rightarrow>
        (case r of Inl i' \<Rightarrow> Some (B_inc i') | Inr None \<Rightarrow> None | Inr (Some head) \<Rightarrow> Some (B_addon head), s'))"
| "wf_do_dequeue_slow order j spurious (B_addon head) s = (Some (B_entry head (wf_addon (wf_pair_at order s head))), s)"
| "wf_do_dequeue_slow order j spurious (B_entry head note) s =
     (Some (deq_slow_check order j head (wf_pair (wf_at order s head) note)), s)"
| "wf_do_dequeue_slow order j spurious (B_claim head) s =
     (None, cas_counter (Head_side, dj_thread j) head (head XOR 1) s)"
| "wf_do_dequeue_slow order j spurious (B_note head pair) s =
     (if wf_pair_at order s head = pair \<and> \<not> spurious
      then (Some (deq_slow_spoil order j head pair),
            set_slot order head (wf_pair (wf_entry pair) (wf_cycle order head)) s)
      else (Some (deq_slow_check order j head (wf_pair_at order s head)), s))"
| "wf_do_dequeue_slow order j spurious (B_cas head pair entry_new) s =
     (if wf_pair_at order s head = pair \<and> \<not> spurious
      then (Some (deq_slow_missed j head), set_slot order head (wf_pair entry_new (wf_addon pair)) s)
      else (Some (deq_slow_check order j head (wf_pair_at order s head)), s))"
| "wf_do_dequeue_slow order j spurious (B_tail head) s =
     (let tail = wf_entry (wr_tail (wring s))
      in (Some (if cmp_le tail (head + 4) then B_catch head (C_cas tail (head + 4)) else B_threshold head), s))"
| "wf_do_dequeue_slow order j spurious (B_catch head c) s =
     (case wf_catchup spurious c s of (r, s') \<Rightarrow>
        (Some (case r of None \<Rightarrow> B_threshold head | Some c' \<Rightarrow> B_catch head c'), s'))"
| "wf_do_dequeue_slow order j spurious (B_threshold head) s =
     (Some (if sint (wr_threshold (wring s)) < 0 then B_fin head else B_inc (I_load head)), s)"
| "wf_do_dequeue_slow order j spurious (B_fin head) s =
     (Some (B_inc (I_load head)), cas_counter (Head_side, dj_thread j) head (head + WFRING_FIN) s)"

text \<open>\<open>__wfring_lookup\<close> by thread \<open>t\<close>: \<open>None\<close> when it returns.\<close>

fun wf_lookup :: "nat \<Rightarrow> u64 \<Rightarrow> look_pc \<Rightarrow> wf_state \<Rightarrow> look_pc option \<times> wf_state" where
  "wf_lookup t tail (K_next u) s =
     (let u' = wf_next (wlocals s u) in (if u' = t then None else Some (K_tail u'), s))"
| "wf_lookup t tail (K_tail u) s = (Some (if ws_tail (wlocals s u) AND NOT 3 = tail then K_cas u else K_next u), s)"
| "wf_lookup t tail (K_cas u) s = (None, cas_counter (Tail_side, u) tail (tail XOR 1) s)"

section \<open>Requests\<close>

text \<open>Where a thread goes on after \<open>__wfring_do_enqueue_slow\<close> or \<open>__wfring_do_dequeue_slow\<close>.\<close>

fun back_pc :: "wf_back \<Rightarrow> wf_pc" where
  "back_pc (Own_request seq) = S_end seq"
| "back_pc (Own_take seq ne) = T_end seq ne"
| "back_pc (For_other u r) = H_next u r"

definition wf_slow_enq :: "nat \<Rightarrow> nat \<Rightarrow> bool \<Rightarrow> enq_job \<Rightarrow> wf_back \<Rightarrow> enq_slow_pc \<Rightarrow> wf_state \<Rightarrow> wf_state" where
  "wf_slow_enq order t spurious j back a s =
     (case wf_do_enqueue_slow order j spurious a s of (r, s') \<Rightarrow>
        wgoto t (case r of None \<Rightarrow> back_pc back | Some a' \<Rightarrow> S_run j back a') s')"

definition wf_slow_deq :: "nat \<Rightarrow> nat \<Rightarrow> bool \<Rightarrow> deq_job \<Rightarrow> wf_back \<Rightarrow> deq_slow_pc \<Rightarrow> wf_state \<Rightarrow> wf_state" where
  "wf_slow_deq order t spurious j back b s =
     (case wf_do_dequeue_slow order j spurious b s of (r, s') \<Rightarrow>
        wgoto t (case r of None \<Rightarrow> back_pc back | Some b' \<Rightarrow> T_run j back b') s')"

definition wf_look :: "nat \<Rightarrow> look_pc \<Rightarrow> u64 \<Rightarrow> u64 \<Rightarrow> wf_state \<Rightarrow> wf_state" where
  "wf_look t l head entry s =
     (case wf_lookup t head l s of (r, s') \<Rightarrow>
        wgoto t (case r of None \<Rightarrow> R_take head entry | Some l' \<Rightarrow> R_lookup l' head entry) s')"

definition upd_local :: "nat \<Rightarrow> (wf_local \<Rightarrow> wf_local) \<Rightarrow> wf_state \<Rightarrow> wf_state" where
  "upd_local t f s = wset_local t (f (wlocals s t)) s"

text \<open>\<open>__wfring_enqueue_slow\<close> and \<open>__wfring_dequeue_slow\<close>: the request, and its end.\<close>

fun wf_enqueue_slow :: "nat \<Rightarrow> wf_pc \<Rightarrow> wf_state \<Rightarrow> wf_state" where
  "wf_enqueue_slow t (S_seq1 x ne tail) s = wgoto t (S_tail x ne tail (ws_seq1 (wlocals s t))) s"
| "wf_enqueue_slow t (S_tail x ne tail seq) s = wgoto t (S_init x ne tail seq) (upd_local t (ws_tail_update (\<lambda>_. tail)) s)"
| "wf_enqueue_slow t (S_init x ne tail seq) s = wgoto t (S_eidx x ne tail seq) (upd_local t (ws_initTail_update (\<lambda>_. tail)) s)"
| "wf_enqueue_slow t (S_eidx x ne tail seq) s = wgoto t (S_seq2 x ne tail seq) (upd_local t (ws_eidx_update (\<lambda>_. x)) s)"
| "wf_enqueue_slow t (S_seq2 x ne tail seq) s =
     wgoto t (S_run \<lparr> ej_thread = t, ej_eidx = x, ej_seq = seq, ej_nonempty = ne \<rparr> (Own_request seq) (A_inc (I_load tail)))
       (upd_local t (ws_seq2_update (\<lambda>_. seq)) s)"
| "wf_enqueue_slow t (S_end seq) s = wgoto t S_term (upd_local t (ws_seq1_update (\<lambda>_. seq + 1)) s)"
| "wf_enqueue_slow t S_term s = wgoto t Q_done (upd_local t (ws_eidx_update (\<lambda>_. WFRING_EIDX_TERM)) s)"
| "wf_enqueue_slow t _ s = s"

fun wf_dequeue_slow :: "nat \<Rightarrow> nat \<Rightarrow> wf_pc \<Rightarrow> wf_state \<Rightarrow> wf_state" where
  "wf_dequeue_slow order t (T_seq1 ne head) s = wgoto t (T_head ne head (ws_seq1 (wlocals s t))) s"
| "wf_dequeue_slow order t (T_head ne head seq) s = wgoto t (T_init ne head seq) (upd_local t (ws_head_update (\<lambda>_. head)) s)"
| "wf_dequeue_slow order t (T_init ne head seq) s =
     wgoto t (T_eidx ne head seq) (upd_local t (ws_initHead_update (\<lambda>_. head)) s)"
| "wf_dequeue_slow order t (T_eidx ne head seq) s =
     wgoto t (T_seq2 ne head seq) (upd_local t (ws_eidx_update (\<lambda>_. WFRING_EIDX_DEQ)) s)"
| "wf_dequeue_slow order t (T_seq2 ne head seq) s =
     wgoto t (T_run \<lparr> dj_thread = t, dj_nonempty = ne \<rparr> (Own_take seq ne) (B_inc (I_load head)))
       (upd_local t (ws_seq2_update (\<lambda>_. seq)) s)"
| "wf_dequeue_slow order t (T_end seq ne) s = wgoto t (T_term ne) (upd_local t (ws_seq1_update (\<lambda>_. seq + 1)) s)"
| "wf_dequeue_slow order t (T_term ne) s = wgoto t (T_result ne) (upd_local t (ws_eidx_update (\<lambda>_. WFRING_EIDX_TERM)) s)"
| "wf_dequeue_slow order t (T_result ne) s = wgoto t (T_entry ne (ws_head (wlocals s t))) s"
| "wf_dequeue_slow order t (T_entry ne head) s =
     (let n = wf_n order; entry = wf_at order s head
      in wgoto t (if ne \<or> entry OR (2 * n + n) = wf_cycle order head
                  then (if entry AND n = 0 then R_lookup (K_next t) head entry else R_take head entry)
                  else R_done WFRING_EMPTY) s)"
| "wf_dequeue_slow order t _ s = s"

text \<open>
  \<open>__wfring_help\<close> with \<open>__wfring_enqueue_help_thread\<close> and \<open>__wfring_dequeue_help_thread\<close>: the helper passes its
  own \<open>nonempty\<close>.
\<close>

fun resume_nonempty :: "wf_resume \<Rightarrow> bool" where
  "resume_nonempty (To_enqueue x ne) = ne"
| "resume_nonempty (To_dequeue ne) = ne"

fun wf_enqueue_help_thread :: "nat \<Rightarrow> wf_pc \<Rightarrow> wf_state \<Rightarrow> wf_state" where
  "wf_enqueue_help_thread t (H_enq_seq2 u r) s = wgoto t (H_enq_eidx u r (ws_seq2 (wlocals s u))) s"
| "wf_enqueue_help_thread t (H_enq_eidx u r seq) s = wgoto t (H_enq_tail u r seq (ws_eidx (wlocals s u))) s"
| "wf_enqueue_help_thread t (H_enq_tail u r seq eidx) s =
     wgoto t (if eidx \<le> WFRING_EIDX_DEQ then H_next u r else H_enq_seq1 u r seq eidx (ws_initTail (wlocals s u))) s"
| "wf_enqueue_help_thread t (H_enq_seq1 u r seq eidx tail) s =
     wgoto t (if ws_seq1 (wlocals s u) \<noteq> seq then H_next u r
              else S_run \<lparr> ej_thread = u, ej_eidx = eidx, ej_seq = seq, ej_nonempty = resume_nonempty r \<rparr>
                     (For_other u r) (A_inc (I_load tail))) s"
| "wf_enqueue_help_thread t _ s = s"

fun wf_dequeue_help_thread :: "nat \<Rightarrow> wf_pc \<Rightarrow> wf_state \<Rightarrow> wf_state" where
  "wf_dequeue_help_thread t (H_deq_seq2 u r) s = wgoto t (H_deq_eidx u r (ws_seq2 (wlocals s u))) s"
| "wf_dequeue_help_thread t (H_deq_eidx u r seq) s = wgoto t (H_deq_head u r seq (ws_eidx (wlocals s u))) s"
| "wf_dequeue_help_thread t (H_deq_head u r seq eidx) s =
     wgoto t (if eidx \<noteq> WFRING_EIDX_DEQ then H_next u r else H_deq_seq1 u r seq eidx (ws_initHead (wlocals s u))) s"
| "wf_dequeue_help_thread t (H_deq_seq1 u r seq eidx head) s =
     wgoto t (if ws_seq1 (wlocals s u) \<noteq> seq then H_next u r
              else T_run \<lparr> dj_thread = u, dj_nonempty = resume_nonempty r \<rparr> (For_other u r) (B_inc (I_load head))) s"
| "wf_dequeue_help_thread t _ s = s"

fun wf_help :: "nat \<Rightarrow> wf_pc \<Rightarrow> wf_state \<Rightarrow> wf_state" where
  "wf_help t (H_eidx u r) s =
     (let eidx = ws_eidx (wlocals s u)
      in wgoto t (if eidx \<noteq> WFRING_EIDX_TERM then (if eidx \<noteq> WFRING_EIDX_DEQ then H_enq_seq2 u r else H_deq_seq2 u r)
                  else H_next u r) s)"
| "wf_help t (H_next u r) s = wgoto t (H_last (wf_next (wlocals s u)) r) s"
| "wf_help t (H_last u r) s =
     wgoto t (resume_pc r) (upd_local t (\<lambda>l. l\<lparr> ws_currThread := wf_next (wlocals s u), ws_nextCheck := WFRING_DELAY \<rparr>) s)"
| "wf_help t (H_enq_seq2 u r) s = wf_enqueue_help_thread t (H_enq_seq2 u r) s"
| "wf_help t (H_enq_eidx u r seq) s = wf_enqueue_help_thread t (H_enq_eidx u r seq) s"
| "wf_help t (H_enq_tail u r seq eidx) s = wf_enqueue_help_thread t (H_enq_tail u r seq eidx) s"
| "wf_help t (H_enq_seq1 u r seq eidx tail) s = wf_enqueue_help_thread t (H_enq_seq1 u r seq eidx tail) s"
| "wf_help t (H_deq_seq2 u r) s = wf_dequeue_help_thread t (H_deq_seq2 u r) s"
| "wf_help t (H_deq_eidx u r seq) s = wf_dequeue_help_thread t (H_deq_eidx u r seq) s"
| "wf_help t (H_deq_head u r seq eidx) s = wf_dequeue_help_thread t (H_deq_head u r seq eidx) s"
| "wf_help t (H_deq_seq1 u r seq eidx head) s = wf_dequeue_help_thread t (H_deq_seq1 u r seq eidx head) s"
| "wf_help t _ s = s"

section \<open>Steps\<close>

definition wf_thread :: "nat \<Rightarrow> nat \<Rightarrow> bool \<Rightarrow> wf_state \<Rightarrow> wf_state" where
  "wf_thread order t spurious s =
     (case wpcs s t of
        Wf_idle \<Rightarrow> s
      | Q_ticket x ne k \<Rightarrow> wf_take_tail t x ne k s
      | Q_entry x ne k tail \<Rightarrow> wf_enq_entry order t x ne k tail s
      | Q_head x ne k tail entry \<Rightarrow> wf_enq_head t x ne k tail entry s
      | Q_cas x ne k tail entry \<Rightarrow> wf_enq_cas order t spurious x ne k tail entry s
      | Q_threshold \<Rightarrow> wf_enq_threshold order t s
      | Q_reset \<Rightarrow> wf_enq_reset order t s
      | Q_done \<Rightarrow> wgoto t Wf_idle s
      | R_threshold \<Rightarrow> wf_deq_threshold t s
      | R_ticket ne k \<Rightarrow> wf_take_head t ne k s
      | R_entry ne k head \<Rightarrow> wf_deq_entry order t ne k head s
      | R_cas ne k head entry entry_new \<Rightarrow> wf_deq_cas order t spurious ne k head entry entry_new s
      | R_lookup l head entry \<Rightarrow> wf_look t l head entry s
      | R_take head entry \<Rightarrow> wf_deq_take order t head entry s
      | R_tail k head \<Rightarrow> wf_deq_tail t k head s
      | R_catch c \<Rightarrow> wf_deq_catch t spurious c s
      | R_sub_empty \<Rightarrow> wf_sub_empty t s
      | R_sub k head \<Rightarrow> wf_sub t k head s
      | R_done r \<Rightarrow> wgoto t Wf_idle s
      | S_seq1 x ne tail \<Rightarrow> wf_enqueue_slow t (wpcs s t) s
      | S_tail x ne tail seq \<Rightarrow> wf_enqueue_slow t (wpcs s t) s
      | S_init x ne tail seq \<Rightarrow> wf_enqueue_slow t (wpcs s t) s
      | S_eidx x ne tail seq \<Rightarrow> wf_enqueue_slow t (wpcs s t) s
      | S_seq2 x ne tail seq \<Rightarrow> wf_enqueue_slow t (wpcs s t) s
      | S_run j back a \<Rightarrow> wf_slow_enq order t spurious j back a s
      | S_end seq \<Rightarrow> wf_enqueue_slow t (wpcs s t) s
      | S_term \<Rightarrow> wf_enqueue_slow t (wpcs s t) s
      | T_seq1 ne head \<Rightarrow> wf_dequeue_slow order t (wpcs s t) s
      | T_head ne head seq \<Rightarrow> wf_dequeue_slow order t (wpcs s t) s
      | T_init ne head seq \<Rightarrow> wf_dequeue_slow order t (wpcs s t) s
      | T_eidx ne head seq \<Rightarrow> wf_dequeue_slow order t (wpcs s t) s
      | T_seq2 ne head seq \<Rightarrow> wf_dequeue_slow order t (wpcs s t) s
      | T_run j back b \<Rightarrow> wf_slow_deq order t spurious j back b s
      | T_end seq ne \<Rightarrow> wf_dequeue_slow order t (wpcs s t) s
      | T_term ne \<Rightarrow> wf_dequeue_slow order t (wpcs s t) s
      | T_result ne \<Rightarrow> wf_dequeue_slow order t (wpcs s t) s
      | T_entry ne head \<Rightarrow> wf_dequeue_slow order t (wpcs s t) s
      | pc \<Rightarrow> wf_help t pc s)"

text \<open>An enqueue is called with an index below the half of the ring's size, as all its users do.\<close>

inductive wf_step :: "nat \<Rightarrow> wf_state \<Rightarrow> wf_state \<Rightarrow> bool" for order where
  enq_call: "wpcs s t = Wf_idle \<Longrightarrow> unat eidx < 2 ^ order \<Longrightarrow> wf_step order s (wf_enq_call order t eidx ne s)"
| deq_call: "wpcs s t = Wf_idle \<Longrightarrow> wf_step order s (wf_deq_call t ne s)"
| thread: "wf_step order s (wf_thread order t spurious s)"

text \<open>
  An initialised ring with its threads: \<open>links\<close> is the circle of threads, \<open>st\<close> what their memory held before
  \<open>wfring_init_state\<close>.
\<close>

definition wf_start :: "wf_ring \<Rightarrow> (nat \<Rightarrow> nat) \<Rightarrow> (nat \<Rightarrow> wf_local) \<Rightarrow> nat \<Rightarrow> (nat \<times> u64) list \<Rightarrow> wf_state" where
  "wf_start r links st s content = \<lparr> wring = r, wpcs = (\<lambda>_. Wf_idle),
     wlocals = (\<lambda>t. (wf_init_state t (st t))\<lparr> ws_next := Some (links t) \<rparr>),
     w_put = content, w_taken = [], w_given = {..<s} \<rparr>"

text \<open>The three ways to start.\<close>

inductive wf_initial :: "nat \<Rightarrow> (nat \<Rightarrow> nat) \<Rightarrow> wf_state \<Rightarrow> bool" for order links where
  empty: "length mem = 2 ^ (order + 1) \<Longrightarrow> wf_initial order links (wf_start (wf_init_empty order mem) links st 0 [])"
| full: "length mem = 2 ^ (order + 1) \<Longrightarrow>
    wf_initial order links (wf_start (wf_init_full order mem) links st 0
      (map (\<lambda>i. (i, wf_raw_map (word_of_nat i) order (wf_pow2 order))) [0..<2 ^ order]))"
| fill: "length mem = 2 ^ (order + 1) \<Longrightarrow> s \<le> e \<Longrightarrow> e \<le> 2 ^ order \<Longrightarrow>
    wf_initial order links (wf_start (wf_init_fill order s e mem) links st s (map (\<lambda>i. (i, word_of_nat i)) [s..<e]))"

text \<open>
  \<open>wf_reachable order links k s\<close>: \<open>s\<close> is reached within \<open>k\<close> steps. \<open>wf_fast_run\<close> says in addition that no thread
  took a slow path or found the request of another one on the way.
\<close>

inductive wf_reachable :: "nat \<Rightarrow> (nat \<Rightarrow> nat) \<Rightarrow> nat \<Rightarrow> wf_state \<Rightarrow> bool" for order links where
  start: "wf_initial order links s \<Longrightarrow> wf_reachable order links 0 s"
| step: "wf_reachable order links k s \<Longrightarrow> wf_step order s s' \<Longrightarrow> wf_reachable order links (k + 1) s'"

fun wf_fast_pc :: "wf_pc \<Rightarrow> bool" where
  "wf_fast_pc (S_seq1 x ne tail) = False"
| "wf_fast_pc (T_seq1 ne head) = False"
| "wf_fast_pc (H_enq_seq2 u r) = False"
| "wf_fast_pc (H_deq_seq2 u r) = False"
| "wf_fast_pc _ = True"

inductive wf_fast_run :: "nat \<Rightarrow> (nat \<Rightarrow> nat) \<Rightarrow> nat \<Rightarrow> wf_state \<Rightarrow> bool" for order links where
  start: "wf_initial order links s \<Longrightarrow> wf_fast_run order links 0 s"
| step: "wf_fast_run order links k s \<Longrightarrow> wf_step order s s' \<Longrightarrow> \<forall>t. wf_fast_pc (wpcs s' t) \<Longrightarrow>
    wf_fast_run order links (k + 1) s'"

lemma wf_fast_run_reachable: "wf_fast_run order links k s \<Longrightarrow> wf_reachable order links k s"
proof (induction rule: wf_fast_run.induct)
  case (step k s s')
  show ?case by (rule wf_reachable.step [OF step.IH step.hyps(2)])
qed (rule wf_reachable.start)

section \<open>What a step leaves alone\<close>

lemma wf_frame [simp]:
  "wpcs (wset_threshold v s) = wpcs s" "wpcs (wset_tail w s) = wpcs s" "wpcs (wset_head w s) = wpcs s"
  "wpcs (wset_local u l s) = wpcs s" "wpcs (set_slot order pos w s) = wpcs s" "wpcs (set_entry order pos e s) = wpcs s"
  "wlocals (wset_threshold v s) = wlocals s" "wlocals (wset_tail w s) = wlocals s" "wlocals (wset_head w s) = wlocals s"
  "wlocals (set_slot order pos w s) = wlocals s" "wlocals (set_entry order pos e s) = wlocals s"
  "wpcs (wgoto t pc s) = (wpcs s)(t := pc)" "wlocals (wgoto t pc s) = wlocals s"
  "wlocals (wset_local u l s) = (wlocals s)(u := l)"
  by (simp_all add: wset_threshold_def wset_tail_def wset_head_def wset_local_def set_slot_def set_entry_def wgoto_def)

lemma wf_frame_global [simp]: "wpcs (wset_global side v s) = wpcs s" "wlocals (wset_global side v s) = wlocals s"
  by (cases side; simp)+

lemma wf_frame_counter [simp]: "wpcs (wset_counter l v s) = wpcs s"
  by (cases "(l, v, s)" rule: wset_counter.cases) simp_all

lemma wf_frame_cas [simp]: "wpcs (cas_counter l old new s) = wpcs s"
  by (simp add: cas_counter_def)

lemma wf_frame_phase2 [simp]: "wpcs (wset_phase2 u p s) = wpcs s"
  by (simp add: wset_phase2_def)

lemma wf_frame_parts:
  "wpcs (snd (wf_load_global_help_phase2 side p s)) = wpcs s"
  "wpcs (snd (wf_slow_inc side thr u i s)) = wpcs s"
  "wpcs (snd (wf_catchup spurious c s)) = wpcs s"
  "wpcs (snd (wf_lookup t tail l s)) = wpcs s"
proof -
  show p: "wpcs (snd (wf_load_global_help_phase2 side p s)) = wpcs s" for p by (cases p) simp_all
  show "wpcs (snd (wf_slow_inc side thr u i s)) = wpcs s"
  proof (cases i)
    case (I_phase2 prev q)
    then show ?thesis using p [of q] by (simp add: case_prod_beta)
  qed (simp_all add: Let_def)
  show "wpcs (snd (wf_catchup spurious c s)) = wpcs s" by (cases c) (simp_all add: Let_def)
  show "wpcs (snd (wf_lookup t tail l s)) = wpcs s" by (cases l) (simp_all add: Let_def)
qed

lemma wf_frame_slow:
  "wpcs (snd (wf_do_enqueue_slow order j spurious a s)) = wpcs s"
  "wpcs (snd (wf_do_dequeue_slow order d spurious b s)) = wpcs s"
  by (cases a; simp add: Let_def case_prod_beta wf_frame_parts) (cases b; simp add: Let_def case_prod_beta wf_frame_parts)

lemma wf_thread_other: "i \<noteq> t \<Longrightarrow> wpcs (wf_thread order t spurious s) i = wpcs s i"
  unfolding wf_thread_def
  by (cases "wpcs s t")
    (simp_all add: wf_take_tail_def wf_enq_entry_def wf_enq_head_def wf_enq_cas_def wf_enq_threshold_def wf_enq_reset_def
      wf_deq_threshold_def wf_take_head_def wf_deq_entry_def wf_deq_cas_def wf_look_def wf_deq_take_def wf_deq_tail_def
      wf_deq_catch_def wf_sub_empty_def wf_sub_def wf_slow_enq_def wf_slow_deq_def wf_count_def wkeep_or_give_up_def
      upd_local_def Let_def case_prod_beta wf_frame_parts wf_frame_slow)

section \<open>Runs\<close>

fun wf_run :: "nat \<Rightarrow> nat list \<Rightarrow> wf_state \<Rightarrow> wf_state" where
  "wf_run order [] s = s"
| "wf_run order (t # ts) s = wf_run order ts (wf_thread order t False s)"

lemma wf_run_reachable: "wf_reachable order links k s \<Longrightarrow> wf_reachable order links (k + length ts) (wf_run order ts s)"
proof (induction ts arbitrary: s k)
  case (Cons t ts)
  have "wf_reachable order links (k + 1) (wf_thread order t False s)"
    by (rule wf_reachable.step [OF Cons.prems wf_step.thread])
  from Cons.IH [OF this] show ?case by simp
qed simp

fun wf_run_fast :: "nat \<Rightarrow> nat list \<Rightarrow> wf_state \<Rightarrow> bool" where
  "wf_run_fast order [] s \<longleftrightarrow> True"
| "wf_run_fast order (t # ts) s \<longleftrightarrow>
     (let s' = wf_thread order t False s in wf_fast_pc (wpcs s' t) \<and> wf_run_fast order ts s')"

lemma wf_run_fast_run:
  "wf_fast_run order links k s \<Longrightarrow> \<forall>i. wf_fast_pc (wpcs s i) \<Longrightarrow> wf_run_fast order ts s \<Longrightarrow>
    wf_fast_run order links (k + length ts) (wf_run order ts s) \<and> (\<forall>i. wf_fast_pc (wpcs (wf_run order ts s) i))"
proof (induction ts arbitrary: s k)
  case (Cons t ts)
  let ?s = "wf_thread order t False s"
  have f: "wf_fast_pc (wpcs ?s i)" for i
    using Cons.prems(2,3) by (cases "i = t") (simp_all add: Let_def wf_thread_other)
  have "wf_fast_run order links (k + 1) ?s"
    by (rule wf_fast_run.step [OF Cons.prems(1) wf_step.thread]) (simp add: f)
  from Cons.IH [OF this] show ?case using f Cons.prems(3) by (simp add: Let_def)
qed simp

end
