(* ===== verification/Wf_Slots.thy ===== *)
theory Wf_Slots
  imports Wf_Ring Scq_Entry
begin

text \<open>
  The entries of the wait-free ring (wfring_cas2.h) as slots of the ticket machine. The bit that says an entry
  is final lies between the safe bit and the index, so an entry of a ring of order \<open>order\<close> has the fields of an
  entry of the scalable ring of order \<open>order + 1\<close> (theory Scq_Entry) whose top index bit is the final bit; an
  entry is empty when all index bits but the lowest are set.
\<close>

unbundle bit_operations_syntax

section \<open>Words\<close>

lemma wf_words [simp]: "wf_entry (wf_pair e c) = e" "wf_addon (wf_pair e c) = c"
  using pair_words [of e c] by (simp_all add: wf_entry_def wf_addon_def wf_pair_def lfring_entry_def lfring_pointer_def lfring_pair_def)

lemma with_entry_words [simp]: "wf_entry (with_entry x e) = e" "wf_addon (with_entry x e) = wf_addon x"
  by (simp_all add: with_entry_def)

lemma wf_n_ring: "wf_n order = ring_n order"
  by (simp add: wf_n_def wf_pow2_def ring_n_def lfring_pow2_def)

lemma wf_n_double: "2 * wf_n order = ring_n (order + 1)"
  by (simp add: wf_n_ring ring_n_def lfring_pow2_def push_bit_eq_mult)

lemma wf_n_four: "4 * wf_n order = 2 * ring_n (order + 1)"
  unfolding wf_n_double [symmetric] by simp

lemma wf_cycle_entry: "wf_cycle order e = entry_cycle (order + 1) e"
  unfolding wf_cycle_def entry_cycle_def wf_n_four ..

lemma wf_cycle_pos: "wf_cycle order w = pos_cycle (order + 1) (drop_bit 1 w)"
proof (rule bit_word_eqI)
  fix i assume "i < LENGTH(64)"
  then show "bit (wf_cycle order w) i = bit (pos_cycle (order + 1) (drop_bit 1 w)) i"
    unfolding wf_cycle_entry full_bit pos_full bit_or_mask bit_push_bit_iff bit_drop_bit_eq o_def possible_bit_word
    by (cases i) auto
qed

section \<open>Entries as slots\<close>

definition wf_empty :: "nat \<Rightarrow> u64 \<Rightarrow> bool" where
  "wf_empty order e \<longleftrightarrow> e_empty (order + 1) (e OR 1)"

definition wf_view :: "nat \<Rightarrow> u64 \<Rightarrow> u64 slot" where
  "wf_view order e = \<lparr> s_cycle = e_cycle (order + 1) e, s_safe = e_safe (order + 1) e,
     s_held = (if wf_empty order e then None else Some (e_index order e)) \<rparr>"

lemma wf_view_sel [simp]:
  "s_cycle (wf_view order e) = e_cycle (order + 1) e" "s_safe (wf_view order e) = e_safe (order + 1) e"
  "s_held (wf_view order e) = None \<longleftrightarrow> wf_empty order e"
  "s_held (wf_view order e) = Some v \<longleftrightarrow> \<not> wf_empty order e \<and> e_index order e = v"
  by (simp_all add: wf_view_def)

lemma bit_one: "bit (1 :: u64) i \<longleftrightarrow> i = 0"
  using bit_one_at [of 0 i] by auto

lemma wf_emptyI: "order < 60 \<Longrightarrow> wf_empty order e \<longleftrightarrow> (\<forall>i. 0 < i \<longrightarrow> i < order + 2 \<longrightarrow> bit e i)"
proof -
  assume "order < 60"
  then have "wf_empty order e \<longleftrightarrow> (\<forall>i < order + 1 + 1. bit (e OR 1) i)"
    unfolding wf_empty_def by (intro e_emptyI) simp
  then show ?thesis unfolding bit_or_iff bit_one by auto
qed

text \<open>The lowest bit belongs to the index only.\<close>

lemma low_bit_fields:
  assumes "order < 60"
  shows "e_cycle (order + 1) (e OR 1) = e_cycle (order + 1) e" "e_safe (order + 1) (e OR 1) = e_safe (order + 1) e"
    "e_cycle (order + 1) (e XOR 1) = e_cycle (order + 1) e" "e_safe (order + 1) (e XOR 1) = e_safe (order + 1) e"
    "wf_empty order (e XOR 1) = wf_empty order e" "entry_cycle (order + 1) (e OR 1) = entry_cycle (order + 1) e"
proof -
  show "e_cycle (order + 1) (e OR 1) = e_cycle (order + 1) e" "e_cycle (order + 1) (e XOR 1) = e_cycle (order + 1) e"
    by (rule e_cycle_eqI; use assms in \<open>simp add: bit_or_iff bit_xor_iff bit_one\<close>)+
  show "e_safe (order + 1) (e OR 1) = e_safe (order + 1) e" "e_safe (order + 1) (e XOR 1) = e_safe (order + 1) e"
    unfolding e_safe_def bit_or_iff bit_xor_iff bit_one by simp_all
  show "wf_empty order (e XOR 1) = wf_empty order e"
    unfolding wf_emptyI [OF assms] bit_xor_iff bit_one by auto
  show "entry_cycle (order + 1) (e OR 1) = entry_cycle (order + 1) e"
    by (rule bit_word_eqI) (auto simp: full_bit bit_or_iff bit_one)
qed

text \<open>The tests of the code on an entry.\<close>

lemma wf_tests:
  assumes "order < 60"
  shows "e OR 1 = wf_cycle order e \<longleftrightarrow> e_safe (order + 1) e \<and> wf_empty order e"
    and "e OR 1 = wf_cycle order e XOR 2 * wf_n order \<longleftrightarrow> \<not> e_safe (order + 1) e \<and> wf_empty order e"
    and "(e OR 2 * wf_n order) OR 1 = wf_cycle order e \<longleftrightarrow> wf_empty order e"
    and "e = e AND NOT (2 * wf_n order) \<longleftrightarrow> \<not> e_safe (order + 1) e"
proof -
  have o: "order + 1 \<le> 60" using assms by simp
  note w = wf_cycle_entry wf_n_double low_bit_fields(6) [OF assms, of e, symmetric]
  show "e OR 1 = wf_cycle order e \<longleftrightarrow> e_safe (order + 1) e \<and> wf_empty order e"
    unfolding w is_full_iff [OF o] low_bit_fields(2) [OF assms] wf_empty_def ..
  show "e OR 1 = wf_cycle order e XOR 2 * wf_n order \<longleftrightarrow> \<not> e_safe (order + 1) e \<and> wf_empty order e"
    unfolding w is_flipped_iff [OF o] low_bit_fields(2) [OF assms] wf_empty_def ..
  have "(e OR ring_n (order + 1)) OR 1 = (e OR 1) OR ring_n (order + 1)" by (simp add: ac_simps)
  then show "(e OR 2 * wf_n order) OR 1 = wf_cycle order e \<longleftrightarrow> wf_empty order e"
    using is_empty_iff [OF o, of "e OR 1"] unfolding w wf_empty_def by simp
  show "e = e AND NOT (2 * wf_n order) \<longleftrightarrow> \<not> e_safe (order + 1) e"
    unfolding wf_n_double by (rule is_unsafe_iff [OF o])
qed

text \<open>The words the code makes from an entry.\<close>

lemma spoiled_view:
  assumes "order < 60"
  shows "wf_view order (e AND NOT (2 * wf_n order)) = (wf_view order e)\<lparr> s_safe := False \<rparr>"
proof -
  have o: "order + 1 \<le> 60" using assms by simp
  have b: "bit (e AND NOT (2 * wf_n order)) i \<longleftrightarrow> bit e i \<and> i \<noteq> order + 2" for i
    unfolding wf_n_double bit_and_iff bit_not_iff ring_n_bits(1) bit_one_at by (auto dest: bit_imp_le_length simp: possible_bit_word)
  have "wf_empty order (e AND NOT (2 * wf_n order)) = wf_empty order e" unfolding wf_emptyI [OF assms] b by auto
  moreover have "e_index order (e AND NOT (2 * wf_n order)) = e_index order e" by (rule e_index_eqI) (simp add: b)
  ultimately show ?thesis using clear_safe_fields [OF o, of e] by (simp add: wf_view_def wf_n_double)
qed

lemma advanced_view:
  assumes "order < 60"
  shows "wf_view order (wf_cycle order h XOR (NOT e AND 2 * wf_n order) XOR 1) =
    \<lparr> s_cycle = e_cycle (order + 1) (wf_cycle order h), s_safe = e_safe (order + 1) e, s_held = None \<rparr>"
proof -
  have o: "order + 1 \<le> 60" using assms by simp
  note f = advance_fields [OF o, of "drop_bit 1 h" e]
  have "wf_empty order (pos_cycle (order + 1) (drop_bit 1 h) XOR (NOT e AND ring_n (order + 1)))"
    using f(3) unfolding wf_emptyI [OF assms] e_emptyI [OF o] by simp
  then show ?thesis using f low_bit_fields(3-5) [OF assms]
    by (simp add: wf_view_def wf_n_double wf_cycle_pos xor.assoc [symmetric])
qed

lemma consumed_view:
  assumes "order < 60"
  shows "wf_view order (e OR (2 * wf_n order - 1)) = (wf_view order e)\<lparr> s_held := None \<rparr>"
proof -
  have o: "order + 1 \<le> 60" using assms by simp
  have "wf_empty order (e OR (2 * wf_n order - 1))"
    unfolding wf_emptyI [OF assms] wf_n_double ring_n_bits(2) bit_or_mask using assms by auto
  then show ?thesis using consume_fields [OF o, of e] by (simp add: wf_view_def wf_n_double)
qed

lemma index_not_empty:
  assumes "order < 60" and "unat v < 2 ^ order" and "0 < order" and e: "e_index order e = v"
  shows "\<not> wf_empty order e"
proof
  assume "wf_empty order e"
  then have "bit e order" unfolding wf_emptyI [OF assms(1)] using assms(3) by simp
  then have "bit v order" unfolding e [symmetric] e_index_def bit_and_mask by simp
  then have "bit (unat v) order" using assms(1) by (simp add: bit_unsigned_iff possible_bit_def)
  then have "odd (unat v div 2 ^ order)" by (simp add: bit_iff_odd)
  then show False using assms(2) by simp
qed

text \<open>An index with the final bit, as the word that the enqueue flips.\<close>

lemma final_index:
  assumes "order < 60" and "unat v < 2 ^ (order + 1)"
  shows "wf_n order + v = wf_n order OR v" and "unat (wf_n order + v) < 2 ^ (order + 2)"
    and "(wf_n order + v) XOR (2 * wf_n order - 1) = v XOR (wf_n order - 1)" and "e_index order (wf_n order + v) = v"
proof -
  have v: "v = v AND mask (order + 1)" using assms(2) by (simp add: word_unat_eq_iff unat_and_mask_mod)
  then have hi: "\<not> bit v i" if "order + 1 \<le> i" for i using bit_and_mask [of v "order + 1" i] that by simp
  have "wf_n order AND v = 0"
  proof (rule bit_word_eqI)
    fix i show "bit (wf_n order AND v) i = bit 0 i"
      unfolding bit_and_iff wf_n_ring ring_n_bits(1) bit_one_at using hi [of i] by auto
  qed
  then show s: "wf_n order + v = wf_n order OR v" by (simp add: disjunctive_add_eq_or)
  have n: "unat (wf_n order) = 2 ^ (order + 1)" unfolding wf_n_ring by (rule ring_n_unat) (use assms in simp)
  have "unat (wf_n order + v) \<le> unat (wf_n order) + unat v" unfolding unat_word_ariths(1) by (rule mod_less_eq_dividend)
  then show "unat (wf_n order + v) < 2 ^ (order + 2)" using n assms(2) by simp
  have b: "bit (wf_n order + v) i \<longleftrightarrow> i = order + 1 \<and> i < 64 \<or> bit v i" for i
    using arg_cong [OF s, of "\<lambda>w. bit w i"] unfolding bit_or_iff wf_n_ring ring_n_bits(1) bit_one_at by simp
  show "(wf_n order + v) XOR (2 * wf_n order - 1) = v XOR (wf_n order - 1)"
  proof (rule bit_word_eqI)
    fix i assume "i < LENGTH(64)"
    then show "bit ((wf_n order + v) XOR (2 * wf_n order - 1)) i = bit (v XOR (wf_n order - 1)) i"
      unfolding wf_n_double bit_xor_iff b unfolding wf_n_ring ring_n_bits(2) bit_mask_iff possible_bit_word
      using hi [of i] by (cases "i = order + 1"; cases "i < order + 1") auto
  qed
  have "e_index order (wf_n order + v) = e_index order v" by (rule e_index_eqI) (simp add: b)
  then show "e_index order (wf_n order + v) = v" using v unfolding e_index_def by simp
qed

lemma placed_view:
  assumes "order < 60" "0 < order" and "unat (x XOR (wf_n order - 1)) < 2 ^ order"
  shows "wf_view order (wf_cycle order h XOR x) =
    \<lparr> s_cycle = e_cycle (order + 1) (wf_cycle order h), s_safe = True, s_held = Some (x XOR (wf_n order - 1)) \<rparr>"
proof -
  define v where "v = x XOR (wf_n order - 1)"
  have o: "order + 1 \<le> 60" and v1: "unat v < 2 ^ (order + 1)" using assms by (simp_all add: v_def)
  note n = final_index [OF assms(1) v1]
  have x: "x = (wf_n order + v) XOR (ring_n (order + 1) - 1)"
    using n(3) unfolding wf_n_double by (simp add: v_def xor.assoc)
  have "unat (wf_n order + v) < 2 ^ (order + 1 + 1)" using n(2) by simp
  note f = placed_fields [OF o this, of "drop_bit 1 h", folded x, folded wf_cycle_pos]
  have "e_index order (wf_cycle order h XOR x) = e_index order (e_index (order + 1) (wf_cycle order h XOR x))"
    by (rule e_index_eqI) (simp add: e_index_def bit_and_mask)
  then have i: "e_index order (wf_cycle order h XOR x) = v" unfolding f(3) n(4) .
  have "\<not> wf_empty order (wf_cycle order h XOR x)"
    by (rule index_not_empty [OF assms(1) _ assms(2) i]) (use assms(3) in \<open>simp add: v_def\<close>)
  then show ?thesis using f i by (simp add: wf_view_def v_def)
qed

text \<open>The entries of an initialised ring.\<close>

lemma initial_wf_view:
  assumes "order < 60" "0 < order"
  shows "s_cycle (wf_view order (- 1)) = - 1" "s_held (wf_view order (- 1)) = None"
    and "s_cycle (wf_view order (4 * wf_n order - 1)) = 0" "s_held (wf_view order (4 * wf_n order - 1)) = None"
    and "unat v < 2 ^ order \<Longrightarrow> s_cycle (wf_view order (2 * wf_n order + wf_n order + v)) = 0"
    and "unat v < 2 ^ order \<Longrightarrow> s_held (wf_view order (2 * wf_n order + wf_n order + v)) = Some v"
proof -
  have o: "order + 1 \<le> 60" using assms by simp
  show "s_cycle (wf_view order (- 1)) = - 1" "s_held (wf_view order (- 1)) = None"
    using minus_one_fields [of "order + 1"] assms(1) by (simp_all add: wf_emptyI [OF assms(1)])
  note sp = spent_fields [OF o]
  show "s_cycle (wf_view order (4 * wf_n order - 1)) = 0" "s_held (wf_view order (4 * wf_n order - 1)) = None"
    using sp(1,3) unfolding wf_n_four wf_view_sel e_emptyI [OF o] wf_emptyI [OF assms(1)] by auto
  assume v: "unat v < 2 ^ order"
  then have v1: "unat v < 2 ^ (order + 1)" by simp
  note n = final_index [OF assms(1) v1]
  define w where "w = wf_n order + v"
  have eq: "2 * wf_n order + wf_n order + v = ring_n (order + 1) + w" unfolding wf_n_double w_def by (simp add: add.assoc)
  have "unat w < 2 ^ (order + 1 + 1)" using n(2) by (simp add: w_def)
  note f = filled_fields [OF o this]
  have "e_index order (ring_n (order + 1) + w) = e_index order (e_index (order + 1) (ring_n (order + 1) + w))"
    by (rule e_index_eqI) (simp add: e_index_def bit_and_mask)
  then have i: "e_index order (ring_n (order + 1) + w) = v" unfolding f(3) using n(4) by (simp add: w_def)
  show "s_cycle (wf_view order (2 * wf_n order + wf_n order + v)) = 0" unfolding eq using f(1) by simp
  show "s_held (wf_view order (2 * wf_n order + wf_n order + v)) = Some v"
    unfolding eq using index_not_empty [OF assms(1) v assms(2) i] i by simp
qed

section \<open>Positions\<close>

lemma wf_slot_eq: "wf_slot order w = unat (spread_map 3 (drop_bit 2 w) (order + 1) (lfring_pow2 (order + 1)))"
  by (simp add: wf_slot_def wf_map_def wf_raw_map_def spread_map_def WFRING_MIN_def wf_n_ring ring_n_pow)

lemma ticket_unat: "unat (drop_bit 2 (w :: u64)) = unat w div 4"
  by (simp add: unat_drop_bit_div)

lemma wf_slot_less: "2 \<le> order \<Longrightarrow> order \<le> 60 \<Longrightarrow> wf_slot order w < 2 ^ (order + 1)"
  unfolding wf_slot_eq by (rule spread_map_less) simp_all

lemma wf_slot_eq_iff:
  "2 \<le> order \<Longrightarrow> order \<le> 60 \<Longrightarrow>
    wf_slot order w = wf_slot order w' \<longleftrightarrow> unat w div 4 mod 2 ^ (order + 1) = unat w' div 4 mod 2 ^ (order + 1)"
  unfolding wf_slot_eq word_unat_eq_iff [symmetric] ticket_unat [symmetric] by (rule spread_map_eq_iff) simp_all

lemma ticket_word: "order \<le> 60 \<Longrightarrow> unat (word_of_nat (4 * p) :: u64) div 4 mod 2 ^ (order + 1) = p mod 2 ^ (order + 1)"
proof -
  assume "order \<le> 60"
  then have d: "(2 :: nat) ^ (order + 1) dvd 2 ^ 62" by (intro le_imp_power_dvd) simp
  have "unat (word_of_nat (4 * p) :: u64) = 4 * p mod 2 ^ 64" by (simp only: unat_of_nat) simp
  also have "\<dots> = 4 * (p mod 2 ^ 62)" using mult_mod_right [of 4 p "2 ^ 62"] by simp
  finally have "unat (word_of_nat (4 * p) :: u64) div 4 = p mod 2 ^ 62" by simp
  then show ?thesis using mod_mod_cancel [OF d] by simp
qed

text \<open>The comparison of cycles in the code is the order of the numbers they stand for.\<close>

lemma wf_pos_cycle:
  assumes "order < 60" and "unat pos < 2 ^ 61"
  shows "small_pos (drop_bit 1 pos)"
    and "e_cycle (order + 1) (wf_cycle order pos) = int (unat pos div 4 div 2 ^ (order + 1))"
proof -
  have o: "order + 1 \<le> 60" using assms by simp
  have u: "unat (drop_bit 1 pos) = unat pos div 2" by (simp add: unat_drop_bit_div)
  show sm: "small_pos (drop_bit 1 pos)" using assms(2) unfolding small_pos_def u by simp
  have "unat pos div 2 div 2 ^ (order + 1 + 1) = unat pos div 4 div 2 ^ (order + 1)"
    by (simp add: div_mult2_eq [symmetric] ac_simps)
  then show "e_cycle (order + 1) (wf_cycle order pos) = int (unat pos div 4 div 2 ^ (order + 1))"
    unfolding wf_cycle_pos pos_fields(1) [OF o sm] u by (metis of_nat_div of_nat_power of_nat_numeral)
qed

lemma wf_cycle_tests:
  assumes "order < 60" and "unat pos < 2 ^ 61"
    and "- 1 \<le> e_cycle (order + 1) e" "2 ^ (order + 1) * e_cycle (order + 1) e \<le> 2 ^ 60"
  shows "cmp_less (wf_cycle order e) (wf_cycle order pos) \<longleftrightarrow> e_cycle (order + 1) e < int (unat pos div 4 div 2 ^ (order + 1))"
    and "wf_cycle order e = wf_cycle order pos \<longleftrightarrow> e_cycle (order + 1) e = int (unat pos div 4 div 2 ^ (order + 1))"
proof -
  have o: "order + 1 \<le> 60" using assms by simp
  note p = wf_pos_cycle [OF assms(1,2)]
  have b: "2 ^ (order + 1 + 1) * e_cycle (order + 1) e \<le> 2 ^ 61" using assms(4) by simp
  show "cmp_less (wf_cycle order e) (wf_cycle order pos) \<longleftrightarrow> e_cycle (order + 1) e < int (unat pos div 4 div 2 ^ (order + 1))"
    unfolding p(2) [symmetric] using full_less_pos [OF o assms(3) b p(1)] unfolding wf_cycle_pos [symmetric] wf_cycle_entry [of order e] .
  show "wf_cycle order e = wf_cycle order pos \<longleftrightarrow> e_cycle (order + 1) e = int (unat pos div 4 div 2 ^ (order + 1))"
    unfolding p(2) [symmetric] using full_eq_pos [OF o, of e "drop_bit 1 pos"] unfolding wf_cycle_pos [symmetric] wf_cycle_entry [of order e] .
qed

end
