(* ===== verification/Wf_Safety.thy ===== *)
theory Wf_Safety
  imports Wf_Slow Wf_Slots Ticket_Ring
begin

text \<open>
  The fast paths of the wait-free ring (wfring_cas2.h) as an implementation of the ticket machine: in a run in
  which no thread takes a slow path, every step of a thread is a step of the machine, on tickets that are the
  positions divided by four.
\<close>

unbundle bit_operations_syntax

section \<open>The abstraction\<close>

fun wf_catch_stage :: "catch_pc \<Rightarrow> u64 stage" where
  "wf_catch_stage (C_cas tail target) = Catch (unat tail div 4) (unat target div 4)"
| "wf_catch_stage C_head = Free"
| "wf_catch_stage (C_tail target) = Bound (unat target div 4)"

fun wf_stage :: "nat \<Rightarrow> wf_pc \<Rightarrow> u64 stage" where
  "wf_stage order (Q_entry x ne k tail) = Put_ticket (unat tail div 4)"
| "wf_stage order (Q_head x ne k tail e) = Put_checked (unat tail div 4) (wf_view order e)"
| "wf_stage order (Q_cas x ne k tail e) = Put_ready (unat tail div 4) (wf_view order e)"
| "wf_stage order (R_entry ne k head) = Take_ticket (unat head div 4)"
| "wf_stage order (R_cas ne k head e e') =
     Take_swap (unat head div 4) (s_shape (wf_view order e)) (e_cycle (order + 1) e') (e_safe (order + 1) e')"
| "wf_stage order (R_lookup l head e) = Take_found (unat head div 4) (Some (e_index order e))"
| "wf_stage order (R_take head e) = Take_found (unat head div 4) (Some (e_index order e))"
| "wf_stage order (R_tail k head) = Bound (Suc (unat head div 4))"
| "wf_stage order (R_catch c) = wf_catch_stage c"
| "wf_stage order _ = Free"

definition wf_slots :: "nat \<Rightarrow> wf_state \<Rightarrow> nat \<Rightarrow> u64 slot" where
  "wf_slots order s p = wf_view order (wf_at order s (word_of_nat (4 * p)))"

definition wf_abs :: "nat \<Rightarrow> wf_state \<Rightarrow> u64 tring" where
  "wf_abs order s = \<lparr> t_slots = wf_slots order s, t_head = unat (wf_entry (wr_head (wring s))) div 4,
     t_tail = unat (wf_entry (wr_tail (wring s))) div 4, t_put = w_put s, t_taken = w_taken s, t_given = w_given s,
     t_stages = (\<lambda>i. wf_stage order (wpcs s i)) \<rparr>"

text \<open>What holds of the words a thread carries; a run of fast paths never gets past the entry of a slow one.\<close>

definition wf_input :: "nat \<Rightarrow> u64 \<Rightarrow> bool" where
  "wf_input order x \<longleftrightarrow> unat (x XOR (wf_n order - 1)) < 2 ^ order"

fun resume_ok :: "nat \<Rightarrow> wf_resume \<Rightarrow> bool" where
  "resume_ok order (To_enqueue x ne) \<longleftrightarrow> wf_input order x"
| "resume_ok order (To_dequeue ne) \<longleftrightarrow> True"

fun pc_wf_ok :: "nat \<Rightarrow> wf_pc \<Rightarrow> bool" where
  "pc_wf_ok order (Q_ticket x ne k) \<longleftrightarrow> wf_input order x"
| "pc_wf_ok order (Q_entry x ne k tail) \<longleftrightarrow> wf_input order x"
| "pc_wf_ok order (Q_head x ne k tail e) \<longleftrightarrow> wf_input order x"
| "pc_wf_ok order (Q_cas x ne k tail e) \<longleftrightarrow> wf_input order x"
| "pc_wf_ok order (R_cas ne k head e e') \<longleftrightarrow> s_held (wf_view order e') = s_held (wf_view order e)"
| "pc_wf_ok order (H_eidx u r) \<longleftrightarrow> resume_ok order r"
| "pc_wf_ok order (H_next u r) \<longleftrightarrow> resume_ok order r"
| "pc_wf_ok order (H_last u r) \<longleftrightarrow> resume_ok order r"
| "pc_wf_ok order (H_enq_eidx u r seq) \<longleftrightarrow> False"
| "pc_wf_ok order (H_enq_tail u r seq eidx) \<longleftrightarrow> False"
| "pc_wf_ok order (H_enq_seq1 u r seq eidx tail) \<longleftrightarrow> False"
| "pc_wf_ok order (H_deq_eidx u r seq) \<longleftrightarrow> False"
| "pc_wf_ok order (H_deq_head u r seq eidx) \<longleftrightarrow> False"
| "pc_wf_ok order (H_deq_seq1 u r seq eidx head) \<longleftrightarrow> False"
| "pc_wf_ok order (S_tail x ne tail seq) \<longleftrightarrow> False"
| "pc_wf_ok order (S_init x ne tail seq) \<longleftrightarrow> False"
| "pc_wf_ok order (S_eidx x ne tail seq) \<longleftrightarrow> False"
| "pc_wf_ok order (S_seq2 x ne tail seq) \<longleftrightarrow> False"
| "pc_wf_ok order (S_run j back a) \<longleftrightarrow> False"
| "pc_wf_ok order (S_end seq) \<longleftrightarrow> False"
| "pc_wf_ok order S_term \<longleftrightarrow> False"
| "pc_wf_ok order (T_head ne head seq) \<longleftrightarrow> False"
| "pc_wf_ok order (T_init ne head seq) \<longleftrightarrow> False"
| "pc_wf_ok order (T_eidx ne head seq) \<longleftrightarrow> False"
| "pc_wf_ok order (T_seq2 ne head seq) \<longleftrightarrow> False"
| "pc_wf_ok order (T_run j back b) \<longleftrightarrow> False"
| "pc_wf_ok order (T_end seq ne) \<longleftrightarrow> False"
| "pc_wf_ok order (T_term ne) \<longleftrightarrow> False"
| "pc_wf_ok order (T_result ne) \<longleftrightarrow> False"
| "pc_wf_ok order (T_entry ne head) \<longleftrightarrow> False"
| "pc_wf_ok order _ \<longleftrightarrow> True"

definition wf_words_ok :: "nat \<Rightarrow> nat \<Rightarrow> wf_state \<Rightarrow> bool" where
  "wf_words_ok order B s \<longleftrightarrow> length (wr_array (wring s)) = 2 ^ (order + 1) \<and>
     unat (wf_entry (wr_head (wring s))) \<le> 4 * B \<and> unat (wf_entry (wr_tail (wring s))) \<le> 4 * B \<and>
     (\<forall>t. pc_wf_ok order (wpcs s t))"

definition wf_inv :: "nat \<Rightarrow> nat \<Rightarrow> wf_state \<Rightarrow> bool" where
  "wf_inv order B s \<longleftrightarrow> wf_words_ok order B s \<and> ring_ok order (wf_abs order s) \<and> (\<forall>t. wf_fast_pc (wpcs s t))"

section \<open>How the abstraction follows the parts of a step\<close>

lemma wf_slots_at: "2 \<le> order \<Longrightarrow> order \<le> 60 \<Longrightarrow> wf_slots order s (unat w div 4) = wf_view order (wf_at order s w)"
  using wf_slot_eq_iff [of order "word_of_nat (4 * (unat w div 4))" w] ticket_word [of order "unat w div 4"]
  unfolding wf_slots_def wf_at_def wf_pair_at_def by simp

lemma wf_slots_set:
  assumes "2 \<le> order" "order \<le> 60" and "length (wr_array (wring s)) = 2 ^ (order + 1)"
  shows "wf_slots order (set_slot order w x s) = upd_slot order (wf_slots order s) (unat w div 4) (wf_view order (wf_entry x))"
proof
  fix p
  show "wf_slots order (set_slot order w x s) p = upd_slot order (wf_slots order s) (unat w div 4) (wf_view order (wf_entry x)) p"
    using wf_slot_eq_iff [OF assms(1,2), of w "word_of_nat (4 * p)"] wf_slot_less [OF assms(1,2)] assms(3)
    unfolding upd_at wf_slots_def wf_at_def wf_pair_at_def set_slot_def ticket_word [OF assms(2)]
    by (auto simp: nth_list_update)
qed

lemma wf_slots_cong: "wr_array (wring s') = wr_array (wring s) \<Longrightarrow> wf_slots order s' = wf_slots order s"
  by (simp add: wf_slots_def [abs_def] wf_at_def wf_pair_at_def)

lemma wabs_sel [simp]:
  "t_slots (wf_abs order s) = wf_slots order s" "t_head (wf_abs order s) = unat (wf_entry (wr_head (wring s))) div 4"
  "t_tail (wf_abs order s) = unat (wf_entry (wr_tail (wring s))) div 4" "t_put (wf_abs order s) = w_put s"
  "t_taken (wf_abs order s) = w_taken s" "t_given (wf_abs order s) = w_given s"
  "t_stages (wf_abs order s) i = wf_stage order (wpcs s i)"
  by (simp_all add: wf_abs_def)

lemma wabs_goto: "wf_abs order (wgoto t pc s) = enter t (wf_stage order pc) (wf_abs order s)"
  by (simp add: wf_abs_def enter_def wgoto_def wf_slots_cong [of "s\<lparr>wpcs := x\<rparr>" s for x] fun_eq_iff)

lemma wabs_threshold: "wf_abs order (wset_threshold v s) = wf_abs order s"
  by (simp add: wf_abs_def wset_threshold_def wf_slots_cong [of "s\<lparr>wring := wring s\<lparr>wr_threshold := v\<rparr>\<rparr>" s])

lemma wabs_local: "wf_abs order (wset_local t l s) = wf_abs order s"
  by (simp add: wf_abs_def wset_local_def wf_slots_cong [of "s\<lparr>wlocals := x\<rparr>" s for x])

lemma wabs_head: "wf_abs order (wset_head v s) = (wf_abs order s)\<lparr> t_head := unat (wf_entry v) div 4 \<rparr>"
  by (simp add: wf_abs_def wset_head_def wf_slots_cong [of "s\<lparr>wring := wring s\<lparr>wr_head := v\<rparr>\<rparr>" s])

lemma wabs_tail: "wf_abs order (wset_tail v s) = (wf_abs order s)\<lparr> t_tail := unat (wf_entry v) div 4 \<rparr>"
  by (simp add: wf_abs_def wset_tail_def wf_slots_cong [of "s\<lparr>wring := wring s\<lparr>wr_tail := v\<rparr>\<rparr>" s])

lemma wabs_given: "wf_abs order (s\<lparr> w_given := g \<rparr>) = (wf_abs order s)\<lparr> t_given := g \<rparr>"
  by (simp add: wf_abs_def wf_slots_cong [of "s\<lparr>w_given := g\<rparr>" s])

lemma wabs_set:
  assumes "2 \<le> order" "order \<le> 60" and "length (wr_array (wring s)) = 2 ^ (order + 1)"
  shows "wf_abs order (set_entry order w e s) =
      (wf_abs order s)\<lparr> t_slots := upd_slot order (wf_slots order s) (unat w div 4) (wf_view order e) \<rparr>"
    and "wf_abs order ((set_entry order w e s)\<lparr> w_put := l \<rparr>) =
      (wf_abs order s)\<lparr> t_slots := upd_slot order (wf_slots order s) (unat w div 4) (wf_view order e), t_put := l \<rparr>"
    and "wf_abs order ((set_entry order w e s)\<lparr> w_taken := l \<rparr>) =
      (wf_abs order s)\<lparr> t_slots := upd_slot order (wf_slots order s) (unat w div 4) (wf_view order e), t_taken := l \<rparr>"
  using wf_slots_set [OF assms, of w "with_entry (wf_pair_at order s w) e"]
  by (simp_all add: wf_abs_def set_entry_def set_slot_def wf_slots_cong [of "s'\<lparr>w_put := l\<rparr>" s' for s'] wf_slots_cong [of "s'\<lparr>w_taken := l\<rparr>" s' for s'])

lemmas wabs_simps = wabs_goto wabs_threshold wabs_local wabs_head wabs_tail wabs_given

lemma resume_stage [simp]: "wf_stage order (resume_pc r) = Free"
  by (cases r) simp_all

lemma wabs_count: "wf_abs order (wf_count t r s) = enter t Free (wf_abs order s)"
  by (simp add: wf_count_def Let_def wabs_goto wabs_local)

lemma wabs_counter: "wf_abs order (cas_counter l old new s) = wf_abs order s"
proof (cases "(s, l)" rule: wf_counter.cases)
  case (1 s' u)
  then show ?thesis by (simp add: cas_counter_def wabs_local)
next
  case (2 s' u)
  then show ?thesis by (simp add: cas_counter_def wabs_local)
qed

lemma wf_deq_ticket_stage: "wf_deq_ticket pc = take_ticket (wf_stage order pc)"
proof (cases pc)
  case (R_catch c)
  then show ?thesis by (cases c) simp_all
qed simp_all

lemma wabs_keep_or_give_up:
  "wf_abs order (wkeep_or_give_up t head pc s) = leave_or_keep t (unat head div 4) (wf_stage order pc) (wf_abs order s)"
  by (simp add: wkeep_or_give_up_def leave_or_keep_def wabs_goto wabs_given wf_deq_ticket_stage [of _ order])

section \<open>Looking at an entry\<close>

lemma wf_cycles:
  assumes ok: "ring_ok order r" and b: "t_head r \<le> 2 ^ 60" "t_tail r \<le> 2 ^ 60" and o: "order < 60"
    and w: "t_slots r (unat pos div 4) = wf_view order e" and pos: "unat pos < 2 ^ 61"
  shows "cmp_less (wf_cycle order e) (wf_cycle order pos) \<longleftrightarrow>
      s_cycle (t_slots r (unat pos div 4)) < int (unat pos div 4 div 2 ^ (order + 1))"
    and "wf_cycle order e = wf_cycle order pos \<longleftrightarrow>
      s_cycle (t_slots r (unat pos div 4)) = int (unat pos div 4 div 2 ^ (order + 1))"
proof -
  note c = cycle_bound [OF ok [unfolded ring_ok_def] b, of "unat pos div 4", unfolded w wf_view_sel(1)]
  have c2: "2 ^ (order + 1) * e_cycle (order + 1) e \<le> 2 ^ 60" using c(2) by simp
  note t = wf_cycle_tests [OF o pos c(1) c2]
  show "cmp_less (wf_cycle order e) (wf_cycle order pos) \<longleftrightarrow>
      s_cycle (t_slots r (unat pos div 4)) < int (unat pos div 4 div 2 ^ (order + 1))"
    unfolding w wf_view_sel(1) by (rule t(1))
  show "wf_cycle order e = wf_cycle order pos \<longleftrightarrow>
      s_cycle (t_slots r (unat pos div 4)) = int (unat pos div 4 div 2 ^ (order + 1))"
    unfolding w wf_view_sel(1) by (rule t(2))
qed

lemma wf_drawn: "unat (pos :: u64) div 4 < t \<Longrightarrow> t \<le> 2 ^ 59 \<Longrightarrow> unat pos < 2 ^ 61"
proof -
  assume "unat pos div 4 < t" "t \<le> 2 ^ 59"
  then have "unat pos div 4 < 2 ^ 59" by simp
  then show ?thesis using div_less_iff_less_mult [of 4 "unat pos" "2 ^ 59"] by simp
qed

lemma enq_again_stage [simp]: "wf_stage order (wf_enq_again x ne k tail) = Free"
  by (simp add: wf_enq_again_def)

lemma wf_enq_check_step:
  assumes ok: "ring_ok order r" and b: "t_head r \<le> 2 ^ 59" "t_tail r \<le> 2 ^ 59" and o: "order < 60"
    and t: "put_ticket (t_stages r i) = Some (unat tail div 4)" and w: "t_slots r (unat tail div 4) = wf_view order e"
  shows "ring_step order r (enter i (wf_stage order (wf_enq_check order x ne k tail e)) r)"
proof -
  have b60: "t_head r \<le> 2 ^ 60" "t_tail r \<le> 2 ^ 60" using b by simp_all
  note c = wf_cycles(1) [OF ok b60 o w wf_drawn [OF ticket_drawn(1) [OF ok t] b(2)]]
  note tests = wf_tests [OF o, of e]
  show ?thesis
  proof (cases "cmp_less (wf_cycle order e) (wf_cycle order tail) \<and> wf_empty order e")
    case True
    then have "wf_stage order (wf_enq_check order x ne k tail e) =
        (if s_safe (t_slots r (unat tail div 4)) then Put_ready (unat tail div 4) (t_slots r (unat tail div 4))
         else Put_checked (unat tail div 4) (t_slots r (unat tail div 4)))"
      using tests unfolding wf_enq_check_def Let_def w by simp
    then show ?thesis using True c by (intro ring_step.look [OF t]) (simp_all add: w)
  next
    case False
    then have "wf_enq_check order x ne k tail e = wf_enq_again x ne k tail"
      using tests unfolding wf_enq_check_def Let_def by auto
    then show ?thesis using ring_step.relax [of r i] put_not_take [OF t] by simp
  qed
qed

lemma wf_missed_stage: "missed (unat head div 4) (wf_stage order (wf_missed ne k head))"
  by (simp add: wf_missed_def wf_deq_again_def missed_def)

lemma wf_deq_check_step:
  assumes ok: "ring_ok order r" and b: "t_head r \<le> 2 ^ 59" "t_tail r \<le> 2 ^ 59" and o: "order < 60"
    and t: "take_ticket (t_stages r i) = Some (unat head div 4)" and w: "t_slots r (unat head div 4) = wf_view order e"
  shows "ring_step order r (leave_or_keep i (unat head div 4) (wf_stage order (wf_deq_check order i ne k head e)) r)"
proof -
  define new where "new = wf_deq_check order i ne k head e"
  have b60: "t_head r \<le> 2 ^ 60" "t_tail r \<le> 2 ^ 60" using b by simp_all
  have pos: "unat head < 2 ^ 61" by (rule wf_drawn [OF ticket_drawn(2) [OF ok t] b(1)])
  note c = wf_cycles [OF ok b60 o w pos]
  note tests = wf_tests [OF o, of e]
  have miss: "ring_step order r (leave_or_keep i (unat head div 4) (wf_stage order new) r)"
    if "new = wf_missed ne k head" "s_cycle (t_slots r (unat head div 4)) \<noteq> int (unat head div 4 div 2 ^ (order + 1))"
      "int (unat head div 4 div 2 ^ (order + 1)) \<le> s_cycle (t_slots r (unat head div 4)) \<or> \<not> e_safe (order + 1) e \<and> \<not> wf_empty order e"
    unfolding leave_or_keep_def using ring_step.miss [OF t that(2) _ wf_missed_stage] that(1,3) missed_tickets [OF wf_missed_stage]
    by (simp add: w)
  have aim: "ring_step order r (leave_or_keep i (unat head div 4) (wf_stage order new) r)"
    if "new = R_cas ne k head e e'"
      "swap_ok order (unat head div 4) (s_shape (wf_view order e)) (e_cycle (order + 1) e') (e_safe (order + 1) e')" for e'
    unfolding leave_or_keep_def using ring_step.aim [OF t, of order "e_cycle (order + 1) e'" "e_safe (order + 1) e'"] that by (simp add: w)
  consider (found) "wf_cycle order e = wf_cycle order head"
    | (skip) "wf_cycle order e \<noteq> wf_cycle order head"
        "\<not> cmp_less (wf_cycle order e) (wf_cycle order head) \<or> \<not> wf_empty order e \<and> \<not> e_safe (order + 1) e"
    | (full) "wf_cycle order e \<noteq> wf_cycle order head" "cmp_less (wf_cycle order e) (wf_cycle order head)"
        "\<not> wf_empty order e" "e_safe (order + 1) e"
    | (unused) "wf_cycle order e \<noteq> wf_cycle order head" "cmp_less (wf_cycle order e) (wf_cycle order head)" "wf_empty order e"
    by blast
  then have "ring_step order r (leave_or_keep i (unat head div 4) (wf_stage order new) r)"
  proof cases
    case found
    then have cyc: "s_cycle (t_slots r (unat head div 4)) = int (unat head div 4 div 2 ^ (order + 1))" using c(2) by blast
    obtain v where "s_held (t_slots r (unat head div 4)) = Some v" using found_value [OF ok [unfolded ring_ok_def] t cyc] by blast
    then have held: "s_held (t_slots r (unat head div 4)) = Some (e_index order e)" by (simp add: w)
    have "wf_stage order new = Take_found (unat head div 4) (Some (e_index order e))"
      using found unfolding new_def wf_deq_check_def Let_def by simp
    then show ?thesis using ring_step.found [OF t cyc, of "Some (e_index order e)"] held unfolding leave_or_keep_def by simp
  next
    case skip
    then have "new = wf_missed ne k head" using tests unfolding new_def wf_deq_check_def Let_def by auto
    then show ?thesis using miss skip c by auto
  next
    case full
    then have n: "new = R_cas ne k head e (e AND NOT (2 * wf_n order))"
      using tests unfolding new_def wf_deq_check_def Let_def by auto
    have "s_shape (wf_view order e) = (e_cycle (order + 1) e, True, False)" using full by (simp add: s_shape_def)
    moreover have "e_cycle (order + 1) (e AND NOT (2 * wf_n order)) = e_cycle (order + 1) e" "\<not> e_safe (order + 1) (e AND NOT (2 * wf_n order))"
      using arg_cong [OF spoiled_view [OF o, of e], of s_cycle] arg_cong [OF spoiled_view [OF o, of e], of s_safe] by simp_all
    ultimately show ?thesis using full c(1) w by (intro aim [OF n]) simp
  next
    case unused
    define e' where "e' = (wf_cycle order head XOR (NOT e AND 2 * wf_n order) XOR 1)"
    have n: "new = R_cas ne k head e e'" using unused tests unfolding new_def wf_deq_check_def Let_def e'_def by auto
    have "s_shape (wf_view order e) = (e_cycle (order + 1) e, e_safe (order + 1) e, True)" using unused by (simp add: s_shape_def)
    moreover have "e_cycle (order + 1) e' = int (unat head div 4 div 2 ^ (order + 1))" "e_safe (order + 1) e' = e_safe (order + 1) e"
      using arg_cong [OF advanced_view [OF o, of head e], of s_cycle] arg_cong [OF advanced_view [OF o, of head e], of s_safe]
        wf_pos_cycle(2) [OF o pos]
      by (simp_all add: e'_def)
    ultimately show ?thesis using unused c(1) w by (intro aim [OF n]) simp
  qed
  then show ?thesis unfolding new_def .
qed

section \<open>Every step is a step of the machine\<close>

lemma wf_invD:
  assumes "wf_inv order B s"
  shows "length (wr_array (wring s)) = 2 ^ (order + 1)" "unat (wf_entry (wr_head (wring s))) \<le> 4 * B"
    "unat (wf_entry (wr_tail (wring s))) \<le> 4 * B"
    and "pc_wf_ok order (wpcs s t)" and "ring_ok order (wf_abs order s)" and "wf_fast_pc (wpcs s t)"
    and "stage_ok order (wf_slots order s) (unat (wf_entry (wr_head (wring s))) div 4) (set (w_put s)) (w_given s) (wf_stage order (wpcs s t))"
proof -
  show "ring_ok order (wf_abs order s)" using assms unfolding wf_inv_def by blast
  from all_okD(3) [OF this [unfolded ring_ok_def]]
  show "stage_ok order (wf_slots order s) (unat (wf_entry (wr_head (wring s))) div 4) (set (w_put s)) (w_given s) (wf_stage order (wpcs s t))"
    by simp
qed (use assms in \<open>unfold wf_inv_def wf_words_ok_def, blast+\<close>)

lemma wf_inv_bounds:
  assumes "wf_inv order B s" "B \<le> 2 ^ 58"
  shows "unat (wf_entry (wr_head (wring s))) div 4 \<le> 2 ^ 58" "unat (wf_entry (wr_tail (wring s))) div 4 \<le> 2 ^ 58"
    "unat (wf_entry (wr_head (wring s))) \<le> 2 ^ 60" "unat (wf_entry (wr_tail (wring s))) \<le> 2 ^ 60"
  using wf_invD(2,3) [OF assms(1)] assms(2) by simp_all

lemma unat_add4: "unat (w :: u64) \<le> 2 ^ 60 \<Longrightarrow> unat (w + 4) = unat w + 4"
  using unat_plus_no_wrap [of w 4] by simp

lemma add4_ticket: "unat (w :: u64) \<le> 2 ^ 60 \<Longrightarrow> unat (w + 4) div 4 = Suc (unat w div 4)"
  by (simp add: unat_add4)

lemma wf_enq_step:
  assumes inv: "wf_inv order B s" and B: "B \<le> 2 ^ 58" and o: "2 \<le> order" "order < 60"
    and t: "put_ticket (wf_stage order (wpcs s t)) = Some (unat tail div 4)"
  shows "ring_step order (wf_abs order s) (wf_abs order (wgoto t (wf_enq_check order x ne k tail (wf_at order s tail)) s))"
  unfolding wabs_goto
  by (rule wf_enq_check_step [OF wf_invD(5) [OF inv] _ _ o(2)])
    (use wf_inv_bounds [OF inv B] t wf_slots_at [of order s tail] o in simp_all)

lemma wf_enq_cas_step:
  assumes inv: "wf_inv order B s" and B: "B \<le> 2 ^ 58" and o: "2 \<le> order" "order < 60"
    and pc: "wpcs s t = Q_cas x ne k tail entry"
  shows "ring_step order (wf_abs order s) (wf_abs order (wf_enq_cas order t spurious x ne k tail entry s))"
proof (cases "wf_at order s tail = entry \<and> \<not> spurious")
  case True
  note I = wf_invD [OF inv]
  have o60: "order \<le> 60" using o by simp
  have x: "unat (x XOR (wf_n order - 1)) < 2 ^ order" using I(4) [of t] pc by (simp add: wf_input_def)
  have "unat tail div 4 < t_tail (wf_abs order s)" using ticket_drawn(1) [OF I(5), of t "unat tail div 4"] pc by simp
  then have "unat tail < 2 ^ 61" by (rule wf_drawn) (use wf_inv_bounds [OF inv B] in simp)
  note cyc = wf_pos_cycle(2) [OF o(2) this]
  have view: "wf_view order (wf_cycle order tail XOR x) =
      \<lparr> s_cycle = int (unat tail div 4 div 2 ^ (order + 1)), s_safe = True, s_held = Some (x XOR (wf_n order - 1)) \<rparr>"
    using placed_view [OF o(2) _ x, of tail] o(1) cyc by simp
  have st: "t_stages (wf_abs order s) t = Put_ready (unat tail div 4) (t_slots (wf_abs order s) (unat tail div 4))"
    using pc True wf_slots_at [OF o(1) o60, of s tail] by simp
  have "wf_abs order (wf_enq_cas order t spurious x ne k tail entry s) =
      enter t Free ((wf_abs order s)\<lparr> t_slots := upd_slot order (wf_slots order s) (unat tail div 4)
        (wf_view order (wf_cycle order tail XOR x)), t_put := w_put s @ [(unat tail div 4, x XOR (wf_n order - 1))] \<rparr>)"
    using True by (simp add: wf_enq_cas_def wabs_goto wabs_set [OF o(1) o60 I(1)])
  then show ?thesis using ring_step.store [OF st, of order "x XOR (wf_n order - 1)"] by (simp add: view)
next
  case False
  have "wf_enq_cas order t spurious x ne k tail entry s = wgoto t (wf_enq_check order x ne k tail (wf_at order s tail)) s"
    unfolding wf_enq_cas_def if_not_P [OF False] ..
  then show ?thesis using wf_enq_step [OF inv B o, of t tail] pc by simp
qed

lemma wf_deq_step:
  assumes inv: "wf_inv order B s" and B: "B \<le> 2 ^ 58" and o: "2 \<le> order" "order < 60"
    and t: "wf_deq_ticket (wpcs s t) = Some (unat head div 4)"
  shows "ring_step order (wf_abs order s)
    (wf_abs order (wkeep_or_give_up t head (wf_deq_check order t ne k head (wf_at order s head)) s))"
  unfolding wabs_keep_or_give_up
  by (rule wf_deq_check_step [OF wf_invD(5) [OF inv] _ _ o(2)])
    (use wf_inv_bounds [OF inv B] t wf_slots_at [of order s head] o in \<open>simp_all add: wf_deq_ticket_stage [of _ order]\<close>)

lemma wf_deq_cas_step:
  assumes inv: "wf_inv order B s" and B: "B \<le> 2 ^ 58" and o: "2 \<le> order" "order < 60"
    and pc: "wpcs s t = R_cas ne k head entry entry'"
  shows "ring_step order (wf_abs order s) (wf_abs order (wf_deq_cas order t spurious ne k head entry entry' s))"
proof (cases "wf_at order s head = entry \<and> \<not> spurious")
  case True
  note I = wf_invD [OF inv]
  have o60: "order \<le> 60" using o by simp
  note at = wf_slots_at [OF o(1) o60, of s head]
  have st: "t_stages (wf_abs order s) t = Take_swap (unat head div 4) (s_shape (t_slots (wf_abs order s) (unat head div 4)))
      (e_cycle (order + 1) entry') (e_safe (order + 1) entry')"
    using pc True at by simp
  have "s_held (wf_view order entry') = s_held (wf_view order entry)" using I(4) [of t] pc by simp
  then have view: "wf_view order entry' =
      (wf_view order entry)\<lparr> s_cycle := e_cycle (order + 1) entry', s_safe := e_safe (order + 1) entry' \<rparr>"
    by (simp add: wf_view_def)
  have "wf_abs order (wf_deq_cas order t spurious ne k head entry entry' s) =
      enter t (wf_stage order (wf_missed ne k head)) ((wf_abs order s)\<lparr>
        t_slots := upd_slot order (wf_slots order s) (unat head div 4) (wf_view order entry'),
        t_given := insert (unat head div 4) (w_given s) \<rparr>)"
    using True missed_tickets [OF wf_missed_stage [where head = head and order = order and ne = ne and k = k]]
    by (simp add: wf_deq_cas_def wabs_keep_or_give_up leave_or_keep_def wabs_set [OF o(1) o60 I(1)])
  then show ?thesis using ring_step.swap [OF st wf_missed_stage [where order = order and ne = ne and k = k], of order] True at
    by (simp add: view)
next
  case False
  have "wf_deq_cas order t spurious ne k head entry entry' s =
      wkeep_or_give_up t head (wf_deq_check order t ne k head (wf_at order s head)) s"
    unfolding wf_deq_cas_def if_not_P [OF False] ..
  then show ?thesis using wf_deq_step [OF inv B o] pc by simp
qed

lemma wf_deq_take_step:
  assumes inv: "wf_inv order B s" and o: "2 \<le> order" "order < 60" and pc: "wpcs s t = R_take head entry"
  shows "ring_step order (wf_abs order s) (wf_abs order (wf_deq_take order t head entry s))"
proof -
  note I = wf_invD [OF inv]
  have o60: "order \<le> 60" using o by simp
  define v where "v = e_index order entry"
  have st: "t_stages (wf_abs order s) t = Take_found (unat head div 4) (Some v)" using pc by (simp add: v_def)
  have "(unat head div 4, v) \<in> set (w_put s)" using I(7) [of t] pc by (simp add: v_def)
  moreover have "unat head div 4 \<notin> fst ` set (w_taken s)"
    using tickets_okD(8) [OF all_okD(2) [OF I(5) [unfolded ring_ok_def]], of t "unat head div 4"] st by simp
  ultimately have "(unat head div 4, v) \<in> set (w_put s) - set (w_taken s)" by force
  then have held: "s_held (t_slots (wf_abs order s) (unat head div 4)) = Some v"
    using slots_okD(5) [OF all_okD(1) [OF I(5) [unfolded ring_ok_def]], of "unat head div 4" v] by simp
  have v': "entry AND (wf_n order - 1) = v" by (simp add: v_def e_index_def wf_n_ring ring_n_bits(2))
  have "wf_abs order (wf_deq_take order t head entry s) =
      enter t Free ((wf_abs order s)\<lparr> t_slots := upd_slot order (wf_slots order s) (unat head div 4)
        ((wf_slots order s (unat head div 4))\<lparr> s_held := None \<rparr>), t_taken := w_taken s @ [(unat head div 4, v)] \<rparr>)"
    by (simp add: wf_deq_take_def wabs_goto v' wabs_set [OF o(1) o60 I(1)] consumed_view [OF o(2)] wf_slots_at [OF o(1) o60])
  then show ?thesis using ring_step.fetch [OF st held, of order] by simp
qed

lemma wf_look_step:
  assumes pc: "wpcs s t = R_lookup l head entry"
  shows "wf_abs order (wf_look t l head entry s) = wf_abs order s"
proof -
  define r where "r = wf_lookup t head l s"
  have "wf_abs order (snd r) = wf_abs order s" unfolding r_def by (cases l) (simp_all add: Let_def wabs_counter)
  moreover have "enter t (wf_stage order (R_take head entry)) (wf_abs order s) = wf_abs order s"
    using pc by (simp add: enter_def wf_abs_def fun_eq_iff)
  ultimately show ?thesis
    unfolding wf_look_def r_def [symmetric] by (cases r) (auto simp: wabs_goto split: option.split)
qed

lemma wf_thread_step:
  assumes inv: "wf_inv order B s" and B: "B \<le> 2 ^ 58" and o: "2 \<le> order" "order < 60"
  shows "ring_step order (wf_abs order s) (wf_abs order (wf_thread order t spurious s))"
proof -
  note I = wf_invD [OF inv] and b = wf_inv_bounds [OF inv B]
  have free: "ring_step order (wf_abs order s) (enter t Free (wf_abs order s))"
    if "take_ticket (wf_stage order (wpcs s t)) = None"
    using ring_step.relax [of "wf_abs order s" t order] that by simp
  show ?thesis
  proof (cases "wpcs s t")
    case Wf_idle
    then show ?thesis using ring_step.stay by (simp add: wf_thread_def)
  next
    case (Q_ticket x ne k)
    then show ?thesis using ring_step.draw_put [of "wf_abs order s" t order] add4_ticket [OF b(4)]
      by (simp add: wf_thread_def wf_take_tail_def Let_def wabs_simps)
  next
    case (Q_entry x ne k tail)
    then show ?thesis using wf_enq_step [OF inv B o, of t tail] by (simp add: wf_thread_def wf_enq_entry_def)
  next
    case (Q_head x ne k tail e)
    have "unat tail div 4 < t_tail (wf_abs order s)" using ticket_drawn(1) [OF I(5), of t "unat tail div 4"] Q_head by simp
    then have "unat tail < 2 ^ 61" by (rule wf_drawn) (use b in simp)
    then have c: "cmp_le (wf_entry (wr_head (wring s))) tail \<longleftrightarrow> unat (wf_entry (wr_head (wring s))) \<le> unat tail"
      using b(3) by (intro cmp_le_pos) simp_all
    have st: "t_stages (wf_abs order s) t = Put_checked (unat tail div 4) (wf_view order e)" using Q_head by simp
    show ?thesis using ring_step.look_head [OF st, of order] free Q_head c div_le_mono
      by (simp add: wf_thread_def wf_enq_head_def wabs_goto)
  next
    case (Q_cas x ne k tail e)
    then show ?thesis using wf_enq_cas_step [OF inv B o Q_cas] by (simp add: wf_thread_def)
  next
    case (R_ticket ne k)
    then show ?thesis using ring_step.draw_take [of "wf_abs order s" t order] add4_ticket [OF b(3)]
      by (simp add: wf_thread_def wf_take_head_def Let_def wabs_simps)
  next
    case (R_entry ne k head)
    then show ?thesis using wf_deq_step [OF inv B o, of t head ne k] by (simp add: wf_thread_def wf_deq_entry_def)
  next
    case (R_cas ne k head e e')
    then show ?thesis using wf_deq_cas_step [OF inv B o R_cas] by (simp add: wf_thread_def)
  next
    case (R_lookup l head e)
    then show ?thesis using wf_look_step [OF R_lookup] ring_step.stay by (simp add: wf_thread_def)
  next
    case (R_take head e)
    then show ?thesis using wf_deq_take_step [OF inv o R_take] by (simp add: wf_thread_def)
  next
    case (R_tail k head)
    have h: "unat head div 4 < unat (wf_entry (wr_head (wring s))) div 4" using I(7) [of t] R_tail by simp
    then have h4: "unat head \<le> 2 ^ 60" using b(3) div_le_mono [of "unat (wf_entry (wr_head (wring s)))" "unat head" 4] by linarith
    have c: "cmp_le (wf_entry (wr_tail (wring s))) (head + 4) \<longleftrightarrow> unat (wf_entry (wr_tail (wring s))) \<le> unat (head + 4)"
      by (rule cmp_le_pos) (use b h4 unat_add4 [OF h4] in simp_all)
    have st: "t_stages (wf_abs order s) t = Bound (Suc (unat head div 4))" using R_tail by simp
    show ?thesis
    proof (cases "unat (wf_entry (wr_tail (wring s))) \<le> unat (head + 4)")
      case True
      then have "unat (wf_entry (wr_tail (wring s))) div 4 \<le> Suc (unat head div 4)" unfolding add4_ticket [OF h4, symmetric] by (rule div_le_mono)
      then show ?thesis using ring_step.aim_catch [OF st, of order] True R_tail c add4_ticket [OF h4]
        by (simp add: wf_thread_def wf_deq_tail_def Let_def wabs_goto)
    next
      case False
      then show ?thesis using free R_tail c by (simp add: wf_thread_def wf_deq_tail_def Let_def wabs_goto)
    qed
  next
    case (R_catch c)
    show ?thesis
    proof (cases c)
      case (C_cas tail target)
      have st: "t_stages (wf_abs order s) t = Catch (unat tail div 4) (unat target div 4)" using R_catch C_cas by simp
      show ?thesis using ring_step.catch [of "wf_abs order s" t "unat target div 4" order] free R_catch C_cas st
        by (simp add: wf_thread_def wf_deq_catch_def Let_def wabs_simps)
    next
      case C_head
      then show ?thesis using ring_step.look_bound [of "wf_abs order s" t order] R_catch
        by (simp add: wf_thread_def wf_deq_catch_def wabs_goto)
    next
      case (C_tail target)
      have "unat target div 4 \<le> unat (wf_entry (wr_head (wring s))) div 4" using I(7) [of t] R_catch C_tail by simp
      then have "unat target div 4 < Suc (unat (wf_entry (wr_head (wring s))) div 4)" by simp
      then have tg: "unat target < 2 ^ 61" by (rule wf_drawn) (use b(1) in simp)
      have c: "cmp_ge (wf_entry (wr_tail (wring s))) target \<longleftrightarrow> unat target \<le> unat (wf_entry (wr_tail (wring s)))"
        by (rule cmp_ge_pos) (use b tg in simp_all)
      have st: "t_stages (wf_abs order s) t = Bound (unat target div 4)" using R_catch C_tail by simp
      show ?thesis using ring_step.aim_catch [OF st, of order] free R_catch C_tail c div_le_mono
        by (simp add: wf_thread_def wf_deq_catch_def Let_def wabs_goto)
    qed
  qed (use free I(4) [of t] I(6) [of t] in \<open>simp_all add: wf_thread_def wf_enq_threshold_def wf_enq_reset_def wf_deq_threshold_def
      wf_sub_empty_def wf_sub_def wf_deq_again_def upd_local_def Let_def wabs_simps wabs_count\<close>)
qed

lemma wf_step_refines:
  assumes inv: "wf_inv order B s" and B: "B \<le> 2 ^ 58" and o: "2 \<le> order" "order < 60" and "wf_step order s s'"
  shows "ring_step order (wf_abs order s) (wf_abs order s')"
  using assms(5)
proof cases
  case (enq_call t eidx ne)
  then show ?thesis using ring_step.relax [of "wf_abs order s" t order] by (simp add: wf_enq_call_def wabs_count)
next
  case (deq_call t ne)
  then show ?thesis using ring_step.relax [of "wf_abs order s" t order] by (simp add: wf_deq_call_def wabs_count wabs_goto)
next
  case (thread t spurious)
  then show ?thesis using wf_thread_step [OF inv B o] by simp
qed

section \<open>The words stay in range\<close>

lemma wwords_goto: "wf_words_ok order B s \<Longrightarrow> pc_wf_ok order pc \<Longrightarrow> wf_words_ok order B (wgoto t pc s)"
  by (simp add: wf_words_ok_def wgoto_def)

lemma wwords_mono: "wf_words_ok order B s \<Longrightarrow> B \<le> B' \<Longrightarrow> wf_words_ok order B' s"
  unfolding wf_words_ok_def by auto

lemma wwords_local: "wf_words_ok order B (wset_local t l s) = wf_words_ok order B s"
  by (simp add: wf_words_ok_def wset_local_def)

lemma resume_pc_ok: "resume_ok order r \<Longrightarrow> pc_wf_ok order (resume_pc r)"
  by (cases r) simp_all

lemma wwords_count: "wf_words_ok order B s \<Longrightarrow> resume_ok order r \<Longrightarrow> wf_words_ok order B (wf_count t r s)"
  unfolding wf_count_def Let_def by (rule wwords_goto) (simp_all add: wwords_local resume_pc_ok)

lemma wwords_set: "wf_words_ok order B s \<Longrightarrow> wf_words_ok order B (set_entry order pos e s)"
  by (simp add: wf_words_ok_def set_entry_def set_slot_def)

lemma wwords_counter: "wf_words_ok order B s \<Longrightarrow> wf_words_ok order B (cas_counter l old new s)"
  by (cases "(s, l)" rule: wf_counter.cases) (simp_all add: cas_counter_def wwords_local)

lemma enq_check_ok: "wf_input order x \<Longrightarrow> pc_wf_ok order (wf_enq_check order x ne k tail e)"
  and enq_again_ok: "wf_input order x \<Longrightarrow> pc_wf_ok order (wf_enq_again x ne k tail)"
  and deq_again_ok: "pc_wf_ok order (wf_deq_again ne k head)"
  and deq_missed_ok: "pc_wf_ok order (wf_missed ne k head)"
  by (simp_all add: wf_enq_check_def wf_enq_again_def wf_missed_def wf_deq_again_def Let_def)

lemma deq_check_ok:
  assumes "order < 60"
  shows "pc_wf_ok order (wf_deq_check order t ne k head e)"
  using deq_missed_ok [of order ne k head] arg_cong [OF spoiled_view [OF assms, of e], of s_held]
    arg_cong [OF advanced_view [OF assms, of head e], of s_held] wf_tests(3) [OF assms, of e]
  by (simp add: wf_deq_check_def Let_def wf_view_def)

lemma wf_look_words:
  assumes "wf_words_ok order B s"
  shows "wf_words_ok order B (wf_look t l head e s)"
proof -
  define r where "r = wf_lookup t head l s"
  have "wf_words_ok order B (snd r)" unfolding r_def using assms by (cases l) (simp_all add: Let_def wwords_counter)
  then show ?thesis unfolding wf_look_def r_def [symmetric] by (cases r) (auto intro!: wwords_goto split: option.split)
qed

lemma below_quarter: "n div 4 \<le> B \<Longrightarrow> n \<le> 4 * (B + 1)" for n :: nat
  by presburger

lemma wf_thread_words:
  assumes inv: "wf_inv order B s" and B: "B \<le> 2 ^ 58" and o: "order < 60"
  shows "wf_words_ok order (B + 1) (wf_thread order t spurious s)"
proof -
  note I = wf_invD [OF inv] and b = wf_inv_bounds [OF inv B]
  have w: "wf_words_ok order B s" using inv unfolding wf_inv_def by blast
  have w1: "wf_words_ok order (B + 1) s" using wwords_mono [OF w] by simp
  have ok: "pc_wf_ok order (wpcs s t)" "wf_fast_pc (wpcs s t)" by (rule I(4,6))+
  note goto = wwords_goto [OF w1]
  show ?thesis
  proof (cases "wpcs s t")
    case (Q_cas x ne k tail e)
    then show ?thesis using w1 ok enq_check_ok [of order x _ k tail]
      by (simp add: wf_thread_def wf_enq_cas_def wgoto_def wf_words_ok_def set_entry_def set_slot_def)
  next
    case (R_lookup l head e)
    then show ?thesis using wf_look_words [OF w1] by (simp add: wf_thread_def)
  next
    case (R_take head e)
    then show ?thesis using w1 by (simp add: wf_thread_def wf_deq_take_def wgoto_def wf_words_ok_def set_entry_def set_slot_def)
  next
    case (R_catch c)
    show ?thesis
    proof (cases c)
      case (C_cas tail target)
      have "unat target div 4 \<le> unat (wf_entry (wr_head (wring s))) div 4" using I(7) [of t] R_catch C_cas by simp
      then have "unat target \<le> 4 * (B + 1)" using div_le_mono [OF I(2), of 4] by (intro below_quarter) simp
      then show ?thesis using w1 R_catch C_cas
        by (simp add: wf_thread_def wf_deq_catch_def Let_def wgoto_def wf_words_ok_def wset_tail_def)
    qed (use w1 R_catch in \<open>simp_all add: wf_thread_def wf_deq_catch_def Let_def wgoto_def wf_words_ok_def\<close>)
  qed (use w1 w ok enq_check_ok enq_again_ok deq_check_ok [OF o] deq_missed_ok deq_again_ok unat_add4 [OF b(4)] unat_add4 [OF b(3)] I(2,3) in
      \<open>simp_all add: wf_thread_def wf_take_tail_def wf_enq_entry_def wf_enq_head_def wf_enq_threshold_def wf_enq_reset_def
        wf_deq_threshold_def wf_take_head_def wf_deq_entry_def wf_deq_cas_def wf_deq_tail_def wf_sub_empty_def wf_sub_def
        wgoto_def wf_words_ok_def wkeep_or_give_up_def wset_threshold_def wset_tail_def wset_head_def set_entry_def set_slot_def
        upd_local_def wset_local_def wf_count_def resume_pc_ok Let_def\<close>)
qed

lemma wf_step_inv:
  assumes inv: "wf_inv order B s" and B: "B \<le> 2 ^ 58" and o: "2 \<le> order" "order < 60" and st: "wf_step order s s'"
    and fast: "\<forall>t. wf_fast_pc (wpcs s' t)"
  shows "wf_inv order (B + 1) s'"
proof -
  have "ring_ok order (wf_abs order s')"
    by (rule ring_step_ok [OF wf_step_refines [OF inv B o st] wf_invD(5) [OF inv]])
  moreover have w: "wf_words_ok order B s" using inv unfolding wf_inv_def by blast
  have w1: "wf_words_ok order (B + 1) s" using wwords_mono [OF w] by simp
  from st have "wf_words_ok order (B + 1) s'"
  proof cases
    case (enq_call t eidx ne)
    have "wf_input order (eidx XOR (wf_n order - 1))" using enq_call(3) by (simp add: wf_input_def xor.assoc)
    then show ?thesis unfolding enq_call(1) wf_enq_call_def by (intro wwords_count [OF w1]) simp
  next
    case (deq_call t ne)
    then show ?thesis using wwords_count [OF w1] wwords_goto [OF w1] by (simp add: wf_deq_call_def)
  next
    case (thread t spurious)
    then show ?thesis using wf_thread_words [OF inv B o(2)] by simp
  qed
  ultimately show ?thesis using fast unfolding wf_inv_def by blast
qed

section \<open>Initial rings\<close>

text \<open>The entry of position \<open>r\<close> in an initialised ring.\<close>

definition initial_entry :: "nat \<Rightarrow> nat \<Rightarrow> nat \<Rightarrow> (nat \<Rightarrow> u64) \<Rightarrow> nat \<Rightarrow> u64" where
  "initial_entry order s e val r =
     (if r < s then 4 * wf_n order - 1 else if r < e then 2 * wf_n order + wf_n order + val r else - 1)"

lemma initial_entry_view:
  assumes o: "order < 60" "0 < order" and v: "r < e \<Longrightarrow> unat (val r) < 2 ^ order"
  shows "s_cycle (wf_view order (initial_entry order s e val r)) = (if r < s \<or> r < e then 0 else - 1)"
    and "s_held (wf_view order (initial_entry order s e val r)) = (if s \<le> r \<and> r < e then Some (val r) else None)"
  using initial_wf_view(1-4) [OF o] initial_wf_view(5,6) [OF o, of "val r"] v
  by (auto simp: initial_entry_def simp del: wf_view_sel)

lemma wf_initial_inv:
  assumes o: "2 \<le> order" "order < 58" and se: "s \<le> e" "e \<le> 2 ^ order" and v: "\<And>i. i < e \<Longrightarrow> unat (val i :: u64) < 2 ^ order"
    and r: "unat (wf_entry (wr_head r)) = 4 * s" "unat (wf_entry (wr_tail r)) = 4 * e" "length (wr_array r) = 2 ^ (order + 1)"
    and A: "\<And>i. i < 2 ^ (order + 1) \<Longrightarrow>
      wf_entry (wr_array r ! unat (wf_map (word_of_nat i) order (wf_n order))) = initial_entry order s e val i"
  shows "wf_inv order (2 ^ order) (wf_start r links st s (map (\<lambda>i. (i, val i)) [s..<e]))"
proof -
  let ?st = "wf_start r links st s (map (\<lambda>i. (i, val i)) [s..<e])"
  have o': "order \<le> 60" "order < 60" "0 < order" using o by simp_all
  have big: "(2 :: nat) ^ (order + 1) \<le> 2 ^ 58" using o(2) by (intro power_increasing) simp_all
  have at: "wf_slots order ?st p = wf_view order (initial_entry order s e val p)" if "p < 2 ^ (order + 1)" for p
  proof -
    have "p < 2 ^ 58" using that big by simp
    then have "unat (word_of_nat (4 * p) :: u64) = 4 * p" by (simp only: unat_of_nat) simp
    then have "drop_bit 2 (word_of_nat (4 * p) :: u64) = word_of_nat p"
      by (intro word_unat_eq_iff [THEN iffD2]) (use \<open>p < 2 ^ 58\<close> in \<open>simp only: ticket_unat unat_of_nat, simp\<close>)
    then show ?thesis using A [OF that] unfolding wf_slots_def wf_at_def wf_pair_at_def wf_slot_def by (simp add: wf_start_def)
  qed
  have "slots_ok order (wf_slots order ?st) (set (map (\<lambda>i. (i, val i)) [s..<e])) {} {..<s}"
  proof (rule initial_slots [OF se])
    fix p show "wf_slots order ?st p = wf_slots order ?st (p mod 2 ^ (order + 1))"
      using wf_slot_eq_iff [OF o(1) o'(1), of "word_of_nat (4 * p)" "word_of_nat (4 * (p mod 2 ^ (order + 1)))"]
      unfolding wf_slots_def wf_at_def wf_pair_at_def ticket_word [OF o'(1)] by simp
  next
    fix r :: nat assume "r < 2 ^ (order + 1)"
    then show "s_cycle (wf_slots order ?st r) = (if r < s \<or> r < e then 0 else - 1)"
      "s_held (wf_slots order ?st r) = (if s \<le> r \<and> r < e then Some (val r) else None)"
      using initial_entry_view [where s = s and e = e and val = val and r = r, OF o'(2,3) v] by (simp_all add: at del: wf_view_sel)
  qed
  moreover note initial_tickets [OF se(1), of val]
  ultimately show ?thesis using r se
    unfolding wf_inv_def wf_words_ok_def ring_ok_def all_ok_def by (simp add: wf_start_def wf_abs_def)
qed

lemma wf_map_inj: "2 \<le> order \<Longrightarrow> order \<le> 60 \<Longrightarrow> inj_on (\<lambda>i. unat (wf_map (word_of_nat i) order (wf_n order))) {..<2 ^ (order + 1)}"
proof (rule inj_onI)
  fix i j :: nat assume o: "2 \<le> order" "order \<le> 60" and ij: "i \<in> {..<2 ^ (order + 1)}" "j \<in> {..<2 ^ (order + 1)}"
  have m: "wf_map w order (wf_n order) = spread_map 3 w (order + 1) (lfring_pow2 (order + 1))" for w
    by (simp add: wf_map_def wf_raw_map_def spread_map_def WFRING_MIN_def wf_n_ring ring_n_pow)
  assume "unat (wf_map (word_of_nat i) order (wf_n order)) = unat (wf_map (word_of_nat j) order (wf_n order))"
  then have "spread_map 3 (word_of_nat i) (order + 1) (lfring_pow2 (order + 1)) = spread_map 3 (word_of_nat j) (order + 1) (lfring_pow2 (order + 1))"
    unfolding m word_unat_eq_iff .
  then have "unat (word_of_nat i :: u64) mod 2 ^ (order + 1) = unat (word_of_nat j :: u64) mod 2 ^ (order + 1)"
    using spread_map_eq_iff [of 3 "order + 1" "word_of_nat i" "word_of_nat j"] o by simp
  then show "i = j" using ij unfolding unat_word_mod [OF o(2)] by simp
qed

lemma wf_map_less: "2 \<le> order \<Longrightarrow> order \<le> 60 \<Longrightarrow> unat (wf_map w order (wf_n order)) < 2 ^ (order + 1)"
  using spread_map_less [of 3 "order + 1" w]
  by (simp add: wf_map_def wf_raw_map_def spread_map_def WFRING_MIN_def wf_n_ring ring_n_pow)

lemma wf_pow2_words: "wf_pow2 order = lfring_pow2 order" "wf_pow2 order * 2 = wf_n order" "wf_pow2 (order + 1) = wf_n order"
  by (simp_all add: wf_pow2_def lfring_pow2_def wf_n_def push_bit_eq_mult)

lemma unat_shift2: "n \<le> 2 ^ 58 \<Longrightarrow> unat (push_bit 2 (word_of_nat n) :: u64) = 4 * n"
proof -
  assume n: "n \<le> 2 ^ 58"
  have "push_bit 2 (word_of_nat n :: u64) = word_of_nat (4 * n)" by (simp add: push_bit_eq_mult)
  then show ?thesis using n by (simp only: unat_of_nat) simp
qed

lemma wf_empty_inv:
  assumes o: "2 \<le> order" "order < 58" and mem: "length mem = 2 ^ (order + 1)"
  shows "wf_inv order (2 ^ order) (wf_start (wf_init_empty order mem) links st 0 [])"
proof -
  have n: "unat (wf_n order) = 2 ^ (order + 1)" unfolding wf_n_ring by (rule ring_n_unat) (use o in simp)
  have all: "store_range (\<lambda>i. i) (\<lambda>i. wf_pair (- 1) (- wf_n order - 1)) 0 (2 ^ (order + 1)) mem ! k = wf_pair (- 1) (- wf_n order - 1)"
    if "k < 2 ^ (order + 1)" for k
    using store_range_at [of 0 k "2 ^ (order + 1)" "\<lambda>i. i" mem "\<lambda>i. wf_pair (- 1) (- wf_n order - 1)"] that mem by simp
  have z: "wf_entry 0 = 0" by (simp add: wf_entry_def)
  have "wf_inv order (2 ^ order) (wf_start (wf_init_empty order mem) links st 0 (map (\<lambda>i. (i, 0)) [0..<0]))"
  proof (rule wf_initial_inv [OF o])
    fix i :: nat assume i: "i < 2 ^ (order + 1)"
    show "wf_entry (wr_array (wf_init_empty order mem) ! unat (wf_map (word_of_nat i) order (wf_n order))) =
        initial_entry order 0 0 (\<lambda>i. 0) i"
      unfolding wf_init_empty_def Let_def wf_pow2_words(3) n initial_entry_def using all [OF wf_map_less [of order]] o by simp
  qed (simp_all add: wf_init_empty_def Let_def mem z)
  then show ?thesis by simp
qed

lemma wf_fill_inv:
  assumes o: "2 \<le> order" "order < 58" and mem: "length mem = 2 ^ (order + 1)" and se: "s \<le> e" "e \<le> 2 ^ order"
  shows "wf_inv order (2 ^ order) (wf_start (wf_init_fill order s e mem) links st s (map (\<lambda>i. (i, word_of_nat i)) [s..<e]))"
proof -
  have o60: "order \<le> 60" using o by simp
  have big: "(2 :: nat) ^ order \<le> 2 ^ 58" using o by (intro power_increasing) simp_all
  have n: "unat (wf_n order) = 2 ^ (order + 1)" unfolding wf_n_ring by (rule ring_n_unat [OF o60])
  show ?thesis
  proof (rule wf_initial_inv [OF o se])
    fix i assume "i < e"
    then show "unat (word_of_nat i :: u64) < 2 ^ order" using se(2) big by (simp only: unat_of_nat) simp
  next
    have en: "e \<le> 2 ^ (order + 1)" using se(2) by simp
    fix i :: nat assume i: "i < 2 ^ (order + 1)"
    show "wf_entry (wr_array (wf_init_fill order s e mem) ! unat (wf_map (word_of_nat i) order (wf_n order))) =
        initial_entry order s e word_of_nat i"
      using store_three [OF wf_map_inj [OF o(1) o60] _ se(1) en i, of mem "\<lambda>i. wf_pair (- 1) (- wf_n order - 1)"
          "\<lambda>i. wf_pair (2 * wf_n order + wf_n order + word_of_nat i) (- 1)" "\<lambda>i. wf_pair (4 * wf_n order - 1) (- 1)"]
        wf_map_less [OF o(1) o60] mem
      unfolding wf_init_fill_def Let_def initial_entry_def wf_pow2_words(2) n by simp
  qed (use se big in \<open>simp_all add: wf_init_fill_def Let_def mem unat_shift2 del: push_bit_numeral\<close>)
qed

lemma wf_full_inv:
  assumes o: "3 \<le> order" "order < 58" and mem: "length mem = 2 ^ (order + 1)"
  shows "wf_inv order (2 ^ order) (wf_start (wf_init_full order mem) links st 0
    (map (\<lambda>i. (i, wf_raw_map (word_of_nat i) order (wf_pow2 order))) [0..<2 ^ order]))"
proof -
  have o60: "order \<le> 60" "2 \<le> order" using o by simp_all
  have big: "(2 :: nat) ^ order \<le> 2 ^ 58" using o by (intro power_increasing) simp_all
  have n: "unat (wf_n order) = 2 ^ (order + 1)" unfolding wf_n_ring by (rule ring_n_unat [OF o60(1)])
  have half: "unat (wf_pow2 order) = 2 ^ order" unfolding wf_pow2_words by (rule pow2_unat) (use o in simp)
  show ?thesis
  proof (rule wf_initial_inv [OF o60(2) o(2)])
    fix i show "unat (wf_raw_map (word_of_nat i) order (wf_pow2 order)) < 2 ^ order"
      using spread_map_less [of 3 order "word_of_nat i"] o by (simp add: wf_raw_map_def spread_map_def WFRING_MIN_def wf_pow2_words)
  next
    fix i :: nat assume i: "i < 2 ^ (order + 1)"
    show "wf_entry (wr_array (wf_init_full order mem) ! unat (wf_map (word_of_nat i) order (wf_n order))) =
        initial_entry order 0 (2 ^ order) (\<lambda>i. wf_raw_map (word_of_nat i) order (wf_pow2 order)) i"
      using store_three [OF wf_map_inj [OF o60(2,1)] _ _ _ i, of mem 0 "2 ^ order" "\<lambda>i. wf_pair (- 1) (- wf_n order - 1)"
          "\<lambda>i. wf_pair (2 * wf_n order + wf_n order + wf_raw_map (word_of_nat i) order (wf_pow2 order)) (- 1)" "\<lambda>i. 0"]
        wf_map_less [OF o60(2,1)] mem
      unfolding wf_init_full_def Let_def initial_entry_def half wf_pow2_words(2) n
      by (simp add: store_range_Suc)
  next
    have "wf_pow2 order = word_of_nat (2 ^ order)" by (simp add: wf_pow2_def push_bit_eq_mult)
    then show "unat (wf_entry (wr_tail (wf_init_full order mem))) = 4 * 2 ^ order"
      using unat_shift2 [OF big] by (simp add: wf_init_full_def Let_def del: push_bit_numeral of_nat_power)
  qed (simp_all add: wf_init_full_def Let_def mem wf_entry_def)
qed

lemma wf_fast_run_inv:
  assumes "wf_fast_run order links k s" and o: "3 \<le> order" "order < 57"
  shows "k \<le> 2 ^ 57 \<Longrightarrow> wf_inv order (2 ^ order + k) s"
  using assms(1)
proof induction
  case (start s)
  then show ?case using wf_empty_inv wf_fill_inv wf_full_inv o by cases simp_all
next
  case (step k s s')
  have "(2 :: nat) ^ order \<le> 2 ^ 57" using o(2) by (intro power_increasing) simp_all
  then have "2 ^ order + k \<le> 2 ^ 58" using step.prems by simp
  then show ?case using wf_step_inv [OF step.IH _ _ _ step.hyps(2,3)] step.prems o by (simp add: add.assoc)
qed

section \<open>Properties\<close>

text \<open>
  C14: On its fast paths the wait-free ring loses nothing, duplicates nothing and makes nothing up, whatever
  the interleaving of the threads: in a run in which no thread enters a slow path, an index is taken at most
  once, with the position it was put in with; an index not yet taken still lies in the slot of its position,
  and that position is either still to be handed to a dequeue or held by one that is about to take it. This
  holds for runs of up to 2 ^ 57 steps.
\<close>

theorem wf_no_loss:
  assumes "wf_fast_run order links k s" and "3 \<le> order" "order < 57" and "k \<le> 2 ^ 57"
  shows "distinct (map fst (w_put s)) \<and> distinct (map fst (w_taken s)) \<and> set (w_taken s) \<subseteq> set (w_put s) \<and>
    (\<forall>(p, v) \<in> set (w_put s) - set (w_taken s).
       wf_at order s (word_of_nat (4 * p)) AND (wf_n order - 1) = v \<and>
       (unat (wf_entry (wr_head (wring s))) div 4 \<le> p \<or> (\<exists>t. wf_deq_ticket (wpcs s t) = Some p)))"
proof -
  note n = ring_no_loss [OF wf_invD(5) [OF wf_fast_run_inv [OF assms]], simplified wabs_sel]
  have "wf_at order s (word_of_nat (4 * p)) AND (wf_n order - 1) = v \<and>
       (unat (wf_entry (wr_head (wring s))) div 4 \<le> p \<or> (\<exists>t. wf_deq_ticket (wpcs s t) = Some p))"
    if pv: "(p, v) \<in> set (w_put s) - set (w_taken s)" for p v
    using bspec [OF n [THEN conjunct2, THEN conjunct2, THEN conjunct2] pv]
    unfolding wf_slots_def wf_n_ring ring_n_bits(2) wf_deq_ticket_stage [of _ order] by (auto simp: e_index_def)
  then show ?thesis using n by blast
qed

text \<open>A ring of two threads, whose state memory was zero before.\<close>

definition zero_local :: wf_local where
  "zero_local = \<lparr> ws_next = None, ws_nextCheck = 0, ws_currThread = 0,
     ws_phase2 = \<lparr> ph_seq1 = 0, ph_local = (Tail_side, 0), ph_cnt = 0, ph_seq2 = 0 \<rparr>, ws_seq1 = 0, ws_tail = 0,
     ws_initTail = 0, ws_head = 0, ws_initHead = 0, ws_eidx = 0, ws_seq2 = 0 \<rparr>"

definition wf_demo :: wf_state where
  "wf_demo = wf_enq_call 3 1 7 True (wf_enq_call 3 0 5 False
     (wf_start (wf_init_empty 3 (replicate 16 9)) (\<lambda>t. Suc t mod 2) (\<lambda>_. zero_local) 0 []))"

lemma wf_demo_run: "wf_fast_run 3 (\<lambda>t. Suc t mod 2) 2 wf_demo \<and> (\<forall>t. wf_fast_pc (wpcs wf_demo t))"
proof -
  let ?s = "wf_start (wf_init_empty 3 (replicate 16 9)) (\<lambda>t. Suc t mod 2) (\<lambda>_. zero_local) 0 []"
  let ?s1 = "wf_enq_call 3 0 5 False ?s"
  have fast: "wf_fast_pc (wpcs (wf_enq_call 3 t x ne s) i)" if "ws_nextCheck (wlocals s t) = 16" "\<forall>i. wf_fast_pc (wpcs s i)" for t x ne s i
    using that by (simp add: wf_enq_call_def wf_count_def Let_def)
  have s: "wpcs ?s i = Wf_idle" "ws_nextCheck (wlocals ?s i) = 16" for i
    by (simp_all add: wf_start_def wf_init_state_def WFRING_DELAY_def)
  have "wf_fast_run 3 (\<lambda>t. Suc t mod 2) 0 ?s" by (rule wf_fast_run.start, rule wf_initial.empty) simp
  moreover have "wf_step 3 ?s ?s1" by (rule wf_step.intros) (simp_all add: s)
  moreover have f1: "\<forall>t. wf_fast_pc (wpcs ?s1 t)" by (simp add: fast s)
  ultimately have "wf_fast_run 3 (\<lambda>t. Suc t mod 2) (0 + 1) ?s1" by (rule wf_fast_run.step)
  moreover have s1: "wpcs ?s1 1 = Wf_idle" "ws_nextCheck (wlocals ?s1 1) = 16"
    using s by (simp_all add: wf_enq_call_def wf_count_def Let_def)
  moreover have "wf_step 3 ?s1 wf_demo" unfolding wf_demo_def by (rule wf_step.enq_call [OF s1(1)]) simp
  moreover have f2: "\<forall>t. wf_fast_pc (wpcs wf_demo t)" unfolding wf_demo_def using fast [OF s1(2) f1] by simp
  ultimately have "wf_fast_run 3 (\<lambda>t. Suc t mod 2) (0 + 1 + 1) wf_demo" by (intro wf_fast_run.step [of _ _ "0 + 1" ?s1])
  then show ?thesis using f2 by (simp add: numeral_2_eq_2)
qed

definition wf_filled :: wf_state where
  "wf_filled = wf_run 3 [0, 1, 0, 1, 1, 0] wf_demo"

definition wf_seen :: "wf_state \<Rightarrow> (nat \<times> u64) list \<times> (nat \<times> u64) list \<times> u64 \<times> wf_pc \<times> wf_pc" where
  "wf_seen s = (w_put s, w_taken s, wf_entry (wr_head (wring s)), wpcs s 0, wpcs s 1)"

lemma wf_filled_values: "wf_seen wf_filled = ([(1, 7), (0, 5)], [], 0, Q_threshold, Q_done)"
  by code_simp

lemma wf_filled_fast: "wf_run_fast 3 [0, 1, 0, 1, 1, 0] wf_demo"
  by code_simp

theorem wf_no_loss_witness: "wf_at 3 wf_filled 4 AND 15 = 7 \<and> wf_at 3 wf_filled 0 AND 15 = 5"
proof -
  note d = wf_demo_run [THEN conjunct1] wf_demo_run [THEN conjunct2]
  have "wf_fast_run 3 (\<lambda>t. Suc t mod 2) 8 wf_filled"
    using wf_run_fast_run [OF d wf_filled_fast] unfolding wf_filled_def by simp
  from wf_no_loss [OF this] show ?thesis
    using wf_filled_values by (simp add: wf_seen_def wf_n_def wf_pow2_def)
qed

end
