(* ===== verification/Wf_Help.thy ===== *)
theory Wf_Help
  imports Wf_Slow
begin

text \<open>
  Helping in the wait-free ring (wfring_cas2.h), over all runs, those through the slow paths among them: which
  threads a thread helps, after how many operations, and what a helper knows of the request that its owner has
  published when it starts to work on it.
\<close>

unbundle bit_operations_syntax

section \<open>What a step changes of the states of the threads\<close>

text \<open>The fields of a state that only its own thread writes.\<close>

definition wf_own :: "wf_local \<Rightarrow> (nat option \<times> nat \<times> nat) \<times> u64 \<times> u64 \<times> u64 \<times> u64 \<times> u64" where
  "wf_own l = ((ws_next l, ws_nextCheck l, ws_currThread l), ws_seq1 l, ws_seq2 l, ws_eidx l, ws_initTail l, ws_initHead l)"

lemma own_fields [simp]: "wf_own (l\<lparr> ws_tail := v \<rparr>) = wf_own l" "wf_own (l\<lparr> ws_head := v \<rparr>) = wf_own l"
  "wf_own (l\<lparr> ws_phase2 := p \<rparr>) = wf_own l"
  by (simp_all add: wf_own_def)

lemma own_counter [simp]: "wf_own (wlocals (wset_counter l v s) i) = wf_own (wlocals s i)"
  by (cases "(l, v, s)" rule: wset_counter.cases) (simp_all add: wf_own_def)

lemma own_cas [simp]: "wf_own (wlocals (cas_counter l old new s) i) = wf_own (wlocals s i)"
  by (simp add: cas_counter_def)

lemma own_phase2 [simp]: "wf_own (wlocals (wset_phase2 u p s) i) = wf_own (wlocals s i)"
  by (simp add: wset_phase2_def wf_own_def)

lemma own_parts [simp]:
  "wf_own (wlocals (snd (wf_load_global_help_phase2 side p s)) i) = wf_own (wlocals s i)"
  "wf_own (wlocals (snd (wf_slow_inc side thr u n s)) i) = wf_own (wlocals s i)"
  "wf_own (wlocals (snd (wf_catchup spurious c s)) i) = wf_own (wlocals s i)"
  "wf_own (wlocals (snd (wf_lookup t tail l s)) i) = wf_own (wlocals s i)"
proof -
  show p: "wf_own (wlocals (snd (wf_load_global_help_phase2 side p s)) i) = wf_own (wlocals s i)" for p
    by (cases p) simp_all
  show "wf_own (wlocals (snd (wf_slow_inc side thr u n s)) i) = wf_own (wlocals s i)"
  proof (cases n)
    case (I_phase2 prev q)
    then show ?thesis using p [of q] by (simp add: case_prod_beta)
  qed (simp_all add: Let_def)
  show "wf_own (wlocals (snd (wf_catchup spurious c s)) i) = wf_own (wlocals s i)" by (cases c) (simp_all add: Let_def)
  show "wf_own (wlocals (snd (wf_lookup t tail l s)) i) = wf_own (wlocals s i)" by (cases l) (simp_all add: Let_def)
qed

lemma own_slow [simp]:
  "wf_own (wlocals (snd (wf_do_enqueue_slow order j spurious a s)) i) = wf_own (wlocals s i)"
  "wf_own (wlocals (snd (wf_do_dequeue_slow order d spurious b s)) i) = wf_own (wlocals s i)"
proof -
  show "wf_own (wlocals (snd (wf_do_enqueue_slow order j spurious a s)) i) = wf_own (wlocals s i)"
    by (cases a) (simp_all add: Let_def case_prod_beta)
  show "wf_own (wlocals (snd (wf_do_dequeue_slow order d spurious b s)) i) = wf_own (wlocals s i)"
    by (cases b) (simp_all add: Let_def case_prod_beta)
qed

lemmas wf_thread_parts = wf_take_tail_def wf_enq_entry_def wf_enq_head_def wf_enq_cas_def wf_enq_threshold_def
  wf_enq_reset_def wf_deq_threshold_def wf_take_head_def wf_deq_entry_def wf_deq_cas_def wf_look_def wf_deq_take_def
  wf_deq_tail_def wf_deq_catch_def wf_sub_empty_def wf_sub_def wf_slow_enq_def wf_slow_deq_def wf_count_def
  wkeep_or_give_up_def upd_local_def

lemma own_other: "i \<noteq> t \<Longrightarrow> wf_own (wlocals (wf_thread order t spurious s) i) = wf_own (wlocals s i)"
  unfolding wf_thread_def by (cases "wpcs s t") (simp_all add: wf_thread_parts Let_def case_prod_beta)

lemma own_step_other:
  assumes "wf_step order s s'"
  obtains t where "\<And>i. i \<noteq> t \<Longrightarrow> wpcs s' i = wpcs s i \<and> wf_own (wlocals s' i) = wf_own (wlocals s i)"
    and "wpcs s t = Wf_idle \<and> (\<exists>eidx ne. s' = wf_enq_call order t eidx ne s) \<or>
      wpcs s t = Wf_idle \<and> (\<exists>ne. s' = wf_deq_call t ne s) \<or> (\<exists>spurious. s' = wf_thread order t spurious s)"
  using assms
proof cases
  case (enq_call t eidx ne)
  then show thesis by (intro that [of t]) (auto simp: wf_enq_call_def wf_count_def Let_def)
next
  case (deq_call t ne)
  then show thesis by (intro that [of t]) (auto simp: wf_deq_call_def wf_count_def Let_def)
next
  case (thread t spurious)
  then show thesis by (intro that [of t]) (auto simp: wf_thread_other own_other)
qed

section \<open>Whom a thread helps\<close>

fun wf_helped :: "wf_pc \<Rightarrow> nat option" where
  "wf_helped (H_eidx u r) = Some u"
| "wf_helped (H_next u r) = Some u"
| "wf_helped (H_enq_seq2 u r) = Some u"
| "wf_helped (H_enq_eidx u r seq) = Some u"
| "wf_helped (H_enq_tail u r seq eidx) = Some u"
| "wf_helped (H_enq_seq1 u r seq eidx tail) = Some u"
| "wf_helped (H_deq_seq2 u r) = Some u"
| "wf_helped (H_deq_eidx u r seq) = Some u"
| "wf_helped (H_deq_head u r seq eidx) = Some u"
| "wf_helped (H_deq_seq1 u r seq eidx head) = Some u"
| "wf_helped (S_run j (For_other u r) a) = Some u"
| "wf_helped (T_run d (For_other u r) b) = Some u"
| "wf_helped _ = None"

text \<open>The thread at the end of the help, whose successor is looked at next.\<close>

fun wf_leaving :: "wf_pc \<Rightarrow> nat option" where
  "wf_leaving (H_last u r) = Some u"
| "wf_leaving _ = None"

text \<open>In a circle of \<open>m\<close> threads: \<open>u\<close> is at an odd distance below \<open>m\<close> from \<open>t\<close>.\<close>

definition odd_ahead :: "nat \<Rightarrow> nat \<Rightarrow> nat \<Rightarrow> bool" where
  "odd_ahead m t u \<longleftrightarrow> (\<exists>j < m. odd j \<and> u = (t + j) mod m)"

lemma odd_ahead_next: "2 \<le> m \<Longrightarrow> odd_ahead m t (Suc t mod m)"
  unfolding odd_ahead_def by (intro exI [of _ 1]) simp

lemma odd_ahead_neq: "odd_ahead m t u \<Longrightarrow> t < m \<Longrightarrow> u \<noteq> t"
proof
  assume "odd_ahead m t u" "t < m" "u = t"
  then obtain j where j: "j < m" "odd j" "(t + j) mod m = t" unfolding odd_ahead_def by metis
  show False
  proof (cases "t + j < m")
    case True
    then have "j = 0" using j(3) by simp
    then show False using j(2) by simp
  next
    case False
    then have "(t + j) mod m = t + j - m" using \<open>t < m\<close> j(1) by (simp add: le_mod_geq)
    then show False using j(1,3) False by linarith
  qed
qed

lemma odd_ahead_two:
  assumes "odd_ahead m t u" and "t < m" "2 \<le> m"
  shows "Suc (Suc u mod m) mod m = t \<or> odd_ahead m t (Suc (Suc u mod m) mod m)"
proof -
  obtain j where j: "j < m" "odd j" "u = (t + j) mod m" using assms(1) unfolding odd_ahead_def by blast
  have e: "Suc (Suc u mod m) mod m = (t + (j + 2)) mod m" unfolding j(3) by (simp add: mod_simps)
  consider "j + 2 < m" | "j + 2 = m" | "j + 1 = m" using j(1) by linarith
  then show ?thesis
  proof cases
    case 1
    then show ?thesis using j(2) e unfolding odd_ahead_def by (intro disjI2 exI [of _ "j + 2"]) simp
  next
    case 2
    then show ?thesis using assms(2) e by simp
  next
    case 3
    have "t + (j + 2) = t + 1 + m" using 3 by simp
    then have "(t + (j + 2)) mod m = (t + 1) mod m" by (simp only: mod_add_self2)
    then show ?thesis using odd_ahead_next [OF assms(3), of t] e by simp
  qed
qed

text \<open>
  The fields of a thread's state that steer its help: the counter is used up exactly in the help, and the
  thread looked at is the current one, the thread at the end its successor unless it is the thread itself.
\<close>

definition help_ok :: "nat \<Rightarrow> nat \<Rightarrow> nat option \<times> nat \<times> nat \<Rightarrow> wf_pc \<Rightarrow> bool" where
  "help_ok m t c pc \<longleftrightarrow> (case c of (nx, n, u) \<Rightarrow>
     nx = Some (Suc t mod m) \<and> (u = t \<or> odd_ahead m t u) \<and>
     (if wf_helped pc \<noteq> None \<or> wf_leaving pc \<noteq> None then n = 0 else 1 \<le> n \<and> n \<le> WFRING_DELAY) \<and>
     (\<forall>v. wf_helped pc = Some v \<longrightarrow> v = u \<and> odd_ahead m t v) \<and>
     (\<forall>v. wf_leaving pc = Some v \<longrightarrow> (if u = t then v = t else odd_ahead m t u \<and> v = Suc u mod m)))"

definition wf_circle :: "nat \<Rightarrow> wf_state \<Rightarrow> bool" where
  "wf_circle m s \<longleftrightarrow> (\<forall>t < m. help_ok m t (fst (wf_own (wlocals s t))) (wpcs s t))"

lemma wf_next_own: "fst (fst (wf_own l)) = Some u \<Longrightarrow> wf_next l = u"
  by (simp add: wf_own_def wf_next_def)

lemma resume_not_helping [simp]: "wf_helped (resume_pc r) = None" "wf_leaving (resume_pc r) = None"
  by (cases r; simp)+

lemma back_helped: "wf_helped (back_pc back) = (case back of For_other u r \<Rightarrow> Some u | _ \<Rightarrow> None)" "wf_leaving (back_pc back) = None"
  by (cases "back"; simp)+

lemma run_helped: "wf_helped (S_run j back a) = (case back of For_other u r \<Rightarrow> Some u | _ \<Rightarrow> None)"
  "wf_helped (T_run d back b) = (case back of For_other u r \<Rightarrow> Some u | _ \<Rightarrow> None)"
  by (cases "back"; simp)+

text \<open>Program counters outside the help.\<close>

lemma decided_not_helping [simp]:
  "wf_helped (wf_enq_check order x ne k tail e) = None" "wf_leaving (wf_enq_check order x ne k tail e) = None"
  "wf_helped (wf_enq_again x ne k tail) = None" "wf_leaving (wf_enq_again x ne k tail) = None"
  "wf_helped (wf_deq_check order t ne k head e) = None" "wf_leaving (wf_deq_check order t ne k head e) = None"
  "wf_helped (wf_missed ne k head) = None" "wf_leaving (wf_missed ne k head) = None"
  "wf_helped (wf_deq_again ne k head) = None" "wf_leaving (wf_deq_again ne k head) = None"
  by (simp_all add: wf_enq_check_def wf_enq_again_def wf_deq_check_def wf_missed_def wf_deq_again_def Let_def)

lemma help_ok_same: "help_ok m t c pc \<Longrightarrow> wf_helped pc' = wf_helped pc \<Longrightarrow> wf_leaving pc' = wf_leaving pc \<Longrightarrow> help_ok m t c pc'"
  by (simp add: help_ok_def)

lemma circle_count:
  assumes ok: "help_ok m t (fst (wf_own (wlocals s t))) pc" and out: "wf_helped pc = None" "wf_leaving pc = None" and t: "t < m"
  shows "help_ok m t (fst (wf_own (wlocals (wf_count t r s) t))) (wpcs (wf_count t r s) t)"
  using assms by (auto simp: help_ok_def wf_own_def wf_count_def Let_def WFRING_DELAY_def)

lemma circle_thread:
  assumes ok: "\<forall>i < m. help_ok m i (fst (wf_own (wlocals s i))) (wpcs s i)" and t: "t < m" "2 \<le> m"
  shows "help_ok m t (fst (wf_own (wlocals (wf_thread order t spurious s) t))) (wpcs (wf_thread order t spurious s) t)"
proof -
  have h: "help_ok m t (fst (wf_own (wlocals s t))) (wpcs s t)" using ok t by blast
  have nx: "wf_next (wlocals s u) = Suc u mod m" if "u < m" for u
    by (rule wf_next_own) (use ok that in \<open>auto simp: help_ok_def wf_own_def\<close>)
  have lt: "u < m" if "odd_ahead m t u" for u using that t unfolding odd_ahead_def by auto
  show ?thesis
  proof (cases "wpcs s t")
    case R_threshold
    then show ?thesis using circle_count [OF h _ _ t(1)] help_ok_same [OF h, of "R_done WFRING_EMPTY"]
      by (simp add: wf_thread_def wf_deq_threshold_def)
  next
    case (H_next u r)
    define c where "c = ws_currThread (wlocals s t)"
    have u: "u = c" "odd_ahead m t c" using h H_next by (auto simp: help_ok_def wf_own_def c_def)
    note n = odd_ahead_neq [OF u(2) t(1)] nx [OF lt [OF u(2)]]
    have "wf_leaving (H_last (Suc c mod m) r) = Some (Suc c mod m)" by simp
    then show ?thesis using h H_next u(2) n unfolding u(1)
      by (simp add: wf_thread_def help_ok_def wf_own_def c_def [symmetric])
  next
    case (H_last v r)
    then have v: "if ws_currThread (wlocals s t) = t then v = t
        else odd_ahead m t (ws_currThread (wlocals s t)) \<and> v = Suc (ws_currThread (wlocals s t)) mod m"
      using h by (simp add: help_ok_def wf_own_def)
    then have "v < m" using t by (auto split: if_splits)
    moreover have "Suc v mod m = t \<or> odd_ahead m t (Suc v mod m)"
      using v odd_ahead_two [OF _ t] odd_ahead_next [OF t(2)] by (auto split: if_splits)
    ultimately show ?thesis using h H_last nx [of v]
      by (simp add: wf_thread_def upd_local_def help_ok_def wf_own_def WFRING_DELAY_def)
  next
    case (R_lookup l head e)
    then show ?thesis using h
      by (auto simp: wf_thread_def wf_look_def case_prod_beta intro!: help_ok_same [OF h] split: option.split)
  next
    case (R_catch c)
    then show ?thesis using h
      by (auto simp: wf_thread_def wf_deq_catch_def case_prod_beta intro!: help_ok_same [OF h] split: option.split)
  next
    case (S_run j bk a)
    then show ?thesis using h run_helped(1) back_helped
      by (auto simp: wf_thread_def wf_slow_enq_def case_prod_beta intro!: help_ok_same [OF h] split: option.split)
  next
    case (T_run d bk b)
    then show ?thesis using h run_helped(2) back_helped
      by (auto simp: wf_thread_def wf_slow_deq_def case_prod_beta intro!: help_ok_same [OF h] split: option.split)
  qed (use h in \<open>simp_all add: wf_thread_def wf_thread_parts Let_def case_prod_beta help_ok_def wf_own_def split: option.split\<close>)
qed

lemma circle_step:
  assumes c: "wf_circle m s" and m: "2 \<le> m" and st: "wf_step order s s'"
  shows "wf_circle m s'"
proof -
  from st obtain t where other: "\<And>i. i \<noteq> t \<Longrightarrow> wpcs s' i = wpcs s i \<and> wf_own (wlocals s' i) = wf_own (wlocals s i)"
    and step: "wpcs s t = Wf_idle \<and> (\<exists>eidx ne. s' = wf_enq_call order t eidx ne s) \<or>
      wpcs s t = Wf_idle \<and> (\<exists>ne. s' = wf_deq_call t ne s) \<or> (\<exists>spurious. s' = wf_thread order t spurious s)"
    by (rule own_step_other) blast
  have ok: "\<forall>i < m. help_ok m i (fst (wf_own (wlocals s i))) (wpcs s i)" using c by (simp add: wf_circle_def)
  have "help_ok m t (fst (wf_own (wlocals s' t))) (wpcs s' t)" if t: "t < m"
  proof -
    have h: "help_ok m t (fst (wf_own (wlocals s t))) (wpcs s t)" using ok t by blast
    from step show ?thesis
      using circle_count [OF h _ _ t] circle_thread [OF ok t m] help_ok_same [OF h, of R_threshold]
      by (auto simp: wf_enq_call_def wf_deq_call_def)
  qed
  then show ?thesis using ok other unfolding wf_circle_def by (metis (no_types))
qed

lemma circle_start: "wf_initial order (\<lambda>t. Suc t mod m) s \<Longrightarrow> wf_circle m s"
  by (induction rule: wf_initial.induct)
    (simp_all add: wf_circle_def help_ok_def wf_own_def wf_start_def wf_init_state_def WFRING_DELAY_def)

lemma wf_reachable_circle: "wf_reachable order (\<lambda>t. Suc t mod m) k s \<Longrightarrow> 2 \<le> m \<Longrightarrow> wf_circle m s"
  by (induction rule: wf_reachable.induct) (auto intro: circle_start circle_step)

section \<open>Requests\<close>

text \<open>
  What a thread's own state says about its request: it is published when \<open>seq2\<close> has caught up with \<open>seq1\<close>, which
  is so exactly while the thread works on it.
\<close>

fun own_ok :: "wf_local \<Rightarrow> wf_pc \<Rightarrow> bool" where
  "own_ok l (S_tail x ne tail seq) \<longleftrightarrow> seq = ws_seq1 l \<and> ws_seq2 l \<noteq> ws_seq1 l"
| "own_ok l (S_init x ne tail seq) \<longleftrightarrow> seq = ws_seq1 l \<and> ws_seq2 l \<noteq> ws_seq1 l"
| "own_ok l (S_eidx x ne tail seq) \<longleftrightarrow> seq = ws_seq1 l \<and> ws_seq2 l \<noteq> ws_seq1 l"
| "own_ok l (S_seq2 x ne tail seq) \<longleftrightarrow> seq = ws_seq1 l \<and> ws_seq2 l \<noteq> ws_seq1 l \<and> ws_eidx l = x"
| "own_ok l (S_run j (Own_request seq) a) \<longleftrightarrow>
     seq = ws_seq1 l \<and> ws_seq2 l = ws_seq1 l \<and> ej_seq j = seq \<and> ej_eidx j = ws_eidx l"
| "own_ok l (S_end seq) \<longleftrightarrow> seq = ws_seq1 l \<and> ws_seq2 l = ws_seq1 l"
| "own_ok l (T_head ne head seq) \<longleftrightarrow> seq = ws_seq1 l \<and> ws_seq2 l \<noteq> ws_seq1 l"
| "own_ok l (T_init ne head seq) \<longleftrightarrow> seq = ws_seq1 l \<and> ws_seq2 l \<noteq> ws_seq1 l"
| "own_ok l (T_eidx ne head seq) \<longleftrightarrow> seq = ws_seq1 l \<and> ws_seq2 l \<noteq> ws_seq1 l"
| "own_ok l (T_seq2 ne head seq) \<longleftrightarrow> seq = ws_seq1 l \<and> ws_seq2 l \<noteq> ws_seq1 l \<and> ws_eidx l = WFRING_EIDX_DEQ"
| "own_ok l (T_run d (Own_take seq ne) b) \<longleftrightarrow> seq = ws_seq1 l \<and> ws_seq2 l = ws_seq1 l \<and> ws_eidx l = WFRING_EIDX_DEQ"
| "own_ok l (T_end seq ne) \<longleftrightarrow> seq = ws_seq1 l \<and> ws_seq2 l = ws_seq1 l \<and> ws_eidx l = WFRING_EIDX_DEQ"
| "own_ok l (S_run j (Own_take seq ne) a) \<longleftrightarrow> False"
| "own_ok l (T_run d (Own_request seq) b) \<longleftrightarrow> False"
| "own_ok l _ \<longleftrightarrow> ws_seq2 l \<noteq> ws_seq1 l"

text \<open>What a helper knows of the request it has read, from the state \<open>l\<close> of the thread it helps.\<close>

fun helper_ok :: "wf_local \<Rightarrow> wf_pc \<Rightarrow> bool" where
  "helper_ok l (H_enq_eidx u r seq) \<longleftrightarrow> unat seq \<le> unat (ws_seq2 l)"
| "helper_ok l (H_enq_tail u r seq eidx) \<longleftrightarrow> unat seq \<le> unat (ws_seq2 l) \<and> (seq = ws_seq1 l \<longrightarrow> eidx = ws_eidx l)"
| "helper_ok l (H_enq_seq1 u r seq eidx tail) \<longleftrightarrow> unat seq \<le> unat (ws_seq2 l) \<and> WFRING_EIDX_DEQ < eidx \<and>
     (seq = ws_seq1 l \<longrightarrow> eidx = ws_eidx l \<and> tail = ws_initTail l)"
| "helper_ok l (H_deq_eidx u r seq) \<longleftrightarrow> unat seq \<le> unat (ws_seq2 l)"
| "helper_ok l (H_deq_head u r seq eidx) \<longleftrightarrow> unat seq \<le> unat (ws_seq2 l) \<and> (seq = ws_seq1 l \<longrightarrow> eidx = ws_eidx l)"
| "helper_ok l (H_deq_seq1 u r seq eidx head) \<longleftrightarrow> unat seq \<le> unat (ws_seq2 l) \<and> eidx = WFRING_EIDX_DEQ \<and>
     (seq = ws_seq1 l \<longrightarrow> eidx = ws_eidx l \<and> head = ws_initHead l)"
| "helper_ok l (S_run j (For_other u r) a) \<longleftrightarrow> ej_thread j = u \<and> unat (ej_seq j) \<le> unat (ws_seq2 l) \<and>
     WFRING_EIDX_DEQ < ej_eidx j \<and> (ej_seq j = ws_seq1 l \<longrightarrow> ej_eidx j = ws_eidx l)"
| "helper_ok l (T_run d (For_other u r) b) \<longleftrightarrow> dj_thread d = u"
| "helper_ok l _ \<longleftrightarrow> True"

definition seq_ok :: "nat \<Rightarrow> wf_local \<Rightarrow> bool" where
  "seq_ok k l \<longleftrightarrow> unat (ws_seq2 l) \<le> unat (ws_seq1 l) \<and> unat (ws_seq1 l) \<le> k + 1"

definition wf_requests :: "nat \<Rightarrow> wf_state \<Rightarrow> bool" where
  "wf_requests k s \<longleftrightarrow> (\<forall>t. seq_ok k (wlocals s t) \<and> own_ok (wlocals s t) (wpcs s t) \<and>
     (\<forall>u. wf_helped (wpcs s t) = Some u \<longrightarrow> helper_ok (wlocals s u) (wpcs s t)))"

text \<open>
  How a state may change under its own thread: a request that a helper has read is still the same one, or
  over.
\<close>

definition evolves :: "wf_local \<Rightarrow> wf_local \<Rightarrow> bool" where
  "evolves l l' \<longleftrightarrow> unat (ws_seq2 l) \<le> unat (ws_seq2 l') \<and>
     (unat (ws_seq1 l') \<le> unat (ws_seq2 l) \<longrightarrow> ws_seq1 l' = ws_seq1 l \<and> ws_eidx l' = ws_eidx l \<and>
        ws_initTail l' = ws_initTail l \<and> ws_initHead l' = ws_initHead l)"

lemma helper_evolves: "helper_ok l pc \<Longrightarrow> evolves l l' \<Longrightarrow> helper_ok l' pc"
  by (cases "(l, pc)" rule: helper_ok.cases) (auto simp: evolves_def)

lemma own_same: "wf_own l' = wf_own l \<Longrightarrow> evolves l l' \<and> seq_ok k l' = seq_ok k l \<and> own_ok l' pc = own_ok l pc \<and> helper_ok l' pc = helper_ok l pc"
proof -
  assume "wf_own l' = wf_own l"
  then have e: "ws_seq1 l' = ws_seq1 l" "ws_seq2 l' = ws_seq2 l" "ws_eidx l' = ws_eidx l"
    "ws_initTail l' = ws_initTail l" "ws_initHead l' = ws_initHead l" by (simp_all add: wf_own_def)
  have "own_ok l' pc = own_ok l pc" by (cases "(l, pc)" rule: own_ok.cases) (simp_all add: e)
  moreover have "helper_ok l' pc = helper_ok l pc" by (cases "(l, pc)" rule: helper_ok.cases) (simp_all add: e)
  ultimately show ?thesis using e by (simp add: evolves_def seq_ok_def)
qed

text \<open>Program counters of a thread that has no request of its own.\<close>

lemma unpublished [simp]:
  "own_ok l (wf_enq_check order x ne k tail e) \<longleftrightarrow> ws_seq2 l \<noteq> ws_seq1 l"
  "own_ok l (wf_enq_again x ne k tail) \<longleftrightarrow> ws_seq2 l \<noteq> ws_seq1 l"
  "own_ok l (wf_deq_check order t ne k head e) \<longleftrightarrow> ws_seq2 l \<noteq> ws_seq1 l"
  "own_ok l (wf_missed ne k head) \<longleftrightarrow> ws_seq2 l \<noteq> ws_seq1 l" "own_ok l (wf_deq_again ne k head) \<longleftrightarrow> ws_seq2 l \<noteq> ws_seq1 l"
  "own_ok l (resume_pc r) \<longleftrightarrow> ws_seq2 l \<noteq> ws_seq1 l"
  by (simp_all add: wf_enq_check_def wf_enq_again_def wf_deq_check_def wf_missed_def wf_deq_again_def Let_def) (cases r; simp)

lemma run_own: "own_ok l (S_run j bk a) \<Longrightarrow> own_ok l (S_run j bk a')" "own_ok l (T_run d bk b) \<Longrightarrow> own_ok l (T_run d bk b')"
  "helper_ok l (S_run j bk a) \<Longrightarrow> helper_ok l (S_run j bk a')" "own_ok l (S_run j bk a) \<Longrightarrow> own_ok l (back_pc bk)"
  "own_ok l (T_run d bk b) \<Longrightarrow> own_ok l (back_pc bk)" "helper_ok l (back_pc bk)" "helper_ok l (T_run d bk b) \<Longrightarrow> helper_ok l (T_run d bk b')"
  by (cases bk; simp)+

lemma count_own:
  "ws_seq1 (wlocals (wf_count t r s) t) = ws_seq1 (wlocals s t)" "ws_seq2 (wlocals (wf_count t r s) t) = ws_seq2 (wlocals s t)"
  "ws_eidx (wlocals (wf_count t r s) t) = ws_eidx (wlocals s t)"
  "ws_initTail (wlocals (wf_count t r s) t) = ws_initTail (wlocals s t)"
  "ws_initHead (wlocals (wf_count t r s) t) = ws_initHead (wlocals s t)"
  "own_ok l (wpcs (wf_count t r s) t) \<longleftrightarrow> ws_seq2 l \<noteq> ws_seq1 l"
  by (simp_all add: wf_count_def Let_def)

definition own_step :: "nat \<Rightarrow> nat \<Rightarrow> wf_state \<Rightarrow> wf_state \<Rightarrow> bool" where
  "own_step k t s s' \<longleftrightarrow> evolves (wlocals s t) (wlocals s' t) \<and> seq_ok (k + 1) (wlocals s' t) \<and> own_ok (wlocals s' t) (wpcs s' t)"

lemma own_step_count:
  assumes "seq_ok k (wlocals s t)" "ws_seq2 (wlocals s t) \<noteq> ws_seq1 (wlocals s t)"
  shows "own_step k t s (wf_count t r s)"
  using assms by (simp add: own_step_def evolves_def seq_ok_def count_own)

lemma own_step_same:
  assumes "seq_ok k (wlocals s t)" and "wf_own (wlocals s' t) = wf_own (wlocals s t)" and "own_ok (wlocals s t) (wpcs s' t)"
  shows "own_step k t s s'"
proof -
  note e = own_same [OF assms(2)]
  have "seq_ok (k + 1) (wlocals s t)" using assms(1) by (simp add: seq_ok_def)
  then show ?thesis using e assms(3) unfolding own_step_def by blast
qed

lemma seq_below: "unat a \<le> unat b \<Longrightarrow> a \<noteq> b \<Longrightarrow> \<not> unat b \<le> unat (a :: u64)"
  by (auto simp: word_unat_eq_iff)

lemma own_thread:
  assumes b: "seq_ok k (wlocals s t)" and k: "k < 2 ^ 63" and ok: "own_ok (wlocals s t) (wpcs s t)"
  shows "own_step k t s (wf_thread order t spurious s)"
proof -
  have le: "unat (ws_seq2 (wlocals s t)) \<le> unat (ws_seq1 (wlocals s t))" using b by (simp add: seq_ok_def)
  note less = seq_below [OF le]
  have up: "unat (ws_seq1 (wlocals s t) + 1) = unat (ws_seq1 (wlocals s t)) + 1"
    using b k unat_plus_no_wrap [of "ws_seq1 (wlocals s t)" 1] by (simp add: seq_ok_def)
  show ?thesis
  proof (cases "wpcs s t")
    case R_threshold
    then show ?thesis using own_step_count [OF b] ok own_step_same [OF b, of "wgoto t (R_done WFRING_EMPTY) s"]
      by (simp add: wf_thread_def wf_deq_threshold_def)
  next
    case (S_run j bk a)
    then show ?thesis using ok by (intro own_step_same [OF b])
      (auto simp: wf_thread_def wf_slow_enq_def case_prod_beta intro: run_own split: option.split)
  next
    case (T_run d bk c)
    then show ?thesis using ok by (intro own_step_same [OF b])
      (auto simp: wf_thread_def wf_slow_deq_def case_prod_beta intro: run_own split: option.split)
  next
    case (H_last u r)
    then show ?thesis using ok b by (simp add: wf_thread_def upd_local_def own_step_def evolves_def seq_ok_def)
  next
    case (S_init x ne tail seq)
    then show ?thesis using ok b less by (simp add: wf_thread_def upd_local_def own_step_def evolves_def seq_ok_def)
  next
    case (S_eidx x ne tail seq)
    then show ?thesis using ok b less by (simp add: wf_thread_def upd_local_def own_step_def evolves_def seq_ok_def)
  next
    case (S_seq2 x ne tail seq)
    then show ?thesis using ok b less le by (simp add: wf_thread_def upd_local_def own_step_def evolves_def seq_ok_def)
  next
    case (S_end seq)
    then show ?thesis using ok b up le by (auto simp: wf_thread_def upd_local_def own_step_def evolves_def seq_ok_def)
  next
    case S_term
    then show ?thesis using ok b less by (simp add: wf_thread_def upd_local_def own_step_def evolves_def seq_ok_def)
  next
    case (T_init ne head seq)
    then show ?thesis using ok b less by (simp add: wf_thread_def upd_local_def own_step_def evolves_def seq_ok_def)
  next
    case (T_eidx ne head seq)
    then show ?thesis using ok b less by (simp add: wf_thread_def upd_local_def own_step_def evolves_def seq_ok_def)
  next
    case (T_seq2 ne head seq)
    then show ?thesis using ok b less le by (simp add: wf_thread_def upd_local_def own_step_def evolves_def seq_ok_def)
  next
    case (T_end seq ne)
    then show ?thesis using ok b up le by (auto simp: wf_thread_def upd_local_def own_step_def evolves_def seq_ok_def)
  next
    case (T_term ne)
    then show ?thesis using ok b less by (simp add: wf_thread_def upd_local_def own_step_def evolves_def seq_ok_def)
  qed (use ok in \<open>simp_all add: own_step_same [OF b] wf_thread_def wf_thread_parts Let_def case_prod_beta split: option.split\<close>)
qed

lemma helper_thread:
  assumes ok: "\<And>u. wf_helped (wpcs s t) = Some u \<Longrightarrow> helper_ok (wlocals s u) (wpcs s t)"
    and u: "wf_helped (wpcs (wf_thread order t spurious s) t) = Some u"
  shows "helper_ok (wlocals s u) (wpcs (wf_thread order t spurious s) t)"
proof (cases "wpcs s t")
  case (S_run j bk a)
  then show ?thesis using ok u back_helped(1) run_helped(1)
    by (auto simp: wf_thread_def wf_slow_enq_def case_prod_beta intro: run_own split: option.splits)
next
  case (T_run d bk c)
  then show ?thesis using ok u back_helped(1) run_helped(2)
    by (auto simp: wf_thread_def wf_slow_deq_def case_prod_beta intro: run_own split: option.splits)
qed (use u ok in \<open>auto simp: wf_thread_def wf_thread_parts Let_def case_prod_beta split: option.splits if_splits\<close>)

lemma requests_step:
  assumes r: "wf_requests k s" and k: "k < 2 ^ 63" and st: "wf_step order s s'"
  shows "wf_requests (k + 1) s'"
proof -
  note R = r [unfolded wf_requests_def, rule_format]
  from st obtain t where other: "\<And>i. i \<noteq> t \<Longrightarrow> wpcs s' i = wpcs s i \<and> wf_own (wlocals s' i) = wf_own (wlocals s i)"
    and step: "wpcs s t = Wf_idle \<and> (\<exists>eidx ne. s' = wf_enq_call order t eidx ne s) \<or>
      wpcs s t = Wf_idle \<and> (\<exists>ne. s' = wf_deq_call t ne s) \<or> (\<exists>spurious. s' = wf_thread order t spurious s)"
    by (rule own_step_other) blast
  have b: "seq_ok k (wlocals s t)" and o: "own_ok (wlocals s t) (wpcs s t)" using R [of t] by blast+
  have own: "own_step k t s s'"
    using step own_thread [OF b k o] own_step_count [OF b] own_step_same [OF b, of "wgoto t R_threshold s"] o
    by (auto simp: wf_enq_call_def wf_deq_call_def)
  have ev: "evolves (wlocals s i) (wlocals s' i)" for i
    using own other [of i] own_same [of "wlocals s' i" "wlocals s i"] by (cases "i = t") (auto simp: own_step_def)
  show ?thesis
    unfolding wf_requests_def
  proof (intro allI conjI impI)
    fix i
    have "seq_ok (k + 1) (wlocals s i)" using R [of i] by (simp add: seq_ok_def)
    then show "seq_ok (k + 1) (wlocals s' i)" "own_ok (wlocals s' i) (wpcs s' i)"
      using own other [of i] own_same [of "wlocals s' i" "wlocals s i"] R [of i] by (cases "i = t"; auto simp: own_step_def)+
    fix u assume u: "wf_helped (wpcs s' i) = Some u"
    have "helper_ok (wlocals s u) (wpcs s' i)"
    proof (cases "i = t")
      case True
      show ?thesis using step
      proof (elim disjE conjE exE)
        fix spurious assume s': "s' = wf_thread order t spurious s"
        show ?thesis using helper_thread [of s t order spurious u] R [of t] u unfolding True s' by blast
      next
        fix eidx ne assume s': "s' = wf_enq_call order t eidx ne s"
        then show ?thesis unfolding True by (simp add: wf_enq_call_def wf_count_def Let_def)
      next
        fix ne assume s': "s' = wf_deq_call t ne s"
        then show ?thesis unfolding True by (simp add: wf_deq_call_def wf_count_def Let_def)
      qed
    next
      case False
      then show ?thesis using other [of i] R [of i] u by simp
    qed
    then show "helper_ok (wlocals s' u) (wpcs s' i)" by (rule helper_evolves [OF _ ev])
  qed
qed

lemma requests_start: "wf_initial order links s \<Longrightarrow> wf_requests 0 s"
  by (induction rule: wf_initial.induct)
    (simp_all add: wf_requests_def seq_ok_def wf_start_def wf_init_state_def)

lemma wf_reachable_requests: "wf_reachable order links k s \<Longrightarrow> k \<le> 2 ^ 63 \<Longrightarrow> wf_requests k s"
proof (induction rule: wf_reachable.induct)
  case (step k s s')
  then have "k < 2 ^ 63" by simp
  then show ?case using requests_step [OF step.IH _ step.hyps(2)] by simp
qed (rule requests_start)

section \<open>Coming to work on a request\<close>

text \<open>The program counters between the publication of a request and its end; those of an enqueue, of a dequeue.\<close>

fun wf_slow_enqueuing :: "wf_pc \<Rightarrow> bool" where
  "wf_slow_enqueuing (S_run j (Own_request seq) a) = True"
| "wf_slow_enqueuing (S_end seq) = True"
| "wf_slow_enqueuing _ = False"

fun wf_slow_dequeuing :: "wf_pc \<Rightarrow> bool" where
  "wf_slow_dequeuing (T_run d (Own_take seq ne) b) = True"
| "wf_slow_dequeuing (T_end seq ne) = True"
| "wf_slow_dequeuing _ = False"

definition wf_requesting :: "wf_pc \<Rightarrow> bool" where
  "wf_requesting pc \<longleftrightarrow> wf_slow_enqueuing pc \<or> wf_slow_dequeuing pc"

lemma own_requesting: "own_ok l pc \<Longrightarrow> ws_seq2 l = ws_seq1 l \<longleftrightarrow> wf_requesting pc"
  unfolding wf_requesting_def by (cases "(l, pc)" rule: own_ok.cases) auto

lemma own_enqueuing: "own_ok l pc \<Longrightarrow> ws_seq2 l = ws_seq1 l \<Longrightarrow> ws_eidx l \<noteq> WFRING_EIDX_DEQ \<Longrightarrow> wf_slow_enqueuing pc"
  by (cases "(l, pc)" rule: own_ok.cases) auto

text \<open>
  The index an enqueue carries, its bits flipped: the bit of the half of the ring is set, so that it is never
  one of the two marks \<open>WFRING_EIDX_TERM\<close> and \<open>WFRING_EIDX_DEQ\<close>.
\<close>

fun resume_index :: "wf_resume \<Rightarrow> u64 option" where
  "resume_index (To_enqueue x ne) = Some x"
| "resume_index (To_dequeue ne) = None"

fun wf_index :: "wf_pc \<Rightarrow> u64 option" where
  "wf_index (Q_ticket x ne k) = Some x"
| "wf_index (Q_entry x ne k tail) = Some x"
| "wf_index (Q_head x ne k tail e) = Some x"
| "wf_index (Q_cas x ne k tail e) = Some x"
| "wf_index (S_seq1 x ne tail) = Some x"
| "wf_index (S_tail x ne tail seq) = Some x"
| "wf_index (S_init x ne tail seq) = Some x"
| "wf_index (S_eidx x ne tail seq) = Some x"
| "wf_index (S_seq2 x ne tail seq) = Some x"
| "wf_index (S_run j (Own_request seq) a) = Some (ej_eidx j)"
| "wf_index (S_run j (For_other u r) a) = resume_index r"
| "wf_index (T_run d (For_other u r) b) = resume_index r"
| "wf_index (H_eidx u r) = resume_index r"
| "wf_index (H_next u r) = resume_index r"
| "wf_index (H_last u r) = resume_index r"
| "wf_index (H_enq_seq2 u r) = resume_index r"
| "wf_index (H_enq_eidx u r seq) = resume_index r"
| "wf_index (H_enq_tail u r seq eidx) = resume_index r"
| "wf_index (H_enq_seq1 u r seq eidx tail) = resume_index r"
| "wf_index (H_deq_seq2 u r) = resume_index r"
| "wf_index (H_deq_eidx u r seq) = resume_index r"
| "wf_index (H_deq_head u r seq eidx) = resume_index r"
| "wf_index (H_deq_seq1 u r seq eidx head) = resume_index r"
| "wf_index _ = None"

lemma index_resume [simp]: "wf_index (resume_pc r) = resume_index r"
  by (cases r) simp_all

lemma index_run:
  "wf_index (back_pc back) = None \<or> wf_index (back_pc back) = wf_index (S_run j back a)"
  "wf_index (back_pc back) = None \<or> wf_index (back_pc back) = wf_index (T_run d back b)"
  "wf_index (S_run j back a') = wf_index (S_run j back a)" "wf_index (T_run d back b') = wf_index (T_run d back b)"
  by (cases "back"; simp)+

lemma index_decided:
  "wf_index (wf_enq_check order x ne k tail e) = Some x" "wf_index (wf_enq_again x ne k tail) = Some x"
  "wf_index (wf_deq_check order t ne k head e) = None" "wf_index (wf_missed ne k head) = None"
  "wf_index (wf_deq_again ne k head) = None"
  by (simp_all add: wf_enq_check_def wf_enq_again_def wf_deq_check_def wf_missed_def wf_deq_again_def Let_def)

lemma index_count: "wf_index (wpcs (wf_count t r s) t) = resume_index r"
  by (simp add: wf_count_def Let_def)

lemma index_thread:
  "wf_index (wpcs (wf_thread order t spurious s) t) = None \<or> wf_index (wpcs (wf_thread order t spurious s) t) = wf_index (wpcs s t)"
proof (cases "wpcs s t")
  case (S_run j bk a)
  then show ?thesis using index_run(1,3)
    by (simp add: wf_thread_def wf_slow_enq_def case_prod_beta split: option.split)
next
  case (T_run d bk b)
  then show ?thesis using index_run(2,4)
    by (simp add: wf_thread_def wf_slow_deq_def case_prod_beta split: option.split)
qed (simp_all add: wf_thread_def wf_thread_parts Let_def case_prod_beta index_decided split: option.split)

lemma flipped_index:
  assumes o: "0 < order" "order < 64" and e: "unat eidx < 2 ^ order"
  shows "WFRING_EIDX_DEQ < eidx XOR (wf_n order - 1)"
proof -
  have n: "wf_n order - 1 = mask (order + 1)"
    by (simp add: wf_n_def wf_pow2_def mask_eq_exp_minus_1 push_bit_eq_mult mult.commute)
  have "bit eidx order \<longleftrightarrow> bit (unat eidx) order" by (simp add: bit_unsigned_iff)
  then have "\<not> bit eidx order" using e by (simp add: bit_iff_odd)
  then have b: "bit (eidx XOR (wf_n order - 1)) order" using o by (simp add: n bit_simps)
  have "1 < x" if "bit x order" for x :: u64
  proof -
    have "x \<noteq> 0" "x \<noteq> 1" using that o by (auto simp: bit_1_iff)
    then have "unat x \<noteq> unat (0 :: u64)" "unat x \<noteq> unat (1 :: u64)" by (metis word_unat_eq_iff)+
    then show ?thesis by (simp add: word_less_nat_alt)
  qed
  from this [OF b] show ?thesis by (simp add: WFRING_EIDX_DEQ_def)
qed

lemma index_reachable:
  assumes "wf_reachable order links k s" and o: "0 < order" "order < 64"
  shows "wf_index (wpcs s t) = Some x \<Longrightarrow> WFRING_EIDX_DEQ < x"
  using assms(1)
proof (induction arbitrary: t x rule: wf_reachable.induct)
  case (start s)
  then show ?case by (cases rule: wf_initial.cases) (simp_all add: wf_start_def)
next
  case (step k s s')
  from step.hyps(2) show ?case
  proof cases
    case (enq_call u eidx ne)
    then show ?thesis using step.IH [of t x] step.prems flipped_index [OF o enq_call(3)] index_count [of u]
      by (cases "t = u") (auto simp: wf_enq_call_def, simp_all add: wf_count_def Let_def)
  next
    case (deq_call u ne)
    then show ?thesis using step.IH [of t x] step.prems index_count [of u]
      by (cases "t = u") (auto simp: wf_deq_call_def wf_count_def Let_def split: if_splits)
  next
    case (thread u spurious)
    then show ?thesis using step.IH [of t x] step.prems index_thread [of order u spurious s]
      by (cases "t = u") (auto simp: wf_thread_other)
  qed
qed

text \<open>The program counters inside \<open>__wfring_do_enqueue_slow\<close> and \<open>__wfring_do_dequeue_slow\<close>.\<close>

fun wf_working :: "wf_pc \<Rightarrow> bool" where
  "wf_working (S_run j back a) = True"
| "wf_working (T_run d back b) = True"
| "wf_working _ = False"

lemma working_resume [simp]: "\<not> wf_working (resume_pc r)"
  by (cases r) simp_all

lemma working_decided [simp]:
  "\<not> wf_working (wf_enq_check order x ne k tail e)" "\<not> wf_working (wf_enq_again x ne k tail)"
  "\<not> wf_working (wf_deq_check order t ne k head e)" "\<not> wf_working (wf_missed ne k head)" "\<not> wf_working (wf_deq_again ne k head)"
  by (simp_all add: wf_enq_check_def wf_enq_again_def wf_deq_check_def wf_missed_def wf_deq_again_def Let_def)

lemma not_working [simp]: "pc = S_run j bk a \<Longrightarrow> wf_working pc" "pc = T_run d bk b \<Longrightarrow> wf_working pc"
  by simp_all

text \<open>A thread comes to work for another one only from the last test of one of the two \<open>help_thread\<close> functions.\<close>

lemma enter_enqueue:
  assumes "\<not> wf_working (wpcs s t)" and "wpcs (wf_thread order t spurious s) t = S_run j (For_other u r) a"
  obtains tail where "wpcs s t = H_enq_seq1 u r (ws_seq1 (wlocals s u)) (ej_eidx j) tail" "a = A_inc (I_load tail)"
    "j = \<lparr> ej_thread = u, ej_eidx = ej_eidx j, ej_seq = ws_seq1 (wlocals s u), ej_nonempty = resume_nonempty r \<rparr>"
proof -
  have w: "wf_working (wpcs (wf_thread order t spurious s) t)" using assms(2) by simp
  show thesis
  proof (cases "wpcs s t")
    case (H_enq_seq1 v r' seq eidx tail)
    then show thesis using assms by (intro that [of tail]) (auto simp: wf_thread_def split: if_splits)
  next
    case (S_seq2 x ne tail seq)
    then show thesis using assms(2) by (simp add: wf_thread_def)
  next
    case (H_deq_seq1 v r' seq eidx head)
    then show thesis using assms(2) by (simp add: wf_thread_def split: if_splits)
  next
    case (T_seq2 ne head seq)
    then show thesis using assms(2) by (simp add: wf_thread_def)
  qed (use w assms(1) in \<open>simp_all add: wf_thread_def wf_thread_parts Let_def case_prod_beta split: option.split_asm if_split_asm\<close>)
qed

lemma enter_dequeue:
  assumes "\<not> wf_working (wpcs s t)" and "wpcs (wf_thread order t spurious s) t = T_run d (For_other u r) b"
  obtains eidx head where "wpcs s t = H_deq_seq1 u r (ws_seq1 (wlocals s u)) eidx head" "b = B_inc (I_load head)"
    "d = \<lparr> dj_thread = u, dj_nonempty = resume_nonempty r \<rparr>"
proof -
  have w: "wf_working (wpcs (wf_thread order t spurious s) t)" using assms(2) by simp
  show thesis
  proof (cases "wpcs s t")
    case (H_deq_seq1 v r' seq eidx head)
    then show thesis using assms by (intro that [of eidx head]) (auto simp: wf_thread_def split: if_splits)
  next
    case (S_seq2 x ne tail seq)
    then show thesis using assms(2) by (simp add: wf_thread_def)
  next
    case (H_enq_seq1 v r' seq eidx tail)
    then show thesis using assms(2) by (simp add: wf_thread_def split: if_splits)
  next
    case (T_seq2 ne head seq)
    then show thesis using assms(2) by (simp add: wf_thread_def)
  qed (use w assms(1) in \<open>simp_all add: wf_thread_def wf_thread_parts Let_def case_prod_beta split: option.split_asm if_split_asm\<close>)
qed

text \<open>A thread at the end of its slow enqueue still shows its index.\<close>

lemma end_decided [simp]:
  "wf_enq_check order x ne k tail e \<noteq> S_end seq" "wf_enq_again x ne k tail \<noteq> S_end seq"
  "wf_deq_check order t ne k head e \<noteq> S_end seq" "wf_missed ne k head \<noteq> S_end seq" "wf_deq_again ne k head \<noteq> S_end seq"
  "resume_pc r \<noteq> S_end seq"
  by (simp_all add: wf_enq_check_def wf_enq_again_def wf_deq_check_def wf_missed_def wf_deq_again_def Let_def) (cases r; simp)

lemma back_end: "back_pc bk = S_end seq \<longleftrightarrow> bk = Own_request seq"
  by (cases bk) simp_all

lemma into_end:
  assumes ok: "own_ok (wlocals s t) (wpcs s t)" and e: "wpcs (wf_thread order t spurious s) t = S_end seq"
  shows "\<exists>j a. wpcs s t = S_run j (Own_request seq) a \<and> ws_eidx (wlocals (wf_thread order t spurious s) t) = ws_eidx (wlocals s t)"
proof (cases "wpcs s t")
  case (S_run j bk a)
  have "wf_own (wlocals (wf_thread order t spurious s) t) = wf_own (wlocals s t)"
    using S_run by (simp add: wf_thread_def wf_slow_enq_def case_prod_beta)
  moreover have "bk = Own_request seq"
    using S_run e back_end by (simp add: wf_thread_def wf_slow_enq_def case_prod_beta split: option.split_asm)
  ultimately show ?thesis using S_run by (simp add: wf_own_def)
next
  case (T_run d bk b)
  then have "bk = Own_request seq"
    using e back_end by (simp add: wf_thread_def wf_slow_deq_def case_prod_beta split: option.split_asm)
  then show ?thesis using ok T_run by simp
qed (use e in \<open>simp_all add: wf_thread_def wf_thread_parts Let_def case_prod_beta split: option.split_asm if_split_asm\<close>)

lemma end_index:
  assumes "wf_reachable order links k s" and o: "0 < order" "order < 64"
  shows "k \<le> 2 ^ 63 \<Longrightarrow> wpcs s t = S_end seq \<Longrightarrow> WFRING_EIDX_DEQ < ws_eidx (wlocals s t)"
  using assms(1)
proof (induction arbitrary: t seq rule: wf_reachable.induct)
  case (start s)
  then show ?case by (cases rule: wf_initial.cases) (simp_all add: wf_start_def)
next
  case (step k s s')
  have k: "k \<le> 2 ^ 63" using step.prems(1) by simp
  have ok: "own_ok (wlocals s t) (wpcs s t)"
    using wf_reachable_requests [OF step.hyps(1) k] by (simp add: wf_requests_def)
  from step.hyps(2) obtain u where other: "\<And>i. i \<noteq> u \<Longrightarrow> wpcs s' i = wpcs s i \<and> wf_own (wlocals s' i) = wf_own (wlocals s i)"
    and st: "wpcs s u = Wf_idle \<and> (\<exists>eidx ne. s' = wf_enq_call order u eidx ne s) \<or>
      wpcs s u = Wf_idle \<and> (\<exists>ne. s' = wf_deq_call u ne s) \<or> (\<exists>spurious. s' = wf_thread order u spurious s)"
    by (rule own_step_other) blast
  show ?case
  proof (cases "u = t")
    case False
    then have "wpcs s' t = wpcs s t" "ws_eidx (wlocals s' t) = ws_eidx (wlocals s t)" using other [of t] by (auto simp: wf_own_def)
    then show ?thesis using step.IH [OF k, of t seq] step.prems(2) by simp
  next
    case True
    from st consider eidx ne where "s' = wf_enq_call order t eidx ne s" | ne where "s' = wf_deq_call t ne s"
      | spurious where "s' = wf_thread order t spurious s"
      unfolding True by blast
    then show ?thesis
    proof cases
      case 3
      then obtain j a where j: "wpcs s t = S_run j (Own_request seq) a" "ws_eidx (wlocals s' t) = ws_eidx (wlocals s t)"
        using into_end [OF ok] step.prems(2) by blast
      then have "WFRING_EIDX_DEQ < ej_eidx j" using index_reachable [OF step.hyps(1) o, of t] by simp
      then show ?thesis using j ok by simp
    qed (use step.prems(2) in \<open>simp_all add: wf_enq_call_def wf_deq_call_def wf_count_def Let_def split: if_split_asm\<close>)
  qed
qed

lemma own_dequeuing:
  assumes r: "wf_reachable order links k s" "k \<le> 2 ^ 63" and o: "0 < order" "order < 64"
    and eq: "ws_seq2 (wlocals s u) = ws_seq1 (wlocals s u)" "ws_eidx (wlocals s u) = WFRING_EIDX_DEQ"
  shows "wf_slow_dequeuing (wpcs s u)"
proof -
  have ok: "own_ok (wlocals s u) (wpcs s u)" using wf_reachable_requests [OF r] by (simp add: wf_requests_def)
  then have "wf_requesting (wpcs s u)" using own_requesting eq(1) by blast
  moreover have "\<not> wf_slow_enqueuing (wpcs s u)"
  proof
    assume "wf_slow_enqueuing (wpcs s u)"
    then consider j seq a where "wpcs s u = S_run j (Own_request seq) a" | seq where "wpcs s u = S_end seq"
      by (cases "wpcs s u" rule: wf_slow_enqueuing.cases) auto
    then show False
    proof cases
      case 1
      then show ?thesis using index_reachable [OF r(1) o, of u] ok eq(2) by auto
    next
      case 2
      then show ?thesis using end_index [OF r(1) o r(2) 2] eq(2) by simp
    qed
  qed
  ultimately show ?thesis by (simp add: wf_requesting_def)
qed

text \<open>What the two kinds of helpers bring along, and that a slow enqueue is left when its request is over.\<close>

lemma helping:
  assumes "wf_requests k s" and "wf_helped (wpcs s t) = Some u"
  shows "helper_ok (wlocals s u) (wpcs s t)"
  using assms by (simp add: wf_requests_def)

lemma request_current:
  assumes "wf_requests k s" and "unat (ws_seq1 (wlocals s u)) \<le> unat (ws_seq2 (wlocals s u))"
  shows "ws_seq2 (wlocals s u) = ws_seq1 (wlocals s u)"
proof -
  have "unat (ws_seq2 (wlocals s u)) \<le> unat (ws_seq1 (wlocals s u))" using assms(1) by (simp add: wf_requests_def seq_ok_def)
  then show ?thesis using assms(2) by (simp add: word_unat_eq_iff)
qed

lemma joins_enqueue:
  assumes r: "wf_requests k s" and "\<not> wf_working (wpcs s t)" "wpcs (wf_thread order t spurious s) t = S_run j (For_other u r) a"
  shows "j = \<lparr> ej_thread = u, ej_eidx = ws_eidx (wlocals s u), ej_seq = ws_seq1 (wlocals s u), ej_nonempty = resume_nonempty r \<rparr> \<and>
    a = A_inc (I_load (ws_initTail (wlocals s u))) \<and> wf_slow_enqueuing (wpcs s u)"
proof -
  obtain tail where e: "wpcs s t = H_enq_seq1 u r (ws_seq1 (wlocals s u)) (ej_eidx j) tail" "a = A_inc (I_load tail)"
    "j = \<lparr> ej_thread = u, ej_eidx = ej_eidx j, ej_seq = ws_seq1 (wlocals s u), ej_nonempty = resume_nonempty r \<rparr>"
    using enter_enqueue [OF assms(2,3)] by blast
  have h: "unat (ws_seq1 (wlocals s u)) \<le> unat (ws_seq2 (wlocals s u))" "WFRING_EIDX_DEQ < ej_eidx j"
    "ej_eidx j = ws_eidx (wlocals s u)" "tail = ws_initTail (wlocals s u)"
    using helping [OF r, of t u] e(1) by auto
  have "own_ok (wlocals s u) (wpcs s u)" using r by (simp add: wf_requests_def)
  then have "wf_slow_enqueuing (wpcs s u)" using own_enqueuing [OF _ request_current [OF r h(1)]] h(2,3) by auto
  then show ?thesis using e(2,3) h(3,4) by simp
qed

lemma joins_dequeue:
  assumes r: "wf_reachable order links k s" "k \<le> 2 ^ 63" and o: "0 < order" "order < 64"
    and "\<not> wf_working (wpcs s t)" "wpcs (wf_thread order t spurious s) t = T_run d (For_other u r) b"
  shows "d = \<lparr> dj_thread = u, dj_nonempty = resume_nonempty r \<rparr> \<and> ws_eidx (wlocals s u) = WFRING_EIDX_DEQ \<and>
    b = B_inc (I_load (ws_initHead (wlocals s u))) \<and> wf_slow_dequeuing (wpcs s u)"
proof -
  note q = wf_reachable_requests [OF r]
  obtain eidx head where e: "wpcs s t = H_deq_seq1 u r (ws_seq1 (wlocals s u)) eidx head" "b = B_inc (I_load head)"
    "d = \<lparr> dj_thread = u, dj_nonempty = resume_nonempty r \<rparr>"
    using enter_dequeue [OF assms(5,6)] by blast
  have h: "unat (ws_seq1 (wlocals s u)) \<le> unat (ws_seq2 (wlocals s u))" "ws_eidx (wlocals s u) = WFRING_EIDX_DEQ"
    "head = ws_initHead (wlocals s u)"
    using helping [OF q, of t u] e(1) by auto
  then show ?thesis using e(2,3) own_dequeuing [OF r o request_current [OF q h(1)] h(2)] by simp
qed

lemma helps_enqueue:
  assumes r: "wf_requests k s" and pc: "wpcs s t = S_run j (For_other u r) a"
  shows "ej_thread j = u \<and> (if ej_seq j = ws_seq1 (wlocals s u) then ej_eidx j = ws_eidx (wlocals s u) \<and> wf_slow_enqueuing (wpcs s u)
     else \<forall>tail. a = A_seq tail \<longrightarrow> wpcs (wf_thread order t spurious s) t = H_next u r)"
proof -
  have h: "ej_thread j = u" "unat (ej_seq j) \<le> unat (ws_seq2 (wlocals s u))" "WFRING_EIDX_DEQ < ej_eidx j"
    "ej_seq j = ws_seq1 (wlocals s u) \<Longrightarrow> ej_eidx j = ws_eidx (wlocals s u)"
    using helping [OF r, of t u] pc by simp_all
  have "wf_slow_enqueuing (wpcs s u)" if e: "ej_seq j = ws_seq1 (wlocals s u)"
  proof -
    have "own_ok (wlocals s u) (wpcs s u)" using r by (simp add: wf_requests_def)
    then show ?thesis using own_enqueuing [OF _ request_current [OF r h(2) [unfolded e]]] h(3) h(4) [OF e] by auto
  qed
  then show ?thesis using h(1,4) pc by (auto simp: wf_thread_def wf_slow_enq_def)
qed

lemma helps_dequeue: "wf_requests k s \<Longrightarrow> wpcs s t = T_run d (For_other u r) b \<Longrightarrow> dj_thread d = u"
  using helping [of k s t u] by simp

section \<open>Counting operations\<close>

text \<open>
  An operation that gets past the test of the threshold counts down; leaving the help starts the count anew.
  \<open>wf_counted order links t k n s\<close>: \<open>s\<close> is reached in \<open>k\<close> steps, and thread \<open>t\<close> has begun \<open>n\<close> such operations since
  the start or since it last left the help.
\<close>

definition wf_begins :: "wf_pc \<Rightarrow> wf_pc \<Rightarrow> bool" where
  "wf_begins pc pc' \<longleftrightarrow> pc = Wf_idle \<and> pc' \<noteq> Wf_idle \<and> pc' \<noteq> R_threshold \<or>
     pc = R_threshold \<and> pc' \<noteq> R_threshold \<and> pc' \<noteq> R_done WFRING_EMPTY"

definition wf_ops_after :: "wf_pc \<Rightarrow> wf_pc \<Rightarrow> nat \<Rightarrow> nat" where
  "wf_ops_after pc pc' n =
     (if wf_leaving pc \<noteq> None \<and> wf_leaving pc' = None then 0 else if wf_begins pc pc' then n + 1 else n)"

inductive wf_counted :: "nat \<Rightarrow> (nat \<Rightarrow> nat) \<Rightarrow> nat \<Rightarrow> nat \<Rightarrow> nat \<Rightarrow> wf_state \<Rightarrow> bool" for order links t where
  start: "wf_initial order links s \<Longrightarrow> wf_counted order links t 0 0 s"
| step: "wf_counted order links t k n s \<Longrightarrow> wf_step order s s' \<Longrightarrow>
    wf_counted order links t (k + 1) (wf_ops_after (wpcs s t) (wpcs s' t) n) s'"

lemma counted_reachable: "wf_counted order links t k n s \<Longrightarrow> wf_reachable order links k s"
  by (induction rule: wf_counted.induct) (blast intro: wf_reachable.start wf_reachable.step)+

lemma reachable_counted: "wf_reachable order links k s \<Longrightarrow> \<exists>n. wf_counted order links t k n s"
  by (induction rule: wf_reachable.induct) (blast intro: wf_counted.start wf_counted.step)+

lemma ops_same [simp]: "wf_ops_after pc pc n = n"
  by (cases "wf_leaving pc") (simp_all add: wf_ops_after_def wf_begins_def)

lemma ops_count:
  assumes "wf_leaving pc = None" "pc = Wf_idle \<or> pc = R_threshold" "0 < ws_nextCheck (wlocals s t)"
    and "n + ws_nextCheck (wlocals s t) = N"
  shows "wf_ops_after pc (wpcs (wf_count t r s) t) n + ws_nextCheck (wlocals (wf_count t r s) t) = N"
  using assms by (cases r) (auto simp: wf_ops_after_def wf_begins_def wf_count_def Let_def)

lemma next_kept:
  assumes "wpcs s t \<noteq> R_threshold" "wf_leaving (wpcs s t) = None"
  shows "ws_nextCheck (wlocals (wf_thread order t spurious s) t) = ws_nextCheck (wlocals s t)"
proof -
  have p: "fst (wf_own (wlocals (snd (wf_do_enqueue_slow order j spurious a s)) t)) = fst (wf_own (wlocals s t))"
    "fst (wf_own (wlocals (snd (wf_do_dequeue_slow order d spurious b s)) t)) = fst (wf_own (wlocals s t))"
    "fst (wf_own (wlocals (snd (wf_catchup spurious c s)) t)) = fst (wf_own (wlocals s t))"
    "fst (wf_own (wlocals (snd (wf_lookup t tail l s)) t)) = fst (wf_own (wlocals s t))" for j a d b c tail l
    by (simp_all only: own_slow own_parts)
  show ?thesis
    using assms p unfolding wf_thread_def
    by (cases "wpcs s t") (simp_all add: wf_thread_parts Let_def case_prod_beta wf_own_def)
qed

lemma ops_thread:
  assumes h: "help_ok m t (fst (wf_own (wlocals s t))) (wpcs s t)" and n: "n + ws_nextCheck (wlocals s t) = WFRING_DELAY"
  shows "wf_ops_after (wpcs s t) (wpcs (wf_thread order t spurious s) t) n +
    ws_nextCheck (wlocals (wf_thread order t spurious s) t) = WFRING_DELAY"
proof -
  consider "wpcs s t = Wf_idle" | "wpcs s t = R_threshold" | u r where "wpcs s t = H_last u r"
    | "wpcs s t \<noteq> Wf_idle" "wpcs s t \<noteq> R_threshold" "wf_leaving (wpcs s t) = None"
    by (cases "wpcs s t") auto
  then show ?thesis
  proof cases
    case 1
    then have "wf_thread order t spurious s = s" by (simp add: wf_thread_def)
    then show ?thesis using n by simp
  next
    case 2
    have "0 < ws_nextCheck (wlocals s t)" using h 2 by (simp add: help_ok_def wf_own_def)
    then show ?thesis using 2 n ops_count [of R_threshold s t n WFRING_DELAY "To_dequeue False"]
      by (simp add: wf_thread_def wf_deq_threshold_def) (simp add: wf_ops_after_def wf_begins_def)
  next
    case 3
    then show ?thesis by (simp add: wf_thread_def upd_local_def wf_ops_after_def)
  next
    case 4
    then show ?thesis using n next_kept [OF 4(2,3)] by (simp add: wf_ops_after_def wf_begins_def)
  qed
qed

lemma counted_sum:
  assumes "wf_counted order (\<lambda>t. Suc t mod m) t k n s" and m: "2 \<le> m" "t < m"
  shows "n + ws_nextCheck (wlocals s t) = WFRING_DELAY"
  using assms(1)
proof (induction rule: wf_counted.induct)
  case (start s)
  then show ?case by (cases rule: wf_initial.cases) (simp_all add: wf_start_def wf_init_state_def)
next
  case (step k n s s')
  have h: "help_ok m t (fst (wf_own (wlocals s t))) (wpcs s t)"
    using wf_reachable_circle [OF counted_reachable [OF step.hyps(1)] m(1)] m(2) unfolding wf_circle_def by blast
  from step.hyps(2) obtain u where other: "\<And>i. i \<noteq> u \<Longrightarrow> wpcs s' i = wpcs s i \<and> wf_own (wlocals s' i) = wf_own (wlocals s i)"
    and st: "wpcs s u = Wf_idle \<and> (\<exists>eidx ne. s' = wf_enq_call order u eidx ne s) \<or>
      wpcs s u = Wf_idle \<and> (\<exists>ne. s' = wf_deq_call u ne s) \<or> (\<exists>spurious. s' = wf_thread order u spurious s)"
    by (rule own_step_other) blast
  show ?case
  proof (cases "u = t")
    case False
    then have "wpcs s' t = wpcs s t" "ws_nextCheck (wlocals s' t) = ws_nextCheck (wlocals s t)"
      using other [of t] by (auto simp: wf_own_def)
    then show ?thesis using step.IH by simp
  next
    case True
    have pos: "wpcs s t = Wf_idle \<Longrightarrow> 0 < ws_nextCheck (wlocals s t)" using h by (simp add: help_ok_def wf_own_def)
    have idle: "wf_ops_after Wf_idle (wpcs (wf_count t r s) t) n + ws_nextCheck (wlocals (wf_count t r s) t) = WFRING_DELAY"
      if "wpcs s t = Wf_idle" for r
      using ops_count [OF _ _ pos [OF that] step.IH, of Wf_idle r] by simp
    from st show ?thesis
      unfolding True using idle step.IH ops_thread [OF h step.IH]
      by (auto simp: wf_enq_call_def wf_deq_call_def) (simp_all add: wf_ops_after_def wf_begins_def)
  qed
qed

lemma leaving_turn:
  assumes c: "wf_circle m s" and t: "2 \<le> m" "t < m" and l: "wf_leaving (wpcs s t) \<noteq> None"
  shows "ws_currThread (wlocals (wf_thread order t spurious s) t) =
    (if ws_currThread (wlocals s t) = t then Suc t mod m else (ws_currThread (wlocals s t) + 2) mod m)"
proof -
  define c where "c = ws_currThread (wlocals s t)"
  have ok: "help_ok m i (fst (wf_own (wlocals s i))) (wpcs s i)" if "i < m" for i
    using assms(1) that by (simp add: wf_circle_def)
  obtain v r where pc: "wpcs s t = H_last v r" using l by (cases "wpcs s t") simp_all
  have v: "if c = t then v = t else v = Suc c mod m" using ok [OF t(2)] pc by (auto simp: help_ok_def wf_own_def c_def split: if_splits)
  then have "v < m" using t by (auto split: if_splits)
  then have "wf_next (wlocals s v) = Suc v mod m" by (intro wf_next_own) (use ok in \<open>auto simp: help_ok_def wf_own_def\<close>)
  then have "ws_currThread (wlocals (wf_thread order t spurious s) t) = Suc v mod m" using pc by (simp add: wf_thread_def upd_local_def)
  then show ?thesis using v by (auto simp: c_def mod_simps split: if_splits)
qed

end
