(* ===== verification/Wf_Lost.thy ===== *)
theory Wf_Lost
  imports Wf_Safety Wf_Help
begin

text \<open>
  The slow path of the enqueue of the wait-free ring (wfring_cas2.h) at work: what an increment of the shared
  counter does when no other thread interferes, and a run of two threads in which an enqueue returns without
  having stored its index.
\<close>

unbundle bit_operations_syntax

section \<open>Rounds that miss\<close>

text \<open>The comparison of an entry with a position, from the slot.\<close>

lemma slot_before:
  assumes o: "2 \<le> order" "order < 60" and pos: "unat pos < 2 ^ 60"
    and c: "- 1 \<le> s_cycle (wf_slots order s (unat pos div 4))" "2 ^ (order + 1) * s_cycle (wf_slots order s (unat pos div 4)) \<le> 2 ^ 60"
  shows "cmp_less (wf_cycle order (wf_at order s pos)) (wf_cycle order pos) \<longleftrightarrow>
      s_cycle (wf_slots order s (unat pos div 4)) < int (unat pos div 4 div 2 ^ (order + 1))"
    and "wf_cycle order (wf_at order s pos) = wf_cycle order pos \<longleftrightarrow>
      s_cycle (wf_slots order s (unat pos div 4)) = int (unat pos div 4 div 2 ^ (order + 1))"
proof -
  have o60: "order \<le> 60" using o by simp
  have w: "wf_slots order s (unat pos div 4) = wf_view order (wf_at order s pos)" by (rule wf_slots_at [OF o(1) o60])
  have p: "unat pos < 2 ^ 61" using pos by simp
  note t = wf_cycle_tests [OF o(2) p c(1) [unfolded w wf_view_sel] c(2) [unfolded w wf_view_sel]]
  show "cmp_less (wf_cycle order (wf_at order s pos)) (wf_cycle order pos) \<longleftrightarrow>
      s_cycle (wf_slots order s (unat pos div 4)) < int (unat pos div 4 div 2 ^ (order + 1))"
    unfolding w wf_view_sel by (rule t(1))
  show "wf_cycle order (wf_at order s pos) = wf_cycle order pos \<longleftrightarrow>
      s_cycle (wf_slots order s (unat pos div 4)) = int (unat pos div 4 div 2 ^ (order + 1))"
    unfolding w wf_view_sel by (rule t(2))
qed

lemma small_cycle: "c < int (p div N) \<Longrightarrow> 0 < N \<Longrightarrow> p \<le> X \<Longrightarrow> int N * c \<le> int X" for N :: nat
proof -
  assume c: "c < int (p div N)" and N: "0 < N" and p: "p \<le> X"
  have "int N * c \<le> int N * int (p div N)" using c N by (intro mult_left_mono) simp_all
  also have "\<dots> = int (N * (p div N))" by simp
  also have "\<dots> \<le> int p" by (simp only: of_nat_le_iff) (rule times_div_less_eq_dividend)
  finally show ?thesis using p by simp
qed

text \<open>A dequeue passes an empty slot of an earlier cycle and spoils it for the enqueue with its position.\<close>

lemma deq_round:
  assumes o: "2 \<le> order" "order < 60" and pc: "wpcs s t = R_ticket True k" and k: "1 < k"
    and h: "wf_entry (wr_head (wring s)) = h" "unat h < 2 ^ 60" and len: "length (wr_array (wring s)) = 2 ^ (order + 1)"
    and slot: "s_held (wf_slots order s (unat h div 4)) = None" "- 1 \<le> s_cycle (wf_slots order s (unat h div 4))"
      "s_cycle (wf_slots order s (unat h div 4)) < int (unat h div 4 div 2 ^ (order + 1))"
  defines "s' \<equiv> wf_run order [t, t, t] s"
  shows "wpcs s' = (wpcs s)(t := R_ticket True (k - 1))" "wf_entry (wr_head (wring s')) = h + 4"
    "wr_tail (wring s') = wr_tail (wring s)" "length (wr_array (wring s')) = 2 ^ (order + 1)" "wlocals s' = wlocals s"
    "w_put s' = w_put s" "w_taken s' = w_taken s"
    "wf_slots order s' = upd_slot order (wf_slots order s) (unat h div 4)
      \<lparr> s_cycle = int (unat h div 4 div 2 ^ (order + 1)), s_safe = s_safe (wf_slots order s (unat h div 4)), s_held = None \<rparr>"
proof -
  have o60: "order \<le> 60" using o by simp
  define e where "e = wf_at order s h"
  define e' where "e' = (wf_cycle order h XOR (NOT e AND 2 * wf_n order) XOR 1)"
  define s1 where "s1 = wset_head (with_entry (wr_head (wring s)) (h + 4)) s"
  have w: "wf_slots order s (unat h div 4) = wf_view order e" unfolding e_def by (rule wf_slots_at [OF o(1) o60])
  have "unat h div 4 \<le> 2 ^ 60" using h(2) by simp
  from small_cycle [OF slot(3) _ this] have b: "2 ^ (order + 1) * s_cycle (wf_slots order s (unat h div 4)) \<le> 2 ^ 60" by simp
  note c = slot_before [OF o h(2) slot(2) b, folded e_def]
  have at: "wf_at order (wgoto t pc s1) h = e" "wf_pair_at order (wgoto t pc s1) h = wf_pair_at order s h" for pc
    by (simp_all add: e_def wf_at_def wf_pair_at_def s1_def wset_head_def wgoto_def)
  have "wf_deq_check order t True k h e = R_cas True k h e e'"
    using c slot(3) wf_tests(3) [OF o(2), of e] slot(1) by (simp add: wf_deq_check_def Let_def w e'_def)
  moreover have "wf_thread order t False s = wgoto t (R_entry True k h) s1"
    using pc h(1) by (simp add: wf_thread_def wf_take_head_def Let_def s1_def)
  moreover have "wgoto t p (wgoto t q x) = wgoto t p x" for p q x by (simp add: wgoto_def)
  ultimately have s': "s' = wgoto t (R_ticket True (k - 1)) ((set_entry order h e' s1)\<lparr> w_given := insert (unat h div 4) (w_given s) \<rparr>)"
    using k unfolding s'_def
    by (simp add: wf_thread_def wf_deq_entry_def wf_deq_cas_def wkeep_or_give_up_def at wf_missed_def wf_deq_again_def)
      (simp add: wgoto_def set_entry_def set_slot_def s1_def wset_head_def wf_pair_at_def)
  have view: "wf_view order e' = \<lparr> s_cycle = int (unat h div 4 div 2 ^ (order + 1)), s_safe = s_safe (wf_slots order s (unat h div 4)), s_held = None \<rparr>"
    using advanced_view [OF o(2), of h e] wf_pos_cycle(2) [OF o(2), of h] h(2) by (simp add: e'_def w)
  have cong: "wf_slots order s' = wf_slots order (set_entry order h e' s1)" unfolding s' by (rule wf_slots_cong) (simp add: wgoto_def)
  have len1: "length (wr_array (wring s1)) = 2 ^ (order + 1)" "wf_slots order s1 = wf_slots order s"
    using len wf_slots_cong [of s1 s] by (simp_all add: s1_def wset_head_def)
  show "wf_slots order s' = upd_slot order (wf_slots order s) (unat h div 4)
      \<lparr> s_cycle = int (unat h div 4 div 2 ^ (order + 1)), s_safe = s_safe (wf_slots order s (unat h div 4)), s_held = None \<rparr>"
    unfolding cong set_entry_def wf_slots_set [OF o(1) o60 len1(1)] len1(2) by (simp add: view)
  show "wpcs s' = (wpcs s)(t := R_ticket True (k - 1))" "wf_entry (wr_head (wring s')) = h + 4"
    "wr_tail (wring s') = wr_tail (wring s)" "length (wr_array (wring s')) = 2 ^ (order + 1)" "wlocals s' = wlocals s"
    "w_put s' = w_put s" "w_taken s' = w_taken s"
    using len unfolding s' by (simp_all add: s1_def set_entry_def set_slot_def wset_head_def wgoto_def)
qed

text \<open>An enqueue that finds the slot of its position at the cycle of the position.\<close>

lemma enq_round:
  assumes o: "2 \<le> order" "order < 60" and pc: "wpcs s t = Q_ticket x ne k"
    and tail: "wr_tail (wring s) = wf_pair tail 0" "unat tail < 2 ^ 60"
    and slot: "int (unat tail div 4 div 2 ^ (order + 1)) \<le> s_cycle (wf_slots order s (unat tail div 4))"
      "2 ^ (order + 1) * s_cycle (wf_slots order s (unat tail div 4)) \<le> 2 ^ 60"
  defines "s' \<equiv> wf_run order [t, t] s"
  shows "s' = wgoto t (wf_enq_again x ne k tail) (wset_tail (wf_pair (tail + 4) 0) s)"
proof -
  have o60: "order \<le> 60" using o by simp
  define s1 where "s1 = wset_tail (wf_pair (tail + 4) 0) s"
  have at: "wf_at order (wgoto t pc s1) tail = wf_at order s tail" for pc
    by (simp add: wf_at_def wf_pair_at_def s1_def wset_tail_def wgoto_def)
  have "0 \<le> int (unat tail div 4 div 2 ^ (order + 1))" by simp
  then have "- 1 \<le> s_cycle (wf_slots order s (unat tail div 4))" using slot(1) by linarith
  from slot_before(1) [OF o tail(2) this slot(2)]
  have "\<not> cmp_less (wf_cycle order (wf_at order s tail)) (wf_cycle order tail)" using slot(1) by simp
  then have "wf_enq_check order x ne k tail (wf_at order s tail) = wf_enq_again x ne k tail" by (simp add: wf_enq_check_def Let_def)
  moreover have "wf_thread order t False s = wgoto t (Q_entry x ne k tail) s1"
    using pc tail(1) by (simp add: wf_thread_def wf_take_tail_def Let_def s1_def with_entry_def)
  ultimately show ?thesis unfolding s'_def s1_def [symmetric] by (simp add: wf_thread_def wf_enq_entry_def at) (simp add: wgoto_def)
qed

section \<open>The slow path alone\<close>

lemma inc_thread:
  assumes "wpcs s t = S_run j bk (A_inc i)"
  shows "wf_slow_inc Tail_side False (ej_thread j) i s = (Inl i', s') \<Longrightarrow> wf_thread order t False s = wgoto t (S_run j bk (A_inc i')) s'"
    and "wf_slow_inc Tail_side False (ej_thread j) i s = (Inr (Some tail), s') \<Longrightarrow> wf_thread order t False s = wgoto t (S_run j bk (A_seq tail)) s'"
    and "wf_slow_inc Tail_side False (ej_thread j) i s = (Inr None, s') \<Longrightarrow> wf_thread order t False s = wgoto t (back_pc bk) s'"
  using assms by (simp_all add: wf_thread_def wf_slow_enq_def)

text \<open>
  An increment that nobody disturbs takes the value \<open>cnt\<close> of the global counter and leaves \<open>cnt + 1\<close> there:
  eleven steps of the thread.
\<close>

definition inc_result :: "nat \<Rightarrow> u64 \<Rightarrow> wf_state \<Rightarrow> wf_state" where
  "inc_result t cnt s =
     (let seq = ph_seq1 (wf_phase2_at s t) + 1
      in wset_tail (wf_pair (cnt + 1) 0)
           (upd_local t (\<lambda>l. l\<lparr> ws_tail := cnt, ws_phase2 := \<lparr> ph_seq1 = seq, ph_local = (Tail_side, t), ph_cnt = cnt, ph_seq2 = seq \<rparr> \<rparr>) s))"

lemma inc_alone:
  assumes pc: "wpcs s t = S_run j bk (A_inc (I_load prev))" and j: "ej_thread j = t" and l: "ws_tail (wlocals s t) = prev"
    and prev: "prev AND 1 = 0" and g: "wr_tail (wring s) = wf_pair cnt 0"
  shows "wf_run order (replicate 11 t) s = wgoto t (S_run j bk (A_seq cnt)) (inc_result t cnt s)"
proof -
  have n: "replicate 11 t = [t, t, t, t, t, t, t, t, t, t, t]" by (simp add: numeral_eq_Suc)
  show ?thesis
    using pc j l prev g unfolding n
    by (simp add: wf_thread_def wf_slow_enq_def Let_def inc_phase2_def phase2_enter_def WFRING_FIN_def WFRING_INC_def
      wset_local_def wset_phase2_def wf_phase2_at_def cas_counter_def wset_tail_def wgoto_def inc_result_def upd_local_def fun_eq_iff)
qed

lemma wf_run_append: "wf_run order (ts @ us) s = wf_run order us (wf_run order ts s)"
  by (induction ts arbitrary: s) simp_all

lemma wgoto_wgoto [simp]: "wgoto t p (wgoto t q s) = wgoto t p s"
  by (simp add: wgoto_def)

lemma wf_slots_frame [simp]:
  "wf_slots order (wgoto t pc s) = wf_slots order s" "wf_slots order (wset_tail v s) = wf_slots order s"
  "wf_slots order (upd_local t f s) = wf_slots order s" "wf_slots order (inc_result t cnt s) = wf_slots order s"
  by (rule wf_slots_cong; simp add: wgoto_def wset_tail_def upd_local_def wset_local_def inc_result_def Let_def)+

lemma wf_at_frame [simp]:
  "wf_at order (wgoto t pc s) pos = wf_at order s pos" "wf_pair_at order (wgoto t pc s) pos = wf_pair_at order s pos"
  by (simp_all add: wf_at_def wf_pair_at_def wgoto_def)

text \<open>A position whose slot was overtaken is skipped; what the note says does not matter.\<close>

lemma slow_reject:
  assumes o: "2 \<le> order" "order < 60" and pc: "wpcs s t = S_run j bk (A_seq tail)" and pos: "unat tail < 2 ^ 60"
    and seq: "ws_seq1 (wlocals s (ej_thread j)) = ej_seq j"
    and slot: "int (unat tail div 4 div 2 ^ (order + 1)) \<le> s_cycle (wf_slots order s (unat tail div 4))"
      "2 ^ (order + 1) * s_cycle (wf_slots order s (unat tail div 4)) \<le> 2 ^ 60"
  shows "wf_run order [t, t, t] s = wgoto t (S_run j bk (A_inc (I_load tail))) s"
proof -
  have "0 \<le> int (unat tail div 4 div 2 ^ (order + 1))" by simp
  then have "- 1 \<le> s_cycle (wf_slots order s (unat tail div 4))" using slot(1) by linarith
  from slot_before(1) [OF o pos this slot(2)]
  have "\<not> cmp_less (wf_cycle order (wf_at order s tail)) (wf_cycle order tail)" using slot(1) by simp
  then have "enq_slow_check order tail (wf_pair (wf_at order s tail) note) = Some (A_inc (I_load tail))" for "note"
    by (simp add: enq_slow_check_def Let_def)
  then show ?thesis using pc seq by (simp add: wf_thread_def wf_slow_enq_def)
qed

text \<open>The request, and the end of a slow enqueue whose local counter has the bit \<open>FIN\<close>.\<close>

lemma slow_request:
  assumes "wpcs s t = S_seq1 x ne tail"
  shows "wf_run order [t, t, t, t, t] s =
    wgoto t (S_run \<lparr> ej_thread = t, ej_eidx = x, ej_seq = ws_seq1 (wlocals s t), ej_nonempty = ne \<rparr>
        (Own_request (ws_seq1 (wlocals s t))) (A_inc (I_load tail)))
      (upd_local t (\<lambda>l. l\<lparr> ws_tail := tail, ws_initTail := tail, ws_eidx := x, ws_seq2 := ws_seq1 l \<rparr>) s)"
  using assms by (simp add: wf_thread_def upd_local_def wset_local_def wgoto_def fun_eq_iff)

lemma slow_exit:
  assumes pc: "wpcs s t = S_run j (Own_request seq) (A_inc (I_load prev))" and j: "ej_thread j = t"
    and fin: "ws_tail (wlocals s t) AND 1 \<noteq> 0"
  shows "wf_run order [t, t, t, t, t] s =
    wgoto t Wf_idle (upd_local t (\<lambda>l. l\<lparr> ws_seq1 := seq + 1, ws_eidx := WFRING_EIDX_TERM \<rparr>) s)"
  using assms by (simp add: wf_thread_def wf_slow_enq_def upd_local_def wset_local_def wgoto_def WFRING_FIN_def fun_eq_iff)

text \<open>
  Three more ways in which the slow paths differ from the fast ones. The entry is stored without the final bit,
  and the exchange that is to finalise it expects an entry that has the bit already, so it never changes the
  slot it has just filled; an unsafe slot, which the fast enqueue takes when the head has not passed it, is
  skipped by the slow one, which tests the wrong bit; and a lookup with a position whose flag \<open>FIN\<close> is set, as
  the slow dequeue makes it, finds no enqueue to finish.
\<close>

lemma finalise_keeps:
  assumes "order < 60" and "wf_at order s tail = wf_cycle order tail XOR ej_eidx j XOR wf_n order"
  shows "wf_do_enqueue_slow order j spurious (A_final tail) s = (enq_slow_stored j, s)"
proof -
  define w where "w = wf_cycle order tail XOR ej_eidx j"
  have n: "wf_n order \<noteq> 0" using ring_n_unat [of order] assms(1) by (auto simp: wf_n_ring)
  have at: "wf_at order s tail = w XOR wf_n order" unfolding assms(2) w_def by (rule xor.assoc [symmetric])
  have "w XOR wf_n order \<noteq> w"
  proof
    assume "w XOR wf_n order = w"
    then have "w XOR (w XOR wf_n order) = w XOR w" by simp
    then show False using n by (simp add: xor.assoc [symmetric])
  qed
  then show ?thesis by (simp add: Let_def at flip: w_def)
qed

lemma unsafe_slot_skipped:
  assumes o: "order < 60" and e: "\<not> e_safe (order + 1) e" "wf_empty order e"
    and c: "cmp_less (wf_cycle order e) (wf_cycle order tail)" "cmp_less note (wf_cycle order tail)"
  shows "wf_enq_check order x ne k tail e = Q_head x ne k tail e"
    and "enq_slow_check order tail (wf_pair e note) = Some (A_skip tail (wf_pair e note))"
proof -
  show "wf_enq_check order x ne k tail e = Q_head x ne k tail e"
    using wf_tests(1,2) [OF o, of e] e c by (simp add: wf_enq_check_def Let_def)
  have n: "bit (wf_n order) i \<longleftrightarrow> i = order + 1" for i unfolding wf_n_ring ring_n_bits(1) bit_one_at using o by auto
  have "bit (e OR 1) (order + 1)" using e(2) unfolding wf_emptyI [OF o] bit_or_iff by simp
  moreover have "\<not> bit (wf_cycle order e XOR wf_n order) (order + 1)"
    using o unfolding bit_xor_iff n wf_cycle_entry full_bit by simp
  ultimately have t: "e OR 1 \<noteq> wf_cycle order e XOR wf_n order" by metis
  have "e OR (2 * wf_n order + wf_n order) \<noteq> wf_cycle order tail"
  proof
    assume a: "e OR (2 * wf_n order + wf_n order) = wf_cycle order tail"
    have "wf_cycle order e = wf_cycle order tail"
    proof (rule bit_word_eqI)
      fix i assume "i < LENGTH(64)"
      have b: "bit (2 * wf_n order + wf_n order) i \<Longrightarrow> i < order + 3"
      proof -
        have m: "bit (2 * wf_n order) i \<longleftrightarrow> i = order + 2" for i
          unfolding wf_n_double ring_n_bits(1) bit_one_at using o by auto
        have "2 * wf_n order AND wf_n order = 0" by (rule bit_word_eqI) (unfold bit_and_iff m n, simp)
        then have "2 * wf_n order + wf_n order = 2 * wf_n order OR wf_n order" by (rule disjunctive_add_eq_or)
        then show "bit (2 * wf_n order + wf_n order) i \<Longrightarrow> i < order + 3"
          unfolding \<open>2 * wf_n order + wf_n order = 2 * wf_n order OR wf_n order\<close> bit_or_iff m n by auto
      qed
      have "bit (wf_cycle order tail) i \<longleftrightarrow> bit e i \<or> bit (2 * wf_n order + wf_n order) i"
        unfolding a [symmetric] bit_or_iff ..
      then show "bit (wf_cycle order e) i = bit (wf_cycle order tail) i"
        using b \<open>i < LENGTH(64)\<close> unfolding wf_cycle_entry full_bit by auto
    qed
    then show False using c(1) by (simp add: cmp_less_def)
  qed
  then show "enq_slow_check order tail (wf_pair e note) = Some (A_skip tail (wf_pair e note))"
    using wf_tests(1) [OF o, of e] e c t by (simp add: enq_slow_check_def enq_slow_other_def Let_def)
qed

lemma lookup_passes_on:
  assumes "tail AND 3 \<noteq> 0"
  shows "wf_lookup t tail (K_tail u) s = (Some (K_next u), s)"
proof -
  have "ws_tail (wlocals s u) AND NOT 3 \<noteq> tail"
  proof
    assume "ws_tail (wlocals s u) AND NOT 3 = tail"
    then have "tail AND 3 = (ws_tail (wlocals s u) AND NOT 3) AND 3" by simp
    also have "\<dots> = ws_tail (wlocals s u) AND (NOT 3 AND 3)" by (rule and.assoc)
    finally show False using assms by simp
  qed
  then show ?thesis by simp
qed

section \<open>A lost index\<close>

text \<open>A dequeue that goes through \<open>p\<close> positions of an empty ring.\<close>

definition passed :: "nat \<Rightarrow> nat \<Rightarrow> wf_state \<Rightarrow> bool" where
  "passed order p s \<longleftrightarrow> (\<forall>q. s_held (wf_slots order s q) = None \<and> s_safe (wf_slots order s q) \<and> - 1 \<le> s_cycle (wf_slots order s q) \<and>
     2 ^ (order + 1) * s_cycle (wf_slots order s q) \<le> int p) \<and>
     (\<forall>q < p. int (q div 2 ^ (order + 1)) \<le> s_cycle (wf_slots order s q)) \<and>
     (\<forall>q \<ge> p. s_cycle (wf_slots order s q) < int (q div 2 ^ (order + 1)))"

lemma passed_next:
  assumes "passed order p s" and "wf_slots order s' = upd_slot order (wf_slots order s) p
    \<lparr> s_cycle = int (p div 2 ^ (order + 1)), s_safe = True, s_held = None \<rparr>"
  shows "passed order (Suc p) s'"
proof -
  have n: "int (2 ^ (order + 1) * (p div 2 ^ (order + 1))) \<le> int p" by (simp only: of_nat_le_iff) (rule times_div_less_eq_dividend)
  have up: "q div 2 ^ (order + 1) \<noteq> p div 2 ^ (order + 1)" if "q mod 2 ^ (order + 1) = p mod 2 ^ (order + 1)" "q \<noteq> p" for q
    using pos_unique [OF that(1)] that(2) by blast
  have mono: "a div 2 ^ (order + 1) \<le> b div 2 ^ (order + 1)" if "a \<le> b" for a b :: nat using that by (rule div_le_mono)
  have N: "2 ^ (order + 1) * int (p div 2 ^ (order + 1)) \<le> int p" using n by simp
  show ?thesis
    unfolding passed_def assms(2) upd_at
  proof (intro conjI allI impI)
    fix q :: nat
    show "2 ^ (order + 1) * s_cycle (if q mod 2 ^ (order + 1) = p mod 2 ^ (order + 1)
        then \<lparr> s_cycle = int (p div 2 ^ (order + 1)), s_safe = True, s_held = None \<rparr> else wf_slots order s q) \<le> int (Suc p)"
      using assms(1) [unfolded passed_def, THEN conjunct1, rule_format, of q] N by (simp only: slot.simps split: if_split) linarith
    show "s_held (if q mod 2 ^ (order + 1) = p mod 2 ^ (order + 1)
        then \<lparr> s_cycle = int (p div 2 ^ (order + 1)), s_safe = True, s_held = None \<rparr> else wf_slots order s q) = None"
      "- 1 \<le> s_cycle (if q mod 2 ^ (order + 1) = p mod 2 ^ (order + 1)
        then \<lparr> s_cycle = int (p div 2 ^ (order + 1)), s_safe = True, s_held = None \<rparr> else wf_slots order s q)"
      "s_safe (if q mod 2 ^ (order + 1) = p mod 2 ^ (order + 1)
        then \<lparr> s_cycle = int (p div 2 ^ (order + 1)), s_safe = True, s_held = None \<rparr> else wf_slots order s q)"
      using assms(1) [unfolded passed_def, THEN conjunct1, rule_format, of q] by (auto simp del: of_nat_power intro: order_trans [of _ 0])
  next
    fix q assume q: "q < Suc p"
    show "int (q div 2 ^ (order + 1)) \<le> s_cycle (if q mod 2 ^ (order + 1) = p mod 2 ^ (order + 1)
        then \<lparr> s_cycle = int (p div 2 ^ (order + 1)), s_safe = True, s_held = None \<rparr> else wf_slots order s q)"
    proof (cases "q mod 2 ^ (order + 1) = p mod 2 ^ (order + 1)")
      case True
      have "q div 2 ^ (order + 1) \<le> p div 2 ^ (order + 1)" by (rule mono) (use q in simp)
      then show ?thesis unfolding if_P [OF True] by (simp only: slot.simps of_nat_le_iff)
    next
      case False
      then have "q < p" using q by (cases "q = p") simp_all
      then show ?thesis using False assms(1) unfolding passed_def by simp
    qed
  next
    fix q assume q: "Suc p \<le> q"
    show "s_cycle (if q mod 2 ^ (order + 1) = p mod 2 ^ (order + 1)
        then \<lparr> s_cycle = int (p div 2 ^ (order + 1)), s_safe = True, s_held = None \<rparr> else wf_slots order s q) < int (q div 2 ^ (order + 1))"
    proof (cases "q mod 2 ^ (order + 1) = p mod 2 ^ (order + 1)")
      case True
      have "p div 2 ^ (order + 1) < q div 2 ^ (order + 1)" using mono [of p q] up [OF True] q by linarith
      then show ?thesis unfolding if_P [OF True] by (simp only: slot.simps of_nat_less_iff)
    next
      case False
      then show ?thesis using q assms(1) unfolding passed_def by simp
    qed
  qed
qed

lemma deq_phase:
  assumes o: "2 \<le> order" "order < 60" and pc: "wpcs s t = R_ticket True 64" and h: "wf_entry (wr_head (wring s)) = 0"
    and len: "length (wr_array (wring s)) = 2 ^ (order + 1)" and slots: "passed order 0 s" and p: "p \<le> 62"
  defines "s' \<equiv> wf_run order (replicate (3 * p) t) s"
  shows "wpcs s' = (wpcs s)(t := R_ticket True (64 - p)) \<and> wf_entry (wr_head (wring s')) = word_of_nat (4 * p) \<and>
    wr_tail (wring s') = wr_tail (wring s) \<and> length (wr_array (wring s')) = 2 ^ (order + 1) \<and> wlocals s' = wlocals s \<and>
    w_put s' = w_put s \<and> w_taken s' = w_taken s \<and> passed order p s'"
  using p unfolding s'_def
proof (induction p)
  case (Suc p)
  define s1 where "s1 = wf_run order (replicate (3 * p) t) s"
  note IH = Suc.IH [folded s1_def, OF Suc_leD [OF Suc.prems]]
  have u: "unat (word_of_nat (4 * p) :: u64) = 4 * p" using Suc.prems by (simp only: unat_of_nat) simp
  have k: "64 - p - 1 = 64 - Suc p" "1 < 64 - p" using Suc.prems by simp_all
  have "replicate (3 * Suc p) t = replicate (3 * p) t @ [t, t, t]" by (simp only: mult_Suc_right add.commute [of 3] replicate_add) (simp add: numeral_3_eq_3)
  then have run: "wf_run order (replicate (3 * Suc p) t) s = wf_run order [t, t, t] s1" by (simp only: wf_run_append s1_def)
  have pc1: "wpcs s1 t = R_ticket True (64 - p)" and h1: "wf_entry (wr_head (wring s1)) = word_of_nat (4 * p)"
    and l1: "length (wr_array (wring s1)) = 2 ^ (order + 1)" and P: "passed order p s1" using IH by simp_all
  have s: "s_held (wf_slots order s1 p) = None" "- 1 \<le> s_cycle (wf_slots order s1 p)" "s_cycle (wf_slots order s1 p) < int (p div 2 ^ (order + 1))"
    and sf: "s_safe (wf_slots order s1 p)"
    using P unfolding passed_def by simp_all
  have u4: "unat (word_of_nat (4 * p) :: u64) < 2 ^ 60" "unat (word_of_nat (4 * p) :: u64) div 4 = p" unfolding u using Suc.prems by simp_all
  note R = deq_round [OF o pc1 k(2) h1 u4(1) l1, unfolded u4(2), OF s]
  have "(word_of_nat (4 * p) :: u64) + 4 = word_of_nat (4 * Suc p)" by simp
  then show ?case unfolding run using R(1-7) passed_next [OF P R(8) [unfolded eqTrueI [OF sf]]] IH k(1) by (simp add: fun_eq_iff)
qed (use pc h len slots in \<open>simp_all add: fun_upd_idem\<close>)

lemma enq_phase:
  assumes o: "2 \<le> order" "order < 54" and pc: "wpcs s t = Q_ticket x ne 16" and tail: "wr_tail (wring s) = wf_pair 0 0"
    and slots: "passed order 17 s" and i: "i \<le> 15"
  shows "wf_run order (replicate (2 * i) t) s = wgoto t (Q_ticket x ne (16 - i)) (wset_tail (wf_pair (word_of_nat (4 * i)) 0) s)"
    and "wf_run order (replicate 32 t) s = wgoto t (S_seq1 x ne 60) (wset_tail (wf_pair 64 0) s)"
proof -
  have o60: "order < 60" using o by simp
  have round: "wf_run order [t, t] (wgoto t (Q_ticket x ne k) (wset_tail (wf_pair (word_of_nat (4 * p)) 0) s)) =
      wgoto t (wf_enq_again x ne k (word_of_nat (4 * p))) (wset_tail (wf_pair (word_of_nat (4 * Suc p)) 0) s)" if p: "p \<le> 15" for p k
  proof -
    let ?s = "wgoto t (Q_ticket x ne k) (wset_tail (wf_pair (word_of_nat (4 * p)) 0) s)"
    have u: "unat (word_of_nat (4 * p) :: u64) = 4 * p" using p by (simp only: unat_of_nat) simp
    have u4: "unat (word_of_nat (4 * p) :: u64) < 2 ^ 60" "unat (word_of_nat (4 * p) :: u64) div 4 = p" unfolding u using p by simp_all
    have c: "int (p div 2 ^ (order + 1)) \<le> s_cycle (wf_slots order ?s p)" "2 ^ (order + 1) * s_cycle (wf_slots order ?s p) \<le> 2 ^ 60"
    proof -
      show "int (p div 2 ^ (order + 1)) \<le> s_cycle (wf_slots order ?s p)" using slots p unfolding passed_def by simp
      have "2 ^ (order + 1) * s_cycle (wf_slots order ?s p) \<le> int 17" using slots unfolding passed_def by simp
      then show "2 ^ (order + 1) * s_cycle (wf_slots order ?s p) \<le> 2 ^ 60" by simp
    qed
    have e: "(word_of_nat (4 * p) :: u64) + 4 = word_of_nat (4 * Suc p)" by simp
    have a: "wpcs ?s t = Q_ticket x ne k" "wr_tail (wring ?s) = wf_pair (word_of_nat (4 * p)) 0"
      by (simp_all add: wgoto_def wset_tail_def)
    show ?thesis using enq_round [OF o(1) o60 a u4(1), unfolded u4(2), OF c] unfolding e by (simp add: wgoto_def wset_tail_def)
  qed
  have start: "s = wgoto t (Q_ticket x ne 16) (wset_tail (wf_pair (word_of_nat (4 * 0)) 0) s)"
    unfolding wgoto_def wset_tail_def by (simp add: tail [symmetric] pc [symmetric])
  have runs: "wf_run order (replicate (2 * i) t) s = wgoto t (Q_ticket x ne (16 - i)) (wset_tail (wf_pair (word_of_nat (4 * i)) 0) s)" if "i \<le> 15" for i
    using that
  proof (induction i)
    case (Suc i)
    have "replicate (2 * Suc i) t = replicate (2 * i) t @ [t, t]"
      by (simp only: mult_Suc_right add.commute [of 2] replicate_add) (simp add: numeral_2_eq_2)
    moreover have "wf_enq_again x ne (16 - i) (word_of_nat (4 * i)) = Q_ticket x ne (16 - Suc i)" using Suc.prems by (simp add: wf_enq_again_def)
    ultimately show ?case using Suc.IH round [of i "16 - i"] Suc.prems by (simp only: wf_run_append)
  qed (use start in simp)
  show "wf_run order (replicate (2 * i) t) s = wgoto t (Q_ticket x ne (16 - i)) (wset_tail (wf_pair (word_of_nat (4 * i)) 0) s)"
    by (rule runs [OF i])
  have "replicate 32 t = replicate (2 * 15) t @ [t, t]" by (simp add: replicate_append_same numeral_eq_Suc)
  then show "wf_run order (replicate 32 t) s = wgoto t (S_seq1 x ne 60) (wset_tail (wf_pair 64 0) s)"
    using runs [of 15] round [of 15 1] by (simp only: wf_run_append) (simp add: wf_enq_again_def)
qed

text \<open>
  The run: in an empty ring, thread 1 dequeues with \<open>nonempty\<close> set, which lets it go through positions without
  looking at the tail, and has passed 17 of them when thread 0 enqueues \<open>eidx\<close>, alone, until it returns.
\<close>

definition wf_passing :: "nat \<Rightarrow> u128 list \<Rightarrow> (nat \<Rightarrow> nat) \<Rightarrow> (nat \<Rightarrow> wf_local) \<Rightarrow> wf_state" where
  "wf_passing order mem links st =
     wf_run order (replicate 51 1) (wf_deq_call 1 True (wf_start (wf_init_empty order mem) links st 0 []))"

definition wf_lost :: "nat \<Rightarrow> u128 list \<Rightarrow> (nat \<Rightarrow> nat) \<Rightarrow> (nat \<Rightarrow> wf_local) \<Rightarrow> u64 \<Rightarrow> wf_state" where
  "wf_lost order mem links st eidx = wf_run order (replicate 70 0) (wf_enq_call order 0 eidx True (wf_passing order mem links st))"

lemma passing_state:
  fixes links :: "nat \<Rightarrow> nat" and st :: "nat \<Rightarrow> wf_local"
  assumes o: "2 \<le> order" "order < 58" and mem: "length mem = 2 ^ (order + 1)"
  defines "s \<equiv> wf_passing order mem links st"
  shows "wpcs s 0 = Wf_idle" "wr_tail (wring s) = wf_pair 0 0" "w_put s = []" "w_taken s = []" "passed order 17 s"
    "ws_nextCheck (wlocals s 0) = 16" "length (wr_array (wring s)) = 2 ^ (order + 1)"
    "i \<noteq> 1 \<Longrightarrow> wpcs s i = Wf_idle \<and> wlocals s i = (wf_init_state i (st i))\<lparr> ws_next := Some (links i) \<rparr>"
proof -
  let ?s0 = "wf_start (wf_init_empty order mem) links st 0 []"
  have z: "wf_pair 0 0 = 0" "wf_entry 0 = 0" by (simp_all add: wf_pair_def wf_entry_def)
  have n: "unat (wf_pow2 (order + 1)) = 2 ^ (order + 1)" unfolding wf_pow2_words(1) by (rule pow2_unat) (use o in simp)
  define s1 where "s1 = wf_deq_call 1 True ?s0"
  have s1: "s1 = wgoto 1 (R_ticket True 64) (upd_local 1 (\<lambda>l. l\<lparr> ws_nextCheck := 15 \<rparr>) ?s0)"
    by (simp add: s1_def wf_deq_call_def wf_count_def Let_def upd_local_def wf_start_def wf_init_state_def WFRING_DELAY_def WFRING_PATIENCE_DEQ_def)
  have at: "wf_slots order ?s0 q = wf_view order (- 1)" for q
  proof -
    have "wf_slot order w < 2 ^ (order + 1)" for w by (rule wf_slot_less) (use o in simp_all)
    then have "wr_array (wring ?s0) ! wf_slot order w = wf_pair (- 1) (- wf_pow2 (order + 1) - 1)" for w
      using store_range_at [of 0 "wf_slot order w" "2 ^ (order + 1)" "\<lambda>i. i" mem "\<lambda>i. wf_pair (- 1) (- wf_pow2 (order + 1) - 1)"] mem n
      by (simp add: wf_start_def wf_init_empty_def Let_def)
    then show ?thesis unfolding wf_slots_def wf_at_def wf_pair_at_def by simp
  qed
  have sf: "e_safe (order + 1) (- 1)" by (rule minus_one_fields(2)) (use o in simp)
  have o': "order < 60" "0 < order" using o by simp_all
  note view = initial_wf_view(1,2) [OF o']
  have "passed order 0 s1" unfolding passed_def s1 wf_slots_frame at view using sf by simp
  moreover have "wpcs s1 1 = R_ticket True 64" "wf_entry (wr_head (wring s1)) = 0" "length (wr_array (wring s1)) = 2 ^ (order + 1)"
    by (simp_all add: s1 wgoto_def upd_local_def wset_local_def wf_start_def wf_init_empty_def Let_def mem z)
  moreover have "s = wf_run order (replicate (3 * 17) 1) s1" by (simp add: s_def wf_passing_def s1_def del: wf_run.simps)
  ultimately have R: "wpcs s = (wpcs s1)(1 := R_ticket True 47)" "wr_tail (wring s) = wr_tail (wring s1)" "wlocals s = wlocals s1"
    "w_put s = w_put s1" "w_taken s = w_taken s1" "passed order 17 s" "length (wr_array (wring s)) = 2 ^ (order + 1)"
    using deq_phase [of order s1 1 17] o by (simp_all del: wf_run.simps One_nat_def)
  show "passed order 17 s" "length (wr_array (wring s)) = 2 ^ (order + 1)" by (rule R(6,7))+
  show "wpcs s 0 = Wf_idle" "wr_tail (wring s) = wf_pair 0 0" "w_put s = []" "w_taken s = []" "ws_nextCheck (wlocals s 0) = 16"
    "i \<noteq> 1 \<Longrightarrow> wpcs s i = Wf_idle \<and> wlocals s i = (wf_init_state i (st i))\<lparr> ws_next := Some (links i) \<rparr>"
    unfolding R(1-5) s1
    by (simp_all add: wgoto_def upd_local_def wset_local_def wf_start_def wf_init_state_def WFRING_DELAY_def wf_init_empty_def Let_def z)
qed

lemma slow_phase:
  assumes o: "2 \<le> order" "order < 54" and pc: "wpcs s t = S_seq1 x ne 60" and tail: "wr_tail (wring s) = wf_pair 64 0"
    and slots: "passed order 17 s"
  defines "s' \<equiv> wf_run order (replicate 38 t) s"
  shows "wpcs s' = (wpcs s)(t := Wf_idle)" "w_put s' = w_put s" "w_taken s' = w_taken s" "wf_slots order s' = wf_slots order s"
proof -
  have o60: "order < 60" using o by simp
  define j where "j = \<lparr> ej_thread = t, ej_eidx = x, ej_seq = ws_seq1 (wlocals s t), ej_nonempty = ne \<rparr>"
  define bk where "bk = Own_request (ws_seq1 (wlocals s t))"
  have j: "ej_thread j = t" "ej_seq j = ws_seq1 (wlocals s t)" by (simp_all add: j_def)
  have slot: "int (16 div 2 ^ (order + 1)) \<le> s_cycle (wf_slots order s 16)" "2 ^ (order + 1) * s_cycle (wf_slots order s 16) \<le> 2 ^ 60"
  proof -
    show "int (16 div 2 ^ (order + 1)) \<le> s_cycle (wf_slots order s 16)"
      by (rule slots [unfolded passed_def, THEN conjunct2, THEN conjunct1, rule_format]) simp
    have "2 ^ (order + 1) * s_cycle (wf_slots order s 16) \<le> int 17" using slots unfolding passed_def by simp
    then show "2 ^ (order + 1) * s_cycle (wf_slots order s 16) \<le> 2 ^ 60" by simp
  qed
  define f where "f = (\<lambda>l. l\<lparr> ws_tail := 60, ws_initTail := 60, ws_eidx := x, ws_seq2 := ws_seq1 l \<rparr> :: wf_local)"
  define s1 where "s1 = upd_local t f s"
  define s2 where "s2 = inc_result t 64 s1"
  define s3 where "s3 = inc_result t 65 s2"
  have reject: "wf_run order [t, t, t] (wgoto t (S_run j bk (A_seq pos)) u) = wgoto t (S_run j bk (A_inc (I_load pos))) u"
    if "pos = 64 \<or> pos = 65" "ws_seq1 (wlocals u t) = ws_seq1 (wlocals s t)" "wf_slots order u = wf_slots order s" for pos u
  proof -
    have u: "unat pos < 2 ^ 60" "unat pos div 4 = 16" using that(1) by auto
    show ?thesis using slow_reject [OF o(1) o60 _ u(1), of "wgoto t (S_run j bk (A_seq pos)) u" t j bk, unfolded u(2)] slot that j by simp
  qed
  have inc: "wf_run order (replicate 11 t) (wgoto t (S_run j bk (A_inc (I_load prev))) u) = wgoto t (S_run j bk (A_seq cnt)) (inc_result t cnt u)"
    if "ws_tail (wlocals u t) = prev" "prev AND 1 = 0" "wr_tail (wring u) = wf_pair cnt 0" for prev cnt u
  proof -
    have "inc_result t cnt (wgoto t q u) = wgoto t q (inc_result t cnt u)" for q
      by (simp add: inc_result_def Let_def wset_tail_def upd_local_def wset_local_def wgoto_def wf_phase2_at_def)
    then show ?thesis using inc_alone [of "wgoto t (S_run j bk (A_inc (I_load prev))) u" t j bk prev cnt order] that j by (simp add: wgoto_def)
  qed
  have l: "ws_tail (wlocals s1 t) = 60" "ws_seq1 (wlocals s1 t) = ws_seq1 (wlocals s t)" "wr_tail (wring s1) = wf_pair 64 0"
    using tail by (simp_all add: s1_def f_def upd_local_def) (simp add: wset_local_def)
  have ls: "wf_slots order s1 = wf_slots order s" by (simp add: s1_def)
  have l2: "ws_tail (wlocals s2 t) = 64" "ws_seq1 (wlocals s2 t) = ws_seq1 (wlocals s t)" "wr_tail (wring s2) = wf_pair 65 0"
    "wf_slots order s2 = wf_slots order s"
    using l ls by (simp_all add: s2_def) (simp_all add: inc_result_def Let_def upd_local_def wset_tail_def)
  have l3: "ws_tail (wlocals s3 t) = 65" "ws_seq1 (wlocals s3 t) = ws_seq1 (wlocals s t)" "wf_slots order s3 = wf_slots order s"
    using l2 by (simp_all add: s3_def) (simp_all add: inc_result_def Let_def upd_local_def wset_tail_def)
  have "replicate 38 t = [t, t, t, t, t] @ replicate 11 t @ [t, t, t] @ replicate 11 t @ [t, t, t] @ [t, t, t, t, t]"
    by (simp add: numeral_eq_Suc)
  moreover have "wf_run order [t, t, t, t, t] s = wgoto t (S_run j bk (A_inc (I_load 60))) s1"
    unfolding slow_request [OF pc] j_def bk_def s1_def f_def ..
  moreover have "wf_run order [t, t, t, t, t] (wgoto t (S_run j bk (A_inc (I_load 65))) s3) =
      wgoto t Wf_idle (upd_local t (\<lambda>l. l\<lparr> ws_seq1 := ws_seq1 (wlocals s t) + 1, ws_eidx := WFRING_EIDX_TERM \<rparr>) s3)"
    using slow_exit [of "wgoto t (S_run j bk (A_inc (I_load 65))) s3" t j "ws_seq1 (wlocals s t)" 65 order] j l3(1)
    by (simp add: bk_def wgoto_def upd_local_def wset_local_def del: wf_run.simps)
  ultimately have s': "s' = wgoto t Wf_idle (upd_local t (\<lambda>l. l\<lparr> ws_seq1 := ws_seq1 (wlocals s t) + 1, ws_eidx := WFRING_EIDX_TERM \<rparr>) s3)"
    unfolding s'_def using inc [OF l(1) _ l(3)] inc [OF l2(1) _ l2(3)] reject [of 64 s2] reject [of 65 s3] l2 l3
    by (simp only: wf_run_append s2_def [symmetric] s3_def [symmetric]) simp
  show "wpcs s' = (wpcs s)(t := Wf_idle)" "w_put s' = w_put s" "w_taken s' = w_taken s"
    unfolding s' s3_def s2_def s1_def by (simp_all add: inc_result_def Let_def upd_local_def) (simp_all add: wgoto_def wset_local_def wset_tail_def)
  show "wf_slots order s' = wf_slots order s" unfolding s' using l3(3) by simp
qed

section \<open>Properties\<close>

text \<open>
  C15: The slow path of the wait-free enqueue can lose an index. In a ring of any order from 2 to 53, with one thread
  dequeuing and one enqueuing, there is a run of 123 steps after which the enqueue has returned and the
  dequeue has taken nothing, yet nothing was put into the ring and no slot of it holds an index. The reason is
  that __wfring_slow_inc advances the shared counter by one where positions count in steps of four and the
  two low bits of the local counter are flags: the next increment sets the flag FIN, which the enqueue takes
  to mean that its index was stored.
\<close>

theorem wf_slow_enqueue_loses:
  assumes "2 \<le> order" "order < 54" and "length mem = 2 ^ (order + 1)" and "unat eidx < 2 ^ order"
  shows "wf_reachable order links 123 (wf_lost order mem links st eidx) \<and>
    wpcs (wf_passing order mem links st) 0 = Wf_idle \<and> wpcs (wf_lost order mem links st eidx) 0 = Wf_idle \<and>
    w_put (wf_lost order mem links st eidx) = [] \<and> w_taken (wf_lost order mem links st eidx) = [] \<and>
    (\<forall>p. wf_empty order (wf_at order (wf_lost order mem links st eidx) (word_of_nat (4 * p))))"
proof -
  let ?s0 = "wf_start (wf_init_empty order mem) links st 0 []"
  define s where "s = wf_passing order mem links st"
  define x where "x = eidx XOR (wf_n order - 1)"
  have "order < 58" using assms(2) by simp
  note P = passing_state [where links = links and st = st, OF assms(1) this assms(3), folded s_def]
  define s1 where "s1 = wf_enq_call order 0 eidx True s"
  have s1: "s1 = wgoto 0 (Q_ticket x True 16) (upd_local 0 (\<lambda>l. l\<lparr> ws_nextCheck := 15 \<rparr>) s)"
    using P(6) by (simp add: s1_def wf_enq_call_def wf_count_def Let_def upd_local_def x_def WFRING_PATIENCE_ENQ_def)
  have t1: "wr_tail (wring s1) = wf_pair 0 0" "passed order 17 s1" "wpcs s1 0 = Q_ticket x True 16"
    using P by (simp_all add: s1 passed_def) (simp add: wgoto_def upd_local_def wset_local_def)
  define s2 where "s2 = wgoto 0 (S_seq1 x True 60) (wset_tail (wf_pair 64 0) s1)"
  have t2: "wpcs s2 0 = S_seq1 x True 60" "wr_tail (wring s2) = wf_pair 64 0" "passed order 17 s2"
    using t1(2) by (simp_all add: s2_def passed_def) (simp add: wgoto_def wset_tail_def)
  note S = slow_phase [OF assms(1,2) t2]
  have "replicate 70 (0 :: nat) = replicate 32 0 @ replicate 38 0" by (simp only: replicate_add [symmetric]) simp
  then have l: "wf_lost order mem links st eidx = wf_run order (replicate 38 0) s2"
    unfolding wf_lost_def s_def [symmetric] s1_def [symmetric] s2_def
    by (simp only: wf_run_append enq_phase(2) [OF assms(1,2) t1(3,1,2) le0])
  have "wf_reachable order links (0 + 1) (wf_deq_call 1 True ?s0)"
    by (rule wf_reachable.step [OF wf_reachable.start [OF wf_initial.empty [OF assms(3)]] wf_step.deq_call]) (simp add: wf_start_def)
  from wf_run_reachable [OF this, of "replicate 51 1"] have "wf_reachable order links 52 s"
    by (simp add: s_def wf_passing_def del: wf_run.simps)
  then have "wf_reachable order links (52 + 1) s1"
    unfolding s1_def by (rule wf_reachable.step) (rule wf_step.enq_call [OF P(1) assms(4)])
  from wf_run_reachable [OF this, of "replicate 70 0"]
  have r: "wf_reachable order links 123 (wf_lost order mem links st eidx)"
    unfolding wf_lost_def s_def [symmetric] s1_def [symmetric] by (simp del: wf_run.simps)
  have w: "w_put s2 = []" "w_taken s2 = []" "wf_slots order s2 = wf_slots order s"
    using P(3,4) by (simp_all add: s2_def s1) (simp_all add: wgoto_def wset_tail_def upd_local_def wset_local_def)
  have "s_held (wf_slots order (wf_lost order mem links st eidx) p) = None" for p
    unfolding l S(4) w(3) using P(5) unfolding passed_def by blast
  then have "wf_empty order (wf_at order (wf_lost order mem links st eidx) (word_of_nat (4 * p)))" for p
    unfolding wf_slots_def wf_view_sel .
  then show ?thesis using r P(1) S(1-3) w(1,2) unfolding l s_def by simp
qed

theorem wf_slow_enqueue_loses_witness:
  "wf_reachable 3 (\<lambda>t. Suc t mod 2) 123 (wf_lost 3 (replicate 16 9) (\<lambda>t. Suc t mod 2) (\<lambda>_. zero_local) 5) \<and>
    wpcs (wf_lost 3 (replicate 16 9) (\<lambda>t. Suc t mod 2) (\<lambda>_. zero_local) 5) 0 = Wf_idle \<and>
    w_put (wf_lost 3 (replicate 16 9) (\<lambda>t. Suc t mod 2) (\<lambda>_. zero_local) 5) = [] \<and>
    wf_empty 3 (wf_at 3 (wf_lost 3 (replicate 16 9) (\<lambda>t. Suc t mod 2) (\<lambda>_. zero_local) 5) (word_of_nat (4 * 0)))"
proof -
  have "(2 :: nat) \<le> 3" "(3 :: nat) < 54" "length (replicate 16 (9 :: u128)) = 2 ^ (3 + 1)" "unat (5 :: u64) < 2 ^ 3" by simp_all
  from wf_slow_enqueue_loses [OF this, of "\<lambda>t. Suc t mod 2" "\<lambda>_. zero_local"] show ?thesis by blast
qed

end
