(* ===== verification/Wf_Protocol.thy ===== *)
theory Wf_Protocol
  imports Wf_Lost
begin

text \<open>
  The helping protocol of the wait-free ring (wfring_cas2.h), over all runs: which threads a thread helps and
  how often it looks, and that a helper works on the request that is published. The examples are one run in
  which thread 2 comes to help thread 0 with a slow enqueue.
\<close>

unbundle bit_operations_syntax

section \<open>A run with a helper\<close>

text \<open>The positions from \<open>p\<close> on, in the first round of the ring, are free for an enqueue of thread \<open>t\<close>.\<close>

definition free_from :: "nat \<Rightarrow> nat \<Rightarrow> nat \<Rightarrow> wf_state \<Rightarrow> bool" where
  "free_from order t p s \<longleftrightarrow> wpcs s t = Wf_idle \<and> wr_tail (wring s) = wf_pair (word_of_nat (4 * p)) 0 \<and>
     length (wr_array (wring s)) = 2 ^ (order + 1) \<and>
     (\<forall>q. p \<le> q \<longrightarrow> q < 2 ^ (order + 1) \<longrightarrow> s_held (wf_slots order s q) = None \<and> s_safe (wf_slots order s q) \<and> s_cycle (wf_slots order s q) = - 1)"

lemma enq_success:
  assumes o: "2 \<le> order" "order < 54" and pc: "wpcs s t = Q_ticket (eidx XOR (wf_n order - 1)) True k" and e: "unat eidx < 2 ^ order"
    and free: "free_from order t p (wgoto t Wf_idle s)" and p: "p < 2 ^ (order + 1)"
  defines "s' \<equiv> wf_run order [t, t, t, t] s"
  shows "free_from order t (Suc p) s'" "wlocals s' = wlocals s" "i \<noteq> t \<Longrightarrow> wpcs s' i = wpcs s i"
proof -
  have o': "order < 60" "order \<le> 60" "0 < order" using o by simp_all
  define x where "x = eidx XOR (wf_n order - 1)"
  define tail :: u64 where "tail = word_of_nat (4 * p)"
  have big: "(2 :: nat) ^ (order + 1) \<le> 2 ^ 55" using o by (intro power_increasing) simp_all
  then have u: "unat tail = 4 * p" using p unfolding tail_def by (simp only: unat_of_nat) simp
  have u4: "unat tail < 2 ^ 60" "unat tail div 4 = p" using p big u by simp_all
  have F: "wr_tail (wring s) = wf_pair tail 0" "length (wr_array (wring s)) = 2 ^ (order + 1)"
    "s_held (wf_slots order s q) = None \<and> s_safe (wf_slots order s q) \<and> s_cycle (wf_slots order s q) = - 1" if "p \<le> q" "q < 2 ^ (order + 1)" for q
    using free that unfolding free_from_def tail_def wf_slots_frame by (simp_all add: wgoto_def)
  note here = F [OF order_refl p]
  define e1 where "e1 = wf_at order s tail"
  have w: "wf_slots order s p = wf_view order e1" using wf_slots_at [OF o(1) o'(2), of s tail] by (simp add: u4 e1_def)
  have bound: "- (2 * 2 ^ order) \<le> (1152921504606846976 :: int)" using zero_le_power [of "2 :: int" order] by linarith
  have c: "cmp_less (wf_cycle order e1) (wf_cycle order tail)"
    using slot_before(1) [OF o(1) o'(1) u4(1), of s, unfolded u4(2)] here(3) bound by (simp add: e1_def)
  have t1: "e1 OR 1 = wf_cycle order e1" using wf_tests(1) [OF o'(1), of e1] here(3) by (simp add: w)
  define s1 where "s1 = wset_tail (wf_pair (tail + 4) 0) s"
  have at: "wf_at order s1 tail = e1" by (simp add: e1_def s1_def wf_at_def wf_pair_at_def wset_tail_def)
  have check: "wf_enq_check order x True k tail e1 = Q_cas x True k tail e1" using c t1 by (simp add: wf_enq_check_def Let_def)
  have "wf_thread order t False s = wgoto t (Q_entry x True k tail) s1"
    using pc F(1) [OF order_refl p] by (simp add: wf_thread_def wf_take_tail_def Let_def s1_def with_entry_def x_def)
  then have s': "s' = wgoto t Wf_idle ((set_entry order tail (wf_cycle order tail XOR x) s1)\<lparr> w_put := w_put s @ [(p, x XOR (wf_n order - 1))] \<rparr>)"
    unfolding s'_def by (simp add: wf_thread_def wf_enq_entry_def wf_enq_cas_def at check u4(2))
      (simp add: wgoto_def set_entry_def set_slot_def wf_pair_at_def s1_def wset_tail_def)
  have "x XOR (wf_n order - 1) = eidx" by (simp add: x_def xor.assoc)
  then have "unat (x XOR (wf_n order - 1)) < 2 ^ order" using e by simp
  have len: "length (wr_array (wring s1)) = 2 ^ (order + 1)" using here(2) by (simp add: s1_def wset_tail_def)
  have "wf_slots order s' = wf_slots order (set_entry order tail (wf_cycle order tail XOR x) s1)"
    unfolding s' by (rule wf_slots_cong) (simp add: wgoto_def)
  also have "\<dots> = upd_slot order (wf_slots order s1) p (wf_view order (wf_cycle order tail XOR x))"
    unfolding set_entry_def wf_slots_set [OF o(1) o'(2) len] u4(2) by simp
  also have "wf_slots order s1 = wf_slots order s" by (simp add: s1_def)
  finally have S: "wf_slots order s' q = wf_slots order s q" if "p < q" "q < 2 ^ (order + 1)" for q
    using that p by (simp add: upd_at)
  show "free_from order t (Suc p) s'"
    unfolding free_from_def
  proof (intro conjI allI impI)
    show "wpcs s' t = Wf_idle" "length (wr_array (wring s')) = 2 ^ (order + 1)"
      using len by (simp_all add: s' set_entry_def set_slot_def) (simp add: wgoto_def)
    have "tail + 4 = word_of_nat (4 * Suc p)" by (simp add: tail_def)
    then show "wr_tail (wring s') = wf_pair (word_of_nat (4 * Suc p)) 0"
      by (simp add: s' set_entry_def set_slot_def s1_def wset_tail_def wgoto_def add.commute)
    fix q assume q: "Suc p \<le> q" "q < 2 ^ (order + 1)"
    then show "s_held (wf_slots order s' q) = None" "s_safe (wf_slots order s' q)" "s_cycle (wf_slots order s' q) = - 1"
      using S [of q] F(3) [of q] by simp_all
  qed
  show "wlocals s' = wlocals s" "i \<noteq> t \<Longrightarrow> wpcs s' i = wpcs s i"
    by (simp_all add: s' set_entry_def set_slot_def s1_def wset_tail_def wgoto_def)
qed

text \<open>One enqueue of index 0 that does not look whether to help.\<close>

lemma call_state:
  assumes "ws_nextCheck (wlocals s t) = Suc (Suc n)"
  shows "wf_enq_call order t 0 True s = wgoto t (Q_ticket (0 XOR (wf_n order - 1)) True 16)
    (wset_local t ((wlocals s t)\<lparr> ws_nextCheck := Suc n \<rparr>) s)"
  using assms by (simp add: wf_enq_call_def wf_count_def Let_def WFRING_PATIENCE_ENQ_def)

lemma free_local [simp]: "free_from order t p (wgoto t pc (wset_local u l s)) \<longleftrightarrow> free_from order t p (wgoto t pc s)"
proof -
  have "wf_slots order (wset_local u l s) = wf_slots order s" by (rule wf_slots_cong) (simp add: wset_local_def)
  then show ?thesis unfolding free_from_def wf_slots_frame by (simp add: wgoto_def wset_local_def)
qed

lemma free_idle: "free_from order t p s \<Longrightarrow> free_from order t p (wgoto t Wf_idle s)"
  unfolding free_from_def wf_slots_frame by (simp add: wgoto_def)

lemma busy_op:
  assumes o: "2 \<le> order" "order < 54" and free: "free_from order t p s" and n: "ws_nextCheck (wlocals s t) = Suc (Suc n)"
    and p: "p < 2 ^ (order + 1)"
  defines "s' \<equiv> wf_run order [t, t, t, t] (wf_enq_call order t 0 True s)"
  shows "free_from order t (Suc p) s'" "wlocals s' = (wlocals s)(t := (wlocals s t)\<lparr> ws_nextCheck := Suc n \<rparr>)"
    "i \<noteq> t \<Longrightarrow> wpcs s' i = wpcs s i"
proof -
  let ?s1 = "wf_enq_call order t 0 True s"
  note s1 = call_state [OF n, of order]
  have f: "free_from order t p (wgoto t Wf_idle ?s1)" unfolding s1 using free_idle [OF free] by simp
  have pc: "wpcs ?s1 t = Q_ticket (0 XOR (wf_n order - 1)) True 16" unfolding s1 by simp
  have z: "unat (0 :: u64) < 2 ^ order" by simp
  note R = enq_success [OF o pc z f p, folded s'_def]
  show "free_from order t (Suc p) s'" by (rule R(1))
  show "wlocals s' = (wlocals s)(t := (wlocals s t)\<lparr> ws_nextCheck := Suc n \<rparr>)" unfolding R(2) unfolding s1 by simp
  show "i \<noteq> t \<Longrightarrow> wpcs s' i = wpcs s i" using R(3) [of i] unfolding s1 by simp
qed

fun wf_busy :: "nat \<Rightarrow> nat \<Rightarrow> nat \<Rightarrow> wf_state \<Rightarrow> wf_state" where
  "wf_busy order t 0 s = s"
| "wf_busy order t (Suc i) s = wf_run order [t, t, t, t] (wf_enq_call order t 0 True (wf_busy order t i s))"

lemma busy_ops:
  assumes o: "2 \<le> order" "order < 54" and free: "free_from order t p s" and n: "ws_nextCheck (wlocals s t) = Suc (i + n)"
    and p: "p + i \<le> 2 ^ (order + 1)"
  shows "free_from order t (p + i) (wf_busy order t i s) \<and>
    wlocals (wf_busy order t i s) = (wlocals s)(t := (wlocals s t)\<lparr> ws_nextCheck := Suc n \<rparr>) \<and>
    (\<forall>u. u \<noteq> t \<longrightarrow> wpcs (wf_busy order t i s) u = wpcs s u)"
  using n p
proof (induction i arbitrary: n)
  case 0
  have "(wlocals s)(t := (wlocals s t)\<lparr> ws_nextCheck := ws_nextCheck (wlocals s t) \<rparr>) = wlocals s" by simp
  then show ?case using 0 free by simp
next
  case (Suc i)
  note IH = Suc.IH [of "Suc n"]
  have "ws_nextCheck (wlocals (wf_busy order t i s) t) = Suc (Suc n)" using IH Suc.prems by simp
  from busy_op [OF o _ this, of "p + i"] show ?case using IH Suc.prems by (simp add: fun_eq_iff)
qed

lemma wf_busy_reachable:
  "wf_reachable order links k s \<Longrightarrow> wpcs s t = Wf_idle \<Longrightarrow> 2 \<le> order \<Longrightarrow> order < 54 \<Longrightarrow> free_from order t p s \<Longrightarrow>
    ws_nextCheck (wlocals s t) = Suc (i + n) \<Longrightarrow> p + i \<le> 2 ^ (order + 1) \<Longrightarrow> wf_reachable order links (k + 5 * i) (wf_busy order t i s)"
proof (induction i arbitrary: n)
  case (Suc i)
  let ?b = "wf_busy order t i s"
  have "wf_reachable order links (k + 5 * i) ?b" using Suc.IH [of "Suc n"] Suc.prems by simp
  moreover have "wpcs ?b t = Wf_idle" using busy_ops [of order t p s i "Suc n"] Suc.prems by (simp add: free_from_def)
  ultimately have "wf_reachable order links (k + 5 * i + 1) (wf_enq_call order t 0 True ?b)"
    by (intro wf_reachable.step [OF _ wf_step.enq_call]) simp_all
  moreover have "k + 5 * i + 1 + length [t, t, t, t] = k + 5 * Suc i" by simp
  ultimately show ?case using wf_run_reachable [of order links "k + 5 * i + 1" _ "[t, t, t, t]"] by (simp only: wf_busy.simps)
qed simp

text \<open>The operation with which a thread comes back to itself, and the one with which it finds a request.\<close>

lemma turn_op:
  assumes o: "2 \<le> order" "order < 54" and free: "free_from order t p s" and n: "ws_nextCheck (wlocals s t) = 1"
    and self: "ws_currThread (wlocals s t) = t" and p: "p < 2 ^ (order + 1)"
  defines "s' \<equiv> wf_run order [t, t, t, t, t] (wf_enq_call order t 0 True s)"
  shows "free_from order t (Suc p) s'"
    "wlocals s' = (wlocals s)(t := (wlocals s t)\<lparr> ws_currThread := wf_next (wlocals s t), ws_nextCheck := 16 \<rparr>)"
    "i \<noteq> t \<Longrightarrow> wpcs s' i = wpcs s i"
proof -
  define s2 where "s2 = wgoto t (Q_ticket (0 XOR (wf_n order - 1)) True 16)
    (wset_local t ((wlocals s t)\<lparr> ws_currThread := wf_next (wlocals s t), ws_nextCheck := 16 \<rparr>) s)"
  have "wf_thread order t False (wf_enq_call order t 0 True s) = s2"
    using n self by (simp add: wf_enq_call_def wf_count_def Let_def wf_thread_def upd_local_def s2_def WFRING_PATIENCE_ENQ_def
        WFRING_DELAY_def wgoto_def wset_local_def wf_next_def)
  then have s': "s' = wf_run order [t, t, t, t] s2" by (simp add: s'_def)
  have f: "free_from order t p (wgoto t Wf_idle s2)" unfolding s2_def using free_idle [OF free] by simp
  have pc: "wpcs s2 t = Q_ticket (0 XOR (wf_n order - 1)) True 16" unfolding s2_def by simp
  have z: "unat (0 :: u64) < 2 ^ order" by simp
  note R = enq_success [OF o pc z f p, folded s']
  show "free_from order t (Suc p) s'" by (rule R(1))
  show "wlocals s' = (wlocals s)(t := (wlocals s t)\<lparr> ws_currThread := wf_next (wlocals s t), ws_nextCheck := 16 \<rparr>)"
    unfolding R(2) unfolding s2_def by simp
  show "i \<noteq> t \<Longrightarrow> wpcs s' i = wpcs s i" using R(3) [of i] unfolding s2_def by simp
qed

lemma join_op:
  assumes n: "ws_nextCheck (wlocals s t) = 1" and other: "ws_currThread (wlocals s t) = u" "u \<noteq> t"
    and req: "WFRING_EIDX_DEQ < ws_eidx (wlocals s u)" "ws_seq2 (wlocals s u) = ws_seq1 (wlocals s u)"
  shows "wpcs (wf_run order [t, t, t, t, t] (wf_enq_call order t 0 True s)) t =
      S_run \<lparr> ej_thread = u, ej_eidx = ws_eidx (wlocals s u), ej_seq = ws_seq1 (wlocals s u), ej_nonempty = True \<rparr>
        (For_other u (To_enqueue (0 XOR (wf_n order - 1)) True)) (A_inc (I_load (ws_initTail (wlocals s u))))"
    and "wlocals (wf_run order [t, t, t, t, t] (wf_enq_call order t 0 True s)) u = wlocals s u"
    and "\<not> wf_working (wpcs (wf_run order [t, t, t, t] (wf_enq_call order t 0 True s)) t)"
proof -
  have e: "ws_eidx (wlocals s u) \<noteq> WFRING_EIDX_TERM" "ws_eidx (wlocals s u) \<noteq> WFRING_EIDX_DEQ" "\<not> ws_eidx (wlocals s u) \<le> WFRING_EIDX_DEQ"
    using req(1) by (auto simp: WFRING_EIDX_TERM_def)
  show "wpcs (wf_run order [t, t, t, t, t] (wf_enq_call order t 0 True s)) t =
      S_run \<lparr> ej_thread = u, ej_eidx = ws_eidx (wlocals s u), ej_seq = ws_seq1 (wlocals s u), ej_nonempty = True \<rparr>
        (For_other u (To_enqueue (0 XOR (wf_n order - 1)) True)) (A_inc (I_load (ws_initTail (wlocals s u))))"
    and "wlocals (wf_run order [t, t, t, t, t] (wf_enq_call order t 0 True s)) u = wlocals s u"
    and "\<not> wf_working (wpcs (wf_run order [t, t, t, t] (wf_enq_call order t 0 True s)) t)"
    using n other req(2) e by (simp_all add: wf_enq_call_def wf_count_def Let_def wf_thread_def)
qed


text \<open>
  The run: the request of thread 0 after \<open>wf_passing\<close>, in its own slow enqueue; then thread 2 enqueues 32 times,
  and the last time finds the request.
\<close>

lemma wring_kept: "wring (wgoto t pc s) = wring s" "wring (wset_local t l s) = wring s" "wring (upd_local t f s) = wring s"
  "wr_tail (wring (wset_tail v s)) = v" "wr_array (wring (wset_tail v s)) = wr_array (wring s)"
  by (simp_all add: wgoto_def wset_local_def upd_local_def wset_tail_def)

definition wf_published :: "nat \<Rightarrow> u128 list \<Rightarrow> (nat \<Rightarrow> nat) \<Rightarrow> (nat \<Rightarrow> wf_local) \<Rightarrow> wf_state" where
  "wf_published order mem links st = wf_run order (replicate 37 0) (wf_enq_call order 0 0 True (wf_passing order mem links st))"

lemma published_state:
  fixes links :: "nat \<Rightarrow> nat" and st :: "nat \<Rightarrow> wf_local"
  assumes o: "2 \<le> order" "order < 54" and mem: "length mem = 2 ^ (order + 1)"
  defines "s \<equiv> wf_published order mem links st" and "x \<equiv> 0 XOR (wf_n order - 1)"
  shows "wf_reachable order links 90 s"
    "wpcs s 0 = S_run \<lparr> ej_thread = 0, ej_eidx = x, ej_seq = 1, ej_nonempty = True \<rparr> (Own_request 1) (A_inc (I_load 60))"
    "ws_seq1 (wlocals s 0) = 1" "ws_seq2 (wlocals s 0) = 1" "ws_eidx (wlocals s 0) = x" "ws_initTail (wlocals s 0) = 60"
    "wr_tail (wring s) = wf_pair 64 0" "length (wr_array (wring s)) = 2 ^ (order + 1)" "passed order 17 s"
    "i \<noteq> 0 \<Longrightarrow> i \<noteq> 1 \<Longrightarrow> wpcs s i = Wf_idle \<and> wlocals s i = (wf_init_state i (st i))\<lparr> ws_next := Some (links i) \<rparr>"
proof -
  let ?s0 = "wf_start (wf_init_empty order mem) links st 0 []"
  define u where "u = wf_passing order mem links st"
  have o58: "order < 58" using o by simp
  note P = passing_state [where links = links and st = st, OF o(1) o58 mem, folded u_def]
  define s1 where "s1 = wf_enq_call order 0 0 True u"
  have s1: "s1 = wgoto 0 (Q_ticket x True 16) (upd_local 0 (\<lambda>l. l\<lparr> ws_nextCheck := 15 \<rparr>) u)"
    using P(6) by (simp add: s1_def wf_enq_call_def wf_count_def Let_def upd_local_def x_def WFRING_PATIENCE_ENQ_def)
  have t1: "wr_tail (wring s1) = wf_pair 0 0" "passed order 17 s1" "wpcs s1 0 = Q_ticket x True 16"
    using P by (simp_all add: s1 passed_def) (simp add: wgoto_def upd_local_def wset_local_def)
  define s2 where "s2 = wgoto 0 (S_seq1 x True 60) (wset_tail (wf_pair 64 0) s1)"
  have pc2: "wpcs s2 0 = S_seq1 x True 60" by (simp add: s2_def)
  have "replicate 37 (0 :: nat) = replicate 32 0 @ [0, 0, 0, 0, 0]" by (simp add: numeral_eq_Suc)
  then have s: "s = wf_run order [0, 0, 0, 0, 0] s2"
    unfolding s_def wf_published_def u_def [symmetric] s1_def [symmetric] s2_def
    by (simp only: wf_run_append enq_phase(2) [OF o t1(3,1,2) le0])
  note s' = slow_request [OF pc2, of order, folded s]
  have seq: "ws_seq1 (wlocals s2 0) = 1"
    using P(8) [of 0] by (simp add: s2_def s1) (simp add: wgoto_def wset_tail_def upd_local_def wset_local_def wf_init_state_def)
  show "wpcs s 0 = S_run \<lparr> ej_thread = 0, ej_eidx = x, ej_seq = 1, ej_nonempty = True \<rparr> (Own_request 1) (A_inc (I_load 60))"
    unfolding s' seq by simp
  show "ws_seq1 (wlocals s 0) = 1" "ws_seq2 (wlocals s 0) = 1" "ws_eidx (wlocals s 0) = x" "ws_initTail (wlocals s 0) = 60"
    using seq by (simp_all add: s' upd_local_def)
  show "wr_tail (wring s) = wf_pair 64 0" "length (wr_array (wring s)) = 2 ^ (order + 1)"
    using P(7) unfolding s' s2_def s1 wring_kept by simp_all
  show "passed order 17 s" using P(5) unfolding passed_def s' s2_def s1 wf_slots_frame .
  show "wpcs s i = Wf_idle \<and> wlocals s i = (wf_init_state i (st i))\<lparr> ws_next := Some (links i) \<rparr>" if "i \<noteq> 0" "i \<noteq> 1"
    using P(8) [OF that(2)] that by (simp add: s' upd_local_def s2_def s1)
  have "wf_reachable order links (0 + 1) (wf_deq_call 1 True ?s0)"
    by (rule wf_reachable.step [OF wf_reachable.start [OF wf_initial.empty [OF mem]] wf_step.deq_call]) (simp add: wf_start_def)
  from wf_run_reachable [OF this, of "replicate 51 1"] have "wf_reachable order links 52 u"
    by (simp add: u_def wf_passing_def del: wf_run.simps)
  then have "wf_reachable order links (52 + 1) s1"
    unfolding s1_def by (rule wf_reachable.step) (rule wf_step.enq_call [OF P(1)], simp)
  from wf_run_reachable [OF this, of "replicate 37 0"] show "wf_reachable order links 90 s"
    by (simp add: s_def wf_published_def u_def s1_def del: wf_run.simps)
qed

lemma call_reachable:
  assumes "wf_reachable order links k s" "wpcs s t = Wf_idle"
  shows "wf_reachable order links (k + 1 + length ts) (wf_run order ts (wf_enq_call order t 0 True s))"
  by (rule wf_run_reachable, rule wf_reachable.step [OF assms(1)], rule wf_step.enq_call [OF assms(2)]) simp

definition wf_joining :: wf_state where
  "wf_joining = wf_run 5 [2, 2, 2, 2] (wf_enq_call 5 2 0 True (wf_busy 5 2 15 (wf_run 5 [2, 2, 2, 2, 2] (wf_enq_call 5 2 0 True
     (wf_busy 5 2 14 (wf_run 5 [2, 2, 2, 2, 2, 2] (wf_enq_call 5 2 0 True
        (wf_published 5 (replicate 64 9) (\<lambda>t. Suc t mod 3) (\<lambda>_. zero_local)))))))))"

definition wf_joined :: wf_state where
  "wf_joined = wf_thread 5 2 False wf_joining"

lemma joined_state:
  defines "x \<equiv> 0 XOR (wf_n 5 - 1)"
  shows "wf_reachable 5 (\<lambda>t. Suc t mod 3) 254 wf_joined" and "ws_seq1 (wlocals wf_joined 0) = 1"
    and "wpcs wf_joined 2 = S_run \<lparr> ej_thread = 0, ej_eidx = x, ej_seq = 1, ej_nonempty = True \<rparr>
      (For_other 0 (To_enqueue x True)) (A_inc (I_load 60))"
    and "wf_reachable 5 (\<lambda>t. Suc t mod 3) 253 wf_joining" and "\<not> wf_working (wpcs wf_joining 2)"
proof -
  let ?links = "\<lambda>t. Suc t mod 3"
  define u where "u = wf_published 5 (replicate 64 9) ?links (\<lambda>_. zero_local)"
  have o: "(2 :: nat) \<le> 5" "(5 :: nat) < 54" "(5 :: nat) < 60" and mem: "length (replicate 64 (9 :: u128)) = 2 ^ (5 + 1)" by simp_all
  note U = published_state [where links = ?links and st = "\<lambda>_. zero_local", OF o(1,2) mem, folded u_def x_def]
  note two = U(10) [of 2, simplified]
  define l where "l = wlocals u 2"
  have l: "ws_nextCheck l = Suc (Suc 14)" "ws_currThread l = 2" "wf_next l = 0"
    using two by (simp_all add: l_def wf_init_state_def WFRING_DELAY_def wf_next_def)
  define u1 where "u1 = wf_enq_call 5 2 0 True u"
  have u1: "u1 = wgoto 2 (Q_ticket x True 16) (wset_local 2 (l\<lparr> ws_nextCheck := Suc 14 \<rparr>) u)"
    using call_state [of u 2 14 5] l(1) by (simp add: u1_def x_def l_def)
  have t1: "wpcs u1 2 = Q_ticket x True 16" "wr_tail (wring u1) = wf_pair 64 0" using U(7) unfolding u1 wring_kept by simp_all
  have t1s: "wf_slots 5 u1 = wf_slots 5 u" by (rule wf_slots_cong) (simp only: u1 wring_kept)
  have slot: "int (unat (64 :: u64) div 4 div 2 ^ (5 + 1)) \<le> s_cycle (wf_slots 5 u1 (unat (64 :: u64) div 4))"
    "2 ^ (5 + 1) * s_cycle (wf_slots 5 u1 (unat (64 :: u64) div 4)) \<le> 2 ^ 60"
    using U(9) [unfolded passed_def, THEN conjunct2, THEN conjunct1, rule_format, of 16]
      U(9) [unfolded passed_def, THEN conjunct1, rule_format, of 16] unfolding t1s by simp_all
  define u2 where "u2 = wgoto 2 (Q_ticket x True 15) (wset_tail (wf_pair 68 0) u1)"
  have run2: "wf_run 5 [2, 2] u1 = u2"
    using enq_round [OF o(1,3) t1(1,2) _ slot] by (simp add: wf_enq_again_def u2_def)
  have free2: "free_from 5 2 17 (wgoto 2 Wf_idle u2)"
    unfolding free_from_def
  proof (intro conjI allI impI)
    show "wpcs (wgoto 2 Wf_idle u2) 2 = Wf_idle" "wr_tail (wring (wgoto 2 Wf_idle u2)) = wf_pair (word_of_nat (4 * 17)) 0"
      "length (wr_array (wring (wgoto 2 Wf_idle u2))) = 2 ^ (5 + 1)"
      using U(8) unfolding u2_def u1 wring_kept by simp_all
    fix q :: nat assume q: "17 \<le> q" "q < 2 ^ (5 + 1)"
    have w: "wf_slots 5 (wgoto 2 Wf_idle u2) = wf_slots 5 u" unfolding u2_def wf_slots_frame t1s ..
    have "s_held (wf_slots 5 u q) = None" "s_safe (wf_slots 5 u q)" "- 1 \<le> s_cycle (wf_slots 5 u q)"
      using U(9) unfolding passed_def by blast+
    moreover have "s_cycle (wf_slots 5 u q) < int (q div 2 ^ (5 + 1))" using U(9) q(1) unfolding passed_def by blast
    ultimately show "s_held (wf_slots 5 (wgoto 2 Wf_idle u2) q) = None" "s_safe (wf_slots 5 (wgoto 2 Wf_idle u2) q)"
      "s_cycle (wf_slots 5 (wgoto 2 Wf_idle u2) q) = - 1" unfolding w using q(2) by simp_all
  qed
  define u3 where "u3 = wf_run 5 [2, 2, 2, 2] u2"
  have pc2: "wpcs u2 2 = Q_ticket (0 XOR (wf_n 5 - 1)) True 15" and z: "unat (0 :: u64) < 2 ^ 5" and "(17 :: nat) < 2 ^ (5 + 1)"
    by (simp_all add: u2_def x_def)
  note A = enq_success [OF o(1,2) pc2 z free2 this(3), folded u3_def]
  have l3: "wlocals u3 = (wlocals u)(2 := l\<lparr> ws_nextCheck := Suc 14 \<rparr>)" unfolding A(2) by (simp add: u2_def u1)
  have run6: "wf_run 5 [2, 2, 2, 2, 2, 2] u1 = u3"
    using run2 wf_run_append [of 5 "[2, 2]" "[2, 2, 2, 2]" u1] by (simp add: u3_def del: wf_run.simps)
  define u4 where "u4 = wf_busy 5 2 14 u3"
  have n3: "ws_nextCheck (wlocals u3 2) = Suc (14 + 0)" "(18 :: nat) + 14 \<le> 2 ^ (5 + 1)" by (simp_all add: l3)
  have f3: "free_from 5 2 18 u3" using A(1) by simp
  have B: "free_from 5 2 32 u4" "wlocals u4 = (wlocals u)(2 := l\<lparr> ws_nextCheck := 1 \<rparr>)"
    using busy_ops [OF o(1,2) f3 n3] by (simp_all add: u4_def l3)
  define u5 where "u5 = wf_run 5 [2, 2, 2, 2, 2] (wf_enq_call 5 2 0 True u4)"
  have n4: "ws_nextCheck (wlocals u4 2) = 1" "ws_currThread (wlocals u4 2) = 2" "(32 :: nat) < 2 ^ (5 + 1)" using l by (simp_all add: B(2))
  note C = turn_op [OF o(1,2) B(1) n4, folded u5_def]
  have next0: "wf_next (l\<lparr> ws_nextCheck := 1 \<rparr>) = 0" using l(3) by (simp add: wf_next_def)
  have l5: "wlocals u5 = (wlocals u)(2 := l\<lparr> ws_currThread := 0, ws_nextCheck := 16 \<rparr>)" unfolding C(2) B(2) using next0 by simp
  define u6 where "u6 = wf_busy 5 2 15 u5"
  have f5: "free_from 5 2 33 u5" using C(1) by simp
  have n5: "ws_nextCheck (wlocals u5 2) = Suc (15 + 0)" "(33 :: nat) + 15 \<le> 2 ^ (5 + 1)" by (simp_all add: l5)
  have D: "free_from 5 2 48 u6" "wlocals u6 = (wlocals u)(2 := l\<lparr> ws_currThread := 0, ws_nextCheck := 1 \<rparr>)"
    using busy_ops [OF o(1,2) f5 n5] by (simp_all add: u6_def l5)
  have five: "wf_thread 5 2 False (wf_run 5 [2, 2, 2, 2] s) = wf_run 5 [2, 2, 2, 2, 2] s" for s by simp
  have j: "wf_joined = wf_run 5 [2, 2, 2, 2, 2] (wf_enq_call 5 2 0 True u6)"
    unfolding wf_joined_def wf_joining_def five u6_def u5_def u4_def u_def [symmetric] u1_def [symmetric] run6 ..
  have j4: "wf_joining = wf_run 5 [2, 2, 2, 2] (wf_enq_call 5 2 0 True u6)"
    unfolding wf_joining_def u6_def u5_def u4_def u_def [symmetric] u1_def [symmetric] run6 ..
  have n6: "ws_nextCheck (wlocals u6 2) = 1" "ws_currThread (wlocals u6 2) = 0" "(0 :: nat) \<noteq> 2"
    "ws_seq2 (wlocals u6 0) = ws_seq1 (wlocals u6 0)" using U(3,4) by (simp_all add: D(2))
  have zero: "wlocals u6 0 = wlocals u 0" by (simp add: D(2))
  have "WFRING_EIDX_DEQ < x" by (simp add: x_def WFRING_EIDX_DEQ_def wf_n_def wf_pow2_words lfring_pow2_def)
  then have n7: "WFRING_EIDX_DEQ < ws_eidx (wlocals u6 0)" unfolding zero U(5) .
  note E = join_op [OF n6(1-3) n7 n6(4), of 5, folded j]
  show "wpcs wf_joined 2 = S_run \<lparr> ej_thread = 0, ej_eidx = x, ej_seq = 1, ej_nonempty = True \<rparr>
      (For_other 0 (To_enqueue x True)) (A_inc (I_load 60))"
    unfolding E(1) zero U(3,5,6) x_def ..
  show "ws_seq1 (wlocals wf_joined 0) = 1" unfolding E(2) zero by (rule U(3))
  have idle: "wpcs u 2 = Wf_idle" "wpcs u3 2 = Wf_idle" "wpcs u4 2 = Wf_idle" "wpcs u5 2 = Wf_idle" "wpcs u6 2 = Wf_idle"
    using two f3 B(1) f5 D(1) by (simp_all add: free_from_def)
  have "wf_reachable 5 ?links 97 u3" using call_reachable [OF U(1) idle(1), of "[2, 2, 2, 2, 2, 2]"]
    unfolding u1_def [symmetric] run6 by simp
  then have "wf_reachable 5 ?links 167 u4"
    using wf_busy_reachable [OF _ idle(2) o(1,2) f3 n3, of ?links 97] by (simp add: u4_def)
  then have "wf_reachable 5 ?links 173 u5" using call_reachable [OF _ idle(3), of 5 ?links 167 "[2, 2, 2, 2, 2]"] by (simp add: u5_def del: wf_run.simps)
  then have "wf_reachable 5 ?links 248 u6"
    using wf_busy_reachable [OF _ idle(4) o(1,2) f5 n5, of ?links 173] by (simp add: u6_def)
  then show "wf_reachable 5 ?links 254 wf_joined"
    using call_reachable [OF _ idle(5), of 5 ?links 248 "[2, 2, 2, 2, 2]"] by (simp add: j del: wf_run.simps)
  from \<open>wf_reachable 5 ?links 248 u6\<close> show "wf_reachable 5 ?links 253 wf_joining"
    using call_reachable [OF _ idle(5), of 5 ?links 248 "[2, 2, 2, 2]"] by (simp add: j4 del: wf_run.simps)
  show "\<not> wf_working (wpcs wf_joining 2)" unfolding j4 by (rule E(3))
qed


section \<open>Properties\<close>

text \<open>
  C17: In a circle of m threads, a thread enters __wfring_help with every 16th operation, counted from the
  start or from the last time it left the help, and with no other; operations that end at the test of the
  threshold do not count. Inside it looks at the thread currThread, at an odd distance ahead, unless that is
  the thread itself; when it leaves, currThread moves on to the next one of the circle if it was the thread
  itself and by two otherwise. So a thread never helps those at an even distance.
\<close>

theorem wf_helps_odd:
  assumes "wf_counted order (\<lambda>t. Suc t mod m) t k n s" and "2 \<le> m" and "t < m"
  shows "n \<le> 16 \<and> n + ws_nextCheck (wlocals s t) = 16 \<and>
    (n = 16 \<longleftrightarrow> wf_helped (wpcs s t) \<noteq> None \<or> wf_leaving (wpcs s t) \<noteq> None) \<and>
    (\<forall>u. wf_helped (wpcs s t) = Some u \<longrightarrow> u = ws_currThread (wlocals s t) \<and> (\<exists>j < m. odd j \<and> u = (t + j) mod m)) \<and>
    (wf_leaving (wpcs s t) \<noteq> None \<longrightarrow> ws_currThread (wlocals (wf_thread order t spurious s) t) =
       (if ws_currThread (wlocals s t) = t then Suc t mod m else (ws_currThread (wlocals s t) + 2) mod m))"
proof -
  have sum: "n + ws_nextCheck (wlocals s t) = 16" using counted_sum [OF assms] by (simp add: WFRING_DELAY_def)
  note c = wf_reachable_circle [OF counted_reachable [OF assms(1)] assms(2)]
  then have h: "help_ok m t (fst (wf_own (wlocals s t))) (wpcs s t)" using assms(3) by (simp add: wf_circle_def)
  have "n = 16 \<longleftrightarrow> wf_helped (wpcs s t) \<noteq> None \<or> wf_leaving (wpcs s t) \<noteq> None"
    using h sum by (auto simp: help_ok_def wf_own_def split: if_splits)
  moreover have "\<forall>u. wf_helped (wpcs s t) = Some u \<longrightarrow> u = ws_currThread (wlocals s t) \<and> (\<exists>j < m. odd j \<and> u = (t + j) mod m)"
    using h by (auto simp: help_ok_def wf_own_def odd_ahead_def)
  moreover have "wf_leaving (wpcs s t) \<noteq> None \<longrightarrow> ws_currThread (wlocals (wf_thread order t spurious s) t) =
       (if ws_currThread (wlocals s t) = t then Suc t mod m else (ws_currThread (wlocals s t) + 2) mod m)"
    using leaving_turn [OF c assms(2,3)] by blast
  ultimately show ?thesis using sum by simp
qed

theorem wf_helps_odd_witness:
  "\<exists>n. wf_counted 5 (\<lambda>t. Suc t mod 3) 2 254 n wf_joined \<and> n = 16 \<and> wf_helped (wpcs wf_joined 2) = Some 0 \<and>
     ws_currThread (wlocals wf_joined 2) = 0 \<and> (\<exists>j < 3. odd j \<and> 0 = (2 + j) mod (3 :: nat))"
proof -
  obtain n where n: "wf_counted 5 (\<lambda>t. Suc t mod 3) 2 254 n wf_joined" using reachable_counted [OF joined_state(1)] by blast
  have h: "wf_helped (wpcs wf_joined 2) = Some 0" by (simp add: joined_state(3))
  have "(2 :: nat) \<le> 3" "(2 :: nat) < 3" by simp_all
  note O = wf_helps_odd [OF n this, of False]
  have "n = 16" using O h by simp
  moreover have "0 = ws_currThread (wlocals wf_joined 2) \<and> (\<exists>j < 3. odd j \<and> 0 = (2 + j) mod (3 :: nat))" using O h by blast
  ultimately show ?thesis using n h by metis
qed

text \<open>
  C16: In every reachable state of the wait-free ring, a request is published, seq2 equal to seq1, exactly
  while its owner is between the publication and the end of its own slow path. A thread that comes to work for
  thread u, on an enqueue or on a dequeue, takes with it thread u, the index and the position published with
  the current sequence number, and u is at that moment inside the slow path of the same kind. From then on it
  works on the state of u; in a slow enqueue it leaves at the next test once the sequence number is no longer
  current, and while it is current it has the index of the request and u is in its slow enqueue.
\<close>

theorem wf_request_published:
  assumes "wf_reachable order links k s" and "k \<le> 2 ^ 63" and "0 < order" and "order < 64"
  shows "(ws_seq2 (wlocals s u) = ws_seq1 (wlocals s u) \<longleftrightarrow> wf_requesting (wpcs s u)) \<and>
    (\<not> wf_working (wpcs s t) \<and> wpcs (wf_thread order t spurious s) t = S_run j (For_other u r) a \<longrightarrow>
       j = \<lparr> ej_thread = u, ej_eidx = ws_eidx (wlocals s u), ej_seq = ws_seq1 (wlocals s u), ej_nonempty = resume_nonempty r \<rparr> \<and>
       a = A_inc (I_load (ws_initTail (wlocals s u))) \<and> wf_slow_enqueuing (wpcs s u)) \<and>
    (\<not> wf_working (wpcs s t) \<and> wpcs (wf_thread order t spurious s) t = T_run d (For_other u r) b \<longrightarrow>
       d = \<lparr> dj_thread = u, dj_nonempty = resume_nonempty r \<rparr> \<and> ws_eidx (wlocals s u) = WFRING_EIDX_DEQ \<and>
       b = B_inc (I_load (ws_initHead (wlocals s u))) \<and> wf_slow_dequeuing (wpcs s u)) \<and>
    (wpcs s t = T_run d (For_other u r) b \<longrightarrow> dj_thread d = u) \<and>
    (wpcs s t = S_run j (For_other u r) a \<longrightarrow> ej_thread j = u \<and>
       (if ej_seq j = ws_seq1 (wlocals s u) then ej_eidx j = ws_eidx (wlocals s u) \<and> wf_slow_enqueuing (wpcs s u)
        else \<forall>tail. a = A_seq tail \<longrightarrow> wpcs (wf_thread order t spurious s) t = H_next u r))"
proof -
  note R = wf_reachable_requests [OF assms(1,2)]
  have "own_ok (wlocals s u) (wpcs s u)" using R by (simp add: wf_requests_def)
  then have published: "ws_seq2 (wlocals s u) = ws_seq1 (wlocals s u) \<longleftrightarrow> wf_requesting (wpcs s u)" by (rule own_requesting)
  show ?thesis
    by (rule conjI [OF published], rule conjI, rule impI, elim conjE, rule joins_enqueue [OF R], assumption+,
      rule conjI, rule impI, elim conjE, rule joins_dequeue [OF assms], assumption+,
      rule conjI, rule impI, erule helps_dequeue [OF R], rule impI, erule helps_enqueue [OF R])
qed

theorem wf_request_published_witness:
  "wf_reachable 5 (\<lambda>t. Suc t mod 3) 253 wf_joining \<and> wf_requesting (wpcs wf_joining 0) \<and> wf_slow_enqueuing (wpcs wf_joining 0) \<and>
   wpcs (wf_thread 5 2 False wf_joining) 2 = S_run \<lparr> ej_thread = 0, ej_eidx = 0 XOR (wf_n 5 - 1), ej_seq = 1, ej_nonempty = True \<rparr>
      (For_other 0 (To_enqueue (0 XOR (wf_n 5 - 1)) True)) (A_inc (I_load 60))"
proof -
  have "(253 :: nat) \<le> 2 ^ 63" "(0 :: nat) < 5" "(5 :: nat) < 64" by simp_all
  note P = wf_request_published [OF joined_state(4) this, where u = 0 and t = 2 and spurious = False]
  have e: "wf_slow_enqueuing (wpcs wf_joining 0)" using P joined_state(5) joined_state(3) unfolding wf_joined_def by blast
  then have "wf_requesting (wpcs wf_joining 0)" by (simp add: wf_requesting_def)
  then show ?thesis using e joined_state(4) joined_state(3) unfolding wf_joined_def by blast
qed

end
