(* ===== verification/Feed_Life.thy ===== *)
theory Feed_Life
  imports Mains
begin

text \<open>
  The life of a \<open>WebSocketExchangeFeed\<close> (src/src/cex_type1/feed.cpp): \<open>start\<close> and \<open>stop\<close> of its owner and the worker that
  runs \<open>run\<close> and \<open>pump\<close>. A step is what a thread does up to its next access to \<open>running_\<close>, the socket or
  the thread object. What the other side does is a step of its own: frames arrive, a connection is refused,
  closed, or silent for the five seconds of the receive time-out, which \<open>receiveFrame\<close> reports with an exception.
\<close>

section \<open>State\<close>

datatype feed_pc =
    F_check
  | F_connect
  | F_loop
  | F_receive
  | F_after
  | F_sleep
  | F_exit

datatype feed_owner = O_idle | O_spawn | O_join

text \<open>
  \<open>worker_\<close> is \<open>None\<close> when the thread object is not joinable. \<open>fl_inbox\<close> holds the frames that have arrived on the current
  connection, \<open>fl_received\<close> those that \<open>pump\<close> has handled on all connections so far, \<open>fl_done\<close> what it did with them.
\<close>

record feed_life =
  fl_running :: bool
  fl_worker :: "feed_pc option"
  fl_owner :: feed_owner
  fl_inbox :: "ws_frame list"
  fl_received :: "ws_frame list"
  fl_done :: "feed_action list"

definition makeWebSocketFeed :: feed_life where
  "makeWebSocketFeed = \<lparr> fl_running = False, fl_worker = None, fl_owner = O_idle, fl_inbox = [], fl_received = [], fl_done = [] \<rparr>"

section \<open>The owner\<close>

text \<open>\<open>start\<close>: the exchange of \<open>running_\<close>, then the thread. \<open>stop\<close>: the store, then the join, which waits for the worker.\<close>

definition feed_start :: "feed_life \<Rightarrow> feed_life" where
  "feed_start s = (if fl_running s then s else s\<lparr> fl_running := True, fl_owner := O_spawn \<rparr>)"

definition feed_spawn :: "feed_life \<Rightarrow> feed_life" where
  "feed_spawn s = s\<lparr> fl_worker := Some F_check, fl_owner := O_idle \<rparr>"

definition feed_stop :: "feed_life \<Rightarrow> feed_life" where
  "feed_stop s = s\<lparr> fl_running := False, fl_owner := (if fl_worker s = None then O_idle else O_join) \<rparr>"

definition feed_join :: "feed_life \<Rightarrow> feed_life" where
  "feed_join s = s\<lparr> fl_worker := None, fl_owner := O_idle \<rparr>"

section \<open>The worker\<close>

definition fgoto :: "feed_pc \<Rightarrow> feed_life \<Rightarrow> feed_life" where
  "fgoto pc s = s\<lparr> fl_worker := Some pc \<rparr>"

text \<open>What the socket does to the worker: the connection is made or refused; \<open>receiveFrame\<close> gives a frame, ends or throws.\<close>

datatype socket_event = Sock_open | Sock_refused exn | Sock_frame | Sock_end | Sock_error exn

text \<open>\<open>receiveFrame\<close> and the rest of the round; an exception leaves \<open>pump\<close> and is reported by \<open>run\<close>.\<close>

fun feed_receive ::
  "('e, 'd) json_api \<Rightarrow> (string \<Rightarrow> 'e option) \<Rightarrow> string \<Rightarrow> socket_event \<Rightarrow> feed_life \<Rightarrow> feed_life" where
  "feed_receive api parse exchange Sock_frame s =
     (case fl_inbox s of
        [] \<Rightarrow> s
      | f # fs \<Rightarrow>
          if kFeedBuffer < length (frame_payload f)
          then fgoto F_after (s\<lparr> fl_done := fl_done s @ [Warn (Library_error ''payload too big'')], fl_inbox := fs \<rparr>)
          else if frame_payload f = [] then fgoto F_after (s\<lparr> fl_inbox := fs \<rparr>)
          else fgoto F_loop (s\<lparr> fl_inbox := fs, fl_received := fl_received s @ [f],
                               fl_done := fl_done s @ handle_frame api parse exchange f \<rparr>))"
| "feed_receive api parse exchange Sock_end s = fgoto F_after s"
| "feed_receive api parse exchange (Sock_error e) s = fgoto F_after (s\<lparr> fl_done := fl_done s @ [Warn e] \<rparr>)"
| "feed_receive api parse exchange _ s = s"

fun feed_connect :: "socket_event \<Rightarrow> feed_life \<Rightarrow> feed_life" where
  "feed_connect Sock_open s = fgoto F_loop (s\<lparr> fl_inbox := [] \<rparr>)"
| "feed_connect (Sock_refused e) s = fgoto F_after (s\<lparr> fl_done := fl_done s @ [Warn e] \<rparr>)"
| "feed_connect _ s = s"

definition feed_worker_step ::
  "('e, 'd) json_api \<Rightarrow> (string \<Rightarrow> 'e option) \<Rightarrow> string \<Rightarrow> socket_event \<Rightarrow> feed_life \<Rightarrow> feed_life" where
  "feed_worker_step api parse exchange ev s =
     (case fl_worker s of
        None \<Rightarrow> s
      | Some pc \<Rightarrow>
          (case pc of
             F_check \<Rightarrow> fgoto (if fl_running s then F_connect else F_exit) s
           | F_connect \<Rightarrow> feed_connect ev s
           | F_loop \<Rightarrow> fgoto (if fl_running s then F_receive else F_after) s
           | F_receive \<Rightarrow> feed_receive api parse exchange ev s
           | F_after \<Rightarrow> fgoto (if fl_running s then F_sleep else F_check) s
           | F_sleep \<Rightarrow> fgoto F_check s
           | F_exit \<Rightarrow> s))"

text \<open>The events with which the worker goes on: the socket's answer to what it is waiting for.\<close>

fun feed_ready :: "feed_pc \<Rightarrow> socket_event \<Rightarrow> feed_life \<Rightarrow> bool" where
  "feed_ready F_connect ev s \<longleftrightarrow> ev = Sock_open \<or> (\<exists>e. ev = Sock_refused e)"
| "feed_ready F_receive ev s \<longleftrightarrow> ev = Sock_frame \<and> fl_inbox s \<noteq> [] \<or> ev = Sock_end \<or> (\<exists>e. ev = Sock_error e)"
| "feed_ready F_exit ev s \<longleftrightarrow> False"
| "feed_ready _ ev s \<longleftrightarrow> True"

inductive feed_step ::
  "('e, 'd) json_api \<Rightarrow> (string \<Rightarrow> 'e option) \<Rightarrow> string \<Rightarrow> feed_life \<Rightarrow> feed_life \<Rightarrow> bool" for api parse exchange where
  start: "fl_owner s = O_idle \<Longrightarrow> feed_step api parse exchange s (feed_start s)"
| spawn: "fl_owner s = O_spawn \<Longrightarrow> feed_step api parse exchange s (feed_spawn s)"
| stop: "fl_owner s = O_idle \<Longrightarrow> feed_step api parse exchange s (feed_stop s)"
| join: "fl_owner s = O_join \<Longrightarrow> fl_worker s = Some F_exit \<Longrightarrow> feed_step api parse exchange s (feed_join s)"
| arrive: "feed_step api parse exchange s (s\<lparr> fl_inbox := fl_inbox s @ [f] \<rparr>)"
| worker: "fl_worker s = Some pc \<Longrightarrow> feed_ready pc ev s \<Longrightarrow>
    feed_step api parse exchange s (feed_worker_step api parse exchange ev s)"

inductive feed_reachable ::
  "('e, 'd) json_api \<Rightarrow> (string \<Rightarrow> 'e option) \<Rightarrow> string \<Rightarrow> feed_life \<Rightarrow> bool" for api parse exchange where
  initial: "feed_reachable api parse exchange makeWebSocketFeed"
| step: "feed_reachable api parse exchange s \<Longrightarrow> feed_step api parse exchange s s' \<Longrightarrow> feed_reachable api parse exchange s'"

section \<open>Invariant\<close>

text \<open>
  There is a worker exactly between the end of \<open>start\<close> and the end of \<open>stop\<close>, so \<open>start\<close> never assigns to a joinable
  thread, and the worker has left its loop only when \<open>stop\<close> is waiting for it.
\<close>

definition feed_owner_ok :: "feed_life \<Rightarrow> bool" where
  "feed_owner_ok s \<longleftrightarrow>
     (case fl_owner s of
        O_idle \<Rightarrow> fl_running s = (fl_worker s \<noteq> None)
      | O_spawn \<Rightarrow> fl_running s \<and> fl_worker s = None
      | O_join \<Rightarrow> \<not> fl_running s \<and> fl_worker s \<noteq> None) \<and>
     (fl_worker s = Some F_exit \<longrightarrow> \<not> fl_running s)"

definition feed_delivered ::
  "('e, 'd) json_api \<Rightarrow> (string \<Rightarrow> 'e option) \<Rightarrow> string \<Rightarrow> feed_life \<Rightarrow> bool" where
  "feed_delivered api parse exchange s \<longleftrightarrow>
     callbacks (fl_done s) = concat (map (frame_events api parse exchange) (fl_received s))"

lemma fgoto_simps [simp]:
  "fl_worker (fgoto pc s) = Some pc" "fl_running (fgoto pc s) = fl_running s" "fl_owner (fgoto pc s) = fl_owner s"
  "fl_done (fgoto pc s) = fl_done s" "fl_received (fgoto pc s) = fl_received s"
  by (simp_all add: fgoto_def)

lemma callbacks_warn [simp]: "callbacks [Warn e] = []"
  by (simp add: callbacks_def)

text \<open>A step of the worker in terms of its control state, the frames it handles and what it does.\<close>

lemma worker_effect:
  fixes s api parse exchange ev
  defines "s' \<equiv> feed_worker_step api parse exchange ev s"
  assumes "fl_worker s = Some pc" "feed_ready pc ev s"
  shows "fl_running s' = fl_running s" "fl_owner s' = fl_owner s"
    "\<exists>pc'. fl_worker s' = Some pc' \<and> (pc' = F_exit \<longrightarrow> \<not> fl_running s)"
    "\<exists>fs. fl_received s' = fl_received s @ fs \<and> length fs \<le> (if pc = F_receive then 1 else 0) \<and>
      callbacks (fl_done s') = callbacks (fl_done s) @ concat (map (frame_events api parse exchange) fs)"
  using assms
  by (cases pc; cases ev; auto simp: feed_worker_step_def callbacks_append callbacks_handle split: list.splits)+

lemma feed_step_ok:
  assumes ok: "feed_owner_ok s" "feed_delivered api parse exchange s" and step: "feed_step api parse exchange s s'"
  shows "feed_owner_ok s' \<and> feed_delivered api parse exchange s'"
  using step
proof cases
  case (worker pc ev)
  note w = worker_effect [OF worker(2,3), of api parse exchange, folded worker(1)]
  have "feed_owner_ok s'" using w(1-3) ok(1) worker(2) by (auto simp: feed_owner_ok_def split: feed_owner.splits)
  then show ?thesis using w(4) ok(2) by (auto simp: feed_delivered_def)
qed (use ok in \<open>auto simp: feed_owner_ok_def feed_delivered_def feed_start_def feed_spawn_def feed_stop_def feed_join_def split: feed_owner.splits\<close>)

lemma feed_reachable_ok: "feed_reachable api parse exchange s \<Longrightarrow> feed_owner_ok s \<and> feed_delivered api parse exchange s"
proof (induction rule: feed_reachable.induct)
  case initial
  show ?case by (simp add: feed_owner_ok_def feed_delivered_def makeWebSocketFeed_def callbacks_def)
qed (use feed_step_ok in blast)

section \<open>The end of a worker\<close>

text \<open>The worker alone, step by step: the frames that arrive before each step, and the socket's answer.\<close>

fun feed_works ::
  "('e, 'd) json_api \<Rightarrow> (string \<Rightarrow> 'e option) \<Rightarrow> string \<Rightarrow> (ws_frame list \<times> socket_event) list \<Rightarrow> feed_life \<Rightarrow> feed_life" where
  "feed_works api parse exchange [] s = s"
| "feed_works api parse exchange ((fs, ev) # evs) s =
     feed_works api parse exchange evs (feed_worker_step api parse exchange ev (s\<lparr> fl_inbox := fl_inbox s @ fs \<rparr>))"

fun feed_works_ready ::
  "('e, 'd) json_api \<Rightarrow> (string \<Rightarrow> 'e option) \<Rightarrow> string \<Rightarrow> (ws_frame list \<times> socket_event) list \<Rightarrow> feed_life \<Rightarrow> bool" where
  "feed_works_ready api parse exchange [] s \<longleftrightarrow> True"
| "feed_works_ready api parse exchange ((fs, ev) # evs) s \<longleftrightarrow>
     (case fl_worker s of
        None \<Rightarrow> False
      | Some pc \<Rightarrow> feed_ready pc ev (s\<lparr> fl_inbox := fl_inbox s @ fs \<rparr>) \<and>
          feed_works_ready api parse exchange evs (feed_worker_step api parse exchange ev (s\<lparr> fl_inbox := fl_inbox s @ fs \<rparr>)))"

text \<open>The steps a worker has left once \<open>running_\<close> is false, and the frames it may still handle.\<close>

fun feed_left :: "feed_pc \<Rightarrow> nat" where
  "feed_left F_exit = 0"
| "feed_left F_check = 1"
| "feed_left F_sleep = 2"
| "feed_left F_after = 2"
| "feed_left F_loop = 3"
| "feed_left F_receive = 4"
| "feed_left F_connect = 4"

lemma feed_left_bound: "feed_left pc \<le> 4"
  by (cases pc) simp_all

lemma feed_left_step:
  assumes "fl_worker s = Some pc" "feed_ready pc ev s" "\<not> fl_running s"
  shows "\<exists>pc'. fl_worker (feed_worker_step api parse exchange ev s) = Some pc' \<and> feed_left pc' < feed_left pc \<and> pc' \<noteq> F_receive"
  using assms by (cases pc; cases ev) (auto simp: feed_worker_step_def split: list.splits)

lemma feed_works_bound:
  assumes "feed_works_ready api parse exchange evs s" "fl_worker s = Some pc" "\<not> fl_running s"
  shows "length evs \<le> feed_left pc \<and>
    length (fl_received (feed_works api parse exchange evs s)) \<le> length (fl_received s) + (if pc = F_receive then 1 else 0)"
  using assms
proof (induction evs arbitrary: s pc)
  case (Cons e evs)
  obtain fs ev where e: "e = (fs, ev)" by (cases e)
  define s0 where "s0 = s\<lparr> fl_inbox := fl_inbox s @ fs \<rparr>"
  define s1 where "s1 = feed_worker_step api parse exchange ev s0"
  have r: "feed_ready pc ev s0" "feed_works_ready api parse exchange evs s1" "fl_worker s0 = Some pc" "\<not> fl_running s0"
    "fl_received s0 = fl_received s"
    using Cons.prems by (simp_all add: e s0_def s1_def)
  obtain pc' where pc': "fl_worker s1 = Some pc'" "feed_left pc' < feed_left pc" "pc' \<noteq> F_receive"
    using feed_left_step [OF r(3,1,4), of api parse exchange] unfolding s1_def by blast
  note w = worker_effect [OF r(3,1), of api parse exchange, folded s1_def]
  obtain gs where gs: "fl_received s1 = fl_received s0 @ gs" "length gs \<le> (if pc = F_receive then 1 else 0)" using w(4) by blast
  have "\<not> fl_running s1" using w(1) r(4) by simp
  note IH = Cons.IH [OF r(2) pc'(1) this]
  show ?case using IH gs pc' r(5) by (simp add: e s0_def [symmetric] s1_def [symmetric])
qed simp

lemma feed_works_end:
  "fl_worker s = Some pc \<Longrightarrow> \<not> fl_running s \<Longrightarrow>
    \<exists>evs. feed_works_ready api parse exchange evs s \<and> fl_worker (feed_works api parse exchange evs s) = Some F_exit"
proof (induction "feed_left pc" arbitrary: s pc rule: less_induct)
  case less
  show ?case
  proof (cases "pc = F_exit")
    case True
    then show ?thesis using less.prems by (intro exI [of _ "[]"]) simp
  next
    case False
    define ev where "ev = (if pc = F_connect then Sock_open else Sock_end)"
    define s1 where "s1 = feed_worker_step api parse exchange ev (s\<lparr> fl_inbox := fl_inbox s @ [] \<rparr>)"
    have r: "feed_ready pc ev s" using False by (cases pc) (simp_all add: ev_def)
    obtain pc' where pc': "fl_worker s1 = Some pc'" "feed_left pc' < feed_left pc"
      using feed_left_step [OF less.prems(1) r less.prems(2), of api parse exchange] by (auto simp: s1_def)
    have "\<not> fl_running s1" using worker_effect(1) [OF less.prems(1) r, of api parse exchange] less.prems by (simp add: s1_def)
    from less.hyps [OF pc'(2,1) this] obtain evs where "feed_works_ready api parse exchange evs s1"
      "fl_worker (feed_works api parse exchange evs s1) = Some F_exit" by blast
    then show ?thesis using r less.prems(1) by (intro exI [of _ "([], ev) # evs"]) (simp add: s1_def)
  qed
qed

section \<open>A run\<close>

lemma feed_works_reachable:
  "feed_reachable api parse exchange s \<Longrightarrow> feed_works_ready api parse exchange evs s \<Longrightarrow>
    feed_reachable api parse exchange (feed_works api parse exchange evs s)"
proof (induction evs arbitrary: s)
  case (Cons e evs)
  obtain fs ev where e: "e = (fs, ev)" by (cases e)
  have arrive: "feed_reachable api parse exchange (s\<lparr> fl_inbox := fl_inbox s @ fs \<rparr>)" for fs
  proof (induction fs rule: rev_induct)
    case (snoc f fs)
    from feed_reachable.step [OF this feed_step.arrive, of f] show ?case by simp
  qed (use Cons.prems(1) in simp)
  obtain pc where pc: "fl_worker s = Some pc" "feed_ready pc ev (s\<lparr> fl_inbox := fl_inbox s @ fs \<rparr>)"
    "feed_works_ready api parse exchange evs (feed_worker_step api parse exchange ev (s\<lparr> fl_inbox := fl_inbox s @ fs \<rparr>))"
    using Cons.prems(2) by (auto simp: e split: option.splits)
  have w: "fl_worker (s\<lparr> fl_inbox := fl_inbox s @ fs \<rparr>) = Some pc" using pc(1) by simp
  from Cons.IH [OF feed_reachable.step [OF arrive feed_step.worker [OF w pc(2)]] pc(3)]
  show ?case by (simp add: e)
qed simp

text \<open>A feed that connects and receives a message, and one that is stopped while it waits for the next.\<close>

definition demo_frames :: "(ws_frame list \<times> socket_event) list" where
  "demo_frames = [([], Sock_end), ([], Sock_open), ([], Sock_end), ([text_frame 1 ''m''], Sock_frame)]"

definition demo_fed :: feed_life where
  "demo_fed = feed_works text_api (\<lambda>_. Some ''o'') ''A'' demo_frames (feed_spawn (feed_start makeWebSocketFeed))"

definition demo_stopped :: feed_life where
  "demo_stopped = feed_stop (feed_works text_api (\<lambda>_. Some ''o'') ''A'' [([], Sock_end)] demo_fed)"

lemmas demo_feed_defs = demo_fed_def demo_frames_def makeWebSocketFeed_def feed_start_def feed_spawn_def feed_worker_step_def
  fgoto_def text_frame_def kFeedBuffer_def

lemma demo_fed_reachable: "feed_reachable text_api (\<lambda>_. Some ''o'') ''A'' demo_fed"
proof -
  have "feed_reachable text_api (\<lambda>_. Some ''o'') ''A'' (feed_start makeWebSocketFeed)"
    by (rule feed_reachable.step [OF feed_reachable.initial feed_step.start]) (simp add: makeWebSocketFeed_def)
  then have "feed_reachable text_api (\<lambda>_. Some ''o'') ''A'' (feed_spawn (feed_start makeWebSocketFeed))"
    by (rule feed_reachable.step [OF _ feed_step.spawn]) (simp add: makeWebSocketFeed_def feed_start_def)
  then show ?thesis unfolding demo_fed_def
    by (rule feed_works_reachable) (simp add: demo_feed_defs)
qed

lemma demo_fed_state:
  "fl_worker demo_fed = Some F_loop" "fl_running demo_fed" "fl_owner demo_fed = O_idle" "fl_received demo_fed = [text_frame 1 ''m'']"
  by (simp_all add: demo_feed_defs)

lemma demo_stopped_reachable: "feed_reachable text_api (\<lambda>_. Some ''o'') ''A'' demo_stopped" "fl_owner demo_stopped = O_join"
proof -
  have "feed_reachable text_api (\<lambda>_. Some ''o'') ''A'' (feed_works text_api (\<lambda>_. Some ''o'') ''A'' [([], Sock_end)] demo_fed)"
    by (rule feed_works_reachable [OF demo_fed_reachable]) (simp add: demo_fed_state)
  then show "feed_reachable text_api (\<lambda>_. Some ''o'') ''A'' demo_stopped" unfolding demo_stopped_def
    by (rule feed_reachable.step [OF _ feed_step.stop]) (simp add: feed_worker_step_def demo_fed_state)
  show "fl_owner demo_stopped = O_join" by (simp add: demo_stopped_def feed_stop_def feed_worker_step_def demo_fed_state)
qed

section \<open>Properties\<close>

text \<open>
  C27: In every reachable state of a feed, the callback has got exactly the events decoded from the frames that
  were received, on all connections and in their order. There is a worker exactly while the feed is running or
  being stopped, so starting a feed never overwrites a joinable thread, and once stop has returned nothing
  runs any more.
\<close>

theorem feed_life_invariant:
  assumes "feed_reachable api parse exchange s"
  shows "callbacks (fl_done s) = concat (map (frame_events api parse exchange) (fl_received s)) \<and>
    (fl_owner s = O_idle \<longrightarrow> (fl_running s \<longleftrightarrow> fl_worker s \<noteq> None)) \<and>
    (fl_owner s = O_spawn \<longrightarrow> fl_worker s = None) \<and> (fl_owner s = O_join \<longrightarrow> \<not> fl_running s \<and> fl_worker s \<noteq> None)"
  using feed_reachable_ok [OF assms] by (auto simp: feed_owner_ok_def feed_delivered_def split: feed_owner.splits)

theorem feed_life_invariant_witness:
  "callbacks (fl_done demo_fed) = frame_events text_api (\<lambda>_. Some ''o'') ''A'' (text_frame 1 ''m'') \<and>
    length (callbacks (fl_done demo_fed)) = 1 \<and> fl_worker demo_fed \<noteq> None"
proof -
  have "length (frame_events text_api (\<lambda>_. Some ''o'') ''A'' (text_frame 1 ''m'')) = 1"
    using feed_new_order_fields_witness by (simp add: frame_events_def text_frame_def)
  then show ?thesis using feed_life_invariant [OF demo_fed_reachable] by (simp add: demo_fed_state)
qed

text \<open>
  C28: Stopping a feed ends. When the owner waits in the join, the worker makes at most four more steps,
  whatever arrives and however the socket answers, and handles at most one more frame; and the socket's
  answers, the receive time-out among them, always let it reach its end, after which the join returns.
\<close>

theorem feed_stop_ends:
  assumes "feed_reachable api parse exchange s" and "fl_owner s = O_join"
  shows "(feed_works_ready api parse exchange evs s \<longrightarrow> length evs \<le> 4 \<and>
      length (fl_received (feed_works api parse exchange evs s)) \<le> length (fl_received s) + 1) \<and>
    (\<exists>evs. feed_works_ready api parse exchange evs s \<and> fl_worker (feed_works api parse exchange evs s) = Some F_exit)"
proof -
  have ok: "feed_owner_ok s" using feed_reachable_ok [OF assms(1)] by blast
  then obtain pc where pc: "fl_worker s = Some pc" "\<not> fl_running s" using assms(2) by (auto simp: feed_owner_ok_def)
  have "length evs \<le> 4 \<and> length (fl_received (feed_works api parse exchange evs s)) \<le> length (fl_received s) + 1"
    if "feed_works_ready api parse exchange evs s"
    using feed_works_bound [OF that pc] feed_left_bound [of pc] by (simp split: if_splits)
  then show ?thesis using feed_works_end [OF pc, of api parse exchange] by blast
qed

theorem feed_stop_ends_witness:
  "fl_worker demo_stopped = Some F_receive \<and>
    (\<exists>evs. length evs \<le> 4 \<and> fl_worker (feed_works text_api (\<lambda>_. Some ''o'') ''A'' evs demo_stopped) = Some F_exit)"
proof -
  have "fl_worker demo_stopped = Some F_receive"
    by (simp add: demo_stopped_def feed_stop_def feed_worker_step_def demo_fed_state)
  then show ?thesis using feed_stop_ends [OF demo_stopped_reachable] by blast
qed

end
