(* ===== verification/Big_Atomics.thy ===== *)
theory Big_Atomics
  imports Ptr_Ring
begin

text \<open>
  The double word primitives behind the rings, src/lockfree-waitfree lf/gcc_x86.h and lf/c11.h: what each of
  them does to the object, as a function of the object at each of its accesses. \<open>lfbig\<close> is the version with the
  instruction \<open>cmpxchg16b\<close>, \<open>lfaba\<close> the one with C11 atomics. The rings take an exchange and \<open>fetch_and\<close> as one step; the
  lemmas show that the loop of gcc_x86.h amounts to that.
\<close>

unbundle bit_operations_syntax

section \<open>gcc_x86.h\<close>

text \<open>The instruction: the object against \<open>rdx:rax\<close>, with \<open>rbx\<close> and \<open>rcx\<close> as the new value; the flag, the object, \<open>rdx:rax\<close>.\<close>

definition cmpxchg16b :: "u128 \<Rightarrow> u128 \<Rightarrow> u64 \<Rightarrow> u64 \<Rightarrow> bool \<times> u128 \<times> u128" where
  "cmpxchg16b obj rdx_rax rbx rcx =
     (if obj = rdx_rax then (True, push_bit 64 (ucast rcx) OR ucast rbx, rdx_rax) else (False, obj, obj))"

definition lfbig_cmpxchg_strong :: "u128 \<Rightarrow> u128 \<Rightarrow> u128 \<Rightarrow> bool \<times> u128 \<times> u128" where
  "lfbig_cmpxchg_strong obj expected desired = cmpxchg16b obj expected (ucast desired) (ucast (drop_bit 64 desired))"

definition lfbig_cmpxchg_weak :: "u128 \<Rightarrow> u128 \<Rightarrow> u128 \<Rightarrow> bool \<times> u128 \<times> u128" where
  "lfbig_cmpxchg_weak obj expected desired = lfbig_cmpxchg_strong obj expected desired"

definition lfbig_init :: "u128 \<Rightarrow> u128 \<Rightarrow> u128" where
  "lfbig_init obj val = val"

text \<open>A load of the two halves; \<open>obj0\<close> and \<open>obj1\<close> are the object at the first and at the second access.\<close>

definition lfbig_load :: "u128 \<Rightarrow> u128 \<Rightarrow> u128" where
  "lfbig_load obj0 obj1 = (push_bit 64 (ucast (ucast (drop_bit 64 obj1) :: u64)) OR ucast (ucast obj0 :: u64))"

text \<open>The value and the object.\<close>

definition lfbig_load_atomic :: "u128 \<Rightarrow> u128 \<times> u128" where
  "lfbig_load_atomic obj = (case lfbig_cmpxchg_strong obj 0 0 of (_, obj', value) \<Rightarrow> (value, obj'))"

text \<open>
  The loop of \<open>__lfbig_fetch_and\<close> from \<open>old_val\<close> on. \<open>objs\<close> is the object at each exchange, as the other threads have
  left it; \<open>None\<close> when the loop has not ended after these.
\<close>

fun lfbig_fetch_and_loop :: "u128 \<Rightarrow> u128 \<Rightarrow> u128 list \<Rightarrow> (u128 \<times> u128) option" where
  "lfbig_fetch_and_loop arg old_val [] = None"
| "lfbig_fetch_and_loop arg old_val (obj # objs) =
     (case lfbig_cmpxchg_weak obj old_val (old_val AND arg) of
        (True, obj', _) \<Rightarrow> Some (old_val, obj')
      | (False, _, expected) \<Rightarrow> lfbig_fetch_and_loop arg expected objs)"

definition lfbig_fetch_and :: "u128 \<Rightarrow> u128 \<Rightarrow> u128 \<Rightarrow> u128 list \<Rightarrow> (u128 \<times> u128) option" where
  "lfbig_fetch_and arg obj0 obj1 objs = lfbig_fetch_and_loop arg (lfbig_load obj0 obj1) objs"

section \<open>c11.h\<close>

definition lfaba_init :: "u128 \<Rightarrow> u128 \<Rightarrow> u128" where
  "lfaba_init obj val = val"

definition lfaba_load :: "u128 \<Rightarrow> u128 \<Rightarrow> u128" where
  "lfaba_load obj0 obj1 =
     (let low = ucast obj0 :: u64; high = ucast (drop_bit 64 obj1) :: u64 in push_bit 64 (ucast high) OR ucast low)"

definition lfaba_load_atomic :: "u128 \<Rightarrow> u128 \<times> u128" where
  "lfaba_load_atomic obj = (obj, obj)"

definition lfaba_cmpxchg_strong :: "u128 \<Rightarrow> u128 \<Rightarrow> u128 \<Rightarrow> bool \<times> u128 \<times> u128" where
  "lfaba_cmpxchg_strong obj expected desired = (if obj = expected then (True, desired, expected) else (False, obj, obj))"

definition lfaba_cmpxchg_weak :: "bool \<Rightarrow> u128 \<Rightarrow> u128 \<Rightarrow> u128 \<Rightarrow> bool \<times> u128 \<times> u128" where
  "lfaba_cmpxchg_weak spurious obj expected desired =
     (if obj = expected \<and> \<not> spurious then (True, desired, expected) else (False, obj, obj))"

definition lfaba_fetch_and :: "u128 \<Rightarrow> u128 \<Rightarrow> u128 \<times> u128" where
  "lfaba_fetch_and arg obj = (obj, obj AND arg)"

section \<open>The two versions agree\<close>

lemma word_halves: "push_bit 64 (ucast (ucast (drop_bit 64 x) :: u64)) OR ucast (ucast x :: u64) = (x :: u128)"
  by (rule bit_word_eqI) (auto simp: bit_simps dest: bit_imp_le_length)

lemma cmpxchg_agree:
  "lfbig_cmpxchg_strong obj expected desired = lfaba_cmpxchg_strong obj expected desired"
  "lfbig_cmpxchg_weak obj expected desired = lfaba_cmpxchg_weak False obj expected desired"
  by (simp_all add: lfbig_cmpxchg_weak_def lfbig_cmpxchg_strong_def cmpxchg16b_def lfaba_cmpxchg_strong_def
      lfaba_cmpxchg_weak_def word_halves)

lemma load_agree: "lfbig_load_atomic obj = lfaba_load_atomic obj" "lfbig_load obj0 obj1 = lfaba_load obj0 obj1" "lfaba_load obj obj = obj"
  by (simp_all add: lfbig_load_atomic_def cmpxchg_agree lfaba_cmpxchg_strong_def lfaba_load_atomic_def lfbig_load_def
      lfaba_load_def Let_def word_halves)

text \<open>
  The loop ends at the first exchange that finds the object as the access before has left it, and then it has
  done what \<open>fetch_and\<close> does to the object at that moment. A load that was torn costs a round, no more.
\<close>

lemma fetch_and_loop:
  "lfbig_fetch_and_loop arg old_val objs = Some r \<longleftrightarrow>
     (\<exists>i < length objs. (old_val # objs) ! i = objs ! i \<and> (\<forall>j < i. (old_val # objs) ! j \<noteq> objs ! j) \<and>
        r = lfaba_fetch_and arg (objs ! i))"
proof (induction objs arbitrary: old_val)
  case (Cons obj objs)
  show ?case
  proof (cases "obj = old_val")
    case True
    have z: "(\<forall>j < i. (old_val # old_val # objs) ! j \<noteq> (old_val # objs) ! j) \<longleftrightarrow> i = 0" for i by (cases i) auto
    have "lfbig_fetch_and_loop arg old_val (obj # objs) = Some r \<longleftrightarrow> r = lfaba_fetch_and arg old_val"
      using True by (auto simp: cmpxchg_agree lfaba_cmpxchg_weak_def lfaba_fetch_and_def)
    then show ?thesis unfolding True z by auto
  next
    case False
    have e: "P i \<longleftrightarrow> Q i" if "P = (\<lambda>i. i < length (obj # objs) \<and> (old_val # obj # objs) ! i = (obj # objs) ! i \<and>
        (\<forall>j < i. (old_val # obj # objs) ! j \<noteq> (obj # objs) ! j) \<and> r = lfaba_fetch_and arg ((obj # objs) ! i))"
      "Q = (\<lambda>i. \<exists>k. i = Suc k \<and> k < length objs \<and> (obj # objs) ! k = objs ! k \<and> (\<forall>j < k. (obj # objs) ! j \<noteq> objs ! j) \<and>
        r = lfaba_fetch_and arg (objs ! k))" for P Q i
      unfolding that using False by (cases i) (auto simp: All_less_Suc2)
    show ?thesis using False e [OF refl refl] by (simp add: cmpxchg_agree lfaba_cmpxchg_weak_def Cons.IH)
  qed
qed simp

text \<open>Two accesses without another thread in between are enough.\<close>

lemma fetch_and_ends:
  "lfbig_fetch_and arg obj0 obj1 objs \<noteq> None \<longleftrightarrow> (\<exists>i < length objs. (lfbig_load obj0 obj1 # objs) ! i = objs ! i)"
proof
  define P where "P i \<longleftrightarrow> i < length objs \<and> (lfbig_load obj0 obj1 # objs) ! i = objs ! i" for i
  assume "\<exists>i < length objs. (lfbig_load obj0 obj1 # objs) ! i = objs ! i"
  then have "\<exists>i. P i" by (simp add: P_def)
  then obtain i where i: "P i" "\<forall>j < i. \<not> P j" using exists_least_iff [of P] by blast
  then have "\<forall>j < i. (lfbig_load obj0 obj1 # objs) ! j \<noteq> objs ! j" by (simp add: P_def)
  then have "lfbig_fetch_and_loop arg (lfbig_load obj0 obj1) objs = Some (lfaba_fetch_and arg (objs ! i))"
    unfolding fetch_and_loop using i(1) unfolding P_def by blast
  then show "lfbig_fetch_and arg obj0 obj1 objs \<noteq> None" by (simp add: lfbig_fetch_and_def)
next
  assume "lfbig_fetch_and arg obj0 obj1 objs \<noteq> None"
  then obtain r where "lfbig_fetch_and_loop arg (lfbig_load obj0 obj1) objs = Some r" by (auto simp: lfbig_fetch_and_def)
  then show "\<exists>i < length objs. (lfbig_load obj0 obj1 # objs) ! i = objs ! i" unfolding fetch_and_loop by blast
qed

text \<open>The steps of the ring of pointers that use them.\<close>

lemma ptr_take_fetch_and:
  assumes "lfbig_fetch_and (lfring_pair (NOT 1) 0) obj0 obj1 objs = Some (pair, obj')" and "\<forall>x \<in> set objs. x = ptr_at order s head"
  shows "ptr_deq_take order t head s = pgoto t (G_done (Some (lfring_pointer pair)))
    ((set_pair order head obj' s)\<lparr> take_log := take_log s @ [(unat head, lfring_pointer pair)] \<rparr>)"
proof -
  obtain i where "i < length objs" "(pair, obj') = lfaba_fetch_and (lfring_pair (NOT 1) 0) (objs ! i)"
    using assms(1) unfolding lfbig_fetch_and_def fetch_and_loop by blast
  moreover from this have "objs ! i = ptr_at order s head" using assms(2) by simp
  ultimately show ?thesis by (simp add: lfaba_fetch_and_def ptr_deq_take_def Let_def)
qed

end
