(* ===== verification/Spec2Isabelle.thy ===== *)
theory Spec2Isabelle
  imports Engine Stream_Client Exporters Mains Format_Ext Promise_Seq Ncq_Ring Scq_Safety Ptr_Safety Wf_Protocol Feed_Life Big_Atomics
begin

text \<open>
  A model of the hermeneutic trading services and of the lock-free rings shipped beside them, and the
  theorems that make them correct.

  \<^bold>\<open>The program.\<close> Feeds (src/src/cex_type1) decode exchange messages into events. The aggregation engine
  (src/src/aggregator) keeps one limit order book (src/src/lob) per exchange, applies the events on a
  worker thread, consolidates the books into one view, removes the volume that would cross, and hands the
  view to a publisher thread, which calls the subscribers. A gRPC service streams the views; the client
  services (src/services, src/src/bbo, src/src/price_bands, src/src/volume_bands) compute best quotes,
  price bands and volume bands from them and write CSV files. All numbers are 18 digit fixed point
  decimals (src/src/common), multiplied and divided through 128 or 256 bit integers
  (src/third_party/wide_integer). Independent of these are the rings of src/lockfree-waitfree and the
  formatting header of src/instructions.

  \<^bold>\<open>Theories and code.\<close>
  \<^item> Prelude: machine integers, the outcome of an operation (a value, a thrown exception or an abort
    through debugAssertFailure of common/assert.cpp), lemmas on lists and words.
  \<^item> Wide_Int: the limb loops of uintwide_t.hpp on eight 32 bit limbs. wval is the number of a limb list;
    the lemmas show that each loop computes on it modulo 2 ^ 256.
  \<^item> Decimal: ScaledDecimal of common/decimal.hpp: parsing, printing, comparison, the arithmetic with
    128 bit wrap-around written out, and both products (Int128 and Wide).
  \<^item> Ordered_Map: std::map with a comparator, behind the locales level_store and key_order.
  \<^item> Enum_Support, Events: the enumeration dictionaries of common/enum.cpp and the records of
    common/events.hpp.
  \<^item> Order_Book: LimitOrderBook of lob/order_book.cpp, every operation, over the locale price_levels; the
    invariant says that each level is the snapshot base plus the resting orders.
  \<^item> Event_Queue: ConcurrentQueue of common/concurrent_queue.hpp, over the locale fifo_queue.
  \<^item> Uncross, Aggregator: virtualUncross, consolidate and validateAggregatedView of aggregator.cpp.
  \<^item> Engine: the worker, the publisher and the client operations of AggregationEngine as a step relation
    whose steps are the critical sections of the code; its invariant ties books, queues, produced and
    delivered views together.
  \<^item> Bands: compute and formatQuote of the three calculators.
  \<^item> Transport: grpc_helpers.hpp, authorization and the streaming loop of grpc_service.cpp.
  \<^item> Stream_Client: BookStreamClient of book_stream_client.cpp: start and stop of its owner and the worker
    that connects, reads and reconnects, as a step relation. It shows what the callback gets, when stop
    returns, and that a stop at the wrong moment never does.
  \<^item> Services: csv_utils.cpp, feed_wait.cpp and the payload replay of the demo exchange.
  \<^item> Exporters: the main programs of bbo_service, price_bands_service and volume_bands_service, behind the
    locale csv_exporter; a reader of comma separated text gives back the rows they write.
  \<^item> Feed: the decoding and the receive loop of cex_type1/feed.cpp, and loadAggregatorConfig.
  \<^item> Mains: the request handler and main program of cex_type1_service, the connections of a feed, and the
    main program of aggregator_service; the replay of the demo exchange is followed into the feed's decoder.
  \<^item> Feed_Life: start and stop of a feed and its worker, connection after connection, as a step relation.
  \<^item> Format_Ext: the buffered sink, the flags and the conversion character sets of extension.h.
  \<^item> Promise_Seq: BasicSeqIter of instructions/basic_seq.h, as a fold of its steps.
  \<^item> Lf_Ring, Ncq_Ring: the position permutation shared by the rings, and lfring_naive.h with one step per
    atomic access, for any number of threads.
  \<^item> Ticket_Slots, Ticket_Ring: the abstract machine of a ring whose threads draw tickets, its slots against
    the record of what went in and out, its steps and their invariant.
  \<^item> Ring_Words, Scq_Entry, Scq_Ring, Scq_Safety: lfring_cas1.h with one step per atomic access; its entries
    as words, and the proof that every step is a step of the ticket machine.
  \<^item> Ptr_Ring, Ptr_Slots, Ptr_Safety: the same for the ring of pointers of lfring_cas2.h, whose slots are
    double words that an enqueue loads in two halves (__lfaba_load of lf/c11.h). Pair_Words holds the double
    words that this ring and the next one share.
  \<^item> Big_Atomics: the double word primitives of lf/gcc_x86.h and lf/c11.h; the loop of __lfbig_fetch_and has the
    effect of one atomic step, which is how the rings use it.
  \<^item> Wf_Ring, Wf_Slow: the wait-free ring of wfring_cas2.h, every operation of it with one step per atomic
    access. Wf_Ring has the words, the ring, the wfring_state of a thread and the fast paths of enqueue and
    dequeue; Wf_Slow the slow paths, the increment in two phases (__wfring_slow_inc), __wfring_lookup and
    __wfring_help, and the step relation.
  \<^item> Wf_Slots, Wf_Safety: the entries of that ring as slots, and the proof that every step of a run on the
    fast paths is a step of the ticket machine.
  \<^item> Wf_Help: invariants over all runs of the wait-free ring: whom a thread helps and after how many operations,
    which requests are published, and with what a helper starts. Wf_Lost: a run in which a slow enqueue loses its index, computed for every order, and lemmas on
    the other ways in which the slow paths depart from the fast ones. Wf_Protocol: the properties of the
    helping, with a run in which one thread comes to help another.

  \<^bold>\<open>What is proved.\<close> Functional behaviour on every branch (order book, consolidation, bands, parsing,
  decoding, configuration, CSV guard); refinement of the limb arithmetic, the sink and the naive ring to
  numbers, text and queues, and of the two scalable rings and the fast paths of the wait-free ring to the
  ticket machine; invariants of the order book, the engine, the streams and the rings over all reachable
  states; termination of the engine's, the feeds' and the stream client's stop and of a ring operation that runs alone;
  round trips of decimals, wire messages, snapshots and dictionaries; the exact conditions of overflow, exceptions and
  aborts, among them three aborts the code allows (a stale cached ask, a feed clock ahead of the local one,
  an offset above 10000 basis points). Of the slow paths of the wait-free ring the theorems show what holds,
  the protocol of requests, and what does not: a slow enqueue can return without having stored its index.

  \<^bold>\<open>Bounds.\<close> Machine words keep their width. Theorems about decimal results state the range in which the
  128 bit value does not wrap. The ring theorems ask for an order between 4 and 60, for the
  ring of pointers between 2 and 59 (below, the code shifts by a negative amount), and for at most 2 ^ 62
  enqueues (the naive ring) or 2 ^ 60 steps (the others), so that the 64 bit positions do not wrap. For the wait-free
  ring, whose positions count in steps of four, they ask for an order from 3 to 56 and at most 2 ^ 57 steps; the
  sequence numbers of requests do not wrap within 2 ^ 63 steps. The two loops that may not end, the wait for the feed hosts and the payload replay, take fuel; the replay
  needs one pass over the rest and one over the file, and without an acceptable line no fuel is enough.

  \<^bold>\<open>Parameters.\<close> Clock readings, the JSON accessors of simdjson, the resolver, the hash of map iteration
  (a permutation of the books), the answers of gRPC and of the HTTP server, and the promises and traits of
  the promise sequences are arguments of the definitions.

  \<^bold>\<open>Not modelled.\<close> The floating point backend DoubleDecimalBase and toDouble; the WebSocket and HTTP
  sessions (Poco) and the gRPC channel, whose answers are events of the models; signal handling and log output below level info; the assertion that a subscriber is callable; an
  exception while a feed answers a ping; a replay file that cannot be opened again; a failure to create the
  thread that waits for the gRPC server; weak memory effects, since the rings are modelled
  over sequentially consistent memory. Of the two scalable
  rings the safety is proved, but not that their threshold lets a dequeue give up only when the ring is
  empty. The safety of the wait-free ring is proved for runs that stay on the fast paths; with the slow paths
  it does not hold of the code as it is.
\<close>

end
